(* ===== verification/Prelude.thy ===== *)
theory Prelude
  imports Main "HOL-Library.Word"
begin

text \<open>
  What every component theory shares: the machine types of the program, its
  error values, and the generic lemmas on lists and words that the component
  proofs rely on.  The host is LP64 and little endian: \<open>unsigned\<close> is 32 bits,
  \<open>unsigned long\<close>, \<open>block_t\<close>, \<open>tuxkey_t\<close> and \<open>inum_t\<close> are 64 bits.
\<close>

unbundle bit_operations_syntax

named_theorems bytes_simps \<comment> \<open>lengths and reads of encoded byte runs\<close>
named_theorems store_simps \<comment> \<open>reads after writes of buffers and tables\<close>

type_synonym u8 = "8 word"
type_synonym u16 = "16 word"
type_synonym u32 = "32 word"
type_synonym u64 = "64 word"

text \<open>
  The error values the modelled functions return (with a minus sign in C).
  \<open>ASSERT\<close> stands for a failed \<open>assert()\<close>, which stops the process
  (\<open>src/trace.h\<close>, \<open>BUG()\<close> in the kernel build), so no code after it runs.  A call of
  \<open>tux3_fs_error()\<close> is followed in the code by an error return, which the models give.
\<close>

datatype errno =
    EIO | ENOMEM | ENOSPC | EINVAL | ENOENT | EEXIST | ENODATA | ERANGE | ENOTEMPTY
  | ASSERT

text \<open>An \<open>int\<close> result of the code: \<open>None\<close> is 0, \<open>Some e\<close> is \<open>-e\<close>.\<close>

type_synonym err = "errno option"

subsection \<open>Lists\<close>

lemma nth_take_drop_append:
  "i < length xs \<Longrightarrow> (take i xs @ y # drop (Suc i) xs) = xs[i := y]"
  by (simp add: upd_conv_take_nth_drop)

lemma drop_Cons_nth: "i < length xs \<Longrightarrow> drop i xs = xs ! i # drop (Suc i) xs"
  by (simp add: Cons_nth_drop_Suc)

lemma sum_list_take_Suc:
  "i < length xs \<Longrightarrow> sum_list (take (Suc i) xs) = sum_list (take i xs) + (xs ! i :: nat)"
  by (simp add: take_Suc_conv_app_nth)

lemma length_concat_uniform:
  "(\<And>x. x \<in> set xs \<Longrightarrow> length x = n) \<Longrightarrow> length (concat xs) = n * length xs"
  by (induction xs) auto

text \<open>A store of the bytes \<open>bs\<close> at offset \<open>off\<close> of a buffer.\<close>

definition splice :: "nat \<Rightarrow> 'a list \<Rightarrow> 'a list \<Rightarrow> 'a list" where
  "splice off bs buf = take off buf @ bs @ drop (off + length bs) buf"

lemma length_splice [simp, store_simps]: "off + length bs \<le> length buf \<Longrightarrow> length (splice off bs buf) = length buf"
  by (simp add: splice_def)

lemma take_splice [store_simps]: "n \<le> off \<Longrightarrow> off \<le> length buf \<Longrightarrow> take n (splice off bs buf) = take n buf"
  by (simp add: splice_def min_def)

lemma drop_splice [store_simps]:
  "off + length bs \<le> n \<Longrightarrow> off + length bs \<le> length buf \<Longrightarrow> drop n (splice off bs buf) = drop n buf"
  by (simp add: splice_def)

lemma splice_at [store_simps]:
  "off + length bs \<le> length buf \<Longrightarrow> take (length bs) (drop off (splice off bs buf)) = bs"
  by (simp add: splice_def)

lemma splice_below [store_simps]:
  "a + n \<le> off \<Longrightarrow> off \<le> length buf \<Longrightarrow> take n (drop a (splice off bs buf)) = take n (drop a buf)"
  by (simp add: splice_def take_drop min_def)

lemma splice_above [store_simps]:
  "off + length bs \<le> a \<Longrightarrow> off + length bs \<le> length buf \<Longrightarrow> take n (drop a (splice off bs buf)) = take n (drop a buf)"
  by (simp add: drop_splice)

lemma splice_extend [store_simps]:
  "a \<le> off \<Longrightarrow> off + length bs \<le> length buf \<Longrightarrow>
   take (off - a + length bs) (drop a (splice off bs buf)) = take (off - a) (drop a buf) @ bs"
  by (simp add: splice_def drop_take)

text \<open>\<open>vecmove(xs + to, xs + from, n)\<close>: a copy as by \<open>memmove\<close>.\<close>

definition vecmove :: "nat \<Rightarrow> nat \<Rightarrow> nat \<Rightarrow> 'a list \<Rightarrow> 'a list" where
  "vecmove to frm n xs = splice to (take n (drop frm xs)) xs"

lemma length_vecmove [simp]: "to + n \<le> length xs \<Longrightarrow> frm + n \<le> length xs \<Longrightarrow> length (vecmove to frm n xs) = length xs"
  by (simp add: vecmove_def)

lemma take_vecmove: "k \<le> to \<Longrightarrow> to \<le> length xs \<Longrightarrow> take k (vecmove to frm n xs) = take k xs"
  by (simp add: vecmove_def take_splice)

lemma nth_splice: "off + length bs \<le> length buf \<Longrightarrow> p < length buf \<Longrightarrow>
    splice off bs buf ! p = (if off \<le> p \<and> p < off + length bs then bs ! (p - off) else buf ! p)"
  by (auto simp: splice_def nth_append min_def)

lemma nth_vecmove: "to + n \<le> length xs \<Longrightarrow> frm + n \<le> length xs \<Longrightarrow> p < length xs \<Longrightarrow>
    vecmove to frm n xs ! p = (if to \<le> p \<and> p < to + n then xs ! (frm + (p - to)) else xs ! p)"
  by (auto simp: vecmove_def nth_splice)

text \<open>A part of what was moved.\<close>

lemma vecmove_part:
  assumes "to + n \<le> length xs" and "frm + n \<le> length xs" and "k + c \<le> n"
  shows "take c (drop (to + k) (vecmove to frm n xs)) = take c (drop (frm + k) xs)"
proof -
  have "drop (to + k) (vecmove to frm n xs) = drop k (take n (drop frm xs)) @ drop (to + n) xs"
    using assms by (simp add: vecmove_def splice_def drop_append)
  then show ?thesis
    using assms by (simp add: drop_take min_def add.commute) arith
qed

subsection \<open>Division by a constant block size\<close>

lemma div_mod_split: "\<exists>q r. (a :: nat) = b * q + r \<and> r < b" if "0 < b"
  using that by (intro exI [of _ "a div b"] exI [of _ "a mod b"]) simp

lemma pos_le_iff:
  assumes "(r :: nat) < b" and "r' < b"
  shows "b * q + r \<le> b * q' + r' \<longleftrightarrow> q < q' \<or> (q = q' \<and> r \<le> r')"
proof -
  consider "q < q'" | "q = q'" | "q' < q" by linarith
  then show ?thesis
  proof cases
    case 1
    then have "b * Suc q \<le> b * q'" by (intro mult_le_mono) simp_all
    with 1 assms show ?thesis by simp
  next
    case 3
    then have "b * Suc q' \<le> b * q" by (intro mult_le_mono) simp_all
    with 3 assms show ?thesis by simp
  qed simp
qed

lemma pos_less_iff:
  assumes "(r :: nat) < b" and "r' < b"
  shows "b * q + r < b * q' + r' \<longleftrightarrow> q < q' \<or> (q = q' \<and> r < r')"
proof -
  have "\<not> b * q' + r' \<le> b * q + r \<longleftrightarrow> \<not> (q' < q \<or> (q' = q \<and> r' \<le> r))"
    by (simp only: pos_le_iff [OF assms(2,1)])
  then show ?thesis by auto
qed

lemma pos_le_div_mod:
  "0 < b \<Longrightarrow> a \<le> i \<longleftrightarrow> a div b < i div b \<or> (a div b = i div b \<and> a mod b \<le> i mod b)" for a i b :: nat
  using pos_le_iff [of "a mod b" b "i mod b" "a div b" "i div b"] by simp

lemma pos_less_div_mod:
  "0 < b \<Longrightarrow> i < a \<longleftrightarrow> i div b < a div b \<or> (i div b = a div b \<and> i mod b < a mod b)" for a i b :: nat
  using pos_less_iff [of "i mod b" b "a mod b" "i div b" "a div b"] by simp

subsection \<open>Fixed-width arithmetic on naturals\<close>

text \<open>
  Sizes, counts and keys whose wrap-around matters are naturals with the modulus
  written out.  \<open>sub64\<close> is unsigned 64-bit subtraction.
\<close>

definition sub64 :: "nat \<Rightarrow> nat \<Rightarrow> nat" where
  "sub64 a b = (a + 2 ^ 64 - b) mod 2 ^ 64"

lemma sub64_eq [simp]: "b \<le> a \<Longrightarrow> a < 2 ^ 64 \<Longrightarrow> sub64 a b = a - b"
  by (simp add: sub64_def) (metis Nat.add_diff_assoc2 mod_add_self2 mod_less less_imp_diff_less)

end
