(* ===== verification/Endian.thy ===== *)
theory Endian
  imports Prelude
begin

text \<open>
  The byte codecs of \<open>src/kernel/tux3.h\<close>: \<open>encode16\<close>, \<open>encode32\<close>, \<open>encode48\<close>,
  \<open>encode64\<close> and their decoders, and the packing of a btree root into one
  64-bit attribute.  A C encoder stores at the pointer \<open>at\<close> and returns the
  advanced pointer; here it returns the bytes it stores, so that a sequence of
  calls is the concatenation of the results.  A decoder takes the bytes from its
  pointer on and returns the value and the bytes that are left; \<open>None\<close> is a
  read past the end of the buffer.
\<close>

section \<open>Big-endian stores and loads\<close>

text \<open>\<open>be_put n v\<close>: the low \<open>n\<close> bytes of \<open>v\<close>, most significant first.\<close>

fun be_put :: "nat \<Rightarrow> 'a::len word \<Rightarrow> u8 list" where
  "be_put 0 v = []"
| "be_put (Suc n) v = ucast (drop_bit (8 * n) v) # be_put n v"

fun be_acc :: "u64 \<Rightarrow> u8 list \<Rightarrow> u64" where
  "be_acc acc [] = acc"
| "be_acc acc (b # bs) = be_acc (push_bit 8 acc OR ucast b) bs"

definition be_get :: "u8 list \<Rightarrow> u64" where
  "be_get bs = be_acc 0 bs"

lemma length_be_put [simp, bytes_simps]: "length (be_put n v) = n"
  by (induction n) simp_all

lemma be_acc_step:
  "push_bit (8 * n) (push_bit 8 acc OR ucast (ucast (drop_bit (8 * n) v) :: u8)) OR take_bit (8 * n) v
   = push_bit (8 * Suc n) acc OR take_bit (8 * Suc n) (v :: u64)"
  by (rule bit_word_eqI) (auto simp: bit_simps not_le less_diff_conv add.commute)

lemma be_acc_put: "be_acc acc (be_put n v) = push_bit (8 * n) acc OR take_bit (8 * n) (v :: u64)"
proof (induction n arbitrary: acc)
  case 0
  then show ?case by simp
next
  case (Suc n)
  then show ?case by (simp only: be_put.simps be_acc.simps be_acc_step)
qed

lemma be_get_put: "be_get (be_put n (v :: u64)) = take_bit (8 * n) v"
  by (simp add: be_get_def be_acc_put)

lemma be_put_ucast32: "n \<le> 4 \<Longrightarrow> be_put n (ucast (v :: u64) :: u32) = be_put n v"
proof (induction n)
  case 0
  then show ?case by simp
next
  case (Suc n)
  have "ucast (drop_bit (8 * n) (ucast v :: u32)) = (ucast (drop_bit (8 * n) v) :: u8)"
    using Suc.prems by (intro bit_word_eqI) (auto simp: bit_simps)
  with Suc show ?case by simp
qed

section \<open>The codecs of the program\<close>

definition encode16 :: "u32 \<Rightarrow> u8 list" where
  "encode16 val = be_put 2 val"

definition encode32 :: "u32 \<Rightarrow> u8 list" where
  "encode32 val = be_put 4 val"

definition encode64 :: "u64 \<Rightarrow> u8 list" where
  "encode64 val = be_put 8 val"

definition encode48 :: "u64 \<Rightarrow> u8 list" where
  "encode48 val = encode16 (ucast (drop_bit 32 val)) @ encode32 (ucast val)"

definition decode16 :: "u8 list \<Rightarrow> (u32 \<times> u8 list) option" where
  "decode16 at = (if 2 \<le> length at then Some (ucast (be_get (take 2 at)), drop 2 at) else None)"

definition decode32 :: "u8 list \<Rightarrow> (u32 \<times> u8 list) option" where
  "decode32 at = (if 4 \<le> length at then Some (ucast (be_get (take 4 at)), drop 4 at) else None)"

definition decode64 :: "u8 list \<Rightarrow> (u64 \<times> u8 list) option" where
  "decode64 at = (if 8 \<le> length at then Some (be_get (take 8 at), drop 8 at) else None)"

definition decode48 :: "u8 list \<Rightarrow> (u64 \<times> u8 list) option" where
  "decode48 at =
     (case decode16 at of None \<Rightarrow> None
      | Some (part1, at') \<Rightarrow>
        (case decode32 at' of None \<Rightarrow> None
         | Some (part2, at'') \<Rightarrow> Some (push_bit 32 (ucast part1) OR ucast part2, at'')))"

lemma length_encode [simp, bytes_simps]:
  "length (encode16 w) = 2" "length (encode32 w) = 4"
  "length (encode48 v) = 6" "length (encode64 v) = 8"
  by (simp_all add: encode16_def encode32_def encode48_def encode64_def)

section \<open>The codec interface\<close>

text \<open>
  What the users of the codecs (log entries, inode attributes) rely on: an encoder
  of fixed width, and a decoder that gives back the value, cut to the bits that the
  width holds, with exactly the bytes that follow it.
\<close>

locale codec =
  fixes enc :: "'v \<Rightarrow> u8 list"
    and dec :: "u8 list \<Rightarrow> ('v \<times> u8 list) option"
    and width :: nat
    and cut :: "'v \<Rightarrow> 'v"
  assumes enc_width: "length (enc v) = width"
    and dec_enc: "dec (enc v @ rest) = Some (cut v, rest)"
    and dec_short: "length bs < width \<Longrightarrow> dec bs = None"
begin

lemma cut_eq_if_enc_eq: "enc v = enc w \<Longrightarrow> cut v = cut w"
  using dec_enc [of v "[]"] dec_enc [of w "[]"] by simp

lemma dec_enc_nil: "dec (enc v) = Some (cut v, [])"
  using dec_enc [of v "[]"] by simp

end

lemma take_bit_eq_ucast: "ucast (ucast (v :: u64) :: 'a::len word) = take_bit LENGTH('a) v"
  by (rule bit_word_eqI) (auto simp: bit_simps)

lemma be_put_ucast64: "n \<le> 4 \<Longrightarrow> be_put n (v :: u32) = be_put n (ucast v :: u64)"
proof (induction n)
  case 0
  then show ?case by simp
next
  case (Suc n)
  have "ucast (drop_bit (8 * n) v) = (ucast (drop_bit (8 * n) (ucast v :: u64)) :: u8)"
    using Suc.prems by (intro bit_word_eqI) (auto simp: bit_simps dest: bit_imp_le_length)
  with Suc show ?case by simp
qed

lemma decode16_encode16 [simp]: "decode16 (encode16 v @ rest) = Some (take_bit 16 v, rest)"
proof -
  have "ucast (take_bit 16 (ucast v :: u64)) = (take_bit 16 v :: u32)"
    by (rule bit_word_eqI) (auto simp: bit_simps)
  then show ?thesis
    by (simp add: decode16_def encode16_def be_put_ucast64 be_get_put)
qed

lemma decode32_encode32 [simp]: "decode32 (encode32 v @ rest) = Some (v, rest)"
proof -
  have "ucast (take_bit 32 (ucast v :: u64)) = (v :: u32)"
    by (rule bit_word_eqI) (auto simp: bit_simps dest: bit_imp_le_length)
  then show ?thesis
    by (simp add: decode32_def encode32_def be_put_ucast64 be_get_put)
qed

lemma decode64_encode64 [simp]: "decode64 (encode64 v @ rest) = Some (v, rest)"
proof -
  have "take_bit 64 v = v" by (rule bit_word_eqI) (auto simp: bit_simps)
  then show ?thesis by (simp add: decode64_def encode64_def be_get_put)
qed

lemma decode48_encode48 [simp]: "decode48 (encode48 v @ rest) = Some (take_bit 48 v, rest)"
proof -
  have "push_bit 32 (ucast (take_bit 16 (ucast (drop_bit 32 v) :: u32))) OR ucast (ucast v :: u32)
        = take_bit 48 v"
    by (rule bit_word_eqI) (auto simp: bit_simps not_le)
  then show ?thesis by (simp add: decode48_def encode48_def)
qed

lemma decode_short:
  "length bs < 2 \<Longrightarrow> decode16 bs = None" "length bs < 4 \<Longrightarrow> decode32 bs = None"
  "length bs < 6 \<Longrightarrow> decode48 bs = None" "length bs < 8 \<Longrightarrow> decode64 bs = None"
  by (auto simp: decode16_def decode32_def decode48_def decode64_def)

lemma decode_len:
  "decode16 bs = Some (v, r) \<Longrightarrow> length r + 2 = length bs" "decode32 bs = Some (w, r) \<Longrightarrow> length r + 4 = length bs"
  by (auto simp: decode16_def decode32_def split: if_splits)

lemma decode48_len: "decode48 bs = Some (v, r) \<Longrightarrow> length r < length bs"
  by (auto simp: decode48_def dest!: decode_len split: option.splits)

interpretation c16: codec encode16 decode16 2 "take_bit 16"
  by unfold_locales (simp_all add: decode_short)

interpretation c32: codec encode32 decode32 4 "\<lambda>v. v"
  by unfold_locales (simp_all add: decode_short)

interpretation c48: codec encode48 decode48 6 "take_bit 48"
  by unfold_locales (simp_all add: decode_short)

interpretation c64: codec encode64 decode64 8 "\<lambda>v. v"
  by unfold_locales (simp_all add: decode_short)

section \<open>Btree roots\<close>

record root =
  depth :: u32
  block :: u64

definition pack_root :: "root \<Rightarrow> u64" where
  "pack_root r = (push_bit 48 (ucast (depth r)) OR block r)"

definition unpack_root :: "u64 \<Rightarrow> root" where
  "unpack_root v = \<lparr> depth = ucast (drop_bit 48 v), block = v AND drop_bit 16 (- 1) \<rparr>"

lemma unpack_pack_root_fields:
  assumes "take_bit 48 (block r) = block r" and "take_bit 16 (depth r) = depth r"
  shows "unpack_root (pack_root r) = r"
proof -
  have b: "n < 48" if "bit (block r) n" for n
    using that by (subst (asm) assms(1) [symmetric]) (simp add: bit_simps)
  have d: "n < 16" if "bit (depth r) n" for n
    using that by (subst (asm) assms(2) [symmetric]) (simp add: bit_simps)
  have "ucast (drop_bit 48 (pack_root r)) = depth r"
    by (rule bit_word_eqI) (auto simp: pack_root_def bit_simps dest: b d)
  moreover have "pack_root r AND drop_bit 16 (- 1) = block r"
    by (rule bit_word_eqI) (auto simp: pack_root_def bit_simps dest: b d)
  ultimately show ?thesis by (simp add: unpack_root_def)
qed

text \<open>A btree root survives the trip through the \<open>DATA_BTREE_ATTR\<close> attribute and the
  superblock: for every block address of the 48-bit address space and every depth below
  \<open>2 ^ 16\<close>, \<open>unpack_root\<close> of the bytes of \<open>pack_root\<close> is the root.\<close>

theorem pack_root_roundtrip:
  assumes "take_bit 48 (block r) = block r" and "take_bit 16 (depth r) = depth r"
  shows "map_option (\<lambda>(v, rest). (unpack_root v, rest)) (decode64 (encode64 (pack_root r) @ rest))
         = Some (r, rest)"
  using unpack_pack_root_fields [OF assms] by simp

theorem pack_root_roundtrip_witness:
  "map_option (\<lambda>(v, rest). (unpack_root v, rest))
     (decode64 (encode64 (pack_root \<lparr>depth = 3, block = 0xABCDEF012345\<rparr>) @ [7]))
   = Some (\<lparr>depth = 3, block = 0xABCDEF012345\<rparr>, [7])"
proof -
  have "take_bit 48 (0xABCDEF012345 :: u64) = 0xABCDEF012345" by simp
  moreover have "take_bit 16 (3 :: u32) = 3" by simp
  ultimately show ?thesis
    by (intro pack_root_roundtrip [of "\<lparr>depth = 3, block = 0xABCDEF012345\<rparr>" "[7]"]) simp_all
qed

end
