(* ===== verification/Link.thy ===== *)
theory Link
  imports Prelude
begin

text \<open>
  Single linked lists of \<open>src/kernel/link.h\<close> in FIFO order: a head points to the tail of a
  circular list, so the first entry is \<open>tail->next\<close>.  Nodes are values of a type
  \<open>'n\<close>; the \<open>next\<close> pointers of all nodes are the store \<open>nxt\<close>, shared by every
  list.  The lemmas show that the pointer updates implement a queue of nodes.
\<close>

section \<open>Operations\<close>

record 'n flink =
  nxt :: "'n \<Rightarrow> 'n"
  tail :: "'n option"

definition init_link_circular :: "'n \<Rightarrow> ('n \<Rightarrow> 'n) \<Rightarrow> 'n \<Rightarrow> 'n" where
  "init_link_circular head n = n(head := head)"

definition link_empty :: "'n \<Rightarrow> ('n \<Rightarrow> 'n) \<Rightarrow> bool" where
  "link_empty head n = (n head = head)"

definition link_add :: "'n \<Rightarrow> 'n \<Rightarrow> ('n \<Rightarrow> 'n) \<Rightarrow> 'n \<Rightarrow> 'n" where
  "link_add node head n = (let n = n(node := n head) in n(head := node))"

definition link_del_next :: "'n \<Rightarrow> ('n \<Rightarrow> 'n) \<Rightarrow> 'n \<Rightarrow> 'n" where
  "link_del_next node n = n(node := n (n node))"

definition init_flink_head :: "'n flink \<Rightarrow> 'n flink" where
  "init_flink_head h = h\<lparr>tail := None\<rparr>"

definition flink_empty :: "'n flink \<Rightarrow> bool" where
  "flink_empty h = (tail h = None)"

text \<open>The next three dereference the tail; \<open>None\<close> is the NULL pointer dereference.\<close>

definition flink_is_last :: "'n flink \<Rightarrow> bool option" where
  "flink_is_last h = map_option (\<lambda>t. link_empty t (nxt h)) (tail h)"

definition flink_next :: "'n flink \<Rightarrow> 'n option" where
  "flink_next h = map_option (nxt h) (tail h)"

definition flink_first_add :: "'n \<Rightarrow> 'n flink \<Rightarrow> 'n flink option" where
  "flink_first_add node h =
     (if \<not> flink_empty h then None
      else Some (h\<lparr>nxt := init_link_circular node (nxt h), tail := Some node\<rparr>))"

definition flink_add :: "'n \<Rightarrow> 'n flink \<Rightarrow> 'n flink option" where
  "flink_add node h =
     map_option (\<lambda>t. h\<lparr>nxt := link_add node t (nxt h), tail := Some node\<rparr>) (tail h)"

definition flink_del_next :: "'n flink \<Rightarrow> 'n flink option" where
  "flink_del_next h = map_option (\<lambda>t. h\<lparr>nxt := link_del_next t (nxt h)\<rparr>) (tail h)"

definition flink_last_del :: "'n flink \<Rightarrow> 'n flink option" where
  "flink_last_del h = (if flink_is_last h = Some True then Some (init_flink_head h) else None)"

section \<open>The queue it represents\<close>

fun path :: "('n \<Rightarrow> 'n) \<Rightarrow> 'n \<Rightarrow> 'n list \<Rightarrow> bool" where
  "path n p [] \<longleftrightarrow> True"
| "path n p (x # xs) \<longleftrightarrow> n p = x \<and> path n x xs"

definition queue_of :: "'n flink \<Rightarrow> 'n list \<Rightarrow> bool" where
  "queue_of h xs \<longleftrightarrow> distinct xs \<and>
     (if xs = [] then tail h = None else tail h = Some (last xs) \<and> path (nxt h) (last xs) xs)"

lemma path_append: "path n p (xs @ ys) \<longleftrightarrow> path n p xs \<and> path n (last (p # xs)) ys"
  by (induction xs arbitrary: p) auto

text \<open>Updating the pointer of a node that the path does not leave from changes nothing.\<close>

lemma path_upd: "y \<notin> set (butlast (p # xs)) \<Longrightarrow> path (n(y := z)) p xs = path n p xs"
  by (induction xs arbitrary: p) (auto split: if_splits)

lemma queue_of_empty: "queue_of h xs \<Longrightarrow> flink_empty h \<longleftrightarrow> xs = []"
  by (auto simp: queue_of_def flink_empty_def split: if_splits)

lemma queue_of_init: "queue_of (init_flink_head h) []"
  by (simp add: queue_of_def init_flink_head_def)

lemma queue_of_next: "queue_of h (x # xs) \<Longrightarrow> flink_next h = Some x"
  by (simp add: queue_of_def flink_next_def)

lemma queue_of_is_last: "queue_of h (x # xs) \<Longrightarrow> flink_is_last h = Some (xs = [])"
  by (auto simp: queue_of_def flink_is_last_def link_empty_def)

lemma queue_of_first_add:
  "queue_of h [] \<Longrightarrow> \<exists>h'. flink_first_add x h = Some h' \<and> queue_of h' [x]"
  by (simp add: queue_of_def flink_first_add_def flink_empty_def init_link_circular_def)

lemma queue_of_add:
  assumes "queue_of h xs" and "xs \<noteq> []" and "x \<notin> set xs"
  shows "\<exists>h'. flink_add x h = Some h' \<and> queue_of h' (xs @ [x])"
proof -
  obtain y ys where xs: "xs = y # ys" using assms(2) by (cases xs) auto
  let ?t = "last xs"
  have p: "tail h = Some ?t" "nxt h ?t = y" "path (nxt h) y ys" "distinct xs"
    using assms(1,2) by (simp_all add: queue_of_def xs)
  let ?n = "link_add x ?t (nxt h)"
  have n: "?n = ((nxt h)(x := y))(?t := x)" by (simp add: link_add_def p(2))
  have "x \<notin> set (butlast (y # ys))" using assms(3) by (auto simp: xs dest: in_set_butlastD)
  moreover have "?t \<notin> set (butlast (y # ys))"
    using p(4) xs by (metis append_butlast_last_id assms(2) distinct_append disjoint_iff list.set_intros(1))
  ultimately have "path ?n y ys" using p(3) by (simp add: n path_upd)
  moreover have "?n x = y" "?n ?t = x" using assms(3) assms(2) n by (auto simp: fun_upd_def)
  ultimately have "path ?n x (xs @ [x])" unfolding xs by (simp add: path_append)
  with p(1,4) assms(3) show ?thesis by (simp add: flink_add_def queue_of_def)
qed

lemma queue_of_del_next:
  assumes "queue_of h (x # y # ys)"
  shows "\<exists>h'. flink_del_next h = Some h' \<and> queue_of h' (y # ys)"
proof -
  let ?t = "last (y # ys)"
  have p: "tail h = Some ?t" "nxt h ?t = x" "nxt h x = y" "path (nxt h) y ys" "distinct (x # y # ys)"
    using assms by (simp_all add: queue_of_def)
  have "?t \<notin> set (butlast (y # ys))"
    using p(5) by (metis append_butlast_last_id distinct.simps(2) distinct_append disjoint_iff list.distinct(1) list.set_intros(1))
  from path_upd [OF this] p(4) have "path ((nxt h)(?t := y)) y ys" by blast
  moreover have "link_del_next ?t (nxt h) = (nxt h)(?t := y)" by (simp only: link_del_next_def p(2,3))
  ultimately have "path (link_del_next ?t (nxt h)) ?t (y # ys)" by (simp del: last.simps)
  with p(1,5) show ?thesis by (simp add: flink_del_next_def queue_of_def)
qed

lemma queue_of_last_del: "queue_of h [x] \<Longrightarrow> \<exists>h'. flink_last_del h = Some h' \<and> queue_of h' []"
  by (simp add: flink_last_del_def queue_of_is_last queue_of_init)

section \<open>Properties\<close>

text \<open>Adding a list of nodes one after the other, as \<open>stash_value\<close> adds pages.\<close>

definition flink_push :: "'n \<Rightarrow> 'n flink \<Rightarrow> 'n flink option" where
  "flink_push x h = (if \<not> flink_empty h then flink_add x h else flink_first_add x h)"

lemma flink_push_ok:
  "queue_of h xs \<Longrightarrow> x \<notin> set xs \<Longrightarrow> \<exists>h'. flink_push x h = Some h' \<and> queue_of h' (xs @ [x])"
  using queue_of_add [of h xs x] queue_of_first_add [of h x]
  by (cases "xs = []") (simp_all add: flink_push_def queue_of_empty)

text \<open>The circular list behaves as a queue: adding a node that is not in the list
  puts it behind all others and unlinking the node after the tail removes the oldest
  one, which \<open>flink_next\<close> returned; neither dereferences NULL.\<close>

theorem flink_fifo:
  assumes "queue_of h (x # xs)" and "z \<notin> set (x # xs)"
  shows "flink_next h = Some x \<and>
    (\<exists>h1 h2. flink_push z h = Some h1 \<and> queue_of h1 (x # xs @ [z]) \<and>
       flink_next h1 = Some x \<and> flink_del_next h1 = Some h2 \<and> queue_of h2 (xs @ [z]))"
proof -
  obtain h1 where h1: "flink_push z h = Some h1" "queue_of h1 (x # xs @ [z])"
    using flink_push_ok [OF assms] by auto
  obtain y ys where y: "xs @ [z] = y # ys" by (cases "xs @ [z]") auto
  then obtain h2 where "flink_del_next h1 = Some h2" "queue_of h2 (xs @ [z])"
    using queue_of_del_next h1(2) by metis
  moreover have "flink_next h = Some x" by (rule queue_of_next [OF assms(1)])
  moreover have "flink_next h1 = Some x" by (rule queue_of_next [OF h1(2)])
  ultimately show ?thesis using h1 by auto
qed

lemma flink_fifo_witness:
  "\<exists>h1 h2. flink_push 5 \<lparr>nxt = (\<lambda>_. 0)(3 := 4, 4 := 3), tail = Some (4 :: nat)\<rparr> = Some h1 \<and>
     flink_del_next h1 = Some h2 \<and> queue_of h2 [4, 5]"
proof -
  have q: "queue_of \<lparr>nxt = (\<lambda>_. 0)(3 := 4, 4 := 3), tail = Some (4 :: nat)\<rparr> [3, 4]"
    by (simp add: queue_of_def)
  from flink_fifo [OF q, of 5] show ?thesis by auto
qed

end
