(* ===== verification/Bitops.thy ===== *)
theory Bitops
  imports Prelude
begin

text \<open>
  The bit searches of \<open>src/libklib\<close>: \<open>__ffs\<close> and \<open>ffz\<close> (\<open>bitops/__ffs.h\<close>,
  \<open>bitops/ffz.h\<close>) and \<open>find_next_bit\<close>, \<open>find_next_zero_bit\<close>
  (\<open>find_next_bit.c\<close>), which the bitmap code uses through the \<open>_le\<close> wrappers of
  \<open>bitops/le.h\<close>; on a little-endian host these are the same functions.
  \<open>addr k\<close> is the \<open>unsigned long\<close> at \<open>addr + k\<close>.  The searches are shown equal to a
  bit-by-bit scan.
\<close>

section \<open>Finding the first set bit of a word\<close>

text \<open>One halving step of \<open>__ffs\<close>: if the low \<open>k\<close> bits are clear, count and drop them.\<close>

definition ffs_step :: "nat \<Rightarrow> u64 \<Rightarrow> nat \<times> u64 \<Rightarrow> nat \<times> u64" where
  "ffs_step k low st =
     (case st of (num, word) \<Rightarrow>
        if word AND low = 0 then (num + k, drop_bit k word) else (num, word))"

definition ffs_word :: "u64 \<Rightarrow> nat" where
  "ffs_word word =
     fst (ffs_step 1 0x1 (ffs_step 2 0x3 (ffs_step 4 0xf (ffs_step 8 0xff
       (ffs_step 16 0xffff (ffs_step 32 0xffffffff (0, word)))))))"

definition ffz :: "u64 \<Rightarrow> nat" where
  "ffz x = ffs_word (NOT x)"

text \<open>\<open>n\<close> is the lowest set bit of \<open>w\<close>.\<close>

definition lowest :: "u64 \<Rightarrow> nat \<Rightarrow> bool" where
  "lowest w n \<longleftrightarrow> bit w n \<and> (\<forall>i<n. \<not> bit w i)"

lemma lowest_exists: "w \<noteq> 0 \<Longrightarrow> \<exists>n<64. lowest w n"
proof -
  assume "w \<noteq> 0"
  then obtain i where "bit w i" by (auto simp: bit_eq_iff)
  then have "lowest w (LEAST i. bit w i)"
    by (auto simp: lowest_def intro: LeastI dest: not_less_Least)
  moreover from this have "(LEAST i. bit w i) < 64"
    by (auto simp: lowest_def dest: bit_imp_le_length)
  ultimately show ?thesis by blast
qed

lemma lowest_unique: "lowest w m \<Longrightarrow> lowest w n \<Longrightarrow> m = n"
  unfolding lowest_def by (metis linorder_neqE_nat)

lemma ffs_step_lowest:
  assumes "lowest w n" and "n < 2 * k" and "low = mask k"
  shows "\<exists>n' num' w'. ffs_step k low (num, w) = (num', w') \<and> lowest w' n' \<and> n' < k
           \<and> num' + n' = num + n"
proof (cases "w AND low = 0")
  case True
  then have "take_bit k w = 0" by (simp add: assms(3) take_bit_eq_mask)
  then have clear: "\<not> bit w i" if "i < k" for i
    using that by (metis bit_take_bit_iff bit_0_eq bot_apply bot_bool_def)
  then have "k \<le> n" using assms(1) unfolding lowest_def by (meson not_le)
  moreover have "lowest (drop_bit k w) (n - k)"
    using assms(1) \<open>k \<le> n\<close> by (auto simp: lowest_def bit_drop_bit_eq)
  ultimately show ?thesis
    using True assms(2) by (intro exI [of _ "n - k"] exI [of _ "num + k"] exI [of _ "drop_bit k w"]) (auto simp: ffs_step_def)
next
  case False
  then have "take_bit k w \<noteq> 0" by (simp add: assms(3) take_bit_eq_mask)
  then obtain i where "i < k" "bit w i" by (auto simp: bit_eq_iff bit_take_bit_iff)
  then have "n < k" using assms(1) unfolding lowest_def by (metis not_le order.strict_trans1)
  with False assms(1) show ?thesis by (auto simp: ffs_step_def)
qed

lemma ffs_word_lowest:
  assumes "w \<noteq> 0"
  shows "lowest w (ffs_word w)"
proof -
  have low: "0x1 = (mask 1 :: u64)" "0x3 = (mask 2 :: u64)" "0xf = (mask 4 :: u64)"
    "0xff = (mask 8 :: u64)" "0xffff = (mask 16 :: u64)" "0xffffffff = (mask 32 :: u64)"
    by (simp_all add: mask_eq_exp_minus_1)
  obtain n where n: "n < 64" "lowest w n" using lowest_exists [OF assms] by blast
  obtain n1 c1 w1 where 1: "ffs_step 32 0xffffffff (0, w) = (c1, w1)" "lowest w1 n1" "n1 < 32" "c1 + n1 = n"
    using ffs_step_lowest [of w n 32 "0xffffffff" 0] n low by auto
  obtain n2 c2 w2 where 2: "ffs_step 16 0xffff (c1, w1) = (c2, w2)" "lowest w2 n2" "n2 < 16" "c2 + n2 = n"
    using ffs_step_lowest [of w1 n1 16 "0xffff" c1] 1 low by auto
  obtain n3 c3 w3 where 3: "ffs_step 8 0xff (c2, w2) = (c3, w3)" "lowest w3 n3" "n3 < 8" "c3 + n3 = n"
    using ffs_step_lowest [of w2 n2 8 "0xff" c2] 2 low by auto
  obtain n4 c4 w4 where 4: "ffs_step 4 0xf (c3, w3) = (c4, w4)" "lowest w4 n4" "n4 < 4" "c4 + n4 = n"
    using ffs_step_lowest [of w3 n3 4 "0xf" c3] 3 low by auto
  obtain n5 c5 w5 where 5: "ffs_step 2 0x3 (c4, w4) = (c5, w5)" "lowest w5 n5" "n5 < 2" "c5 + n5 = n"
    using ffs_step_lowest [of w4 n4 2 "0x3" c4] 4 low by auto
  obtain n6 c6 w6 where 6: "ffs_step 1 0x1 (c5, w5) = (c6, w6)" "n6 < 1" "c6 + n6 = n"
    using ffs_step_lowest [of w5 n5 1 "0x1" c5] 5 low by auto
  have "ffs_word w = n"
    using 6 unfolding ffs_word_def 1(1) 2(1) 3(1) 4(1) 5(1) by simp
  with n show ?thesis by simp
qed

lemma ffs_word_less: "w \<noteq> 0 \<Longrightarrow> ffs_word w < 64"
  using ffs_word_lowest [of w] by (auto simp: lowest_def dest: bit_imp_le_length)

section \<open>Searching an array of words\<close>

definition BITOP_WORD :: "nat \<Rightarrow> nat" where
  "BITOP_WORD nr = nr div 64"

text \<open>The code after \<open>found_first\<close>: the last word, of which only \<open>siz\<close> bits count.\<close>

definition found_first_bit :: "nat \<Rightarrow> nat \<Rightarrow> u64 \<Rightarrow> nat" where
  "found_first_bit result siz tmp =
     (let tmp = tmp AND drop_bit (64 - siz) (- 1)
      in if tmp = 0 then result + siz else result + ffs_word tmp)"

function find_next_bit_words :: "(nat \<Rightarrow> u64) \<Rightarrow> nat \<Rightarrow> nat \<Rightarrow> nat \<Rightarrow> nat" where
  "find_next_bit_words addr p siz result =
     (if 64 \<le> siz
      then (if addr p \<noteq> 0 then result + ffs_word (addr p)
            else find_next_bit_words addr (Suc p) (siz - 64) (result + 64))
      else if siz = 0 then result
      else found_first_bit result siz (addr p))"
  by pat_completeness auto
termination
  by (relation "measure (\<lambda>(addr, p, siz, result). siz)") auto

declare find_next_bit_words.simps [simp del]

definition find_next_bit :: "(nat \<Rightarrow> u64) \<Rightarrow> nat \<Rightarrow> nat \<Rightarrow> nat" where
  "find_next_bit addr siz offset =
     (if siz \<le> offset then siz
      else let p = BITOP_WORD offset; result = offset - offset mod 64;
               siz = siz - result; offset = offset mod 64
           in if offset \<noteq> 0
              then let tmp = addr p AND push_bit offset (- 1)
                   in if siz < 64 then found_first_bit result siz tmp
                      else if tmp \<noteq> 0 then result + ffs_word tmp
                      else find_next_bit_words addr (Suc p) (siz - 64) (result + 64)
              else find_next_bit_words addr p siz result)"

definition found_first_zero :: "nat \<Rightarrow> nat \<Rightarrow> u64 \<Rightarrow> nat" where
  "found_first_zero result siz tmp =
     (let tmp = tmp OR push_bit siz (- 1)
      in if tmp = - 1 then result + siz else result + ffz tmp)"

function find_next_zero_words :: "(nat \<Rightarrow> u64) \<Rightarrow> nat \<Rightarrow> nat \<Rightarrow> nat \<Rightarrow> nat" where
  "find_next_zero_words addr p siz result =
     (if 64 \<le> siz
      then (if NOT (addr p) \<noteq> 0 then result + ffz (addr p)
            else find_next_zero_words addr (Suc p) (siz - 64) (result + 64))
      else if siz = 0 then result
      else found_first_zero result siz (addr p))"
  by pat_completeness auto
termination
  by (relation "measure (\<lambda>(addr, p, siz, result). siz)") auto

declare find_next_zero_words.simps [simp del]

definition find_next_zero_bit :: "(nat \<Rightarrow> u64) \<Rightarrow> nat \<Rightarrow> nat \<Rightarrow> nat" where
  "find_next_zero_bit addr siz offset =
     (if siz \<le> offset then siz
      else let p = BITOP_WORD offset; result = offset - offset mod 64;
               siz = siz - result; offset = offset mod 64
           in if offset \<noteq> 0
              then let tmp = addr p OR drop_bit (64 - offset) (- 1)
                   in if siz < 64 then found_first_zero result siz tmp
                      else if NOT tmp \<noteq> 0 then result + ffz tmp
                      else find_next_zero_words addr (Suc p) (siz - 64) (result + 64)
              else find_next_zero_words addr p siz result)"

section \<open>The scan they implement\<close>

text \<open>The first index in \<open>[lo, hi)\<close> that satisfies \<open>P\<close>, and \<open>hi\<close> if there is none.\<close>

function scan :: "(nat \<Rightarrow> bool) \<Rightarrow> nat \<Rightarrow> nat \<Rightarrow> nat" where
  "scan P lo hi = (if hi \<le> lo then hi else if P lo then lo else scan P (Suc lo) hi)"
  by pat_completeness auto
termination
  by (relation "measure (\<lambda>(P, lo, hi). hi - lo)") auto

declare scan.simps [simp del]

text \<open>What characterises the result of a scan.\<close>

definition first_from :: "(nat \<Rightarrow> bool) \<Rightarrow> nat \<Rightarrow> nat \<Rightarrow> nat \<Rightarrow> bool" where
  "first_from P lo hi r \<longleftrightarrow> lo \<le> r \<and> r \<le> hi \<and> (\<forall>i. lo \<le> i \<and> i < r \<longrightarrow> \<not> P i) \<and> (r < hi \<longrightarrow> P r)"

lemma scan_first: "lo \<le> hi \<Longrightarrow> first_from P lo hi (scan P lo hi)"
proof (induction P lo hi rule: scan.induct)
  case (1 P lo hi)
  show ?case
  proof (cases "lo < hi \<and> \<not> P lo")
    case True
    with "1.IH" have "first_from P (Suc lo) hi (scan P (Suc lo) hi)" by simp
    with True show ?thesis
      by (auto simp: scan.simps [of P lo hi] first_from_def Suc_le_eq) (metis le_neq_implies_less)+
  next
    case False
    with "1.prems" show ?thesis by (auto simp: scan.simps [of P lo hi] first_from_def)
  qed
qed

lemma first_from_unique: "first_from P lo hi r \<Longrightarrow> first_from P lo hi r' \<Longrightarrow> r = r'"
  unfolding first_from_def by (metis linorder_neqE_nat order.strict_trans2)

lemma scan_eqI: "first_from P lo hi r \<Longrightarrow> scan P lo hi = r"
  by (rule first_from_unique [OF scan_first]) (auto simp: first_from_def)

lemma scan_eq_hi: "lo \<le> hi \<Longrightarrow> scan P lo hi = hi \<longleftrightarrow> (\<forall>i. lo \<le> i \<and> i < hi \<longrightarrow> \<not> P i)"
  using scan_first [of lo hi P] by (auto simp: first_from_def intro: scan_eqI)

definition bit_at :: "(nat \<Rightarrow> u64) \<Rightarrow> nat \<Rightarrow> bool" where
  "bit_at addr i = bit (addr (i div 64)) (i mod 64)"

lemma bit_at_word: "i < 64 \<Longrightarrow> bit_at addr (64 * p + i) = bit (addr p) i"
  by (simp add: bit_at_def)

lemma word_index: "64 * p \<le> i \<Longrightarrow> i < 64 * p + 64 \<Longrightarrow> \<exists>j<64. i = 64 * p + j" for i :: nat
  by (rule exI [of _ "i - 64 * p"]) auto

text \<open>One word: the lowest set bit of the word cut to \<open>[off, siz)\<close> is the scan's result there.\<close>

lemma first_from_word:
  assumes t: "\<And>i. i < 64 \<Longrightarrow> bit tmp i \<longleftrightarrow> bit (addr p) i \<and> off \<le> i \<and> i < siz"
    and "siz \<le> 64" and "off < siz" and "64 * p + siz \<le> hi"
  shows "tmp \<noteq> 0 \<Longrightarrow> first_from (bit_at addr) (64 * p + off) hi (64 * p + ffs_word tmp)"
    and "tmp = 0 \<Longrightarrow> \<forall>i. 64 * p + off \<le> i \<and> i < 64 * p + siz \<longrightarrow> \<not> bit_at addr i"
proof -
  assume nz: "tmp \<noteq> 0"
  define r where "r = ffs_word tmp"
  have low: "bit tmp r" "\<forall>i<r. \<not> bit tmp i" and r64: "r < 64"
    using ffs_word_lowest [OF nz] ffs_word_less [OF nz] by (auto simp: lowest_def r_def)
  have rb: "bit (addr p) r" "off \<le> r" "r < siz" using t [OF r64] low by auto
  have "\<not> bit_at addr i" if "64 * p + off \<le> i" "i < 64 * p + r" for i
  proof -
    from that r64 obtain j where j: "j < 64" "i = 64 * p + j"
      using word_index [of p i] by auto
    with that have "\<not> bit tmp j" using low by auto
    with t [OF j(1)] that j rb have "\<not> bit (addr p) j" by auto
    with j show ?thesis by (simp add: bit_at_word)
  qed
  with rb r64 assms show "first_from (bit_at addr) (64 * p + off) hi (64 * p + ffs_word tmp)"
    by (auto simp: first_from_def bit_at_word r_def)
next
  assume z: "tmp = 0"
  show "\<forall>i. 64 * p + off \<le> i \<and> i < 64 * p + siz \<longrightarrow> \<not> bit_at addr i"
  proof (intro allI impI)
    fix i assume i: "64 * p + off \<le> i \<and> i < 64 * p + siz"
    then obtain j where j: "j < 64" "i = 64 * p + j"
      using word_index [of p i] assms(2) by auto
    with i t [OF j(1)] z have "\<not> bit (addr p) j" by auto
    with j show "\<not> bit_at addr i" by (simp add: bit_at_word)
  qed
qed

lemma first_from_skip:
  assumes "\<forall>i. lo \<le> i \<and> i < mid \<longrightarrow> \<not> P i" and "lo \<le> mid" and "first_from P mid hi r"
  shows "first_from P lo hi r"
  using assms unfolding first_from_def by (meson not_le order_trans)

lemma found_first_bit_first:
  assumes t: "\<And>i. i < 64 \<Longrightarrow> bit tmp i \<longleftrightarrow> bit (addr p) i \<and> off \<le> i"
    and "siz < 64" and "off < siz"
  shows "first_from (bit_at addr) (64 * p + off) (64 * p + siz) (found_first_bit (64 * p) siz tmp)"
proof -
  let ?t = "tmp AND drop_bit (64 - siz) (- 1)"
  have tt: "\<And>i. i < 64 \<Longrightarrow> bit ?t i \<longleftrightarrow> bit (addr p) i \<and> off \<le> i \<and> i < siz"
    using t assms(2) by (auto simp: bit_simps)
  note w = first_from_word [where tmp = ?t and addr = addr and p = p and off = off and siz = siz
      and hi = "64 * p + siz", OF tt]
  show ?thesis
  proof (cases "?t = 0")
    case True
    with w(2) assms have "\<forall>i. 64 * p + off \<le> i \<and> i < 64 * p + siz \<longrightarrow> \<not> bit_at addr i" by simp
    with True assms show ?thesis by (simp add: found_first_bit_def first_from_def)
  next
    case False
    with w(1) assms show ?thesis by (simp add: found_first_bit_def)
  qed
qed

lemma find_next_bit_words_first:
  "result = 64 * p \<Longrightarrow>
   first_from (bit_at addr) (64 * p) (64 * p + siz) (find_next_bit_words addr p siz result)"
proof (induction addr p siz result rule: find_next_bit_words.induct)
  case (1 addr p siz result)
  note w = first_from_word [where tmp = "addr p" and addr = addr and p = p and off = 0 and siz = 64
      and hi = "64 * p + siz", simplified]
  consider (hit) "64 \<le> siz" "addr p \<noteq> 0" | (next_word) "64 \<le> siz" "addr p = 0"
    | (last) "0 < siz" "siz < 64" | (none) "siz = 0" by linarith
  then show ?case
  proof cases
    case hit
    with w(1) "1.prems" show ?thesis by (simp add: find_next_bit_words.simps [of addr p siz])
  next
    case next_word
    have "first_from (bit_at addr) (64 * Suc p) (64 * Suc p + (siz - 64))
            (find_next_bit_words addr (Suc p) (siz - 64) (result + 64))"
      using "1.IH" next_word "1.prems" by simp
    moreover have "64 * Suc p + (siz - 64) = 64 * p + siz" using next_word by simp
    ultimately have "first_from (bit_at addr) (64 * p + 64) (64 * p + siz)
        (find_next_bit_words addr (Suc p) (siz - 64) (result + 64))" by (simp add: add.commute)
    with w(2) next_word have "first_from (bit_at addr) (64 * p) (64 * p + siz)
        (find_next_bit_words addr (Suc p) (siz - 64) (result + 64))"
      by (intro first_from_skip [of "64 * p" "64 * p + 64"]) auto
    with next_word show ?thesis by (simp add: find_next_bit_words.simps [of addr p siz])
  next
    case last
    with found_first_bit_first [of "addr p" addr p 0 siz] "1.prems" show ?thesis
      by (simp add: find_next_bit_words.simps [of addr p siz])
  next
    case none
    with "1.prems" show ?thesis
      by (auto simp: find_next_bit_words.simps [of addr p 0] first_from_def)
  qed
qed

lemma find_next_bit_scan: "find_next_bit addr siz offset = scan (bit_at addr) offset siz"
proof (cases "offset < siz")
  case False
  then show ?thesis by (simp add: find_next_bit_def scan.simps)
next
  case lt: True
  define p off where "p = offset div 64" and "off = offset mod 64"
  have off: "off < 64" and offset: "offset = 64 * p + off" by (simp_all add: p_def off_def)
  define sz where "sz = siz - 64 * p"
  have siz: "siz = 64 * p + sz" and osz: "off < sz"
    using lt offset by (auto simp: sz_def)
  let ?tmp = "addr p AND push_bit off (- 1)"
  have t: "\<And>i. i < 64 \<Longrightarrow> bit ?tmp i \<longleftrightarrow> bit (addr p) i \<and> off \<le> i"
    by (auto simp: bit_simps)
  have res: "offset - offset mod 64 = 64 * p" using offset off_def by linarith
  have fnb: "find_next_bit addr siz offset =
      (if off \<noteq> 0 then if sz < 64 then found_first_bit (64 * p) sz ?tmp
         else if ?tmp \<noteq> 0 then 64 * p + ffs_word ?tmp
         else find_next_bit_words addr (Suc p) (sz - 64) (64 * p + 64)
       else find_next_bit_words addr p sz (64 * p))"
    using lt unfolding find_next_bit_def Let_def BITOP_WORD_def res sz_def [symmetric]
    by (simp add: p_def off_def)
  have "first_from (bit_at addr) offset siz (find_next_bit addr siz offset)"
  proof -
    consider (aligned) "off = 0" | (only) "off \<noteq> 0" "sz < 64" | (mid) "off \<noteq> 0" "64 \<le> sz" by linarith
    then show ?thesis
    proof cases
      case aligned
      then show ?thesis unfolding fnb
        using find_next_bit_words_first [of "64 * p" p addr sz] by (simp add: offset siz)
    next
      case only
      then show ?thesis unfolding fnb
        using found_first_bit_first [of ?tmp addr p off sz] t osz by (simp add: offset siz)
    next
      case mid
      note w = first_from_word [where tmp = ?tmp and addr = addr and p = p and off = off and siz = 64
          and hi = "64 * p + sz"]
      have clear: "\<forall>i. 64 * p + off \<le> i \<and> i < 64 * p + 64 \<longrightarrow> \<not> bit_at addr i" if "?tmp = 0"
        using w(2) t off mid that by simp
      have hit: "first_from (bit_at addr) (64 * p + off) (64 * p + sz) (64 * p + ffs_word ?tmp)" if "?tmp \<noteq> 0"
        using w(1) t off mid that by simp
      have nxt: "first_from (bit_at addr) (64 * p + 64) (64 * p + sz)
                   (find_next_bit_words addr (Suc p) (sz - 64) (64 * p + 64))"
        using find_next_bit_words_first [of "64 * p + 64" "Suc p" addr "sz - 64"] mid
        by (simp add: add.commute)
      have "first_from (bit_at addr) (64 * p + off) (64 * p + sz)
              (find_next_bit_words addr (Suc p) (sz - 64) (64 * p + 64))" if "?tmp = 0"
        by (rule first_from_skip [OF clear _ nxt]) (use that off in auto)
      with mid hit off show ?thesis unfolding fnb by (simp add: offset siz)
    qed
  qed
  then show ?thesis using scan_eqI by metis
qed

text \<open>The search for a clear bit is the search for a set bit in the complement.\<close>

lemma not_eq_0_iff: "NOT (w :: u64) = 0 \<longleftrightarrow> w = - 1"
  by (metis bit.compl_zero bit.double_compl)

lemma found_first_zero_compl:
  "siz < 64 \<Longrightarrow> found_first_zero result siz tmp = found_first_bit result siz (NOT tmp)"
proof -
  assume "siz < 64"
  then have "NOT (tmp OR push_bit siz (- 1)) = NOT tmp AND drop_bit (64 - siz) (- 1 :: u64)"
    by (intro bit_word_eqI) (auto simp: bit_simps)
  then show ?thesis
    by (simp add: found_first_zero_def found_first_bit_def Let_def ffz_def flip: not_eq_0_iff)
qed

lemma find_next_zero_words_compl:
  "find_next_zero_words addr p siz result = find_next_bit_words (\<lambda>k. NOT (addr k)) p siz result"
proof (induction addr p siz result rule: find_next_zero_words.induct)
  case (1 addr p siz result)
  then show ?case
    by (simp add: find_next_zero_words.simps [of addr p siz] find_next_bit_words.simps [of _ p siz]
        ffz_def found_first_zero_compl)
qed

lemma find_next_zero_bit_compl: "find_next_zero_bit addr siz offset = find_next_bit (\<lambda>k. NOT (addr k)) siz offset"
proof -
  have m: "NOT (w OR drop_bit (64 - off) (- 1)) = NOT w AND push_bit off (- 1 :: u64)"
    if "0 < off" "off < 64" for w off
    using that by (intro bit_word_eqI) (auto simp: bit_simps)
  have "NOT (addr (offset div 64) OR drop_bit (64 - offset mod 64) (- 1))
        = NOT (addr (offset div 64)) AND push_bit (offset mod 64) (- 1)" if "offset mod 64 \<noteq> 0"
    using that by (intro m) auto
  then show ?thesis
    by (simp add: find_next_zero_bit_def find_next_bit_def Let_def BITOP_WORD_def
        found_first_zero_compl find_next_zero_words_compl ffz_def)
qed

lemma find_next_zero_bit_scan:
  "find_next_zero_bit addr siz offset = scan (\<lambda>i. \<not> bit_at addr i) offset siz"
proof -
  have "bit_at (\<lambda>k. NOT (addr k)) = (\<lambda>i. \<not> bit_at addr i)"
    by (simp add: fun_eq_iff bit_at_def bit_not_iff)
  then show ?thesis by (simp add: find_next_zero_bit_compl find_next_bit_scan)
qed

section \<open>Properties\<close>

text \<open>The word-wise searches return what a bit-by-bit scan from \<open>offset\<close> to \<open>siz\<close>
  returns, for every alignment of both ends: the first set (clear) bit, or \<open>siz\<close>.\<close>

theorem find_next_bits_scan:
  "find_next_bit addr siz offset = scan (bit_at addr) offset siz \<and>
   find_next_zero_bit addr siz offset = scan (\<lambda>i. \<not> bit_at addr i) offset siz"
  by (simp add: find_next_bit_scan find_next_zero_bit_scan)

end
