(* ===== verification/Bitmap.thy ===== *)
theory Bitmap
  imports Bitops
begin

text \<open>
  The bitmap operations of \<open>src/kernel/utility.c\<close> on the bytes of a bitmap block:
  \<open>set_bits\<close>, \<open>clear_bits\<close>, \<open>all_set\<close>, \<open>all_clear\<close>, \<open>bytebits\<close>.  A bitmap is the
  list of its bytes; \<open>bmap bm i\<close> is bit \<open>i\<close> of it, and every operation is shown to do
  on the bits what its name says.  The searches read the bitmap as an array of
  \<open>unsigned long\<close> (little endian), \<open>long_at\<close>.
\<close>

section \<open>Bits of a byte array\<close>

definition bmap :: "u8 list \<Rightarrow> nat \<Rightarrow> bool" where
  "bmap bm i \<longleftrightarrow> i div 8 < length bm \<and> bit (bm ! (i div 8)) (i mod 8)"

fun le_get :: "u8 list \<Rightarrow> u64" where
  "le_get [] = 0"
| "le_get (b # bs) = ucast b OR push_bit 8 (le_get bs)"

text \<open>The \<open>unsigned long\<close> at index \<open>k\<close>; the code asks for a bitmap that is an array of them.\<close>

definition long_at :: "u8 list \<Rightarrow> nat \<Rightarrow> u64" where
  "long_at bm k = le_get (take 8 (drop (8 * k) bm))"

lemma bit_le_get:
  "bit (le_get bs) i \<longleftrightarrow> i < 64 \<and> i div 8 < length bs \<and> bit (bs ! (i div 8)) (i mod 8)"
proof (induction bs arbitrary: i)
  case Nil
  then show ?case by simp
next
  case (Cons b bs)
  show ?case
  proof (cases "i < 8")
    case True
    then show ?thesis by (simp add: bit_simps)
  next
    case False
    then obtain j where j: "i = j + 8" by (metis add.commute le_Suc_ex not_le)
    then have "i div 8 = Suc (j div 8)" "i mod 8 = j mod 8" by simp_all
    moreover have "bit (ucast b :: u64) i = False"
      using False by (auto simp: bit_simps dest: bit_imp_le_length)
    ultimately show ?thesis using Cons.IH [of j] j by (auto simp: bit_simps)
  qed
qed

lemma bit_at_long: "bit_at (long_at bm) i = bmap bm i"
proof -
  obtain q r where i: "i = 64 * q + r" "r < 64" using div_mod_split [of 64 i] by auto
  obtain j m where r: "r = 8 * j + m" "m < 8" using div_mod_split [of 8 r] by auto
  have ij: "i = 8 * (8 * q + j) + m" and j: "j < 8" using i r by simp_all
  have d8: "i div 8 = 8 * q + j" "i mod 8 = m"
    using r(2) unfolding ij by (simp_all only: div_mult_self4 mod_mult_self4 mod_less div_less)
  have d: "i div 64 = q" "i mod 64 = r" "r div 8 = j" "r mod 8 = m"
    using r(2) i(2) ij unfolding i(1) by (simp_all add: r(1))
  have "drop (8 * q) bm ! j = bm ! (8 * q + j)" if "8 * q + j < length bm"
    using that by (simp add: add.commute)
  then show ?thesis using j i(2) unfolding bit_at_def long_at_def bit_le_get bmap_def d d8
    by (cases "8 * q + j < length bm") auto
qed

section \<open>Setting and clearing ranges\<close>

text \<open>\<open>memset(bm + from, v, n)\<close>\<close>

definition bm_fill :: "u8 list \<Rightarrow> nat \<Rightarrow> nat \<Rightarrow> u8 \<Rightarrow> u8 list" where
  "bm_fill bm from n v =
     map (\<lambda>i. if from \<le> i \<and> i < from + n then v else bm ! i) [0..<length bm]"

definition set_bits :: "u8 list \<Rightarrow> nat \<Rightarrow> nat \<Rightarrow> u8 list" where
  "set_bits bitmap start count =
     (let limit = start + count;
          lmask = push_bit (start mod 8) (- 1);
          rmask = NOT (push_bit (limit mod 8) (- 1));
          loff = start div 8; roff = limit div 8
      in if loff = roff then bitmap[loff := bitmap ! loff OR (lmask AND rmask)]
         else let bitmap = bitmap[loff := bitmap ! loff OR lmask];
                  bitmap = bm_fill bitmap (loff + 1) (roff - loff - 1) (- 1)
              in if rmask \<noteq> 0 then bitmap[roff := bitmap ! roff OR rmask] else bitmap)"

definition clear_bits :: "u8 list \<Rightarrow> nat \<Rightarrow> nat \<Rightarrow> u8 list" where
  "clear_bits bitmap start count =
     (let limit = start + count;
          lmask = push_bit (start mod 8) (- 1);
          rmask = NOT (push_bit (limit mod 8) (- 1));
          loff = start div 8; roff = limit div 8
      in if loff = roff then bitmap[loff := bitmap ! loff AND (NOT lmask OR NOT rmask)]
         else let bitmap = bitmap[loff := bitmap ! loff AND NOT lmask];
                  bitmap = bm_fill bitmap (loff + 1) (roff - loff - 1) 0
              in if rmask \<noteq> 0 then bitmap[roff := bitmap ! roff AND NOT rmask] else bitmap)"

definition all_set :: "u8 list \<Rightarrow> nat \<Rightarrow> nat \<Rightarrow> bool" where
  "all_set bitmap start count =
     (let limit = start + count in find_next_zero_bit (long_at bitmap) limit start = limit)"

definition all_clear :: "u8 list \<Rightarrow> nat \<Rightarrow> nat \<Rightarrow> bool" where
  "all_clear bitmap start count =
     (let limit = start + count in find_next_bit (long_at bitmap) limit start = limit)"

function bytebits_loop :: "u8 \<Rightarrow> nat \<Rightarrow> nat" where
  "bytebits_loop c count =
     (if c \<noteq> 0 then bytebits_loop (drop_bit 1 c) (count + unat (c AND 1)) else count)"
  by pat_completeness auto
termination
proof (relation "measure (\<lambda>(c, count). unat c)", goal_cases)
  case (2 c count)
  then have "0 < unat c" by (simp add: unat_gt_0)
  then have "unat c div 2 < unat c" by simp
  then show ?case by (simp add: drop_bit_eq_div unat_div)
qed simp

declare bytebits_loop.simps [simp del]

definition bytebits :: "u8 \<Rightarrow> nat" where
  "bytebits c = bytebits_loop c 0"

lemma length_bm_fill [simp]: "length (bm_fill bm from n v) = length bm"
  by (simp add: bm_fill_def)

lemma nth_bm_fill [simp]:
  "i < length bm \<Longrightarrow> bm_fill bm from n v ! i = (if from \<le> i \<and> i < from + n then v else bm ! i)"
  by (simp add: bm_fill_def)

lemma length_set_bits [simp]: "length (set_bits bm s n) = length bm"
  by (simp add: set_bits_def Let_def)

lemma length_clear_bits [simp]: "length (clear_bits bm s n) = length bm"
  by (simp add: clear_bits_def Let_def)

text \<open>Both routines are one update of the bytes between the two offsets.\<close>

lemma low_mask_zero: "j < 8 \<Longrightarrow> NOT (push_bit j (- 1)) = (0 :: u8) \<longleftrightarrow> j = 0"
proof -
  assume "j < 8"
  then have "bit (NOT (push_bit j (- 1)) :: u8) 0 \<longleftrightarrow> 0 < j" by (auto simp: bit_simps)
  moreover have "NOT (push_bit 0 (- 1)) = (0 :: u8)" by simp
  ultimately show ?thesis by (metis bit_0_eq bot_apply bot_bool_def gr_zeroI)
qed

lemma bit_masks8:
  "j < 8 \<Longrightarrow> bit (push_bit s (- 1) :: u8) j \<longleftrightarrow> s \<le> j"
  "j < 8 \<Longrightarrow> bit (NOT (push_bit s (- 1)) :: u8) j \<longleftrightarrow> j < s"
  by (auto simp: bit_simps)

text \<open>What the two routines leave in byte \<open>k\<close>, for masks \<open>lm\<close> and \<open>rm\<close>.\<close>

lemma set_bits_byte:
  assumes "k < length bm"
  shows "set_bits bm s n ! k =
    (if k < s div 8 \<or> (s + n) div 8 < k then bm ! k
     else (if s div 8 < k \<and> k < (s + n) div 8 then - 1
           else bm ! k OR ((if k = s div 8 then push_bit (s mod 8) (- 1) else - 1)
                           AND (if k = (s + n) div 8 then NOT (push_bit ((s + n) mod 8) (- 1)) else - 1))))"
proof -
  have le: "s div 8 \<le> (s + n) div 8" by (simp add: div_le_mono)
  define l r lm rm where "l = s div 8" and "r = (s + n) div 8"
    and "lm = (push_bit (s mod 8) (- 1) :: u8)" and "rm = (NOT (push_bit ((s + n) mod 8) (- 1)) :: u8)"
  have "set_bits bm s n = (if l = r then bm[l := bm ! l OR (lm AND rm)]
         else let bm = bm[l := bm ! l OR lm]; bm = bm_fill bm (l + 1) (r - l - 1) (- 1)
              in if rm \<noteq> 0 then bm[r := bm ! r OR rm] else bm)"
    by (simp only: set_bits_def Let_def l_def r_def lm_def rm_def)
  moreover have "l \<le> r" using le by (simp only: l_def r_def)
  ultimately show ?thesis
    using assms unfolding l_def [symmetric] r_def [symmetric] lm_def [symmetric] rm_def [symmetric]
    by (cases k l rule: linorder_cases; cases k r rule: linorder_cases)
      (simp_all add: Let_def nth_list_update)
qed

lemma clear_bits_byte:
  assumes "k < length bm"
  shows "clear_bits bm s n ! k =
    (if k < s div 8 \<or> (s + n) div 8 < k then bm ! k
     else (if s div 8 < k \<and> k < (s + n) div 8 then 0
           else bm ! k AND (NOT (if k = s div 8 then push_bit (s mod 8) (- 1) else - 1)
                           OR NOT (if k = (s + n) div 8 then NOT (push_bit ((s + n) mod 8) (- 1)) else - 1))))"
proof -
  have le: "s div 8 \<le> (s + n) div 8" by (simp add: div_le_mono)
  define l r lm rm where "l = s div 8" and "r = (s + n) div 8"
    and "lm = (push_bit (s mod 8) (- 1) :: u8)" and "rm = (NOT (push_bit ((s + n) mod 8) (- 1)) :: u8)"
  have "clear_bits bm s n = (if l = r then bm[l := bm ! l AND (NOT lm OR NOT rm)]
         else let bm = bm[l := bm ! l AND NOT lm]; bm = bm_fill bm (l + 1) (r - l - 1) 0
              in if rm \<noteq> 0 then bm[r := bm ! r AND NOT rm] else bm)"
    by (simp only: clear_bits_def Let_def l_def r_def lm_def rm_def)
  moreover have "l \<le> r" using le by (simp only: l_def r_def)
  ultimately show ?thesis
    using assms unfolding l_def [symmetric] r_def [symmetric] lm_def [symmetric] rm_def [symmetric]
    by (cases k l rule: linorder_cases; cases k r rule: linorder_cases)
      (simp_all add: Let_def nth_list_update)
qed

lemma range_in_byte:
  assumes "j < 8"
  shows "(s :: nat) \<le> 8 * k + j \<longleftrightarrow> s div 8 < k \<or> s div 8 = k \<and> s mod 8 \<le> j"
    and "8 * k + j < e \<longleftrightarrow> k < e div 8 \<or> k = e div 8 \<and> j < e mod 8"
  using assms pos_le_div_mod [of 8 s "8 * k + j"] pos_less_div_mod [of 8 "8 * k + j" e] by simp_all

lemma set_bits_nth:
  assumes "k < length bm" and "j < 8"
  shows "bit (set_bits bm s n ! k) j \<longleftrightarrow> bit (bm ! k) j \<or> (s \<le> 8 * k + j \<and> 8 * k + j < s + n)"
  unfolding set_bits_byte [OF assms(1)] range_in_byte [OF assms(2)]
  using assms(2) by (simp add: bit_or_iff bit_and_iff bit_masks8 del: push_bit_minus_one_eq_not_mask)

lemma clear_bits_nth:
  assumes "k < length bm" and "j < 8"
  shows "bit (clear_bits bm s n ! k) j \<longleftrightarrow> bit (bm ! k) j \<and> \<not> (s \<le> 8 * k + j \<and> 8 * k + j < s + n)"
proof -
  have nn: "bit (NOT x) j \<longleftrightarrow> \<not> bit x j" for x :: u8
    using assms(2) by (simp add: bit_not_iff)
  show ?thesis
    unfolding clear_bits_byte [OF assms(1)] range_in_byte [OF assms(2)]
    using assms(2) by (simp add: bit_or_iff bit_and_iff bit_masks8 nn del: push_bit_minus_one_eq_not_mask) auto
qed

lemma bmap_set_bits:
  assumes "s + n \<le> 8 * length bm"
  shows "bmap (set_bits bm s n) i \<longleftrightarrow> bmap bm i \<or> (s \<le> i \<and> i < s + n)"
proof (cases "i div 8 < length bm")
  case True
  then show ?thesis using set_bits_nth [OF True, of "i mod 8"] by (simp add: bmap_def)
next
  case False
  then have "8 * length bm \<le> i" by simp
  with False assms show ?thesis by (simp add: bmap_def)
qed

lemma bmap_clear_bits:
  "bmap (clear_bits bm s n) i \<longleftrightarrow> bmap bm i \<and> \<not> (s \<le> i \<and> i < s + n)"
proof (cases "i div 8 < length bm")
  case True
  then show ?thesis using clear_bits_nth [OF True, of "i mod 8"] by (simp add: bmap_def)
next
  case False
  then show ?thesis by (simp add: bmap_def)
qed

lemma find_zero_bitmap: "find_next_zero_bit (long_at bm) lim s = scan (\<lambda>i. \<not> bmap bm i) s lim"
  by (simp add: find_next_zero_bit_scan bit_at_long)

lemma find_bitmap: "find_next_bit (long_at bm) lim s = scan (bmap bm) s lim"
proof -
  have "bit_at (long_at bm) = bmap bm" by (simp add: fun_eq_iff bit_at_long)
  then show ?thesis by (simp add: find_next_bit_scan)
qed

lemma all_set_iff: "all_set bm s n \<longleftrightarrow> (\<forall>i. s \<le> i \<and> i < s + n \<longrightarrow> bmap bm i)"
  by (simp add: all_set_def Let_def find_zero_bitmap scan_eq_hi)

lemma all_clear_iff: "all_clear bm s n \<longleftrightarrow> (\<forall>i. s \<le> i \<and> i < s + n \<longrightarrow> \<not> bmap bm i)"
  by (simp add: all_clear_def Let_def find_bitmap scan_eq_hi)

text \<open>\<open>bytebits\<close> counts the set bits of a byte.\<close>

lemma card_bits_shift:
  "card {i. bit (c :: u8) i} = card {i. bit (drop_bit 1 c) i} + unat (c AND 1)"
proof -
  have fin: "finite {i. bit (c :: u8) i}" for c
    by (rule finite_subset [of _ "{..<8}"]) (auto dest: bit_imp_le_length)
  have img: "{i. bit c i \<and> i \<noteq> 0} = Suc ` {i. bit (drop_bit 1 c) i}"
  proof (intro set_eqI iffI; elim CollectE conjE imageE)
    fix x assume "bit c x" "x \<noteq> 0"
    then obtain y where "x = Suc y" "bit (drop_bit 1 c) y"
      by (cases x) (simp_all add: bit_drop_bit_eq)
    then show "x \<in> Suc ` {i. bit (drop_bit 1 c) i}" by simp
  qed (simp add: bit_drop_bit_eq)
  have "card {i. bit (drop_bit 1 c) i} = card {i. bit c i \<and> i \<noteq> 0}"
    unfolding img by (simp add: card_image)
  moreover have "{i. bit c i} = (if bit c 0 then insert 0 {i. bit c i \<and> i \<noteq> 0} else {i. bit c i \<and> i \<noteq> 0})"
    by auto (metis gr0I)+
  moreover have "unat (c AND 1) = of_bool (bit c 0)"
    by (simp add: and_one_eq mod_2_eq_odd bit_0)
  ultimately show ?thesis
    using fin [of c] by (auto split: if_splits)
qed

lemma bytebits_loop_card: "bytebits_loop c n = n + card {i. bit c i}"
proof (induction c n rule: bytebits_loop.induct)
  case (1 c n)
  then show ?case
    by (cases "c = 0") (simp_all add: bytebits_loop.simps [of 0] bytebits_loop.simps [of c] card_bits_shift [of c])
qed

lemma bytebits_card: "bytebits c = card {i. bit c i}"
  by (simp add: bytebits_def bytebits_loop_card)

section \<open>The bitmap interface\<close>

text \<open>
  What the block allocator uses of a bitmap block: ranges are set, cleared and tested,
  and the effect on every bit of the block is known.  The laws hold for ranges inside
  the block, as the allocator asserts.
\<close>

locale bit_table =
  fixes bits :: "'b \<Rightarrow> nat \<Rightarrow> bool"
    and capacity :: "'b \<Rightarrow> nat"
    and setr clearr :: "'b \<Rightarrow> nat \<Rightarrow> nat \<Rightarrow> 'b"
    and tset tclear :: "'b \<Rightarrow> nat \<Rightarrow> nat \<Rightarrow> bool"
  assumes bits_setr: "s + n \<le> capacity b \<Longrightarrow> bits (setr b s n) i \<longleftrightarrow> bits b i \<or> (s \<le> i \<and> i < s + n)"
    and bits_clearr: "s + n \<le> capacity b \<Longrightarrow> bits (clearr b s n) i \<longleftrightarrow> bits b i \<and> \<not> (s \<le> i \<and> i < s + n)"
    and capacity_setr: "capacity (setr b s n) = capacity b"
    and capacity_clearr: "capacity (clearr b s n) = capacity b"
    and tset_bits: "tset b s n \<longleftrightarrow> (\<forall>i. s \<le> i \<and> i < s + n \<longrightarrow> bits b i)"
    and tclear_bits: "tclear b s n \<longleftrightarrow> (\<forall>i. s \<le> i \<and> i < s + n \<longrightarrow> \<not> bits b i)"
begin

lemma tset_setr: "s + n \<le> capacity b \<Longrightarrow> tset (setr b s n) s n"
  by (simp add: tset_bits bits_setr)

lemma tclear_clearr: "s + n \<le> capacity b \<Longrightarrow> tclear (clearr b s n) s n"
  by (simp add: tclear_bits bits_clearr)

lemma clearr_setr_bits:
  "s + n \<le> capacity b \<Longrightarrow> tclear b s n \<Longrightarrow> bits (clearr (setr b s n) s n) i = bits b i"
  by (auto simp: bits_clearr bits_setr capacity_setr tclear_bits)

lemma card_setr:
  assumes "s + n \<le> capacity b" and "tclear b s n" and "s + n \<le> lim"
  shows "card {i. i < lim \<and> bits (setr b s n) i} = card {i. i < lim \<and> bits b i} + n"
proof -
  have "{i. i < lim \<and> bits (setr b s n) i} = {i. i < lim \<and> bits b i} \<union> {s..<s + n}"
    using assms by (auto simp: bits_setr)
  moreover have "{i. i < lim \<and> bits b i} \<inter> {s..<s + n} = {}"
    using assms(2) by (auto simp: tclear_bits)
  moreover have "finite {i. i < lim \<and> bits b i}" by simp
  ultimately show ?thesis by (simp add: card_Un_disjoint)
qed

end

interpretation bm: bit_table bmap "\<lambda>bm. 8 * length bm" set_bits clear_bits all_set all_clear
  by unfold_locales (simp_all add: bmap_set_bits bmap_clear_bits all_set_iff all_clear_iff)

section \<open>Properties\<close>

text \<open>\<open>all_clear\<close> and \<open>all_set\<close>, which skip whole words, agree with looking at
  every bit of the range.\<close>

theorem all_set_clear_exact:
  "(all_set bm s n \<longleftrightarrow> {s..<s + n} \<subseteq> {i. bmap bm i}) \<and>
   (all_clear bm s n \<longleftrightarrow> {s..<s + n} \<inter> {i. bmap bm i} = {})"
  by (auto simp: all_set_iff all_clear_iff)

end
