(* ===== verification/Balloc.thy ===== *)
theory Balloc
  imports Bitmap
begin

text \<open>
  The block allocator, \<open>src/kernel/balloc.c\<close>: marking and testing ranges of the
  allocation bitmap over block boundaries (\<open>bitmap_modify_bits\<close>, \<open>bitmap_modify\<close>,
  \<open>bitmap_test_and_modify\<close>), the cyclic search for free space
  (\<open>balloc_from_range\<close> and its callers) and \<open>bfree\<close>.
  The state is the part of \<open>struct sb\<close> that the allocator uses; \<open>bitmap\<close> holds the
  data of the blocks of the bitmap inode.  What the buffer layer may answer is part
  of the state: \<open>rd_fails\<close> says for which bitmap blocks \<open>blockread\<close> returns NULL and
  \<open>dirty_fails\<close> with which error \<open>blockdirty\<close> fails.
\<close>

section \<open>State\<close>

record bsb =
  blockbits :: nat
  volblocks :: nat
  freeblocks :: int
  nextblock :: nat
  bitmap :: "nat \<Rightarrow> u8 list"
  rd_fails :: "nat \<Rightarrow> bool"
  dirty_fails :: "nat \<Rightarrow> err"

record block_segment =
  seg_block :: nat
  seg_count :: nat

text \<open>\<open>mapshift\<close> is \<open>blockbits + 3\<close>: one bitmap block maps \<open>mapsize\<close> blocks.\<close>

definition mapsize :: "bsb \<Rightarrow> nat" where
  "mapsize sb = 2 ^ (blockbits sb + 3)"

definition bm_blockread :: "bsb \<Rightarrow> nat \<Rightarrow> u8 list option" where
  "bm_blockread sb k = (if rd_fails sb k then None else Some (bitmap sb k))"

section \<open>Counting the bits of a range\<close>

function count_range_loop :: "bsb \<Rightarrow> nat \<Rightarrow> nat \<Rightarrow> nat \<Rightarrow> nat \<Rightarrow> nat \<Rightarrow> nat option" where
  "count_range_loop sb block blocks offset tail tot =
     (if block < blocks
      then (case bm_blockread sb block of
              None \<Rightarrow> None
            | Some data \<Rightarrow>
                (let bytes = min (2 ^ blockbits sb - offset) tail
                 in count_range_loop sb (Suc block) blocks 0 (tail - bytes)
                      (tot + sum_list (map bytebits (take bytes (drop offset data))))))
      else Some tot)"
  by pat_completeness auto
termination
  by (relation "measure (\<lambda>(sb, block, blocks, _). blocks - block)") auto

declare count_range_loop.simps [simp del]

text \<open>\<open>None\<close> is the result \<open>-1\<close> of a failed read; a start inside a byte fails the assertion.\<close>

definition count_range :: "bsb \<Rightarrow> nat \<Rightarrow> nat \<Rightarrow> errno + nat option" where
  "count_range sb start count =
     (if start mod 8 \<noteq> 0 then Inl ASSERT
      else let mapmask = mapsize sb - 1; limit = start + count;
               blocks = (limit + mapmask) div mapsize sb;
               tail = (count + 7) div 8; offset = (start mod mapsize sb) div 8
           in Inr (count_range_loop sb (start div mapsize sb) blocks offset tail 0))"

section \<open>Modifying ranges\<close>

definition bitmap_modify_bits :: "bsb \<Rightarrow> nat \<Rightarrow> nat \<Rightarrow> nat \<Rightarrow> bool \<Rightarrow> err \<times> bsb" where
  "bitmap_modify_bits sb mapblock offset blocks st =
     (if \<not> (0 < blocks) then (Some ASSERT, sb)
      else if \<not> (offset + blocks \<le> 2 ^ blockbits sb * 8) then (Some ASSERT, sb)
      else case dirty_fails sb mapblock of
             Some e \<Rightarrow> (Some e, sb)
           | None \<Rightarrow>
               (let modify = (if st then set_bits else clear_bits);
                    data = modify (bitmap sb mapblock) offset blocks
                in (None, sb\<lparr> bitmap := (bitmap sb)(mapblock := data),
                             freeblocks := (if st then freeblocks sb - int blocks
                                            else freeblocks sb + int blocks) \<rparr>)))"

function bitmap_modify_loop :: "bsb \<Rightarrow> nat \<Rightarrow> nat \<Rightarrow> nat \<Rightarrow> nat \<Rightarrow> bool \<Rightarrow> err \<times> bsb" where
  "bitmap_modify_loop sb mapblock mapblocks mapoffset blocks st =
     (if mapblock < mapblocks
      then (case bm_blockread sb mapblock of
              None \<Rightarrow> (Some EIO, sb)
            | Some _ \<Rightarrow>
                (let len = min (mapsize sb - mapoffset) blocks
                 in case bitmap_modify_bits sb mapblock mapoffset len st of
                      (Some e, sb) \<Rightarrow> (Some e, sb)
                    | (None, sb) \<Rightarrow> bitmap_modify_loop sb (Suc mapblock) mapblocks 0 (blocks - len) st))
      else (None, sb))"
  by pat_completeness auto
termination
  by (relation "measure (\<lambda>(sb, mapblock, mapblocks, _). mapblocks - mapblock)") auto

declare bitmap_modify_loop.simps [simp del]

definition bitmap_modify :: "bsb \<Rightarrow> nat \<Rightarrow> nat \<Rightarrow> bool \<Rightarrow> err \<times> bsb" where
  "bitmap_modify sb start blocks st =
     (if \<not> (0 < blocks) \<or> \<not> (start + blocks \<le> volblocks sb) then (Some ASSERT, sb)
      else bitmap_modify_loop sb (start div mapsize sb)
             ((start + blocks + (mapsize sb - 1)) div mapsize sb) (start mod mapsize sb) blocks st)"

function bitmap_test_and_modify_loop :: "bsb \<Rightarrow> nat \<Rightarrow> nat \<Rightarrow> nat \<Rightarrow> nat \<Rightarrow> bool \<Rightarrow> err \<times> bsb" where
  "bitmap_test_and_modify_loop sb mapblock mapblocks mapoffset blocks st =
     (if mapblock < mapblocks
      then (case bm_blockread sb mapblock of
              None \<Rightarrow> (Some EIO, sb)
            | Some data \<Rightarrow>
                (let len = min (mapsize sb - mapoffset) blocks;
                     test = (if st then all_clear else all_set)
                 in if \<not> test data mapoffset len then (Some EIO, sb)
                    else case bitmap_modify_bits sb mapblock mapoffset len st of
                      (Some e, sb) \<Rightarrow> (Some e, sb)
                    | (None, sb) \<Rightarrow>
                        bitmap_test_and_modify_loop sb (Suc mapblock) mapblocks 0 (blocks - len) st))
      else (None, sb))"
  by pat_completeness auto
termination
  by (relation "measure (\<lambda>(sb, mapblock, mapblocks, _). mapblocks - mapblock)") auto

declare bitmap_test_and_modify_loop.simps [simp del]

definition bitmap_test_and_modify :: "bsb \<Rightarrow> nat \<Rightarrow> nat \<Rightarrow> bool \<Rightarrow> err \<times> bsb" where
  "bitmap_test_and_modify sb start blocks st =
     (if \<not> (0 < blocks) \<or> \<not> (start + blocks \<le> volblocks sb) then (Some ASSERT, sb)
      else bitmap_test_and_modify_loop sb (start div mapsize sb)
             ((start + blocks + (mapsize sb - 1)) div mapsize sb) (start mod mapsize sb) blocks st)"

definition bfree :: "bsb \<Rightarrow> nat \<Rightarrow> nat \<Rightarrow> err \<times> bsb" where
  "bfree sb start blocks = bitmap_test_and_modify sb start blocks False"

definition replay_update_bitmap :: "bsb \<Rightarrow> nat \<Rightarrow> nat \<Rightarrow> bool \<Rightarrow> err \<times> bsb" where
  "replay_update_bitmap sb start blocks st = bitmap_test_and_modify sb start blocks st"

section \<open>Searching free space\<close>

text \<open>Only \<open>seg[0]\<close> of the result array is ever written.\<close>

definition save_seg :: "block_segment \<Rightarrow> nat \<Rightarrow> nat \<Rightarrow> block_segment" where
  "save_seg seg start count =
     (if seg_count seg < count then \<lparr>seg_block = start, seg_count = count\<rparr> else seg)"

text \<open>The \<open>while (1)\<close> scan of one bitmap block: it finds the range or leaves how many blocks are
  still needed after the free run that touches the end of the block.\<close>

datatype scan_result =
    Found nat block_segment
  | Break nat block_segment

function scan_block ::
  "u8 list \<Rightarrow> nat \<Rightarrow> nat \<Rightarrow> nat \<Rightarrow> nat \<Rightarrow> nat \<Rightarrow> block_segment \<Rightarrow> scan_result" where
  "scan_block p mapstart maplimit blocks mapoffset need seg =
     (let mapnext = min (mapoffset + need) maplimit;
          idx = find_next_bit (long_at p) mapnext mapoffset;
          need = need - (idx - mapoffset)
      in if idx = mapnext
         then if need \<noteq> 0 then Break need seg
              else let found = mapstart + idx - blocks in Found found (save_seg seg found blocks)
         else let seg = (if need < blocks
                         then save_seg seg (mapstart + idx - (blocks - need)) (blocks - need)
                         else seg);
                  mapoffset = find_next_zero_bit (long_at p) maplimit (idx + 1)
              in if mapoffset = maplimit then Break blocks seg
                 else scan_block p mapstart maplimit blocks mapoffset blocks seg)"
  by pat_completeness auto
termination
proof (relation "measure (\<lambda>(p, mapstart, maplimit, blocks, mapoffset, need, seg). maplimit - mapoffset)",
    goal_cases)
  case (2 p mapstart maplimit blocks mapoffset need seg mapnext idx need' seg' mo)
  have "mapoffset < mapnext"
    using 2(2,4) by (cases "mapoffset < mapnext") (simp_all add: find_bitmap scan.simps)
  then have "first_from (bmap p) mapoffset mapnext idx"
    using 2(2) scan_first [of mapoffset mapnext "bmap p"] by (simp add: find_bitmap)
  then have idx: "mapoffset \<le> idx" "idx < mapnext" "mapnext \<le> maplimit"
    using 2(1,4) by (auto simp: first_from_def)
  then have "idx + 1 \<le> mo" "mo \<le> maplimit"
    using 2(6) scan_first [of "idx + 1" maplimit "\<lambda>i. \<not> bmap p i"]
    by (auto simp: find_zero_bitmap first_from_def)
  with idx 2(7) show ?case by simp
qed simp

declare scan_block.simps [simp del]

text \<open>The part of the range that one step of the outer loop looks at.\<close>

lemma search_geometry:
  fixes M V st len :: nat
  assumes "st < V" and "0 < M" and "0 < len"
    and base: "base = st div M * M" and off: "off = st mod M" and ml: "ml = min M (off + len)"
    and lim: "lim = (if V < base + ml then V mod M else ml)"
  shows "base + off = st" "off < lim" "lim \<le> M" "base + lim \<le> V" "lim - off \<le> len"
proof -
  show st: "base + off = st" by (simp add: base off)
  have offM: "off < M" using assms(2) by (simp add: off)
  have "off < lim \<and> lim \<le> M \<and> base + lim \<le> V \<and> lim - off \<le> len"
  proof (cases "V < base + ml")
    case True
    define r where "r = V - base"
    have "V = st div M * M + r" and r: "r < M" using True assms(1) st by (auto simp: r_def base ml)
    then have "V mod M = r" by (metis mod_less mod_mult_self3)
    with True st assms(1) ml r show ?thesis by (auto simp: lim r_def)
  next
    case False
    with offM assms(3) show ?thesis by (auto simp: lim ml)
  qed
  then show "off < lim" "lim \<le> M" "base + lim \<le> V" "lim - off \<le> len" by simp_all
qed

datatype search_result =
    SFound nat nat block_segment  \<comment> \<open>block found, bitmap block where the search stopped\<close>
  | Exhausted block_segment
  | ReadFailed block_segment
  | Hang

text \<open>
  The outer loop.  On an empty volume it would not advance (\<open>Hang\<close>); the assertion
  \<open>len <= volblocks\<close> keeps it from being entered then, \<open>search_not_hang\<close>.
\<close>

function balloc_search ::
  "bsb \<Rightarrow> nat \<Rightarrow> nat \<Rightarrow> nat \<Rightarrow> nat \<Rightarrow> block_segment \<Rightarrow> search_result" where
  "balloc_search sb start len blocks need seg =
     (if 0 < len
      then if volblocks sb = 0 then Hang else
        (let seg = (if volblocks sb \<le> start \<and> need < blocks
                    then save_seg seg (volblocks sb - (blocks - need)) (blocks - need) else seg);
             need = (if volblocks sb \<le> start then blocks else need);
             start = (if volblocks sb \<le> start then 0 else start);
             mapblock = start div mapsize sb;
             mapstart = mapblock * mapsize sb;
             mapoffset = start mod mapsize sb;
             maplimit = min (mapsize sb) (mapoffset + len);
             maplimit = (if volblocks sb < mapstart + maplimit then volblocks sb mod mapsize sb
                         else maplimit);
             maplen = maplimit - mapoffset
         in case bm_blockread sb mapblock of
              None \<Rightarrow> ReadFailed seg
            | Some p \<Rightarrow>
                (case scan_block p mapstart maplimit blocks mapoffset need seg of
                   Found found seg \<Rightarrow> SFound found mapblock seg
                 | Break need seg \<Rightarrow> balloc_search sb (start + maplen) (len - maplen) blocks need seg))
      else Exhausted seg)"
  by pat_completeness auto
termination
proof (relation "measure (\<lambda>(sb, start, len, blocks, need, seg). len)", goal_cases)
  case (2 sb start len blocks need seg seg' need' st mapblock mapstart mapoffset ml maplimit maplen p need'' seg'')
  have "st < volblocks sb" using 2(2,5) by auto
  from search_geometry(2) [OF this _ 2(1) 2(7) [unfolded 2(6)] 2(8,9,10)] 2(1,11) show ?case
    by (simp add: mapsize_def)
qed simp

declare balloc_search.simps [simp del]

text \<open>The code from \<open>found_range\<close> and \<open>found_partial\<close> to the end.\<close>

definition balloc_take :: "bsb \<Rightarrow> nat \<Rightarrow> nat \<Rightarrow> block_segment \<Rightarrow> err \<times> bsb \<Rightarrow> err \<times> block_segment \<times> bsb" where
  "balloc_take sb0 found blocks seg r =
     (case r of
        (Some e, sb) \<Rightarrow> (Some e, seg, sb)
      | (None, sb) \<Rightarrow>
          (None, \<lparr>seg_block = found, seg_count = blocks\<rparr>,
           sb\<lparr>nextblock := (if volblocks sb0 \<le> found + blocks then 0 else found + blocks)\<rparr>))"

definition balloc_from_range ::
  "bsb \<Rightarrow> nat \<Rightarrow> nat \<Rightarrow> nat \<Rightarrow> bool \<Rightarrow> err \<times> block_segment \<times> bsb" where
  "balloc_from_range sb start len blocks partial =
     (let seg = \<lparr>seg_block = 0, seg_count = 0\<rparr> in
      if \<not> (0 < blocks) \<or> \<not> (len \<le> volblocks sb) then (Some ASSERT, seg, sb)
      else case balloc_search sb start len blocks blocks seg of
             Hang \<Rightarrow> (Some ASSERT, seg, sb)
           | ReadFailed seg \<Rightarrow> (Some EIO, seg, sb)
           | Exhausted seg \<Rightarrow>
               if partial \<and> seg_count seg \<noteq> 0
               then balloc_take sb (seg_block seg) (seg_count seg) seg
                      (bitmap_modify sb (seg_block seg) (seg_count seg) True)
               else (Some ENOSPC, seg, sb)
           | SFound found mapblock seg \<Rightarrow>
               balloc_take sb found blocks seg
                 (if found div mapsize sb = mapblock
                  then bitmap_modify_bits sb mapblock (found mod mapsize sb) blocks True
                  else bitmap_modify sb found blocks True))"

definition balloc_goal :: "bsb \<Rightarrow> nat \<Rightarrow> bool \<Rightarrow> err \<times> block_segment \<times> bsb" where
  "balloc_goal sb blocks partial = balloc_from_range sb (nextblock sb) (volblocks sb) blocks partial"

definition balloc :: "bsb \<Rightarrow> nat \<Rightarrow> err \<times> block_segment \<times> bsb" where
  "balloc sb blocks = balloc_goal sb blocks False"

definition balloc_partial :: "bsb \<Rightarrow> nat \<Rightarrow> err \<times> block_segment \<times> bsb" where
  "balloc_partial sb blocks = balloc_goal sb blocks True"

section \<open>What the bitmap says\<close>

definition allocated :: "bsb \<Rightarrow> nat \<Rightarrow> bool" where
  "allocated sb b = bmap (bitmap sb (b div mapsize sb)) (b mod mapsize sb)"

text \<open>Every cached bitmap block has the block size.\<close>

definition wf_bsb :: "bsb \<Rightarrow> bool" where
  "wf_bsb sb \<longleftrightarrow> (\<forall>k. length (bitmap sb k) = 2 ^ blockbits sb)"

text \<open>The I/O under the bitmap does not fail.\<close>

definition good_io :: "bsb \<Rightarrow> bool" where
  "good_io sb \<longleftrightarrow> (\<forall>k. \<not> rd_fails sb k \<and> dirty_fails sb k = None)"

text \<open>\<open>sb'\<close> is \<open>sb\<close> with the \<open>n\<close> blocks from \<open>s\<close> on put in state \<open>st\<close> and counted.\<close>

definition marks :: "bsb \<Rightarrow> bsb \<Rightarrow> nat \<Rightarrow> nat \<Rightarrow> bool \<Rightarrow> bool" where
  "marks sb sb' s n st \<longleftrightarrow>
     (\<forall>b. allocated sb' b = (if s \<le> b \<and> b < s + n then st else allocated sb b)) \<and>
     freeblocks sb' = freeblocks sb + (if st then - int n else int n) \<and>
     wf_bsb sb' \<and> blockbits sb' = blockbits sb \<and> volblocks sb' = volblocks sb \<and>
     nextblock sb' = nextblock sb \<and> rd_fails sb' = rd_fails sb \<and> dirty_fails sb' = dirty_fails sb"

lemma mapsize_pos [simp]: "0 < mapsize sb"
  by (simp add: mapsize_def)

lemma mapsize_8: "mapsize sb = 8 * 2 ^ blockbits sb"
  by (simp add: mapsize_def power_add)

lemma mapsize_cong: "blockbits sb' = blockbits sb \<Longrightarrow> mapsize sb' = mapsize sb"
  by (simp add: mapsize_def)

lemma marks_refl: "wf_bsb sb \<Longrightarrow> marks sb sb s 0 st"
  by (auto simp: marks_def)

lemma marks_trans:
  "marks sb sb1 s n st \<Longrightarrow> marks sb1 sb2 (s + n) m st \<Longrightarrow> marks sb sb2 s (n + m) st"
  by (auto simp: marks_def)

lemma marks_mapsize: "marks sb sb' s n st \<Longrightarrow> mapsize sb' = mapsize sb"
  by (simp add: marks_def mapsize_def)

lemma marks_allocated:
  "marks sb sb' s n st \<Longrightarrow> allocated sb' b = (if s \<le> b \<and> b < s + n then st else allocated sb b)"
  by (simp add: marks_def)

lemma marks_wf: "marks sb sb' s n st \<Longrightarrow> wf_bsb sb'"
  by (simp add: marks_def)

lemma good_io_marks: "marks sb sb' s n st \<Longrightarrow> good_io sb' = good_io sb"
  by (simp add: marks_def good_io_def)

lemma allocated_block:
  "i < mapsize sb \<Longrightarrow> allocated sb (k * mapsize sb + i) = bmap (bitmap sb k) i"
  by (simp add: allocated_def)

lemma in_block_iff:
  assumes "off + n \<le> (M :: nat)"
  shows "k * M + off \<le> b \<and> b < k * M + off + n \<longleftrightarrow> b div M = k \<and> off \<le> b mod M \<and> b mod M < off + n"
proof
  assume l: "k * M + off \<le> b \<and> b < k * M + off + n"
  then obtain j where j: "b = k * M + j" "off \<le> j" "j < off + n"
    by (metis add.assoc add_le_cancel_left le_add1 le_iff_add le_trans nat_add_left_cancel_less)
  with assms show "b div M = k \<and> off \<le> b mod M \<and> b mod M < off + n" by simp
next
  assume "b div M = k \<and> off \<le> b mod M \<and> b mod M < off + n"
  then show "k * M + off \<le> b \<and> b < k * M + off + n"
    by (metis add.assoc add_le_cancel_left div_mult_mod_eq nat_add_left_cancel_less)
qed

lemma bitmap_modify_bits_marks:
  assumes wf: "wf_bsb sb" and r: "bitmap_modify_bits sb k off n st = (None, sb')"
  shows "marks sb sb' (k * mapsize sb + off) n st" "0 < n" "off + n \<le> mapsize sb"
proof -
  show n: "0 < n" and le: "off + n \<le> mapsize sb"
    using r by (auto simp: bitmap_modify_bits_def mapsize_8 split: if_splits)
  define d where "d = (if st then set_bits else clear_bits) (bitmap sb k) off n"
  have sb': "sb' = sb\<lparr>bitmap := (bitmap sb)(k := d),
      freeblocks := (if st then freeblocks sb - int n else freeblocks sb + int n)\<rparr>"
    using r by (auto simp: bitmap_modify_bits_def d_def Let_def split: if_splits option.splits)
  have len: "length (bitmap sb j) = 2 ^ blockbits sb" for j using wf by (simp add: wf_bsb_def)
  have le': "off + n \<le> 8 * length (bitmap sb k)" using le by (simp add: len mapsize_8)
  have d: "bmap d i = (if off \<le> i \<and> i < off + n then st else bmap (bitmap sb k) i)" for i
    using le' by (auto simp: d_def bmap_set_bits bmap_clear_bits)
  have M: "mapsize sb' = mapsize sb" by (simp add: sb' mapsize_def)
  have "allocated sb' b = (if k * mapsize sb + off \<le> b \<and> b < k * mapsize sb + off + n then st else allocated sb b)" for b
    unfolding in_block_iff [OF le] allocated_def M by (simp add: sb' d)
  moreover have "wf_bsb sb'" using len by (simp add: wf_bsb_def sb' d_def)
  ultimately show "marks sb sb' (k * mapsize sb + off) n st"
    by (simp add: marks_def) (simp add: sb')
qed

lemma bitmap_modify_bits_error: "bitmap_modify_bits sb k off n st = (Some e, sb') \<Longrightarrow> sb' = sb"
  by (auto simp: bitmap_modify_bits_def Let_def split: if_splits option.splits)

lemma bitmap_modify_bits_io:
  "good_io sb \<Longrightarrow> 0 < n \<Longrightarrow> off + n \<le> mapsize sb \<Longrightarrow> fst (bitmap_modify_bits sb k off n st) = None"
  by (simp add: bitmap_modify_bits_def good_io_def mapsize_8 Let_def)

text \<open>The number of bitmap blocks that a range of \<open>n\<close> blocks at offset \<open>off\<close> still touches.\<close>

lemma blocks_step:
  fixes M off n :: nat
  assumes "0 < M" and "off < M" and "off = 0 \<or> 0 < n" and "len = min (M - off) n"
  shows "n = 0 \<Longrightarrow> (off + n + (M - 1)) div M = 0"
    and "0 < n \<Longrightarrow> (off + n + (M - 1)) div M = Suc ((n - len + (M - 1)) div M)"
proof -
  show "(off + n + (M - 1)) div M = 0" if "n = 0" using assms that by simp
  show "(off + n + (M - 1)) div M = Suc ((n - len + (M - 1)) div M)" if n: "0 < n"
  proof (cases "off + n \<le> M")
    case True
    then have "len = n" using assms by simp
    moreover have "off + n + (M - 1) = (off + n - 1) + M" using n assms(1) by simp
    moreover have "off + n - 1 < M" using True n by simp
    ultimately show ?thesis using assms(1) by (simp only: div_add_self2) simp
  next
    case False
    then have "len = M - off" using assms by simp
    with False assms(2) have "off + n + (M - 1) = (n - len + (M - 1)) + M" by simp
    then show ?thesis using assms(1) by (simp only: div_add_self2)
  qed
qed

lemma marks_block_step:
  assumes "marks sb sb1 (k * mapsize sb + off) len st" and "len = min (mapsize sb - off) n"
    and "off < mapsize sb" and "marks sb1 sb' (Suc k * mapsize sb1) m st" and "m \<le> n - len"
  shows "marks sb sb' (k * mapsize sb + off) (len + m) st"
proof (cases "m = 0")
  case True
  with assms(1,4) show ?thesis by (auto simp: marks_def)
next
  case False
  with assms(2,3,5) have "off + len = mapsize sb" by (auto simp: min_def split: if_splits)
  then have "Suc k * mapsize sb1 = k * mapsize sb + off + len"
    using marks_mapsize [OF assms(1)] by simp
  with assms(1,4) show ?thesis by (metis marks_trans)
qed

text \<open>
  Both loops, errors included: a prefix of the range is marked, all of it if there was
  no error, and without I/O errors only a failed test stops the loop.
\<close>

lemma bitmap_modify_loop_marks:
  assumes "wf_bsb sb" and "off < mapsize sb" and "off = 0 \<or> 0 < n"
    and "kn = k + (off + n + (mapsize sb - 1)) div mapsize sb"
    and "bitmap_modify_loop sb k kn off n st = (e, sb')"
  shows "\<exists>m\<le>n. marks sb sb' (k * mapsize sb + off) m st \<and> (e = None \<longrightarrow> m = n) \<and> (good_io sb \<longrightarrow> e = None)"
  using assms
proof (induction sb k kn off n st arbitrary: e sb' rule: bitmap_modify_loop.induct)
  case (1 sb k kn off n st)
  note step = blocks_step [OF mapsize_pos "1.prems"(2,3) refl]
  define len where len_def: "len = min (mapsize sb - off) n"
  obtain e1 sb1 where r1: "bitmap_modify_bits sb k off len st = (e1, sb1)" by fastforce
  note unf = bitmap_modify_loop.simps [of sb k]
  consider (stop) "n = 0" | (rderr) "0 < n" "rd_fails sb k"
    | (err) x where "0 < n" "\<not> rd_fails sb k" "e1 = Some x" | (ok) "0 < n" "\<not> rd_fails sb k" "e1 = None"
    by (metis gr0I option.exhaust)
  then show ?case
  proof cases
    case stop
    with step(1) "1.prems" show ?thesis by (simp add: unf marks_refl)
  next
    case rderr
    with step(2) "1.prems" show ?thesis
      by (auto simp: unf bm_blockread_def good_io_def intro: exI [of _ 0] marks_refl)
  next
    case err
    then have "sb1 = sb" using r1 bitmap_modify_bits_error by blast
    moreover have "\<not> good_io sb"
      using bitmap_modify_bits_io [of sb len off k st] r1 err(1,3) "1.prems"(2) unfolding len_def by fastforce
    moreover have "bitmap_modify_loop sb k kn off n st = (e1, sb1)"
      using r1 err step(2) "1.prems"(4) unfolding len_def by (simp add: unf bm_blockread_def Let_def)
    ultimately show ?thesis using err "1.prems" by (auto intro: exI [of _ 0] marks_refl)
  next
    case ok
    have rd: "bm_blockread sb k = Some (bitmap sb k)" using ok by (simp add: bm_blockread_def)
    have kn: "kn = Suc k + (0 + (n - len) + (mapsize sb - 1)) div mapsize sb" and lt: "k < kn"
      using step(2) ok(1) "1.prems"(4) by (simp_all add: len_def)
    have m1: "marks sb sb1 (k * mapsize sb + off) len st"
      using bitmap_modify_bits_marks(1) [OF "1.prems"(1)] r1 ok(3) by blast
    have loop: "bitmap_modify_loop sb1 (Suc k) kn 0 (n - len) st = (e, sb')"
      using r1 ok lt rd "1.prems"(5) unfolding len_def by (simp add: unf Let_def)
    obtain m where m: "m \<le> n - len" "marks sb1 sb' (Suc k * mapsize sb1 + 0) m st"
        "e = None \<longrightarrow> m = n - len" "good_io sb1 \<longrightarrow> e = None"
      using "1.IH" [OF lt rd len_def r1 [symmetric] ok(3) marks_wf [OF m1] _ _ _ loop]
        marks_mapsize [OF m1] kn by auto
    have "marks sb sb' (k * mapsize sb + off) (len + m) st"
      using marks_block_step [OF m1 len_def "1.prems"(2) _ m(1)] m(2) by simp
    with m len_def good_io_marks [OF m1] show ?thesis by (intro exI [of _ "len + m"]) auto
  qed
qed

lemma test_block:
  "(if st then all_clear else all_set) (bitmap sb k) off n \<longleftrightarrow>
   (\<forall>i. off \<le> i \<and> i < off + n \<longrightarrow> bmap (bitmap sb k) i \<noteq> st)"
  by (cases st) (auto simp: bm.tset_bits bm.tclear_bits)

lemma test_block_range:
  assumes "off + n \<le> mapsize sb"
  shows "(if st then all_clear else all_set) (bitmap sb k) off n \<longleftrightarrow>
   (\<forall>b. k * mapsize sb + off \<le> b \<and> b < k * mapsize sb + off + n \<longrightarrow> allocated sb b \<noteq> st)"
  unfolding test_block in_block_iff [OF assms]
proof (intro iffI allI impI)
  fix i assume "\<forall>b. b div mapsize sb = k \<and> off \<le> b mod mapsize sb \<and> b mod mapsize sb < off + n \<longrightarrow> allocated sb b \<noteq> st"
    and i: "off \<le> i \<and> i < off + n"
  then have "allocated sb (k * mapsize sb + i) \<noteq> st" using assms by (auto simp: mult.commute)
  then show "bmap (bitmap sb k) i \<noteq> st" using i assms by (simp add: allocated_block)
qed (auto simp: allocated_def)

lemma bitmap_test_and_modify_loop_marks:
  assumes "wf_bsb sb" and "off < mapsize sb" and "off = 0 \<or> 0 < n"
    and "kn = k + (off + n + (mapsize sb - 1)) div mapsize sb"
    and "bitmap_test_and_modify_loop sb k kn off n st = (e, sb')"
  shows "\<exists>m\<le>n. marks sb sb' (k * mapsize sb + off) m st \<and> (e = None \<longrightarrow> m = n) \<and>
      (\<forall>b. k * mapsize sb + off \<le> b \<and> b < k * mapsize sb + off + m \<longrightarrow> allocated sb b \<noteq> st) \<and>
      (good_io sb \<and> e \<noteq> None \<longrightarrow> e = Some EIO \<and>
         (\<exists>b. k * mapsize sb + off + m \<le> b \<and> b < k * mapsize sb + off + n \<and> allocated sb b = st))"
  using assms
proof (induction sb k kn off n st arbitrary: e sb' rule: bitmap_test_and_modify_loop.induct)
  case (1 sb k kn off n st)
  note step = blocks_step [OF mapsize_pos "1.prems"(2,3) refl]
  define len where len_def: "len = min (mapsize sb - off) n"
  define test where test_def: "test = (if st then all_clear else all_set)"
  obtain e1 sb1 where r1: "bitmap_modify_bits sb k off len st = (e1, sb1)" by fastforce
  note unf = bitmap_test_and_modify_loop.simps [of sb k]
  have lenM: "off + len \<le> mapsize sb" "len \<le> n" using "1.prems"(2) by (auto simp: len_def)
  note range = test_block_range [OF lenM(1), of st k, folded test_def]
  consider (stop) "n = 0" | (rderr) "0 < n" "rd_fails sb k"
    | (bad) "0 < n" "\<not> rd_fails sb k" "\<not> test (bitmap sb k) off len"
    | (err) x where "0 < n" "\<not> rd_fails sb k" "test (bitmap sb k) off len" "e1 = Some x"
    | (ok) "0 < n" "\<not> rd_fails sb k" "test (bitmap sb k) off len" "e1 = None"
    by (metis gr0I option.exhaust)
  then show ?case
  proof cases
    case stop
    with step(1) "1.prems" show ?thesis by (auto simp: unf marks_refl)
  next
    case rderr
    with step(2) "1.prems" show ?thesis
      by (auto simp: unf bm_blockread_def good_io_def intro: exI [of _ 0] marks_refl)
  next
    case bad
    then have "e = Some EIO" "sb' = sb"
      using step(2) "1.prems"(4,5) unfolding len_def test_def by (simp_all add: unf bm_blockread_def Let_def)
    moreover obtain b where "k * mapsize sb + off \<le> b" "b < k * mapsize sb + off + len" "allocated sb b = st"
      using bad(3) range by auto
    ultimately show ?thesis
      using lenM(2) "1.prems"(1) by (intro exI [of _ 0]) (auto simp: marks_refl intro!: exI [of _ b])
  next
    case err
    then have "sb1 = sb" using r1 bitmap_modify_bits_error by blast
    moreover have "\<not> good_io sb"
      using bitmap_modify_bits_io [of sb len off k st] r1 err(1,4) "1.prems"(2) unfolding len_def by fastforce
    moreover have "bitmap_test_and_modify_loop sb k kn off n st = (e1, sb1)"
      using r1 err step(2) "1.prems"(4) unfolding len_def test_def by (simp add: unf bm_blockread_def Let_def)
    ultimately show ?thesis using err "1.prems" by (auto intro: exI [of _ 0] marks_refl)
  next
    case ok
    have rd: "bm_blockread sb k = Some (bitmap sb k)" using ok by (simp add: bm_blockread_def)
    have kn: "kn = Suc k + (0 + (n - len) + (mapsize sb - 1)) div mapsize sb" and lt: "k < kn"
      using step(2) ok(1) "1.prems"(4) by (simp_all add: len_def)
    have m1: "marks sb sb1 (k * mapsize sb + off) len st"
      using bitmap_modify_bits_marks(1) [OF "1.prems"(1)] r1 ok(4) by blast
    have loop: "bitmap_test_and_modify_loop sb1 (Suc k) kn 0 (n - len) st = (e, sb')"
      using r1 ok lt rd "1.prems"(5) unfolding len_def test_def by (simp add: unf Let_def)
    have "\<not> \<not> test (bitmap sb k) off len" using ok(3) by simp
    note IH = "1.IH" [OF lt rd len_def test_def this r1 [symmetric] ok(4) marks_wf [OF m1] _ _ _ loop]
    obtain m where m: "m \<le> n - len" "marks sb1 sb' (Suc k * mapsize sb + 0) m st"
        "e = None \<longrightarrow> m = n - len"
        "\<And>b. Suc k * mapsize sb \<le> b \<Longrightarrow> b < Suc k * mapsize sb + m \<Longrightarrow> allocated sb1 b \<noteq> st"
        "good_io sb \<and> e \<noteq> None \<longrightarrow> e = Some EIO \<and>
           (\<exists>b. Suc k * mapsize sb + m \<le> b \<and> b < Suc k * mapsize sb + (n - len) \<and> allocated sb1 b = st)"
      using IH marks_mapsize [OF m1] kn good_io_marks [OF m1] by auto
    have mk: "marks sb sb' (k * mapsize sb + off) (len + m) st"
      using marks_block_step [OF m1 len_def "1.prems"(2) _ m(1)] m(2) marks_mapsize [OF m1] by simp
    define s where "s = k * mapsize sb + off"
    have old: "allocated sb1 b = allocated sb b" if "s + len \<le> b" for b
      using marks_allocated [OF m1, of b] that by (simp add: s_def)
    have tested: "allocated sb b \<noteq> st" if "s \<le> b" "b < s + len" for b
      using range ok(3) that by (simp add: s_def)
    have next_s: "Suc k * mapsize sb = s + len" if "0 < n - len"
      using that "1.prems"(2) by (auto simp: len_def s_def min_def split: if_splits)
    have "allocated sb b \<noteq> st" if "s \<le> b" "b < s + (len + m)" for b
    proof (cases "b < s + len")
      case False
      with that m(1) have "0 < n - len" by linarith
      then show ?thesis using False m(4) [of b] old [of b] that next_s by simp
    qed (use that tested in blast)
    moreover have "e = Some EIO \<and> (\<exists>b. s + (len + m) \<le> b \<and> b < s + n \<and> allocated sb b = st)"
      if bad: "good_io sb" "e \<noteq> None"
    proof -
      obtain b where b: "Suc k * mapsize sb + m \<le> b" "b < Suc k * mapsize sb + (n - len)"
          "allocated sb1 b = st" and e: "e = Some EIO"
        using m(5) bad by blast
      then have "0 < n - len" by linarith
      then have "s + (len + m) \<le> b" "b < s + n" using b(1,2) next_s lenM(2) by linarith+
      with b(3) e old [of b] show ?thesis by auto
    qed
    ultimately show ?thesis
      using m(1,3) mk lenM(2) by (intro exI [of _ "len + m"]) (auto simp: s_def)
  qed
qed

lemma range_start: "(s div mapsize sb) * mapsize sb + s mod mapsize sb = s"
  by simp

lemma range_blocks:
  "(s + n + (mapsize sb - 1)) div mapsize sb
   = s div mapsize sb + (s mod mapsize sb + n + (mapsize sb - 1)) div mapsize sb"
proof -
  have "s + n + (mapsize sb - 1) = (s mod mapsize sb + n + (mapsize sb - 1)) + (s div mapsize sb) * mapsize sb"
    by simp
  then show ?thesis by (metis add.commute div_mult_self1 mapsize_pos not_gr_zero)
qed

lemma bitmap_modify_marks:
  assumes "wf_bsb sb" and "0 < n" and "s + n \<le> volblocks sb" and "bitmap_modify sb s n st = (e, sb')"
  shows "\<exists>m\<le>n. marks sb sb' s m st \<and> (e = None \<longrightarrow> m = n) \<and> (good_io sb \<longrightarrow> e = None)"
proof -
  have "bitmap_modify_loop sb (s div mapsize sb) ((s + n + (mapsize sb - 1)) div mapsize sb)
          (s mod mapsize sb) n st = (e, sb')"
    using assms(2-4) by (simp add: bitmap_modify_def)
  from bitmap_modify_loop_marks [OF assms(1) _ _ range_blocks this] assms(2) show ?thesis by simp
qed

lemma bitmap_test_and_modify_marks:
  assumes "wf_bsb sb" and "0 < n" and "s + n \<le> volblocks sb"
    and "bitmap_test_and_modify sb s n st = (e, sb')"
  shows "\<exists>m\<le>n. marks sb sb' s m st \<and> (e = None \<longrightarrow> m = n) \<and>
      (\<forall>b. s \<le> b \<and> b < s + m \<longrightarrow> allocated sb b \<noteq> st) \<and>
      (good_io sb \<and> e \<noteq> None \<longrightarrow> e = Some EIO \<and> (\<exists>b. s + m \<le> b \<and> b < s + n \<and> allocated sb b = st))"
proof -
  have "bitmap_test_and_modify_loop sb (s div mapsize sb) ((s + n + (mapsize sb - 1)) div mapsize sb)
          (s mod mapsize sb) n st = (e, sb')"
    using assms(2-4) by (simp add: bitmap_test_and_modify_def)
  from bitmap_test_and_modify_loop_marks [OF assms(1) _ _ range_blocks this] assms(2) show ?thesis
    by (simp only: range_start) simp
qed

lemma modify_assert:
  "\<not> (0 < n \<and> s + n \<le> volblocks sb) \<Longrightarrow> bitmap_modify sb s n st = (Some ASSERT, sb)"
  "\<not> (0 < n \<and> s + n \<le> volblocks sb) \<Longrightarrow> bitmap_test_and_modify sb s n st = (Some ASSERT, sb)"
  by (auto simp: bitmap_modify_def bitmap_test_and_modify_def)

section \<open>The free block counter\<close>

definition count_inv :: "bsb \<Rightarrow> bool" where
  "count_inv sb \<longleftrightarrow> freeblocks sb = int (card {b. b < volblocks sb \<and> \<not> allocated sb b})"

lemma marks_count:
  assumes m: "marks sb sb' s n st" and old: "\<And>b. s \<le> b \<Longrightarrow> b < s + n \<Longrightarrow> allocated sb b \<noteq> st"
    and le: "s + n \<le> volblocks sb" and "count_inv sb"
  shows "count_inv sb'"
proof -
  let ?F = "\<lambda>sb. {b. b < volblocks sb \<and> \<not> allocated sb b}"
  have fin: "finite (?F sb)" by simp
  have V: "volblocks sb' = volblocks sb" and fb: "freeblocks sb' = freeblocks sb + (if st then - int n else int n)"
    using m by (simp_all add: marks_def)
  have al: "allocated sb' b = (if s \<le> b \<and> b < s + n then st else allocated sb b)" for b
    using m by (rule marks_allocated)
  have "int (card (?F sb')) = int (card (?F sb)) + (if st then - int n else int n)"
  proof (cases st)
    case True
    then have "?F sb' = ?F sb - {s..<s + n}" by (auto simp: al V)
    moreover have "{s..<s + n} \<subseteq> ?F sb" using old le True by auto
    ultimately show ?thesis using fin True card_mono [OF fin, of "{s..<s + n}"]
      by (simp add: card_Diff_subset)
  next
    case False
    then have "?F sb' = ?F sb \<union> {s..<s + n}" using le by (auto simp: al V)
    moreover have "?F sb \<inter> {s..<s + n} = {}" using old False by auto
    ultimately show ?thesis using fin False by (simp add: card_Un_disjoint)
  qed
  with assms(4) fb show ?thesis by (simp add: count_inv_def)
qed

lemma test_and_modify_inv:
  assumes "wf_bsb sb" and "count_inv sb" and "bitmap_test_and_modify sb s n st = (e, sb')"
  shows "wf_bsb sb' \<and> count_inv sb' \<and> volblocks sb' = volblocks sb \<and> nextblock sb' = nextblock sb"
proof (cases "0 < n \<and> s + n \<le> volblocks sb")
  case True
  then obtain m where m: "m \<le> n" "marks sb sb' s m st" "\<forall>b. s \<le> b \<and> b < s + m \<longrightarrow> allocated sb b \<noteq> st"
    using bitmap_test_and_modify_marks [OF assms(1) _ _ assms(3)] by blast
  then have "count_inv sb'" using marks_count [OF m(2)] assms(2) True by auto
  with m(2) show ?thesis by (simp add: marks_def)
next
  case False
  then show ?thesis using modify_assert(2) [of n s sb st] assms by auto
qed

section \<open>The search\<close>

definition free_run :: "bsb \<Rightarrow> nat \<Rightarrow> nat \<Rightarrow> bool" where
  "free_run sb s n \<longleftrightarrow> (\<forall>b. s \<le> b \<and> b < s + n \<longrightarrow> \<not> allocated sb b)"

text \<open>
  The invariant of both loops at block \<open>pos\<close>: the blocks from \<open>r\<close> to \<open>pos\<close> are the free run that
  ends at \<open>pos\<close>, \<open>need\<close> more are wanted, and no run of \<open>blocks\<close> free blocks ends before.
\<close>

definition run_inv :: "bsb \<Rightarrow> nat \<Rightarrow> nat \<Rightarrow> nat \<Rightarrow> nat \<Rightarrow> bool" where
  "run_inv sb lo pos blocks need \<longleftrightarrow>
     (\<exists>r. lo \<le> r \<and> r \<le> pos \<and> pos + need = r + blocks \<and> 0 < need \<and> free_run sb r (pos - r) \<and>
        (lo < r \<longrightarrow> allocated sb (r - 1)) \<and>
        (\<forall>s. lo \<le> s \<and> s + blocks \<le> pos \<longrightarrow> \<not> free_run sb s blocks))"

definition seg_ok :: "bsb \<Rightarrow> nat \<Rightarrow> block_segment \<Rightarrow> bool" where
  "seg_ok sb blocks seg \<longleftrightarrow>
     seg_count seg \<le> blocks \<and> free_run sb (seg_block seg) (seg_count seg) \<and>
     seg_block seg + seg_count seg \<le> volblocks sb"

lemma run_inv_start: "0 < blocks \<Longrightarrow> run_inv sb lo lo blocks blocks"
  by (auto simp: run_inv_def free_run_def)

lemma run_inv_need: "run_inv sb lo pos blocks need \<Longrightarrow> 0 < need \<and> need \<le> blocks \<and> lo + (blocks - need) \<le> pos"
  by (auto simp: run_inv_def)

lemma run_inv_none: "run_inv sb lo pos blocks need \<Longrightarrow> lo \<le> s \<Longrightarrow> s + blocks \<le> pos \<Longrightarrow> \<not> free_run sb s blocks"
  by (auto simp: run_inv_def)

lemma run_inv_free: "run_inv sb lo pos blocks need \<Longrightarrow> free_run sb (pos - (blocks - need)) (blocks - need)"
proof -
  assume "run_inv sb lo pos blocks need"
  then obtain r where "r \<le> pos" "pos + need = r + blocks" "0 < need" "free_run sb r (pos - r)"
    by (auto simp: run_inv_def)
  moreover from this have "pos - (blocks - need) = r" "blocks - need = pos - r" by linarith+
  ultimately show ?thesis by simp
qed

text \<open>Going over free blocks: the run grows, until it is long enough.\<close>

lemma run_inv_extend:
  assumes inv: "run_inv sb lo pos blocks need" and free: "free_run sb pos d" and "d < need"
  shows "run_inv sb lo (pos + d) blocks (need - d)"
proof -
  from inv obtain r where r: "lo \<le> r" "r \<le> pos" "pos + need = r + blocks" "free_run sb r (pos - r)"
      "lo < r \<longrightarrow> allocated sb (r - 1)" by (auto simp: run_inv_def)
  have "\<not> free_run sb s blocks" if s: "lo \<le> s" "s + blocks \<le> pos + d" for s
  proof (cases "s + blocks \<le> pos")
    case True
    with inv s show ?thesis by (simp add: run_inv_none)
  next
    case False
    with s r assms(3) have "lo < r" "s \<le> r - 1" "r - 1 < s + blocks" by linarith+
    with r(5) show ?thesis by (auto simp: free_run_def)
  qed
  moreover have "free_run sb r (pos + d - r)"
    using r(2,4) free unfolding free_run_def by (auto; metis linorder_not_le)
  ultimately show ?thesis
    using r assms(3) by (intro run_inv_def [THEN iffD2] exI [of _ r]) auto
qed

lemma run_inv_found:
  assumes "run_inv sb lo pos blocks need" and "free_run sb pos need"
  shows "free_run sb (pos + need - blocks) blocks \<and> lo \<le> pos + need - blocks \<and> blocks \<le> pos + need"
proof -
  from assms(1) obtain r where r: "lo \<le> r" "r \<le> pos" "pos + need = r + blocks" "free_run sb r (pos - r)"
    by (auto simp: run_inv_def)
  then have "free_run sb r blocks"
    using assms(2) unfolding free_run_def by (auto; metis linorder_not_le)
  with r show ?thesis by simp
qed

text \<open>Going over allocated blocks: the run starts again.\<close>

lemma run_inv_break:
  assumes inv: "run_inv sb lo pos blocks need" and "0 < d"
    and al: "\<And>b. pos \<le> b \<Longrightarrow> b < pos + d \<Longrightarrow> allocated sb b"
  shows "run_inv sb lo (pos + d) blocks blocks"
proof -
  have nb: "0 < blocks" "lo \<le> pos" using run_inv_need [OF inv] by linarith+
  have "\<not> free_run sb s blocks" if s: "lo \<le> s" "s + blocks \<le> pos + d" for s
  proof (cases "s + blocks \<le> pos")
    case True
    with inv s show ?thesis by (simp add: run_inv_none)
  next
    case False
    then have "allocated sb (max s pos)" using al [of "max s pos"] s nb assms(2) by auto
    moreover have "s \<le> max s pos" "max s pos < s + blocks" using False nb by auto
    ultimately show ?thesis unfolding free_run_def by blast
  qed
  moreover have "allocated sb (pos + d - 1)" using al [of "pos + d - 1"] assms(2) by auto
  ultimately show ?thesis
    using nb by (intro run_inv_def [THEN iffD2] exI [of _ "pos + d"]) (auto simp: free_run_def)
qed

lemma seg_ok_save:
  "seg_ok sb blocks seg \<Longrightarrow> free_run sb s n \<Longrightarrow> n \<le> blocks \<Longrightarrow> s + n \<le> volblocks sb \<Longrightarrow>
   seg_ok sb blocks (save_seg seg s n)"
  by (simp add: seg_ok_def save_seg_def)

text \<open>One bitmap block.\<close>

lemma scan_block_ok:
  assumes "run_inv sb lo (k * mapsize sb + off) blocks need" and "off \<le> lim" and "lim \<le> mapsize sb"
    and "k * mapsize sb + lim \<le> volblocks sb" and "seg_ok sb blocks seg"
  shows "case scan_block (bitmap sb k) (k * mapsize sb) lim blocks off need seg of
      Found f seg' \<Rightarrow> free_run sb f blocks \<and> lo \<le> f \<and> f + blocks \<le> k * mapsize sb + lim \<and> seg_ok sb blocks seg'
    | Break need' seg' \<Rightarrow> run_inv sb lo (k * mapsize sb + lim) blocks need' \<and> seg_ok sb blocks seg'"
  using assms
proof (induction "bitmap sb k" "k * mapsize sb" lim blocks off need seg rule: scan_block.induct)
  case (1 lim blocks off need seg)
  define base where "base = k * mapsize sb"
  define mapnext where "mapnext = min (off + need) lim"
  define idx where "idx = find_next_bit (long_at (bitmap sb k)) mapnext off"
  define need' where "need' = need - (idx - off)"
  have need: "0 < need" "need \<le> blocks" using run_inv_need [OF "1.prems"(1)] by simp_all
  have bit: "bmap (bitmap sb k) i = allocated sb (base + i)" if "i < mapsize sb" for i
    using that by (simp add: base_def allocated_block)
  have idx: "first_from (bmap (bitmap sb k)) off mapnext idx"
    using "1.prems"(2) need by (auto simp: idx_def mapnext_def find_bitmap intro!: scan_first)
  have idx_le: "off \<le> idx" "idx \<le> mapnext" "mapnext \<le> lim" "idx \<le> off + need"
    using idx by (auto simp: first_from_def mapnext_def)
  have free: "free_run sb (base + off) (idx - off)"
    unfolding free_run_def
  proof (intro allI impI)
    fix b assume b: "base + off \<le> b \<and> b < base + off + (idx - off)"
    then obtain i where i: "b = base + i" by (metis le_add1 le_iff_add le_trans)
    with b idx_le have "off \<le> i" "i < idx" by linarith+
    with idx "1.prems"(3) idx_le bit [of i] i show "\<not> allocated sb b" by (auto simp: first_from_def)
  qed
  note unf = scan_block.simps [of "bitmap sb k" base lim blocks off need seg, folded mapnext_def, unfolded Let_def,
      folded idx_def, folded need'_def]
  show ?case
  proof (cases "idx = mapnext")
    case True
    show ?thesis
    proof (cases "need' = 0")
      case True
      then have d: "idx - off = need" using idx_le need'_def by linarith
      with run_inv_found [OF "1.prems"(1)] free
      have "free_run sb (base + off + need - blocks) blocks" "lo \<le> base + off + need - blocks"
        "blocks \<le> base + off + need" by (simp_all add: base_def)
      moreover have "base + idx = base + off + need" using d idx_le by simp
      ultimately show ?thesis
        using True \<open>idx = mapnext\<close> idx_le "1.prems"(4,5) unfolding base_def [symmetric]
        by (simp add: unf seg_ok_save add.assoc)
    next
      case False
      then have d: "idx - off < need" by (simp add: need'_def)
      then have "idx = lim" using True idx_le by (auto simp: mapnext_def)
      with run_inv_extend [OF "1.prems"(1), folded base_def, OF free d] idx_le
      have "run_inv sb lo (base + lim) blocks need'" by (simp add: need'_def)
      with False True "1.prems"(5) show ?thesis unfolding base_def [symmetric] by (simp add: unf)
    qed
  next
    case False
    define seg1 where "seg1 = (if need' < blocks then save_seg seg (base + idx - (blocks - need')) (blocks - need') else seg)"
    define mo where "mo = find_next_zero_bit (long_at (bitmap sb k)) lim (idx + 1)"
    note unf2 = unf [folded seg1_def, folded mo_def]
    have lt: "idx < mapnext" "idx < lim" and d: "idx - off < need"
      using False idx_le by (auto simp: mapnext_def)
    have ext: "run_inv sb lo (base + idx) blocks need'"
      using run_inv_extend [OF "1.prems"(1), folded base_def, OF free d] idx_le by (simp add: need'_def)
    have seg1: "seg_ok sb blocks seg1"
      using run_inv_free [OF ext] run_inv_need [OF ext] "1.prems"(4,5) lt
      by (auto simp: seg1_def base_def intro!: seg_ok_save)
    have mo: "first_from (\<lambda>i. \<not> bmap (bitmap sb k) i) (idx + 1) lim mo"
      using lt by (auto simp: mo_def find_zero_bitmap intro!: scan_first)
    have al: "allocated sb b" if b: "base + idx \<le> b" "b < base + idx + (mo - idx)" for b
    proof -
      from b(1) obtain i where i: "b = base + i" by (metis le_add1 le_iff_add le_trans)
      with b mo have "idx \<le> i" "i < mo" "i < lim" by (auto simp: first_from_def)
      with idx lt mo bit [of i] i "1.prems"(3) show ?thesis
        by (cases "i = idx") (auto simp: first_from_def)
    qed
    have mo_le: "idx < mo" "mo \<le> lim" using mo by (auto simp: first_from_def)
    have brk: "run_inv sb lo (base + mo) blocks blocks"
      using run_inv_break [where d = "mo - idx", OF ext _ al] mo_le by simp
    show ?thesis
    proof (cases "mo = lim")
      case True
      with brk seg1 False show ?thesis unfolding base_def [symmetric]
        by (simp add: unf2)
    next
      case False
      have step: "scan_block (bitmap sb k) base lim blocks off need seg
          = scan_block (bitmap sb k) base lim blocks mo blocks seg1"
        using False \<open>idx \<noteq> mapnext\<close> by (simp add: unf2)
      show ?thesis unfolding step [unfolded base_def]
        using "1.hyps" [OF mapnext_def idx_def need'_def \<open>idx \<noteq> mapnext\<close> seg1_def [unfolded base_def] mo_def False]
          brk [unfolded base_def] mo_le seg1 "1.prems"(3,4) by simp
    qed
  qed
qed

text \<open>The whole search.  \<open>none_in\<close> says that no run of the wanted size lies in the searched
  range before the end of the volume, nor in the part searched after wrapping.\<close>

definition none_in :: "bsb \<Rightarrow> nat \<Rightarrow> nat \<Rightarrow> nat \<Rightarrow> bool" where
  "none_in sb lo stop blocks \<longleftrightarrow>
     (\<forall>s. lo \<le> s \<and> s + blocks \<le> stop \<and> s + blocks \<le> volblocks sb \<longrightarrow> \<not> free_run sb s blocks) \<and>
     (\<forall>s. s + blocks + volblocks sb \<le> stop \<longrightarrow> \<not> free_run sb s blocks)"

definition search_ok :: "bsb \<Rightarrow> nat \<Rightarrow> nat \<Rightarrow> nat \<Rightarrow> search_result \<Rightarrow> bool" where
  "search_ok sb lo stop blocks res =
     (case res of
        SFound f k seg \<Rightarrow> free_run sb f blocks \<and> f + blocks \<le> volblocks sb \<and> f + blocks \<le> Suc k * mapsize sb
      | Exhausted seg \<Rightarrow> seg_ok sb blocks seg \<and> none_in sb lo stop blocks
      | ReadFailed seg \<Rightarrow> \<not> good_io sb
      | Hang \<Rightarrow> False)"

lemma run_inv_none_in:
  "run_inv sb lo pos blocks need \<Longrightarrow> pos \<le> volblocks sb \<Longrightarrow> none_in sb lo pos blocks"
  using run_inv_need [of sb lo pos blocks need] by (auto simp: none_in_def run_inv_none)

lemma search_ok_wrap:
  assumes "search_ok sb 0 len blocks res" and "len \<le> volblocks sb"
    and "run_inv sb lo (volblocks sb) blocks need"
  shows "search_ok sb lo (volblocks sb + len) blocks res"
  using assms run_inv_none [OF assms(3)] by (auto simp: search_ok_def none_in_def split: search_result.splits)

text \<open>The state with which a step of the outer loop looks at a bitmap block.\<close>

lemma wrap_seg_ok:
  assumes "run_inv sb lo (volblocks sb) blocks need" and "seg_ok sb blocks seg"
  shows "seg_ok sb blocks (save_seg seg (volblocks sb - (blocks - need)) (blocks - need))"
  using assms run_inv_free [OF assms(1)] run_inv_need [OF assms(1)] by (auto intro!: seg_ok_save)

lemma balloc_search_ok:
  assumes "run_inv sb lo start blocks need" and "start \<le> volblocks sb" and "len \<le> volblocks sb"
    and "seg_ok sb blocks seg"
  shows "search_ok sb lo (start + len) blocks (balloc_search sb start len blocks need seg)"
  using assms
proof (induction sb start len blocks need seg arbitrary: lo rule: balloc_search.induct)
  case (1 sb start len blocks need seg)
  let ?V = "volblocks sb" and ?M = "mapsize sb"
  define seg1 where "seg1 = (if ?V \<le> start \<and> need < blocks
                    then save_seg seg (?V - (blocks - need)) (blocks - need) else seg)"
  define need1 where "need1 = (if ?V \<le> start then blocks else need)"
  define st where "st = (if ?V \<le> start then 0 else start)"
  define k where "k = st div ?M"
  define base where "base = k * ?M"
  define off where "off = st mod ?M"
  define ml where "ml = min ?M (off + len)"
  define lim where "lim = (if ?V < base + ml then ?V mod ?M else ml)"
  define maplen where "maplen = lim - off"
  note unf = balloc_search.simps [of sb start len blocks need seg, unfolded Let_def, folded seg1_def need1_def st_def,
      folded k_def off_def, folded base_def, folded ml_def, folded lim_def, folded maplen_def]
  have nb: "0 < blocks" using run_inv_need [OF "1.prems"(1)] by linarith
  show ?case
  proof (cases "0 < len")
    case False
    then show ?thesis unfolding unf
      using "1.prems" run_inv_none_in [OF "1.prems"(1,2)] by (simp add: search_ok_def)
  next
    case len: True
    then have V: "0 < ?V" using "1.prems"(3) by linarith
    have stV: "st < ?V" using V by (simp add: st_def)
    define lo1 where "lo1 = (if ?V \<le> start then 0 else lo)"
    have startV: "start = ?V" if "?V \<le> start" using that "1.prems"(2) by simp
    have inv1: "run_inv sb lo1 st blocks need1"
      using "1.prems"(1) run_inv_start [OF nb] by (simp add: lo1_def st_def need1_def)
    have seg1: "seg_ok sb blocks seg1"
      using "1.prems"(1,4) startV wrap_seg_ok [of sb lo blocks need seg] by (auto simp: seg1_def)
    note geo = search_geometry [OF stV mapsize_pos len base_def [unfolded k_def] off_def ml_def lim_def]
    have "search_ok sb lo1 (st + len) blocks (balloc_search sb start len blocks need seg)"
    proof (cases "rd_fails sb k")
      case True
      then show ?thesis using len V by (simp add: unf search_ok_def bm_blockread_def good_io_def) blast
    next
      case False
      then have rd: "bm_blockread sb k = Some (bitmap sb k)" by (simp add: bm_blockread_def)
      note scan = scan_block_ok [of sb lo1 k off blocks need1 lim seg1, folded base_def,
          unfolded geo(1), OF inv1 less_imp_le [OF geo(2)] geo(3,4) seg1]
      show ?thesis
      proof (cases "scan_block (bitmap sb k) base lim blocks off need1 seg1")
        case (Found f seg')
        with scan geo(3,4) show ?thesis using len V rd
          by (auto simp: unf search_ok_def base_def)
      next
        case (Break need' seg')
        have step: "balloc_search sb start len blocks need seg
            = balloc_search sb (st + maplen) (len - maplen) blocks need' seg'"
          using len V rd Break by (simp add: unf)
        have pos: "st + maplen = base + lim" and tot: "st + maplen + (len - maplen) = st + len"
          using geo by (simp_all add: maplen_def)
        have "search_ok sb lo1 (st + maplen + (len - maplen)) blocks
                (balloc_search sb (st + maplen) (len - maplen) blocks need' seg')"
          by (rule "1.IH" [OF len _ seg1_def need1_def st_def k_def base_def off_def ml_def lim_def
                maplen_def rd Break]) (use V scan Break pos geo(4) "1.prems"(3) in auto)
        then show ?thesis by (simp only: step tot)
      qed
    qed
    then show ?thesis
      using search_ok_wrap [of sb len blocks _ lo need] "1.prems"(1,3) startV
      by (cases "?V \<le> start") (auto simp: lo1_def st_def)
  qed
qed

section \<open>Allocation\<close>

lemma allocated_nextblock [simp]: "allocated (sb\<lparr>nextblock := x\<rparr>) b = allocated sb b"
  by (simp add: allocated_def mapsize_def)

lemma mapsize_nextblock [simp]: "mapsize (sb\<lparr>nextblock := x\<rparr>) = mapsize sb"
  by (simp add: mapsize_def)

lemma wf_bsb_nextblock [simp]: "wf_bsb (sb\<lparr>nextblock := x\<rparr>) = wf_bsb sb"
  by (simp add: wf_bsb_def)

lemma count_inv_nextblock [simp]: "count_inv (sb\<lparr>nextblock := x\<rparr>) = count_inv sb"
  by (simp add: count_inv_def)

lemma balloc_take_ok:
  assumes "\<exists>m\<le>n. marks sb sb1 f m True \<and> (e = None \<longrightarrow> m = n) \<and> (good_io sb \<longrightarrow> e = None)"
    and "balloc_take sb f n seg (e, sb1) = (e', seg', sb')"
  shows "e' = e \<and> (good_io sb \<longrightarrow> e' = None) \<and>
    (e' = None \<longrightarrow> seg' = \<lparr>seg_block = f, seg_count = n\<rparr> \<and>
       nextblock sb' = (if volblocks sb \<le> f + n then 0 else f + n)) \<and>
    (\<exists>m\<le>n. marks sb (sb'\<lparr>nextblock := nextblock sb\<rparr>) f m True \<and> (e' = None \<longrightarrow> m = n))"
proof -
  have "marks sb (sb1\<lparr>nextblock := x, nextblock := nextblock sb\<rparr>) f m True" if "marks sb sb1 f m True" for m x
    using that by (simp add: marks_def)
  moreover have "marks sb (sb1\<lparr>nextblock := nextblock sb\<rparr>) f m True" if "marks sb sb1 f m True" for m
    using that by (simp add: marks_def)
  ultimately show ?thesis using assms by (auto simp: balloc_take_def split: option.splits)
qed

text \<open>Taking a free run of the search: \<open>found_range\<close> and \<open>found_partial\<close> mark it.\<close>

lemma take_marks:
  assumes "wf_bsb sb" and "0 < n" and "f + n \<le> volblocks sb"
    and "f div mapsize sb = k \<longrightarrow> f + n \<le> Suc k * mapsize sb"
    and r: "(if f div mapsize sb = k then bitmap_modify_bits sb k (f mod mapsize sb) n True
             else bitmap_modify sb f n True) = (e, sb1)"
  shows "\<exists>m\<le>n. marks sb sb1 f m True \<and> (e = None \<longrightarrow> m = n) \<and> (good_io sb \<longrightarrow> e = None)"
proof (cases "f div mapsize sb = k")
  case True
  then have f: "f = k * mapsize sb + f mod mapsize sb" by (metis div_mult_mod_eq)
  with assms(4) True have le: "f mod mapsize sb + n \<le> mapsize sb" by simp
  have r': "bitmap_modify_bits sb k (f mod mapsize sb) n True = (e, sb1)" using r True by simp
  show ?thesis
  proof (cases e)
    case None
    have "marks sb sb1 (k * mapsize sb + f mod mapsize sb) n True"
      using bitmap_modify_bits_marks(1) [OF assms(1)] r' None by blast
    with None f show ?thesis by (metis order_refl)
  next
    case (Some x)
    then have "sb1 = sb" using r' bitmap_modify_bits_error by blast
    moreover have "\<not> good_io sb" using bitmap_modify_bits_io [OF _ assms(2) le, of k True] r' Some by auto
    ultimately show ?thesis using Some assms(1) by (auto intro: exI [of _ 0] marks_refl)
  qed
next
  case False
  with r bitmap_modify_marks [OF assms(1,2,3)] show ?thesis by simp
qed

text \<open>What \<open>balloc_from_range\<close> promises, on every way out.\<close>

definition alloc_spec :: "bsb \<Rightarrow> nat \<Rightarrow> bool \<Rightarrow> err \<Rightarrow> block_segment \<Rightarrow> bsb \<Rightarrow> bool" where
  "alloc_spec sb blocks partial e seg sb' \<longleftrightarrow>
     (e = None \<longrightarrow> 0 < seg_count seg \<and> seg_count seg \<le> blocks \<and> (seg_count seg = blocks \<or> partial) \<and>
        free_run sb (seg_block seg) (seg_count seg) \<and> seg_block seg + seg_count seg \<le> volblocks sb \<and>
        marks sb (sb'\<lparr>nextblock := nextblock sb\<rparr>) (seg_block seg) (seg_count seg) True \<and>
        nextblock sb' = (if volblocks sb \<le> seg_block seg + seg_count seg then 0
                         else seg_block seg + seg_count seg))"

lemma balloc_from_range_cases:
  assumes "wf_bsb sb" and "0 < blocks" and "start \<le> volblocks sb" and "len \<le> volblocks sb"
    and r: "balloc_from_range sb start len blocks partial = (e, seg, sb')"
  shows "alloc_spec sb blocks partial e seg sb' \<and>
    (e = None \<or> (\<exists>s m. s + m \<le> volblocks sb \<and> free_run sb s m \<and> marks sb (sb'\<lparr>nextblock := nextblock sb\<rparr>) s m True \<and>
        nextblock sb' = nextblock sb)) \<and>
    (good_io sb \<and> e \<noteq> None \<longrightarrow>
       e = Some ENOSPC \<and> sb' = sb \<and> none_in sb start (start + len) blocks \<and> (partial \<longrightarrow> seg_count seg = 0))"
proof -
  let ?seg0 = "\<lparr>seg_block = 0, seg_count = 0\<rparr>"
  have ok0: "seg_ok sb blocks ?seg0" by (simp add: seg_ok_def free_run_def)
  have sok: "search_ok sb start (start + len) blocks (balloc_search sb start len blocks blocks ?seg0)"
    by (rule balloc_search_ok [OF run_inv_start [OF assms(2)] assms(3,4) ok0])
  have keep: "\<exists>s m. s + m \<le> volblocks sb \<and> free_run sb s m \<and> marks sb (sb\<lparr>nextblock := nextblock sb\<rparr>) s m True"
    using marks_refl [OF assms(1)] by (intro exI [of _ 0]) (simp add: free_run_def)
  have taken: "alloc_spec sb blocks partial e seg sb' \<and>
    (e = None \<or> (\<exists>s m. s + m \<le> volblocks sb \<and> free_run sb s m \<and> marks sb (sb'\<lparr>nextblock := nextblock sb\<rparr>) s m True \<and>
        nextblock sb' = nextblock sb)) \<and> (good_io sb \<longrightarrow> e = None)"
    if run: "free_run sb f n" "f + n \<le> volblocks sb" "0 < n" "n \<le> blocks" "n = blocks \<or> partial"
      and mk: "\<exists>m\<le>n. marks sb sb1 f m True \<and> (e1 = None \<longrightarrow> m = n) \<and> (good_io sb \<longrightarrow> e1 = None)"
      and tk: "balloc_take sb f n seg1 (e1, sb1) = (e, seg, sb')" for f n e1 sb1 seg1
  proof -
    obtain m where m: "m \<le> n" "marks sb (sb'\<lparr>nextblock := nextblock sb\<rparr>) f m True" "e = None \<longrightarrow> m = n"
      and rest: "good_io sb \<longrightarrow> e = None" "e = None \<longrightarrow> seg = \<lparr>seg_block = f, seg_count = n\<rparr> \<and>
         nextblock sb' = (if volblocks sb \<le> f + n then 0 else f + n)"
      using balloc_take_ok [OF mk tk] by blast
    have "free_run sb f m" "f + m \<le> volblocks sb" using run m(1) by (auto simp: free_run_def)
    moreover have "e = None \<or> nextblock sb' = nextblock sb"
      using tk mk by (auto simp: balloc_take_def marks_def split: option.splits)
    moreover have "alloc_spec sb blocks partial e seg sb'"
      using m(2,3) rest(2) run unfolding alloc_spec_def by (cases e) auto
    ultimately show ?thesis using m(2) rest(1) by blast
  qed
  note bfr = r [unfolded balloc_from_range_def Let_def]
  show ?thesis
  proof (cases "balloc_search sb start len blocks blocks ?seg0")
    case (SFound f k seg1)
    obtain e1 sb1 where r1: "(if f div mapsize sb = k then bitmap_modify_bits sb k (f mod mapsize sb) blocks True
             else bitmap_modify sb f blocks True) = (e1, sb1)" by fastforce
    have f: "free_run sb f blocks" "f + blocks \<le> volblocks sb" "f + blocks \<le> Suc k * mapsize sb"
      using sok SFound by (simp_all add: search_ok_def)
    have tk: "balloc_take sb f blocks seg1 (e1, sb1) = (e, seg, sb')"
      using bfr assms(2,4) SFound r1 by simp
    show ?thesis
      using taken [OF f(1,2) assms(2) _ _ take_marks [OF assms(1,2) f(2) _ r1] tk] f(3) by auto
  next
    case (Exhausted seg1)
    then have s1: "seg_ok sb blocks seg1" "none_in sb start (start + len) blocks"
      using sok by (simp_all add: search_ok_def)
    show ?thesis
    proof (cases "partial \<and> seg_count seg1 \<noteq> 0")
      case True
      obtain e1 sb1 where r1: "bitmap_modify sb (seg_block seg1) (seg_count seg1) True = (e1, sb1)" by fastforce
      have f: "free_run sb (seg_block seg1) (seg_count seg1)" "seg_block seg1 + seg_count seg1 \<le> volblocks sb"
        "0 < seg_count seg1" "seg_count seg1 \<le> blocks" using s1 True by (simp_all add: seg_ok_def)
      have tk: "balloc_take sb (seg_block seg1) (seg_count seg1) seg1 (e1, sb1) = (e, seg, sb')"
        using bfr assms(2,4) Exhausted True r1 by simp
      show ?thesis using taken [OF f _ bitmap_modify_marks [OF assms(1) f(3,2) r1] tk] True by auto
    next
      case False
      then have "e = Some ENOSPC" "sb' = sb" "seg = seg1" using bfr assms(2,4) Exhausted by auto
      with s1 False keep show ?thesis by (auto simp: alloc_spec_def)
    qed
  next
    case (ReadFailed seg1)
    then have "e = Some EIO" "sb' = sb" "\<not> good_io sb" using bfr assms(2,4) sok by (auto simp: search_ok_def)
    with keep show ?thesis by (auto simp: alloc_spec_def)
  next
    case Hang
    with sok show ?thesis by (simp add: search_ok_def)
  qed
qed

text \<open>The \<open>Hang\<close> branch cannot be reached through \<open>balloc_from_range\<close>.\<close>

lemma search_not_hang:
  assumes "0 < blocks" and "start \<le> volblocks sb" and "len \<le> volblocks sb"
  shows "balloc_search sb start len blocks blocks \<lparr>seg_block = 0, seg_count = 0\<rparr> \<noteq> Hang"
  using balloc_search_ok [OF run_inv_start [OF assms(1)] assms(2,3), of "\<lparr>seg_block = 0, seg_count = 0\<rparr>"]
  by (auto simp: search_ok_def seg_ok_def free_run_def)

section \<open>Sequences of operations\<close>

datatype balloc_op =
    Alloc nat
  | AllocPartial nat
  | Free nat nat
  | Replay nat nat bool

definition balloc_step :: "bsb \<Rightarrow> balloc_op \<Rightarrow> bsb" where
  "balloc_step sb op =
     (case op of
        Alloc n \<Rightarrow> snd (snd (balloc sb n))
      | AllocPartial n \<Rightarrow> snd (snd (balloc_partial sb n))
      | Free s n \<Rightarrow> snd (bfree sb s n)
      | Replay s n st \<Rightarrow> snd (replay_update_bitmap sb s n st))"

definition balloc_inv :: "bsb \<Rightarrow> bool" where
  "balloc_inv sb \<longleftrightarrow> wf_bsb sb \<and> count_inv sb \<and> nextblock sb \<le> volblocks sb"

lemma balloc_goal_inv:
  assumes inv: "balloc_inv sb" and r: "balloc_goal sb n partial = (e, seg, sb')"
  shows "balloc_inv sb'"
proof (cases "0 < n")
  case False
  with r inv show ?thesis by (simp add: balloc_goal_def balloc_from_range_def)
next
  case True
  have sb: "wf_bsb sb" "count_inv sb" "nextblock sb \<le> volblocks sb" using inv by (simp_all add: balloc_inv_def)
  note c = balloc_from_range_cases [OF sb(1) True sb(3) order_refl r [unfolded balloc_goal_def]]
  have "\<exists>s m. s + m \<le> volblocks sb \<and> free_run sb s m \<and> marks sb (sb'\<lparr>nextblock := nextblock sb\<rparr>) s m True \<and>
      nextblock sb' \<le> volblocks sb"
  proof (cases "e = None")
    case True
    with c have "alloc_spec sb n partial None seg sb'" by blast
    then show ?thesis unfolding alloc_spec_def
      by (intro exI [of _ "seg_block seg"] exI [of _ "seg_count seg"]) auto
  next
    case False
    with c obtain s m where "s + m \<le> volblocks sb" "free_run sb s m"
        "marks sb (sb'\<lparr>nextblock := nextblock sb\<rparr>) s m True" "nextblock sb' = nextblock sb" by blast
    with sb(3) show ?thesis by (intro exI [of _ s] exI [of _ m]) simp
  qed
  then obtain s m where m: "s + m \<le> volblocks sb" "free_run sb s m"
      "marks sb (sb'\<lparr>nextblock := nextblock sb\<rparr>) s m True" "nextblock sb' \<le> volblocks sb" by blast
  have "count_inv (sb'\<lparr>nextblock := nextblock sb\<rparr>)"
    by (rule marks_count [OF m(3) _ m(1) sb(2)]) (use m(2) in \<open>auto simp: free_run_def\<close>)
  with m show ?thesis by (auto simp: balloc_inv_def marks_def)
qed

lemma balloc_step_inv: "balloc_inv sb \<Longrightarrow> balloc_inv (balloc_step sb op)"
proof (cases op)
  case (Alloc n)
  then show "balloc_inv sb \<Longrightarrow> ?thesis"
    by (cases "balloc sb n") (auto simp: balloc_step_def balloc_def intro: balloc_goal_inv)
next
  case (AllocPartial n)
  then show "balloc_inv sb \<Longrightarrow> ?thesis"
    by (cases "balloc_partial sb n") (auto simp: balloc_step_def balloc_partial_def intro: balloc_goal_inv)
next
  case (Free s n)
  then show "balloc_inv sb \<Longrightarrow> ?thesis"
    using test_and_modify_inv [of sb s n False]
    by (cases "bfree sb s n") (auto simp: balloc_step_def bfree_def balloc_inv_def)
next
  case (Replay s n st)
  then show "balloc_inv sb \<Longrightarrow> ?thesis"
    using test_and_modify_inv [of sb s n st]
    by (cases "replay_update_bitmap sb s n st") (auto simp: balloc_step_def replay_update_bitmap_def balloc_inv_def)
qed

section \<open>Counting\<close>

lemma bmap_byte: "j < 8 \<Longrightarrow> m < length data \<Longrightarrow> bmap data (8 * m + j) = bit (data ! m) j"
  by (simp add: bmap_def)

lemma sum_bytebits:
  "off + n \<le> length data \<Longrightarrow>
   sum_list (map bytebits (take n (drop off data))) = card {i. 8 * off \<le> i \<and> i < 8 * (off + n) \<and> bmap data i}"
proof (induction n)
  case (Suc n)
  let ?c = "data ! (off + n)"
  have "take (Suc n) (drop off data) = take n (drop off data) @ [?c]"
    using Suc.prems by (simp add: take_Suc_conv_app_nth)
  moreover have "{i. 8 * off \<le> i \<and> i < 8 * (off + Suc n) \<and> bmap data i} =
      {i. 8 * off \<le> i \<and> i < 8 * (off + n) \<and> bmap data i} \<union> (\<lambda>j. 8 * (off + n) + j) ` {j. bit ?c j}"
  proof (intro set_eqI iffI; elim CollectE UnE imageE conjE)
    fix i assume i: "8 * off \<le> i" "i < 8 * (off + Suc n)" "bmap data i"
    show "i \<in> {i. 8 * off \<le> i \<and> i < 8 * (off + n) \<and> bmap data i} \<union> (\<lambda>j. 8 * (off + n) + j) ` {j. bit ?c j}"
    proof (cases "i < 8 * (off + n)")
      case False
      then obtain j where j: "i = 8 * (off + n) + j" using le_Suc_ex by (metis not_le)
      with i(2) have "j < 8" by simp
      then have "bmap data i = bit ?c j" using Suc.prems unfolding j by (intro bmap_byte) simp_all
      with i(3) j show ?thesis by simp
    qed (use i in simp)
  next
    fix i j assume "i = 8 * (off + n) + j" "bit ?c j"
    moreover from this have "j < 8" by (auto dest: bit_imp_le_length)
    ultimately show "i \<in> {i. 8 * off \<le> i \<and> i < 8 * (off + Suc n) \<and> bmap data i}"
      using Suc.prems bmap_byte [of j "off + n" data] by simp
  qed simp
  moreover have "finite {j. bit ?c j}"
    by (rule finite_subset [of _ "{..<8}"]) (auto dest: bit_imp_le_length)
  moreover have "{i. 8 * off \<le> i \<and> i < 8 * (off + n) \<and> bmap data i} \<inter> (\<lambda>j. 8 * (off + n) + j) ` {j. bit ?c j} = {}"
    by auto
  ultimately show ?case
    using Suc by (simp add: card_Un_disjoint card_image bytebits_card)
qed simp

lemma block_bits:
  assumes "off + n \<le> 2 ^ blockbits sb"
  shows "card {b. 8 * (k * 2 ^ blockbits sb + off) \<le> b \<and> b < 8 * (k * 2 ^ blockbits sb + off + n) \<and> allocated sb b}
       = card {i. 8 * off \<le> i \<and> i < 8 * (off + n) \<and> bmap (bitmap sb k) i}"
proof -
  have "{b. 8 * (k * 2 ^ blockbits sb + off) \<le> b \<and> b < 8 * (k * 2 ^ blockbits sb + off + n) \<and> allocated sb b}
      = (\<lambda>i. k * mapsize sb + i) ` {i. 8 * off \<le> i \<and> i < 8 * (off + n) \<and> bmap (bitmap sb k) i}"
  proof (intro set_eqI iffI; elim CollectE imageE conjE)
    fix b assume b: "8 * (k * 2 ^ blockbits sb + off) \<le> b" "b < 8 * (k * 2 ^ blockbits sb + off + n)" "allocated sb b"
    have "k * mapsize sb \<le> b" using b(1) by (simp add: mapsize_8)
    then obtain i where i: "b = k * mapsize sb + i" using le_Suc_ex by blast
    have lt: "8 * off \<le> i" "i < 8 * (off + n)" using b(1,2) i by (simp_all add: mapsize_8)
    then have "i < mapsize sb" using assms by (simp add: mapsize_8)
    then have "allocated sb b = bmap (bitmap sb k) i" unfolding i by (rule allocated_block)
    with b(3) lt i show "b \<in> (\<lambda>i. k * mapsize sb + i) ` {i. 8 * off \<le> i \<and> i < 8 * (off + n) \<and> bmap (bitmap sb k) i}"
      by blast
  next
    fix b i assume i: "b = k * mapsize sb + i" "8 * off \<le> i" "i < 8 * (off + n)" "bmap (bitmap sb k) i"
    then have "i < mapsize sb" using assms by (simp add: mapsize_8)
    with i show "b \<in> {b. 8 * (k * 2 ^ blockbits sb + off) \<le> b \<and> b < 8 * (k * 2 ^ blockbits sb + off + n) \<and> allocated sb b}"
      by (simp add: allocated_block) (simp add: mapsize_8)
  qed
  then show ?thesis by (simp add: card_image)
qed

lemma card_split_range:
  assumes "a \<le> b" and "b \<le> (c :: nat)"
  shows "card {i. a \<le> i \<and> i < c \<and> P i} = card {i. a \<le> i \<and> i < b \<and> P i} + card {i. b \<le> i \<and> i < c \<and> P i}"
proof -
  have "{i. a \<le> i \<and> i < c \<and> P i} = {i. a \<le> i \<and> i < b \<and> P i} \<union> {i. b \<le> i \<and> i < c \<and> P i}"
    using assms by auto
  then show ?thesis by (simp add: card_Un_disjoint disjoint_iff)
qed

lemma count_range_loop_card:
  "wf_bsb sb \<Longrightarrow> good_io sb \<Longrightarrow> off \<le> 2 ^ blockbits sb \<Longrightarrow>
   block * 2 ^ blockbits sb + off + tail \<le> blocks * 2 ^ blockbits sb \<Longrightarrow>
    count_range_loop sb block blocks off tail n =
      Some (n + card {b. 8 * (block * 2 ^ blockbits sb + off) \<le> b \<and>
                         b < 8 * (block * 2 ^ blockbits sb + off + tail) \<and> allocated sb b})"
proof (induction sb block blocks off tail n rule: count_range_loop.induct)
  case (1 sb block blocks off tail n)
  let ?B = "2 ^ blockbits sb :: nat"
  show ?case
  proof (cases "block < blocks")
    case False
    then have "blocks * ?B \<le> block * ?B" by simp
    with "1.prems" have "tail = 0" by linarith
    with False show ?thesis by (simp add: count_range_loop.simps [of sb block])
  next
    case True
    define len where len_def: "len = min (?B - off) tail"
    let ?n = "n + sum_list (map bytebits (take len (drop off (bitmap sb block))))"
    have rd: "bm_blockread sb block = Some (bitmap sb block)"
      using "1.prems"(2) by (simp add: bm_blockread_def good_io_def)
    have le: "off + len \<le> ?B" using "1.prems"(3) by (simp add: len_def)
    have tl: "Suc block * ?B + (tail - len) = block * ?B + off + tail \<or> tail = len"
      using "1.prems"(3) by (auto simp: len_def min_def)
    have fit: "Suc block * ?B + 0 + (tail - len) \<le> blocks * ?B"
      using tl "1.prems"(4) True mult_le_mono1 [of "Suc block" blocks ?B] by auto
    have IH: "count_range_loop sb (Suc block) blocks 0 (tail - len) ?n =
        Some (?n + card {b. 8 * (Suc block * ?B) \<le> b \<and> b < 8 * (Suc block * ?B + (tail - len)) \<and> allocated sb b})"
      using "1.IH" [OF True rd len_def "1.prems"(1,2) _ fit] by simp
    have "sum_list (map bytebits (take len (drop off (bitmap sb block)))) =
        card {b. 8 * (block * ?B + off) \<le> b \<and> b < 8 * (block * ?B + off + len) \<and> allocated sb b}"
      using sum_bytebits [of off len "bitmap sb block"] le "1.prems"(1)
      unfolding block_bits [OF le] wf_bsb_def by simp
    moreover have "card {b. 8 * (block * ?B + off) \<le> b \<and> b < 8 * (block * ?B + off + tail) \<and> allocated sb b}
      = card {b. 8 * (block * ?B + off) \<le> b \<and> b < 8 * (block * ?B + off + len) \<and> allocated sb b}
      + card {b. 8 * (Suc block * ?B) \<le> b \<and> b < 8 * (Suc block * ?B + (tail - len)) \<and> allocated sb b}"
    proof (cases "tail = len")
      case False
      then have "Suc block * ?B = block * ?B + off + len" using "1.prems"(3) by (auto simp: len_def min_def)
      moreover have "block * ?B + off + tail = block * ?B + off + len + (tail - len)"
        by (simp add: len_def)
      ultimately show ?thesis using card_split_range [of "8 * (block * ?B + off)" "8 * (block * ?B + off + len)"
          "8 * (block * ?B + off + tail)" "allocated sb"] by (simp only:) simp
    qed (simp del: mult_Suc)
    ultimately show ?thesis
      unfolding count_range_loop.simps [of sb block] using True rd IH by (simp add: Let_def flip: len_def)
  qed
qed

lemma count_range_card:
  assumes "wf_bsb sb" and "good_io sb" and "8 dvd start" and "8 dvd n"
  shows "count_range sb start n = Inr (Some (card {b. start \<le> b \<and> b < start + n \<and> allocated sb b}))"
proof -
  let ?B = "2 ^ blockbits sb :: nat"
  obtain s where s: "start = 8 * s" using assms(3) by (elim dvdE)
  obtain m where m: "n = 8 * m" using assms(4) by (elim dvdE)
  have d: "start div mapsize sb = s div ?B" "(start mod mapsize sb) div 8 = s mod ?B"
    by (simp_all add: s mapsize_8 mod_mult_mult1)
  have t: "(n + 7) div 8 = m" by (simp add: m)
  obtain c where B: "?B = Suc c" using not0_implies_Suc [of ?B] by auto
  have l: "(start + n + (mapsize sb - 1)) div mapsize sb = (s + m + c) div Suc c"
  proof -
    have "(8 * s + 8 * m + (8 * Suc c - 1)) div 8 = s + m + c" by simp
    then show ?thesis unfolding s m mapsize_8 B div_mult2_eq by (simp only:)
  qed
  have "s + m + c = (s + m + c) div Suc c * Suc c + (s + m + c) mod Suc c" by (rule div_mult_mod_eq [symmetric])
  moreover have "(s + m + c) mod Suc c \<le> c" using mod_less_divisor [of "Suc c" "s + m + c"] by linarith
  ultimately have "s + m \<le> (s + m + c) div Suc c * Suc c" by linarith
  moreover have "s div Suc c * Suc c + s mod Suc c = s" by (rule div_mult_mod_eq)
  ultimately have f: "s div ?B * ?B + s mod ?B + m \<le> (s + m + c) div Suc c * ?B" unfolding B by simp
  have "s mod ?B \<le> ?B" by (simp add: less_imp_le)
  from count_range_loop_card [OF assms(1,2) this f, of 0, unfolded div_mult_mod_eq]
  have "count_range_loop sb (s div ?B) ((s + m + c) div Suc c) (s mod ?B) m 0
      = Some (card {b. 8 * s \<le> b \<and> b < 8 * s + 8 * m \<and> allocated sb b})" by simp
  then show ?thesis using assms(3) unfolding count_range_def Let_def d t l by (simp add: s m)
qed

section \<open>Properties\<close>

lemma count_inv_code:
  "count_inv sb \<longleftrightarrow> freeblocks sb = int (length (filter (\<lambda>b. \<not> allocated sb b) [0..<volblocks sb]))"
proof -
  have "{b. b < volblocks sb \<and> \<not> allocated sb b} = set (filter (\<lambda>b. \<not> allocated sb b) [0..<volblocks sb])"
    by auto
  moreover have "distinct (filter (\<lambda>b. \<not> allocated sb b) [0..<volblocks sb])" by simp
  ultimately show ?thesis unfolding count_inv_def by (simp only: distinct_card)
qed

text \<open>A volume of 16 blocks with 8-bit bitmap blocks; the witnesses run on it.\<close>

definition small_vol :: "u8 \<Rightarrow> u8 \<Rightarrow> nat \<Rightarrow> bsb" where
  "small_vol x y next =
     \<lparr>blockbits = 0, volblocks = 16, freeblocks = 16 - int (bytebits x + bytebits y), nextblock = next,
      bitmap = (\<lambda>k. if k = 0 then [x] else [y]), rd_fails = (\<lambda>_. False), dirty_fails = (\<lambda>_. None)\<rparr>"

lemma small_vol_ok [simp]: "wf_bsb (small_vol x y s)" "good_io (small_vol x y s)"
    "volblocks (small_vol x y s) = 16" "nextblock (small_vol x y s) = s"
  by (simp_all add: small_vol_def wf_bsb_def good_io_def)

text \<open>C21: whatever sequence of allocations, partial allocations, frees and replay updates
  runs on the allocator, with failures of the bitmap I/O and of the double-free test
  included, \<open>freeblocks\<close> stays the number of clear bits of the volume and
  \<open>nextblock\<close> stays in the volume.\<close>

theorem balloc_inv_run: "balloc_inv sb \<Longrightarrow> balloc_inv (foldl balloc_step sb ops)"
  by (induction ops arbitrary: sb) (simp_all add: balloc_step_inv)

lemma balloc_inv_run_witness:
  "balloc_inv (foldl balloc_step (small_vol 7 1 3) [Alloc 2, AllocPartial 9, Free 2 1, Free 2 1, Replay 2 2 True])"
proof (rule balloc_inv_run)
  have "count_inv (small_vol 7 1 3)" unfolding count_inv_code by code_simp
  then show "balloc_inv (small_vol 7 1 3)" by (simp add: balloc_inv_def)
qed

text \<open>C10: a successful \<open>balloc\<close> or \<open>balloc_partial\<close> returns a non-empty segment of at
  most the blocks asked for (exactly them without \<open>BALLOC_PARTIAL\<close>) that lies in the
  volume and was free; afterwards exactly its blocks are marked in addition,
  \<open>freeblocks\<close> has gone down by its length and the goal of the next call is its end,
  wrapped at the end of the volume.\<close>

theorem balloc_success:
  assumes "balloc_inv sb" and "balloc_goal sb n partial = (None, seg, sb')"
  shows "0 < seg_count seg \<and> seg_count seg \<le> n \<and> (seg_count seg = n \<or> partial) \<and>
    free_run sb (seg_block seg) (seg_count seg) \<and> seg_block seg + seg_count seg \<le> volblocks sb \<and>
    marks sb (sb'\<lparr>nextblock := nextblock sb\<rparr>) (seg_block seg) (seg_count seg) True \<and>
    nextblock sb' = (if volblocks sb \<le> seg_block seg + seg_count seg then 0 else seg_block seg + seg_count seg)"
proof (cases "0 < n")
  case True
  then show ?thesis
    using balloc_from_range_cases [OF _ True _ order_refl assms(2) [unfolded balloc_goal_def]] assms(1)
    by (simp add: balloc_inv_def alloc_spec_def)
next
  case False
  then show ?thesis using assms(2) by (simp add: balloc_goal_def balloc_from_range_def)
qed

lemma small_vol_inv: "count_inv (small_vol 7 1 3)"
  unfolding count_inv_code by code_simp

lemma balloc_success_witness:
  "free_run (small_vol 7 1 3) 3 4 \<and> balloc_goal (small_vol 7 1 3) 4 True =
     (None, \<lparr>seg_block = 3, seg_count = 4\<rparr>, snd (snd (balloc_goal (small_vol 7 1 3) 4 True)))"
proof -
  have r: "fst (balloc_goal (small_vol 7 1 3) 4 True) = None"
    "fst (snd (balloc_goal (small_vol 7 1 3) 4 True)) = \<lparr>seg_block = 3, seg_count = 4\<rparr>" by code_simp+
  then have e: "balloc_goal (small_vol 7 1 3) 4 True =
     (None, \<lparr>seg_block = 3, seg_count = 4\<rparr>, snd (snd (balloc_goal (small_vol 7 1 3) 4 True)))"
    by (metis prod.collapse)
  have "balloc_inv (small_vol 7 1 3)" by (simp add: balloc_inv_def small_vol_inv)
  from balloc_success [OF this e] e show ?thesis by simp
qed

text \<open>C20: when the bitmap I/O works, the only failure of \<open>balloc\<close> is \<open>ENOSPC\<close>; then
  nothing has changed and neither the part of the volume from the goal on nor the part
  below the goal has a free run of the length asked for.\<close>

theorem balloc_enospc:
  assumes "balloc_inv sb" and "good_io sb" and "0 < n" and "balloc_goal sb n partial = (Some e, seg, sb')"
  shows "e = ENOSPC \<and> sb' = sb \<and>
    (\<nexists>s. nextblock sb \<le> s \<and> s + n \<le> volblocks sb \<and> free_run sb s n) \<and>
    (\<nexists>s. s + n \<le> nextblock sb \<and> free_run sb s n)"
  using balloc_from_range_cases [OF _ assms(3) _ order_refl assms(4) [unfolded balloc_goal_def]] assms(1,2)
  by (auto simp: balloc_inv_def none_in_def)

lemma balloc_enospc_witness:
  "\<not> free_run (small_vol 7 0x31 3) 3 6 \<and> fst (balloc_goal (small_vol 7 0x31 3) 6 False) = Some ENOSPC"
proof -
  let ?r = "balloc_goal (small_vol 7 0x31 3) 6 False"
  have r: "fst ?r = Some ENOSPC" by code_simp
  have "count_inv (small_vol 7 0x31 3)" unfolding count_inv_code by code_simp
  then have i: "balloc_inv (small_vol 7 0x31 3)" by (simp add: balloc_inv_def)
  from r have e: "?r = (Some ENOSPC, fst (snd ?r), snd (snd ?r))" by (metis prod.collapse)
  from balloc_enospc [OF i _ _ e] r show ?thesis by auto
qed

text \<open>C22: \<open>bfree\<close> succeeds exactly when every block of the range is allocated, and
  then clears exactly the range and counts it.  A double free is reported; the bitmap
  blocks before the first one with a clear bit have been cleared and counted by then.\<close>

theorem bfree_exact:
  assumes "wf_bsb sb" and "good_io sb" and "0 < n" and "s + n \<le> volblocks sb" and "bfree sb s n = (e, sb')"
  shows "(e = None \<longleftrightarrow> {s..<s + n} \<subseteq> {b. allocated sb b}) \<and> (e = None \<longrightarrow> marks sb sb' s n False) \<and>
    (e \<noteq> None \<longrightarrow> e = Some EIO \<and> (\<exists>m<n. marks sb sb' s m False))"
proof -
  obtain m where m: "m \<le> n" "marks sb sb' s m False" "e = None \<longrightarrow> m = n" "\<forall>b. s \<le> b \<and> b < s + m \<longrightarrow> allocated sb b"
    and io: "e \<noteq> None \<longrightarrow> e = Some EIO \<and> (\<exists>b. s + m \<le> b \<and> b < s + n \<and> \<not> allocated sb b)"
    using bitmap_test_and_modify_marks [OF assms(1,3,4) assms(5) [unfolded bfree_def]] assms(2) by auto
  show ?thesis
  proof (cases e)
    case None
    with m show ?thesis by auto
  next
    case (Some x)
    with io obtain b where b: "s + m \<le> b" "b < s + n" "\<not> allocated sb b" by blast
    then have "b \<in> {s..<s + n}" "m < n" by simp_all
    with b(3) have "\<not> {s..<s + n} \<subseteq> {b. allocated sb b}" by blast
    with m(2) Some io \<open>m < n\<close> show ?thesis by blast
  qed
qed

lemma bfree_exact_witness:
  "fst (bfree (small_vol 0xff 3 0) 6 4) = None \<and> marks (small_vol 0xff 3 0) (snd (bfree (small_vol 0xff 3 0) 6 4)) 6 4 False"
proof -
  have r: "fst (bfree (small_vol 0xff 3 0) 6 4) = None" by code_simp
  show ?thesis 
    using bfree_exact [of "small_vol 0xff 3 0" 4 6] r by (cases "bfree (small_vol 0xff 3 0) 6 4") auto
qed

text \<open>\<open>count_range\<close>, which adds table entries byte by byte over the bitmap blocks,
  counts the allocated blocks of a byte-aligned range.\<close>

theorem count_range_exact:
  assumes "wf_bsb sb" and "good_io sb" and "8 dvd start" and "8 dvd n"
  shows "count_range sb start n = Inr (Some (card {b. start \<le> b \<and> b < start + n \<and> allocated sb b}))"
  by (rule count_range_card [OF assms])

lemma count_range_exact_witness:
  "count_range (small_vol 0xf5 9 0) 0 16 = Inr (Some 8) \<and>
   card {b. 0 \<le> b \<and> b < 0 + 16 \<and> allocated (small_vol 0xf5 9 0) b} = 8"
proof -
  have "count_range (small_vol 0xf5 9 0) 0 16 = Inr (Some 8)" by code_simp
  with count_range_exact [of "small_vol 0xf5 9 0" 0 16] show ?thesis by simp
qed


end
