(* ===== verification/Stash.thy ===== *)
theory Stash
  imports Link Balloc
begin

text \<open>
  The stash of \<open>src/kernel/log.c\<close>: any number of 64-bit values in a FIFO of pages, and the
  deferred frees kept in it (\<open>defer_bfree\<close>, and \<open>apply_defered_bfree\<close> of
  \<open>src/kernel/commit.c\<close>).  A stash is the list of its pages in the order of the
  \<open>flink\<close> queue (theory \<open>Link\<close>), each page the array of its values, and the index \<open>pos\<close>
  in the last page, which the pair \<open>pos\<close>, \<open>top\<close> of pointers denotes: \<open>top\<close> is the end of
  the last page, so both pointers are equal (NULL for the empty stash) exactly when no
  value fits any more.  The page allocator is a pool of free pages: \<open>alloc_page\<close> returns
  NULL when it is empty, and what a page holds when it is allocated is whatever it held
  in the pool.
\<close>

section \<open>State and operations\<close>

text \<open>\<open>PAGE_SIZE\<close> is 64 bytes in the userland build (\<open>src/libklib/mm.h\<close>).\<close>

definition page_vals :: nat where "page_vals = 64 div 8"

record stash =
  pages :: "u64 list list"
  pos :: nat

type_synonym pool = "u64 list list"

definition stash_init :: "stash" where
  "stash_init = \<lparr>pages = [], pos = 0\<rparr>"

definition pos_is_top :: "stash \<Rightarrow> bool" where
  "pos_is_top s \<longleftrightarrow> pages s = [] \<or> pos s = page_vals"

definition stash_value :: "pool \<times> stash \<Rightarrow> u64 \<Rightarrow> err \<times> pool \<times> stash" where
  "stash_value ps v =
     (case ps of (pool, s) \<Rightarrow>
        if pos_is_top s
        then (case pool of
                [] \<Rightarrow> (Some ENOMEM, pool, s)
              | page # pool \<Rightarrow> (None, pool, \<lparr>pages = pages s @ [page[0 := v]], pos = 1\<rparr>))
        else (None, pool, s\<lparr>pages := butlast (pages s) @ [(last (pages s))[pos s := v]], pos := pos s + 1\<rparr>))"

fun free_pages :: "u64 list list \<Rightarrow> pool \<Rightarrow> pool" where
  "free_pages [] pool = pool"
| "free_pages (p # ps) pool = free_pages ps (p # pool)"

definition empty_stash :: "pool \<times> stash \<Rightarrow> pool \<times> stash" where
  "empty_stash ps =
     (case ps of (pool, s) \<Rightarrow> if pages s \<noteq> [] then (free_pages (pages s) pool, stash_init) else (pool, s))"

text \<open>The loop over the values of one page; \<open>actor\<close> is called on the state \<open>st\<close>.\<close>

fun act_vals :: "('s \<Rightarrow> u64 \<Rightarrow> err \<times> 's) \<Rightarrow> 's \<Rightarrow> u64 list \<Rightarrow> err \<times> 's" where
  "act_vals actor st [] = (None, st)"
| "act_vals actor st (v # vs) =
     (case actor st v of (Some e, st) \<Rightarrow> (Some e, st) | (None, st) \<Rightarrow> act_vals actor st vs)"

fun unstash_pages :: "('s \<Rightarrow> u64 \<Rightarrow> err \<times> 's) \<Rightarrow> 's \<Rightarrow> pool \<Rightarrow> u64 list list \<Rightarrow> nat \<Rightarrow> err \<times> 's \<times> pool \<times> stash" where
  "unstash_pages actor st pool [] p = (None, st, pool, \<lparr>pages = [], pos = p\<rparr>)"
| "unstash_pages actor st pool [page] p =
     (case act_vals actor st (take p page) of
        (Some e, st) \<Rightarrow> (Some e, st, pool, \<lparr>pages = [page], pos = p\<rparr>)
      | (None, st) \<Rightarrow> (None, st, pool, \<lparr>pages = [page], pos = 0\<rparr>))"
| "unstash_pages actor st pool (page # q # ps) p =
     (case act_vals actor st page of
        (Some e, st) \<Rightarrow> (Some e, st, pool, \<lparr>pages = page # q # ps, pos = p\<rparr>)
      | (None, st) \<Rightarrow> unstash_pages actor st (page # pool) (q # ps) p)"

definition unstash :: "('s \<Rightarrow> u64 \<Rightarrow> err \<times> 's) \<Rightarrow> 's \<Rightarrow> pool \<times> stash \<Rightarrow> err \<times> 's \<times> pool \<times> stash" where
  "unstash actor st ps = (case ps of (pool, s) \<Rightarrow> unstash_pages actor st pool (pages s) (pos s))"

fun walk_pages :: "('s \<Rightarrow> u64 \<Rightarrow> err \<times> 's) \<Rightarrow> 's \<Rightarrow> u64 list list \<Rightarrow> nat \<Rightarrow> err \<times> 's" where
  "walk_pages actor st [] p = (None, st)"
| "walk_pages actor st (page # ps) p =
     (case act_vals actor st (if ps = [] then take p page else page) of
        (Some e, st) \<Rightarrow> (Some e, st)
      | (None, st) \<Rightarrow> walk_pages actor st ps p)"

definition stash_walk :: "('s \<Rightarrow> u64 \<Rightarrow> err \<times> 's) \<Rightarrow> 's \<Rightarrow> stash \<Rightarrow> err \<times> 's" where
  "stash_walk actor st s = walk_pages actor st (pages s) (pos s)"

section \<open>Deferred frees\<close>

definition defer_limit :: nat where "defer_limit = 2 ^ 64 div 2 ^ 48 - 1"

definition defer_record :: "u64 \<Rightarrow> nat \<Rightarrow> u64" where
  "defer_record block c = push_bit 48 (of_nat c) + block"

text \<open>The loop over the records of one free, on whatever \<open>stash_value\<close> adds a value.\<close>

function defer_loop :: "('s \<Rightarrow> u64 \<Rightarrow> err \<times> 's) \<Rightarrow> 's \<Rightarrow> u64 \<Rightarrow> nat \<Rightarrow> err \<times> 's" where
  "defer_loop add s block count =
     (if count \<noteq> 0
      then (let c = min count defer_limit
            in case add s (defer_record block c) of
                 (Some e, s) \<Rightarrow> (Some e, s)
               | (None, s) \<Rightarrow> defer_loop add s (block + of_nat c) (count - c))
      else (None, s))"
  by pat_completeness auto
termination
  by (relation "measure (\<lambda>(add, s, block, count). count)") (auto simp: defer_limit_def)

declare defer_loop.simps [simp del]

definition defer_bfree :: "pool \<times> stash \<Rightarrow> u64 \<Rightarrow> nat \<Rightarrow> err \<times> pool \<times> stash" where
  "defer_bfree ps block count = defer_loop stash_value ps block count"

definition destroy_defer_bfree :: "pool \<times> stash \<Rightarrow> pool \<times> stash" where
  "destroy_defer_bfree ps = empty_stash ps"

text \<open>\<open>apply_defered_bfree\<close>: the actor that frees one record.\<close>

definition defer_block :: "u64 \<Rightarrow> u64" where
  "defer_block val = val AND NOT (push_bit 48 (- 1))"

definition defer_count :: "u64 \<Rightarrow> nat" where
  "defer_count val = unat (drop_bit 48 val)"

definition apply_defered_bfree :: "bsb \<Rightarrow> u64 \<Rightarrow> err \<times> bsb" where
  "apply_defered_bfree sb val = bfree sb (unat (defer_block val)) (defer_count val)"

section \<open>The queue of values\<close>

definition stash_vals :: "stash \<Rightarrow> u64 list" where
  "stash_vals s = (if pages s = [] then [] else concat (butlast (pages s)) @ take (pos s) (last (pages s)))"

definition stash_ok :: "pool \<times> stash \<Rightarrow> bool" where
  "stash_ok ps \<longleftrightarrow> list_all (\<lambda>p. length p = page_vals) (fst ps @ pages (snd ps)) \<and> pos (snd ps) \<le> page_vals"

definition page_count :: "pool \<times> stash \<Rightarrow> nat" where
  "page_count ps = length (fst ps) + length (pages (snd ps))"

lemma page_vals_pos: "0 < page_vals"
  by (simp add: page_vals_def)

lemma stash_value_ok:
  assumes "stash_ok ps" and "stash_value ps v = (e, ps')"
  shows "stash_ok ps' \<and> page_count ps' = page_count ps \<and>
    (e = None \<longrightarrow> stash_vals (snd ps') = stash_vals (snd ps) @ [v]) \<and>
    (e \<noteq> None \<longrightarrow> e = Some ENOMEM \<and> ps' = ps \<and> fst ps = [])"
proof (cases ps)
  case (Pair pool s)
  show ?thesis
  proof (cases "pos_is_top s")
    case top: True
    show ?thesis
    proof (cases pool)
      case Nil
      then show ?thesis using assms top Pair by (auto simp: stash_value_def)
    next
      case (Cons page pool')
      with assms top Pair have l: "length page = page_vals" "list_all (\<lambda>p. length p = page_vals) (pages s)"
        and ps': "e = None" "ps' = (pool', \<lparr>pages = pages s @ [page[0 := v]], pos = 1\<rparr>)"
        by (auto simp: stash_value_def stash_ok_def)
      have "take 1 (page[0 := v]) = [v]" using l(1) page_vals_pos by (cases page) auto
      moreover have "concat (pages s) = stash_vals s"
        using top l(2) by (cases "pages s" rule: rev_cases) (auto simp: pos_is_top_def stash_vals_def)
      moreover have "Suc 0 \<le> page_vals" using page_vals_pos by simp
      ultimately show ?thesis
        using assms(1) ps' Pair Cons l by (auto simp: stash_ok_def page_count_def stash_vals_def)
    qed
  next
    case False
    then obtain qs q where q: "pages s = qs @ [q]" "pos s \<noteq> page_vals"
      by (cases "pages s" rule: rev_cases) (auto simp: pos_is_top_def)
    with assms(1) Pair have l: "length q = page_vals" "pos s < page_vals" by (auto simp: stash_ok_def)
    then have "take (Suc (pos s)) (q[pos s := v]) = take (pos s) q @ [v]"
      by (simp add: take_Suc_conv_app_nth)
    then show ?thesis
      using assms False q l Pair by (auto simp: stash_value_def stash_ok_def page_count_def stash_vals_def)
  qed
qed

lemma act_vals_append:
  "act_vals actor st (xs @ ys) =
     (case act_vals actor st xs of (Some e, st) \<Rightarrow> (Some e, st) | (None, st) \<Rightarrow> act_vals actor st ys)"
  by (induction actor st xs rule: act_vals.induct) (auto split: prod.splits option.splits)

lemma unstash_pages_ok:
  assumes "unstash_pages actor st pool ps p = (e, st', pool', s')" and "ps \<noteq> []"
  shows "(\<exists>n. act_vals actor st (stash_vals \<lparr>pages = ps, pos = p\<rparr>) = (e, st') \<and>
      pages s' = drop n ps \<and> pool' = rev (take n ps) @ pool \<and> n < length ps \<and>
      pos s' = (if e = None then 0 else p) \<and> (e = None \<longrightarrow> Suc n = length ps))"
  using assms
proof (induction actor st pool ps p arbitrary: e st' pool' s' rule: unstash_pages.induct)
  case (2 actor st pool page p)
  then show ?case by (auto simp: stash_vals_def split: prod.splits option.splits intro: exI [of _ 0])
next
  case (3 actor st pool page q ps p)
  have vals: "stash_vals \<lparr>pages = page # q # ps, pos = p\<rparr> = page @ stash_vals \<lparr>pages = q # ps, pos = p\<rparr>"
    by (simp add: stash_vals_def)
  obtain e1 st1 where a: "act_vals actor st page = (e1, st1)" by fastforce
  show ?case
  proof (cases e1)
    case None
    have r: "unstash_pages actor st1 (page # pool) (q # ps) p = (e, st', pool', s')"
      using "3.prems" a None by simp
    from "3.IH" [OF a [symmetric] None r] obtain n where "act_vals actor st1 (stash_vals \<lparr>pages = q # ps, pos = p\<rparr>) = (e, st') \<and>
      pages s' = drop n (q # ps) \<and> pool' = rev (take n (q # ps)) @ page # pool \<and> n < length (q # ps) \<and>
      pos s' = (if e = None then 0 else p) \<and> (e = None \<longrightarrow> Suc n = length (q # ps))"
      by blast
    then show ?thesis using a None unfolding vals act_vals_append by (intro exI [of _ "Suc n"]) simp
  next
    case (Some x)
    then show ?thesis using 3 a unfolding vals act_vals_append by (intro exI [of _ 0]) auto
  qed
qed simp

lemma walk_pages_vals:
  "walk_pages actor st ps p = act_vals actor st (stash_vals \<lparr>pages = ps, pos = p\<rparr>)"
proof (induction actor st ps p rule: walk_pages.induct)
  case (2 actor st page ps p)
  have "stash_vals \<lparr>pages = page # ps, pos = p\<rparr> =
      (if ps = [] then take p page else page) @ (if ps = [] then [] else stash_vals \<lparr>pages = ps, pos = p\<rparr>)"
    by (simp add: stash_vals_def)
  with 2 show ?case by (cases ps) (auto simp: act_vals_append split: prod.splits option.splits)
qed (simp add: stash_vals_def)

lemma free_pages_rev: "free_pages ps pool = rev ps @ pool"
  by (induction ps arbitrary: pool) simp_all

section \<open>What a sequence of records denotes\<close>

text \<open>The records \<open>vs\<close> are consecutive extents that cover the \<open>n\<close> blocks from \<open>b\<close> on.\<close>

fun extents :: "u64 list \<Rightarrow> nat \<Rightarrow> nat \<Rightarrow> bool" where
  "extents [] b n \<longleftrightarrow> n = 0"
| "extents (v # vs) b n \<longleftrightarrow> unat (defer_block v) = b \<and> 0 < defer_count v \<and> defer_count v \<le> n \<and>
     extents vs (b + defer_count v) (n - defer_count v)"

lemma unat_defer_record:
  assumes "unat block < 2 ^ 48" and "c < 2 ^ 16"
  shows "unat (defer_record block c) = c * 2 ^ 48 + unat block"
proof -
  have "c * 2 ^ 48 \<le> (2 ^ 16 - 1) * 2 ^ 48" using assms(2) by (intro mult_right_mono) simp_all
  then have "c * 2 ^ 48 + unat block < 2 ^ 64" using assms(1) by simp
  moreover have "defer_record block c = of_nat (c * 2 ^ 48 + unat block)"
    by (simp add: defer_record_def push_bit_eq_mult)
  ultimately show ?thesis by (simp only: unat_of_nat) (simp add: take_bit_eq_mod)
qed

lemma defer_record_parts:
  assumes "unat block < 2 ^ 48" and "c < 2 ^ 16"
  shows "unat (defer_block (defer_record block c)) = unat block" and "defer_count (defer_record block c) = c"
proof -
  have "NOT (push_bit 48 (- 1)) = (mask 48 :: u64)" by (simp add: push_bit_minus_one_eq_not_mask)
  then have "defer_block v = take_bit 48 v" for v by (simp only: defer_block_def take_bit_eq_mask)
  then have u: "unat (defer_block v) = unat v mod 2 ^ 48" for v
    by (simp only: unsigned_take_bit_eq) (simp only: take_bit_eq_mod)
  then show "unat (defer_block (defer_record block c)) = unat block"
    unfolding u unat_defer_record [OF assms] using assms(1) by simp
  show "defer_count (defer_record block c) = c"
    unfolding defer_count_def using assms
    by (simp only: unat_drop_bit_eq unat_defer_record) (simp add: drop_bit_eq_div)
qed

section \<open>Queues of values\<close>

text \<open>What \<open>defer_bfree\<close> uses of the stash: a value is added at the end or nothing changes.\<close>

locale value_queue =
  fixes add :: "'s \<Rightarrow> u64 \<Rightarrow> err \<times> 's"
    and vals :: "'s \<Rightarrow> u64 list"
    and ok :: "'s \<Rightarrow> bool"
  assumes add_ok: "ok s \<Longrightarrow> add s v = (e, s') \<Longrightarrow>
      ok s' \<and> vals s' = vals s @ (if e = None then [v] else [])"
begin

lemma defer_loop_vals:
  "defer_loop add s block count = (e, s') \<Longrightarrow> ok s \<Longrightarrow> unat block + count < 2 ^ 48 \<Longrightarrow>
   ok s' \<and> (\<exists>vs m. vals s' = vals s @ vs \<and> extents vs (unat block) m \<and> m \<le> count \<and> (e = None \<longrightarrow> m = count))"
proof (induction count arbitrary: s block rule: less_induct)
  case (less count)
  show ?case
  proof (cases "count = 0")
    case True
    with less.prems show ?thesis by (auto simp: defer_loop.simps [of add s block 0] intro: exI [of _ "[]"])
  next
    case False
    define c where "c = min count defer_limit"
    have c: "0 < c" "c \<le> count" "c < 2 ^ 16" using False by (auto simp: c_def defer_limit_def)
    obtain e1 s1 where a: "add s (defer_record block c) = (e1, s1)" by fastforce
    have q: "ok s1" "vals s1 = vals s @ (if e1 = None then [defer_record block c] else [])"
      using add_ok [OF less.prems(2) a] by simp_all
    have r: "(case add s (defer_record block c) of (Some e, s) \<Rightarrow> (Some e, s)
        | (None, s) \<Rightarrow> defer_loop add s (block + of_nat c) (count - c)) = (e, s')"
      using less.prems(1) False unfolding defer_loop.simps [of add s block count] c_def by (simp add: Let_def)
    show ?thesis
    proof (cases e1)
      case (Some x)
      with r a q show ?thesis by (auto intro!: exI [of _ "[]"])
    next
      case None
      have u: "unat (block + of_nat c) = unat block + c"
        using less.prems(3) c by (simp add: unat_word_ariths unat_of_nat take_bit_eq_mod)
      obtain vs m where "ok s'" "vals s' = vals s1 @ vs" "extents vs (unat block + c) m" "m \<le> count - c"
          "e = None \<longrightarrow> m = count - c"
        using less.IH [of "count - c" s1 "block + of_nat c"] r a None q(1) less.prems(3) c u by auto
      moreover from this q(2) None have "vals s' = vals s @ defer_record block c # vs" by simp
      moreover have "extents (defer_record block c # vs) (unat block) (c + m)"
        using calculation(3) less.prems(3) c defer_record_parts [of block c] by simp
      ultimately show ?thesis using c(2)
        by (intro conjI exI [of _ "defer_record block c # vs"] exI [of _ "c + m"]) auto
    qed
  qed
qed

end

interpretation sq: value_queue stash_value "\<lambda>ps. stash_vals (snd ps)" stash_ok
proof unfold_locales
  fix s e s' v assume "stash_ok s" "stash_value s v = (e, s')"
  then show "stash_ok s' \<and> stash_vals (snd s') = stash_vals (snd s) @ (if e = None then [v] else [])"
    using stash_value_ok [of s v e s'] by (cases e) simp_all
qed

section \<open>Applying the deferred frees\<close>

lemma act_free_extents:
  "act_vals apply_defered_bfree sb vs = (e, sb') \<Longrightarrow> extents vs s n \<Longrightarrow> wf_bsb sb \<Longrightarrow> good_io sb \<Longrightarrow>
   s + n \<le> volblocks sb \<Longrightarrow> (\<And>b. s \<le> b \<Longrightarrow> b < s + n \<Longrightarrow> allocated sb b) \<Longrightarrow>
   e = None \<and> marks sb sb' s n False"
proof (induction vs arbitrary: sb s n)
  case (Cons v vs)
  let ?c = "defer_count v"
  obtain e1 sb1 where f: "apply_defered_bfree sb v = (e1, sb1)" by fastforce
  have c: "0 < ?c" "?c \<le> n" "extents vs (s + ?c) (n - ?c)" "unat (defer_block v) = s"
    using Cons.prems(2) by simp_all
  have bt: "bitmap_test_and_modify sb s ?c False = (e1, sb1)"
    using f c(4) by (simp add: apply_defered_bfree_def bfree_def)
  have le: "s + ?c \<le> volblocks sb" using c(2) Cons.prems(5) by simp
  obtain m where m: "marks sb sb1 s m False" "e1 = None \<longrightarrow> m = ?c"
      "e1 \<noteq> None \<longrightarrow> (\<exists>b. s + m \<le> b \<and> b < s + ?c \<and> \<not> allocated sb b)"
    using bitmap_test_and_modify_marks [OF Cons.prems(3) c(1) le bt] Cons.prems(4) by auto
  have "allocated sb b" if "s + m \<le> b" "b < s + ?c" for b
    using Cons.prems(6) [of b] that c(2) by linarith
  with m(3) have e1: "e1 = None" by blast
  then have mk: "marks sb sb1 s ?c False" using m(1,2) by simp
  have "act_vals apply_defered_bfree sb1 vs = (e, sb')" using Cons.prems(1) f e1 by simp
  moreover have "allocated sb1 b" if "s + ?c \<le> b" "b < s + ?c + (n - ?c)" for b
    using that Cons.prems(6) [of b] c(2) by (simp add: marks_allocated [OF mk])
  moreover have "volblocks sb1 = volblocks sb" using mk by (simp add: marks_def)
  ultimately have "e = None \<and> marks sb1 sb' (s + ?c) (n - ?c) False"
    using Cons.IH [of sb1 "s + ?c" "n - ?c"] c(2,3) marks_wf [OF mk] good_io_marks [OF mk] Cons.prems(4,5)
    by simp
  then show ?case using marks_trans [OF mk] c(2) by fastforce
qed (simp add: marks_refl)

section \<open>Properties\<close>

text \<open>A stash is a queue over any sequence of additions: the values that \<open>stash_value\<close>
  accepted are read by \<open>unstash\<close> once each and in the order of their addition, as if
  \<open>actor\<close> had been run over their list; when \<open>actor\<close> does not fail the stash is empty
  after it, and no page is lost.\<close>

theorem unstash_queue:
  assumes "stash_ok ps" and "unstash actor st ps = (e, st', ps')"
  shows "act_vals actor st (stash_vals (snd ps)) = (e, st') \<and> stash_ok ps' \<and> page_count ps' = page_count ps \<and>
    (e = None \<longrightarrow> stash_vals (snd ps') = [])"
proof (cases ps)
  case (Pair pool s)
  obtain pool' s' where ps': "ps' = (pool', s')" by fastforce
  show ?thesis
  proof (cases "pages s = []")
    case True
    with assms Pair show ?thesis by (auto simp: unstash_def stash_vals_def stash_ok_def page_count_def)
  next
    case False
    have s: "\<lparr>pages = pages s, pos = pos s\<rparr> = s" by simp
    from assms(2) have "unstash_pages actor st pool (pages s) (pos s) = (e, st', pool', s')"
      by (simp add: unstash_def Pair ps')
    from unstash_pages_ok [OF this False, unfolded s] obtain n where
      n: "act_vals actor st (stash_vals s) = (e, st')" "pages s' = drop n (pages s)"
        "pool' = rev (take n (pages s)) @ pool" "n < length (pages s)" "pos s' = (if e = None then 0 else pos s)"
        "e = None \<longrightarrow> Suc n = length (pages s)" by blast
    have "list_all (\<lambda>p. length p = page_vals) (pool' @ pages s')"
      using assms(1) Pair n(2,3) by (auto simp: stash_ok_def list_all_iff dest: in_set_takeD in_set_dropD)
    moreover have "length pool' + length (pages s') = length pool + length (pages s)"
      using n(2-4) by simp
    moreover have "stash_vals s' = []" if "e = None"
      using n that by (cases "pages s" rule: rev_cases) (auto simp: stash_vals_def)
    ultimately show ?thesis using n(1,5) assms(1) Pair ps' by (auto simp: stash_ok_def page_count_def)
  qed
qed

lemma unstash_queue_witness:
  "fst (snd (unstash (\<lambda>st v. (None, st @ [v])) []
      (snd (stash_value (snd (stash_value ([replicate 8 0], stash_init) 5)) 6)))) = [5, 6] \<and>
   page_count (snd (snd (unstash (\<lambda>st v. (None, st @ [v])) []
      (snd (stash_value (snd (stash_value ([replicate 8 0], stash_init) 5)) 6))))) = 1"
proof -
  let ?ps = "snd (stash_value (snd (stash_value ([replicate 8 0], stash_init) 5)) 6)"
  let ?u = "unstash (\<lambda>st v. (None, st @ [v])) [] ?ps"
  have ok: "stash_ok ?ps" "act_vals (\<lambda>st v. (None, st @ [v])) [] (stash_vals (snd ?ps)) = (None, [5, 6])"
    "page_count ?ps = 1" by code_simp+
  obtain e st ps where u: "?u = (e, st, ps)" by (metis prod.collapse)
  from unstash_queue [OF ok(1) u] ok show ?thesis unfolding u by simp
qed

text \<open>C17: \<open>defer_bfree\<close> followed by \<open>unstash\<close> with \<open>apply_defered_bfree\<close> on an empty stash
  frees exactly the blocks of the extent, however many 16-bit records it was split into:
  when the extent is allocated and lies in the volume, the bits of exactly its blocks are
  cleared, \<open>freeblocks\<close> grows by its length and nothing fails.\<close>

theorem defered_free_exact:
  assumes "stash_ok ps" and "stash_vals (snd ps) = []"
    and "wf_bsb sb" and "good_io sb" and "unat block + count \<le> volblocks sb" and "volblocks sb < 2 ^ 48"
    and "{unat block..<unat block + count} \<subseteq> {b. allocated sb b}"
    and "defer_bfree ps block count = (None, ps')"
    and "unstash apply_defered_bfree sb ps' = (e, sb', ps'')"
  shows "e = None \<and> marks sb sb' (unat block) count False \<and> stash_vals (snd ps'') = []"
proof -
  have "unat block + count < 2 ^ 48" using assms(5,6) by linarith
  from sq.defer_loop_vals [OF assms(8) [unfolded defer_bfree_def] assms(1) this]
  have ok: "stash_ok ps'" and ex: "extents (stash_vals (snd ps')) (unat block) count"
    using assms(2) by auto
  obtain pool s where ps': "ps' = (pool, s)" by fastforce
  have u: "act_vals apply_defered_bfree sb (stash_vals s) = (e, sb') \<and> (e = None \<longrightarrow> stash_vals (snd ps'') = [])"
  proof (cases "pages s = []")
    case True
    with assms(9) show ?thesis by (auto simp: unstash_def stash_vals_def ps')
  next
    case False
    have s: "\<lparr>pages = pages s, pos = pos s\<rparr> = s" by simp
    obtain pool' s' where "ps'' = (pool', s')" by fastforce
    with assms(9) have "unstash_pages apply_defered_bfree sb pool (pages s) (pos s) = (e, sb', pool', s')"
      by (simp add: unstash_def ps')
    from unstash_pages_ok [OF this False, unfolded s] \<open>ps'' = _\<close> show ?thesis
      by (cases "pages s" rule: rev_cases) (auto simp: stash_vals_def)
  qed
  have "allocated sb b" if "unat block \<le> b" "b < unat block + count" for b
    using subsetD [OF assms(7), of b] that by simp
  from act_free_extents [OF conjunct1 [OF u] _ assms(3,4,5) this] ex u show ?thesis
    by (simp add: ps')
qed

lemma defered_free_exact_witness:
  "fst (unstash apply_defered_bfree (small_vol 0xff 0xff 0)
      (snd (defer_bfree ([replicate 8 0], stash_init) 3 10))) = None"
proof -
  let ?ps = "([replicate 8 0], stash_init) :: pool \<times> stash"
  let ?sb = "small_vol 0xff 0xff 0"
  have ok: "stash_ok ?ps" "stash_vals (snd ?ps) = []" by code_simp+
  have ok3: "fst (defer_bfree ?ps 3 10) = None"
    by (simp add: defer_bfree_def defer_loop.simps defer_limit_def stash_value_def pos_is_top_def stash_init_def)
  have "list_all (allocated ?sb) [3..<13]" by code_simp
  then have "set [3..<13] \<subseteq> {b. allocated ?sb b}" unfolding list_all_iff by blast
  then have al: "{unat (3 :: u64)..<unat (3 :: u64) + 10} \<subseteq> {b. allocated ?sb b}"
    unfolding set_upt by simp
  have d: "defer_bfree ?ps 3 10 = (None, snd (defer_bfree ?ps 3 10))" 
    using ok3 by (intro prod_eqI) simp_all
  obtain e sb' ps'' where u: "unstash apply_defered_bfree ?sb (snd (defer_bfree ?ps 3 10)) = (e, sb', ps'')"
    by (rule prod_cases3)
  have "e = None" using defered_free_exact [OF ok(1,2) small_vol_ok(1,2) _ _ al d u] by simp
  then show ?thesis unfolding u by simp
qed

end
