(* ===== verification/Log.thy ===== *)
theory Log
  imports Endian "HOL-Library.Monad_Syntax"
begin

text \<open>
  The log of \<open>src/kernel/log.c\<close>: records of metadata changes encoded one after the other
  in log blocks.  The state is the part of \<open>struct sb\<close> that the log uses; \<open>logmap\<close> holds
  the data of the cached log blocks, the pointers \<open>logpos\<close> and \<open>logtop\<close> are offsets in
  the block of index \<open>logbuf\<close> (0 when they are NULL).  A \<open>struct logblock\<close> header is the
  first 16 bytes of a block: \<open>magic\<close>, \<open>bytes\<close>, padding and \<open>logchain\<close>.  Operations
  return \<open>None\<close> for a failed assertion and for a store outside the log block.
\<close>

section \<open>Record types and sizes\<close>

definition LOG_BALLOC :: u8 where "LOG_BALLOC = 0x33"
definition LOG_BFREE :: u8 where "LOG_BFREE = 0x34"
definition LOG_BFREE_ON_UNIFY :: u8 where "LOG_BFREE_ON_UNIFY = 0x35"
definition LOG_BFREE_RELOG :: u8 where "LOG_BFREE_RELOG = 0x36"
definition LOG_LEAF_REDIRECT :: u8 where "LOG_LEAF_REDIRECT = 0x37"
definition LOG_LEAF_FREE :: u8 where "LOG_LEAF_FREE = 0x38"
definition LOG_BNODE_REDIRECT :: u8 where "LOG_BNODE_REDIRECT = 0x39"
definition LOG_BNODE_ROOT :: u8 where "LOG_BNODE_ROOT = 0x3a"
definition LOG_BNODE_SPLIT :: u8 where "LOG_BNODE_SPLIT = 0x3b"
definition LOG_BNODE_ADD :: u8 where "LOG_BNODE_ADD = 0x3c"
definition LOG_BNODE_UPDATE :: u8 where "LOG_BNODE_UPDATE = 0x3d"
definition LOG_BNODE_MERGE :: u8 where "LOG_BNODE_MERGE = 0x3e"
definition LOG_BNODE_DEL :: u8 where "LOG_BNODE_DEL = 0x3f"
definition LOG_BNODE_ADJUST :: u8 where "LOG_BNODE_ADJUST = 0x40"
definition LOG_BNODE_FREE :: u8 where "LOG_BNODE_FREE = 0x41"
definition LOG_ORPHAN_ADD :: u8 where "LOG_ORPHAN_ADD = 0x42"
definition LOG_ORPHAN_DEL :: u8 where "LOG_ORPHAN_DEL = 0x43"
definition LOG_FREEBLOCKS :: u8 where "LOG_FREEBLOCKS = 0x44"
definition LOG_UNIFY :: u8 where "LOG_UNIFY = 0x45"
definition LOG_DELTA :: u8 where "LOG_DELTA = 0x46"

lemmas log_codes [simp] = LOG_BALLOC_def LOG_BFREE_def LOG_BFREE_ON_UNIFY_def LOG_BFREE_RELOG_def
  LOG_LEAF_REDIRECT_def LOG_LEAF_FREE_def LOG_BNODE_REDIRECT_def LOG_BNODE_ROOT_def
  LOG_BNODE_SPLIT_def LOG_BNODE_ADD_def LOG_BNODE_UPDATE_def LOG_BNODE_MERGE_def
  LOG_BNODE_DEL_def LOG_BNODE_ADJUST_def LOG_BNODE_FREE_def LOG_ORPHAN_ADD_def
  LOG_ORPHAN_DEL_def LOG_FREEBLOCKS_def LOG_UNIFY_def LOG_DELTA_def

text \<open>
  The table \<open>log_size\<close> has an entry for every code below \<open>LOG_TYPES\<close>; the codes below
  \<open>LOG_BALLOC\<close> have size 0.  A larger index reads outside the array: \<open>None\<close>.
\<close>

definition log_sizes :: "nat list" where
  "log_sizes = replicate 0x33 0 @ [11, 11, 11, 11, 13, 7, 13, 26, 15, 19, 19, 13, 15, 19, 7, 9, 9, 7, 1, 1]"

definition log_size :: "u8 \<Rightarrow> nat option" where
  "log_size code = (if unat code < length log_sizes then Some (log_sizes ! unat code) else None)"

section \<open>State and log blocks\<close>

record logsb =
  blocksize :: nat
  logmap :: "nat \<Rightarrow> u8 list"
  logdirty :: "nat \<Rightarrow> bool"
  lognext :: nat
  logbuf :: "nat option"
  logpos :: nat
  logtop :: nat

definition TUX3_MAGIC_LOG :: u32 where "TUX3_MAGIC_LOG = 0x10ad"

text \<open>\<open>sizeof(struct logblock)\<close>, the offset of \<open>data\<close>.\<close>

definition log_hdr :: nat where "log_hdr = 16"

definition log_next :: "logsb \<Rightarrow> logsb" where
  "log_next sb = sb\<lparr>logbuf := Some (lognext sb), lognext := lognext sb + 1,
                    logpos := log_hdr, logtop := blocksize sb\<rparr>"

definition log_drop :: "logsb \<Rightarrow> logsb" where
  "log_drop sb = sb\<lparr>logbuf := None, logtop := 0, logpos := 0\<rparr>"

definition log_finish :: "logsb \<Rightarrow> logsb option" where
  "log_finish sb =
     (case logbuf sb of
        None \<Rightarrow> Some sb
      | Some b \<Rightarrow>
          if \<not> (logpos sb \<le> logtop sb) then None
          else let log = logmap sb b;
                   log = splice 2 (encode16 (of_nat (logpos sb - log_hdr))) log;
                   log = splice (logpos sb) (replicate (logtop sb - logpos sb) 0) log
               in Some (log_drop (sb\<lparr>logmap := (logmap sb)(b := log)\<rparr>)))"

definition log_finish_cycle :: "logsb \<Rightarrow> bool \<Rightarrow> logsb option" where
  "log_finish_cycle sb discard =
     (if logbuf sb \<noteq> None then None
      else Some ((if discard
                  then sb\<lparr>logdirty := (\<lambda>i. if i < lognext sb then False else logdirty sb i)\<rparr>
                  else sb)\<lparr>lognext := 0\<rparr>))"

text \<open>The header that \<open>log_begin\<close> assigns: all fields but \<open>magic\<close> are zero.\<close>

definition new_hdr :: "u8 list" where
  "new_hdr = encode16 TUX3_MAGIC_LOG @ replicate 14 0"

definition log_begin :: "logsb \<Rightarrow> nat \<Rightarrow> logsb option" where
  "log_begin sb bytes =
     (if logtop sb < logpos sb + bytes
      then do {
        sb \<leftarrow> log_finish sb;
        let sb = log_next sb;
        b \<leftarrow> logbuf sb;
        Some (sb\<lparr>logmap := (logmap sb)(b := splice 0 new_hdr (logmap sb b)), logdirty := (logdirty sb)(b := True)\<rparr>)
      }
      else Some sb)"

text \<open>The stores through \<open>data\<close> after \<open>log_begin\<close>, and \<open>log_end\<close>.\<close>

definition log_end :: "logsb \<Rightarrow> u8 list \<Rightarrow> logsb option" where
  "log_end sb data =
     (case logbuf sb of
        None \<Rightarrow> None
      | Some b \<Rightarrow>
          if logpos sb + length data \<le> blocksize sb
          then Some (sb\<lparr>logmap := (logmap sb)(b := splice (logpos sb) data (logmap sb b)),
                        logpos := logpos sb + length data\<rparr>)
          else None)"

section \<open>Writing records\<close>

definition log_intent :: "logsb \<Rightarrow> u8 \<Rightarrow> logsb option" where
  "log_intent sb intent = do { sb \<leftarrow> log_begin sb 1; log_end sb [intent] }"

definition log_u48 :: "logsb \<Rightarrow> u8 \<Rightarrow> u64 \<Rightarrow> logsb option" where
  "log_u48 sb intent v1 =
     do { n \<leftarrow> log_size intent; sb \<leftarrow> log_begin sb n; log_end sb (intent # encode48 v1) }"

definition log_u16_u48 :: "logsb \<Rightarrow> u8 \<Rightarrow> u16 \<Rightarrow> u64 \<Rightarrow> logsb option" where
  "log_u16_u48 sb intent v1 v2 =
     do { n \<leftarrow> log_size intent; sb \<leftarrow> log_begin sb n; log_end sb (intent # encode16 (ucast v1) @ encode48 v2) }"

definition log_u32_u48 :: "logsb \<Rightarrow> u8 \<Rightarrow> u32 \<Rightarrow> u64 \<Rightarrow> logsb option" where
  "log_u32_u48 sb intent v1 v2 =
     do { n \<leftarrow> log_size intent; sb \<leftarrow> log_begin sb n; log_end sb (intent # encode32 v1 @ encode48 v2) }"

definition log_u48_u48 :: "logsb \<Rightarrow> u8 \<Rightarrow> u64 \<Rightarrow> u64 \<Rightarrow> logsb option" where
  "log_u48_u48 sb intent v1 v2 =
     do { n \<leftarrow> log_size intent; sb \<leftarrow> log_begin sb n; log_end sb (intent # encode48 v1 @ encode48 v2) }"

definition log_u16_u48_u48 :: "logsb \<Rightarrow> u8 \<Rightarrow> u16 \<Rightarrow> u64 \<Rightarrow> u64 \<Rightarrow> logsb option" where
  "log_u16_u48_u48 sb intent v1 v2 v3 =
     do { n \<leftarrow> log_size intent; sb \<leftarrow> log_begin sb n;
          log_end sb (intent # encode16 (ucast v1) @ encode48 v2 @ encode48 v3) }"

definition log_u48_u48_u48 :: "logsb \<Rightarrow> u8 \<Rightarrow> u64 \<Rightarrow> u64 \<Rightarrow> u64 \<Rightarrow> logsb option" where
  "log_u48_u48_u48 sb intent v1 v2 v3 =
     do { n \<leftarrow> log_size intent; sb \<leftarrow> log_begin sb n;
          log_end sb (intent # encode48 v1 @ encode48 v2 @ encode48 v3) }"

definition log_balloc :: "logsb \<Rightarrow> u64 \<Rightarrow> u32 \<Rightarrow> logsb option" where
  "log_balloc sb blk count = log_u32_u48 sb LOG_BALLOC count blk"

definition log_bfree :: "logsb \<Rightarrow> u64 \<Rightarrow> u32 \<Rightarrow> logsb option" where
  "log_bfree sb blk count = log_u32_u48 sb LOG_BFREE count blk"

definition log_bfree_on_unify :: "logsb \<Rightarrow> u64 \<Rightarrow> u32 \<Rightarrow> logsb option" where
  "log_bfree_on_unify sb blk count = log_u32_u48 sb LOG_BFREE_ON_UNIFY count blk"

definition log_bfree_relog :: "logsb \<Rightarrow> u64 \<Rightarrow> u32 \<Rightarrow> logsb option" where
  "log_bfree_relog sb blk count = log_u32_u48 sb LOG_BFREE_RELOG count blk"

definition log_leaf_redirect :: "logsb \<Rightarrow> u64 \<Rightarrow> u64 \<Rightarrow> logsb option" where
  "log_leaf_redirect sb oldblock newblock = log_u48_u48 sb LOG_LEAF_REDIRECT oldblock newblock"

definition log_leaf_free :: "logsb \<Rightarrow> u64 \<Rightarrow> logsb option" where
  "log_leaf_free sb leaf = log_u48 sb LOG_LEAF_FREE leaf"

definition log_bnode_redirect :: "logsb \<Rightarrow> u64 \<Rightarrow> u64 \<Rightarrow> logsb option" where
  "log_bnode_redirect sb oldblock newblock = log_u48_u48 sb LOG_BNODE_REDIRECT oldblock newblock"

definition log_bnode_root :: "logsb \<Rightarrow> u64 \<Rightarrow> u32 \<Rightarrow> u64 \<Rightarrow> u64 \<Rightarrow> u64 \<Rightarrow> logsb option" where
  "log_bnode_root sb root count left right rkey =
     do { n \<leftarrow> log_size LOG_BNODE_ROOT; sb \<leftarrow> log_begin sb n;
          if count = 1 \<or> count = 2
          then log_end sb (LOG_BNODE_ROOT # ucast count # encode48 root @ encode48 left @ encode48 right @ encode48 rkey)
          else None }"

definition log_bnode_split :: "logsb \<Rightarrow> u64 \<Rightarrow> u32 \<Rightarrow> u64 \<Rightarrow> logsb option" where
  "log_bnode_split sb src pos dst = log_u16_u48_u48 sb LOG_BNODE_SPLIT (ucast pos) src dst"

definition log_bnode_add :: "logsb \<Rightarrow> u64 \<Rightarrow> u64 \<Rightarrow> u64 \<Rightarrow> logsb option" where
  "log_bnode_add sb parent child key = log_u48_u48_u48 sb LOG_BNODE_ADD parent child key"

definition log_bnode_update :: "logsb \<Rightarrow> u64 \<Rightarrow> u64 \<Rightarrow> u64 \<Rightarrow> logsb option" where
  "log_bnode_update sb parent child key = log_u48_u48_u48 sb LOG_BNODE_UPDATE parent child key"

definition log_bnode_merge :: "logsb \<Rightarrow> u64 \<Rightarrow> u64 \<Rightarrow> logsb option" where
  "log_bnode_merge sb src dst = log_u48_u48 sb LOG_BNODE_MERGE src dst"

definition log_bnode_del :: "logsb \<Rightarrow> u64 \<Rightarrow> u64 \<Rightarrow> u32 \<Rightarrow> logsb option" where
  "log_bnode_del sb bnode key count = log_u16_u48_u48 sb LOG_BNODE_DEL (ucast count) bnode key"

definition log_bnode_adjust :: "logsb \<Rightarrow> u64 \<Rightarrow> u64 \<Rightarrow> u64 \<Rightarrow> logsb option" where
  "log_bnode_adjust sb bnode frm to = log_u48_u48_u48 sb LOG_BNODE_ADJUST bnode frm to"

definition log_bnode_free :: "logsb \<Rightarrow> u64 \<Rightarrow> logsb option" where
  "log_bnode_free sb bnode = log_u48 sb LOG_BNODE_FREE bnode"

definition log_orphan_add :: "logsb \<Rightarrow> u32 \<Rightarrow> u64 \<Rightarrow> logsb option" where
  "log_orphan_add sb version inum = log_u16_u48 sb LOG_ORPHAN_ADD (ucast version) inum"

definition log_orphan_del :: "logsb \<Rightarrow> u32 \<Rightarrow> u64 \<Rightarrow> logsb option" where
  "log_orphan_del sb version inum = log_u16_u48 sb LOG_ORPHAN_DEL (ucast version) inum"

definition log_freeblocks :: "logsb \<Rightarrow> u64 \<Rightarrow> logsb option" where
  "log_freeblocks sb freeblocks = log_u48 sb LOG_FREEBLOCKS freeblocks"

definition log_unify :: "logsb \<Rightarrow> logsb option" where
  "log_unify sb = log_intent sb LOG_UNIFY"

definition log_delta :: "logsb \<Rightarrow> logsb option" where
  "log_delta sb = log_intent sb LOG_DELTA"

section \<open>Records\<close>

datatype log_rec =
    Balloc_rec u64 u32
  | Bfree_rec u64 u32
  | Bfree_on_unify_rec u64 u32
  | Bfree_relog_rec u64 u32
  | Leaf_redirect_rec u64 u64
  | Leaf_free_rec u64
  | Bnode_redirect_rec u64 u64
  | Bnode_root_rec u64 u32 u64 u64 u64
  | Bnode_split_rec u64 u32 u64
  | Bnode_add_rec u64 u64 u64
  | Bnode_update_rec u64 u64 u64
  | Bnode_merge_rec u64 u64
  | Bnode_del_rec u64 u64 u32
  | Bnode_adjust_rec u64 u64 u64
  | Bnode_free_rec u64
  | Orphan_add_rec u32 u64
  | Orphan_del_rec u32 u64
  | Freeblocks_rec u64
  | Unify_rec
  | Delta_rec

text \<open>The call that writes a record.\<close>

fun log_write :: "logsb \<Rightarrow> log_rec \<Rightarrow> logsb option" where
  "log_write sb (Balloc_rec b n) = log_balloc sb b n"
| "log_write sb (Bfree_rec b n) = log_bfree sb b n"
| "log_write sb (Bfree_on_unify_rec b n) = log_bfree_on_unify sb b n"
| "log_write sb (Bfree_relog_rec b n) = log_bfree_relog sb b n"
| "log_write sb (Leaf_redirect_rec a b) = log_leaf_redirect sb a b"
| "log_write sb (Leaf_free_rec a) = log_leaf_free sb a"
| "log_write sb (Bnode_redirect_rec a b) = log_bnode_redirect sb a b"
| "log_write sb (Bnode_root_rec r n lt rt k) = log_bnode_root sb r n lt rt k"
| "log_write sb (Bnode_split_rec s p d) = log_bnode_split sb s p d"
| "log_write sb (Bnode_add_rec p c k) = log_bnode_add sb p c k"
| "log_write sb (Bnode_update_rec p c k) = log_bnode_update sb p c k"
| "log_write sb (Bnode_merge_rec s d) = log_bnode_merge sb s d"
| "log_write sb (Bnode_del_rec b k n) = log_bnode_del sb b k n"
| "log_write sb (Bnode_adjust_rec b f t) = log_bnode_adjust sb b f t"
| "log_write sb (Bnode_free_rec b) = log_bnode_free sb b"
| "log_write sb (Orphan_add_rec v i) = log_orphan_add sb v i"
| "log_write sb (Orphan_del_rec v i) = log_orphan_del sb v i"
| "log_write sb (Freeblocks_rec n) = log_freeblocks sb n"
| "log_write sb Unify_rec = log_unify sb"
| "log_write sb Delta_rec = log_delta sb"

text \<open>The bytes of a record, and the fields as they are read back: block numbers, keys
  and inums are cut to 48 bits, positions, counts and versions to 16 bits.\<close>

fun rec_bytes :: "log_rec \<Rightarrow> u8 list" where
  "rec_bytes (Balloc_rec b n) = LOG_BALLOC # encode32 n @ encode48 b"
| "rec_bytes (Bfree_rec b n) = LOG_BFREE # encode32 n @ encode48 b"
| "rec_bytes (Bfree_on_unify_rec b n) = LOG_BFREE_ON_UNIFY # encode32 n @ encode48 b"
| "rec_bytes (Bfree_relog_rec b n) = LOG_BFREE_RELOG # encode32 n @ encode48 b"
| "rec_bytes (Leaf_redirect_rec a b) = LOG_LEAF_REDIRECT # encode48 a @ encode48 b"
| "rec_bytes (Leaf_free_rec a) = LOG_LEAF_FREE # encode48 a"
| "rec_bytes (Bnode_redirect_rec a b) = LOG_BNODE_REDIRECT # encode48 a @ encode48 b"
| "rec_bytes (Bnode_root_rec r n lt rt k) =
     LOG_BNODE_ROOT # ucast n # encode48 r @ encode48 lt @ encode48 rt @ encode48 k"
| "rec_bytes (Bnode_split_rec s p d) = LOG_BNODE_SPLIT # encode16 p @ encode48 s @ encode48 d"
| "rec_bytes (Bnode_add_rec p c k) = LOG_BNODE_ADD # encode48 p @ encode48 c @ encode48 k"
| "rec_bytes (Bnode_update_rec p c k) = LOG_BNODE_UPDATE # encode48 p @ encode48 c @ encode48 k"
| "rec_bytes (Bnode_merge_rec s d) = LOG_BNODE_MERGE # encode48 s @ encode48 d"
| "rec_bytes (Bnode_del_rec b k n) = LOG_BNODE_DEL # encode16 n @ encode48 b @ encode48 k"
| "rec_bytes (Bnode_adjust_rec b f t) = LOG_BNODE_ADJUST # encode48 b @ encode48 f @ encode48 t"
| "rec_bytes (Bnode_free_rec b) = LOG_BNODE_FREE # encode48 b"
| "rec_bytes (Orphan_add_rec v i) = LOG_ORPHAN_ADD # encode16 v @ encode48 i"
| "rec_bytes (Orphan_del_rec v i) = LOG_ORPHAN_DEL # encode16 v @ encode48 i"
| "rec_bytes (Freeblocks_rec n) = LOG_FREEBLOCKS # encode48 n"
| "rec_bytes Unify_rec = [LOG_UNIFY]"
| "rec_bytes Delta_rec = [LOG_DELTA]"

fun rec_ok :: "log_rec \<Rightarrow> bool" where
  "rec_ok (Bnode_root_rec r n lt rt k) \<longleftrightarrow> n = 1 \<or> n = 2"
| "rec_ok _ \<longleftrightarrow> True"

lemma encode16_ucast: "encode16 (ucast (ucast v :: u16)) = encode16 v"
proof -
  have "ucast (drop_bit 8 (ucast (ucast v :: u16) :: u32)) = (ucast (drop_bit 8 v) :: u8)"
    "ucast (ucast (ucast v :: u16) :: u32) = (ucast v :: u8)"
    by (intro bit_word_eqI; auto simp: bit_simps)+
  then show ?thesis by (simp add: encode16_def numeral_2_eq_2)
qed

text \<open>The size table agrees with what the encoders store: the space that \<open>log_begin\<close>
  reserves is the space the record takes.\<close>

lemma log_size_rec: "log_size (hd (rec_bytes r)) = Some (length (rec_bytes r))"
  by (cases r) (simp_all add: log_size_def log_sizes_def nth_append)

lemma log_write_eq:
  "rec_ok r \<Longrightarrow> log_write sb r = log_begin sb (length (rec_bytes r)) \<bind> (\<lambda>sb. log_end sb (rec_bytes r))"
  using log_size_rec [of r]
  by (cases r)
     (simp_all add: log_balloc_def log_bfree_def log_bfree_on_unify_def log_bfree_relog_def log_leaf_redirect_def
       log_leaf_free_def log_bnode_redirect_def log_bnode_root_def log_bnode_split_def log_bnode_add_def
       log_bnode_update_def log_bnode_merge_def log_bnode_del_def log_bnode_adjust_def log_bnode_free_def
       log_orphan_add_def log_orphan_del_def log_freeblocks_def log_unify_def log_delta_def log_intent_def
       log_u48_def log_u16_u48_def log_u32_u48_def log_u48_u48_def log_u16_u48_u48_def log_u48_u48_u48_def
       encode16_ucast)

lemma rec_bytes_len: "0 < length (rec_bytes r)" "length (rec_bytes r) \<le> 26"
  by (cases r; simp)+

section \<open>The contents of the log blocks\<close>

definition hdr_bytes :: "u8 list \<Rightarrow> nat" where
  "hdr_bytes log = unat (be_get (take 2 (drop 2 log)))"

definition hdr_magic :: "u8 list \<Rightarrow> bool" where
  "hdr_magic log \<longleftrightarrow> take 2 log = encode16 TUX3_MAGIC_LOG"

text \<open>The records part of block \<open>i\<close>: up to \<open>logpos\<close> in the block being filled, as the
  header says in a finished block.\<close>

definition payload :: "logsb \<Rightarrow> nat \<Rightarrow> u8 list" where
  "payload sb i =
     take (if logbuf sb = Some i then logpos sb - log_hdr else hdr_bytes (logmap sb i)) (drop log_hdr (logmap sb i))"

text \<open>The \<open>lognext\<close> blocks of the cycle hold the records \<open>ess\<close>, block by block.\<close>

definition log_inv :: "logsb \<Rightarrow> log_rec list list \<Rightarrow> bool" where
  "log_inv sb ess \<longleftrightarrow>
     42 \<le> blocksize sb \<and> blocksize sb \<le> 2 ^ 16 \<and> (\<forall>i. length (logmap sb i) = blocksize sb) \<and>
     length ess = lognext sb \<and>
     (case logbuf sb of
        None \<Rightarrow> logpos sb = 0 \<and> logtop sb = 0
      | Some b \<Rightarrow> Suc b = lognext sb \<and> log_hdr \<le> logpos sb \<and> logpos sb \<le> blocksize sb \<and> logtop sb = blocksize sb) \<and>
     (\<forall>i<lognext sb. payload sb i = concat (map rec_bytes (ess ! i)) \<and> hdr_magic (logmap sb i) \<and>
        logdirty sb i \<and> (logbuf sb \<noteq> Some i \<longrightarrow> log_hdr + hdr_bytes (logmap sb i) \<le> blocksize sb))"

lemma be_get_encode16: "unat (be_get (encode16 (of_nat n))) = n mod 2 ^ 16"
proof -
  have "be_get (encode16 (of_nat n)) = take_bit 16 (ucast (of_nat n :: u32))"
    by (simp add: encode16_def be_put_ucast64 be_get_put)
  also have "\<dots> = take_bit 16 (of_nat n)"
    by (rule bit_word_eqI) (auto simp: bit_simps)
  finally show ?thesis
    by (simp add: unsigned_take_bit_eq unat_of_nat) (simp add: take_bit_eq_mod mod_mod_cancel)
qed

text \<open>\<open>log_finish\<close> writes the number of bytes and keeps the records.\<close>

lemma log_finish_inv:
  assumes "log_inv sb ess"
  shows "\<exists>sb'. log_finish sb = Some sb' \<and> log_inv sb' ess \<and> logbuf sb' = None \<and>
    lognext sb' = lognext sb \<and> blocksize sb' = blocksize sb"
proof (cases "logbuf sb")
  case None
  with assms show ?thesis by (simp add: log_finish_def)
next
  case (Some b)
  note inv = assms [unfolded log_inv_def, simplified Some, simplified]
  let ?n = "logpos sb - log_hdr"
  define old where "old = logmap sb b"
  define log where "log = splice (logpos sb) (replicate (logtop sb - logpos sb) 0) (splice 2 (encode16 (of_nat ?n)) old)"
  have len: "length old = blocksize sb" "log_hdr \<le> logpos sb" "logpos sb \<le> blocksize sb" "logtop sb = blocksize sb"
    using inv by (auto simp: old_def)
  have h: "log_hdr = 16" by (simp add: log_hdr_def)
  have llen: "length log = blocksize sb" using len h by (simp add: log_def)
  have "take 2 (drop 2 log) = encode16 (of_nat ?n)"
    unfolding log_def using len h splice_at [of 2 "encode16 (of_nat ?n)" old]
    by (simp add: splice_below)
  moreover have "?n < 2 ^ 16" using len conjunct1 [OF conjunct2 [OF inv]] by (simp add: log_hdr_def)
  ultimately have nb: "hdr_bytes log = ?n" by (simp add: hdr_bytes_def be_get_encode16)
  have pl: "take ?n (drop log_hdr log) = take ?n (drop log_hdr old)"
    unfolding log_def using len h by (simp add: splice_below splice_above)
  have mg: "take 2 log = take 2 old"
    unfolding log_def using len h by (simp add: take_splice)
  have f: "log_finish sb = Some (log_drop (sb\<lparr>logmap := (logmap sb)(b := log)\<rparr>))"
    using Some len by (simp add: log_finish_def log_def old_def)
  have "log_inv (log_drop (sb\<lparr>logmap := (logmap sb)(b := log)\<rparr>)) ess"
    unfolding log_inv_def
  proof (intro conjI allI impI)
    fix i assume i: "i < lognext (log_drop (sb\<lparr>logmap := (logmap sb)(b := log)\<rparr>))"
    then have i: "i < lognext sb" by (simp add: log_drop_def)
    have p: "payload sb i = concat (map rec_bytes (ess ! i))" "hdr_magic (logmap sb i)" "logdirty sb i"
      "i \<noteq> b \<Longrightarrow> log_hdr + hdr_bytes (logmap sb i) \<le> blocksize sb" using inv i by auto
    show "payload (log_drop (sb\<lparr>logmap := (logmap sb)(b := log)\<rparr>)) i = concat (map rec_bytes (ess ! i))"
      using p(1) Some pl nb by (auto simp: payload_def log_drop_def old_def)
    show "hdr_magic (logmap (log_drop (sb\<lparr>logmap := (logmap sb)(b := log)\<rparr>)) i)"
      using p(2) mg
      by (cases "i = b") (simp_all add: hdr_magic_def log_drop_def old_def)
    show "logdirty (log_drop (sb\<lparr>logmap := (logmap sb)(b := log)\<rparr>)) i" using p(3) by (simp add: log_drop_def)
    show "log_hdr + hdr_bytes (logmap (log_drop (sb\<lparr>logmap := (logmap sb)(b := log)\<rparr>)) i)
        \<le> blocksize (log_drop (sb\<lparr>logmap := (logmap sb)(b := log)\<rparr>))"
      using p(4) nb len by (simp add: log_drop_def)
  qed (use inv llen in \<open>simp_all add: log_drop_def\<close>)
  with f show ?thesis by (simp add: log_drop_def)
qed

lemma payload_other:
  "logbuf sb' = Some b \<Longrightarrow> i \<noteq> b \<Longrightarrow> logmap sb' i = logmap sb i \<Longrightarrow> logbuf sb \<noteq> Some i \<Longrightarrow> payload sb' i = payload sb i"
  by (simp add: payload_def)

text \<open>\<open>log_begin\<close> makes room for any record.\<close>

lemma log_begin_inv:
  assumes "log_inv sb ess" and "0 < n" and "n \<le> 26"
  shows "\<exists>sb' ess' b. log_begin sb n = Some sb' \<and> log_inv sb' ess' \<and> concat ess' = concat ess \<and>
    logbuf sb' = Some b \<and> logpos sb' + n \<le> blocksize sb'"
proof (cases "logtop sb < logpos sb + n")
  case False
  then obtain b where "logbuf sb = Some b" "logtop sb = blocksize sb"
    using assms(1,2) by (cases "logbuf sb") (auto simp: log_inv_def)
  with False assms(1) show ?thesis by (auto simp: log_begin_def)
next
  case True
  obtain s1 where s1: "log_finish sb = Some s1" "log_inv s1 ess" "logbuf s1 = None"
    using log_finish_inv [OF assms(1)] by blast
  let ?b = "lognext s1"
  define s2 where "s2 = (log_next s1)\<lparr>logmap := (logmap s1)(?b := splice 0 new_hdr (logmap s1 ?b)),
      logdirty := (logdirty s1)(?b := True)\<rparr>"
  have b: "log_begin sb n = Some s2"
    using True s1(1) by (simp add: log_begin_def s2_def log_next_def)
  note inv = s1(2) [unfolded log_inv_def]
  have nh: "length new_hdr = 16" "take 2 new_hdr = encode16 TUX3_MAGIC_LOG"
    by (simp_all add: new_hdr_def encode16_def)
  have len: "length (logmap s1 ?b) = blocksize s1" "42 \<le> blocksize s1" using inv by auto
  have "take 2 (splice 0 new_hdr (logmap s1 ?b)) = take 2 new_hdr"
    using len nh by (simp add: splice_def)
  with nh have mg: "hdr_magic (splice 0 new_hdr (logmap s1 ?b))" by (simp add: hdr_magic_def)
  have "log_inv s2 (ess @ [[]])"
    unfolding log_inv_def
  proof (intro conjI allI impI)
    fix i assume "i < lognext s2"
    then have i: "i < lognext s1 \<or> i = ?b" by (auto simp: s2_def log_next_def)
    have eq: "length ess = lognext s1" using inv by simp
    show "payload s2 i = concat (map rec_bytes ((ess @ [[]]) ! i))"
      using i inv s1(3) eq by (auto simp: payload_def s2_def log_next_def nth_append log_hdr_def)
    show "hdr_magic (logmap s2 i)" using i inv mg by (auto simp: s2_def log_next_def)
    show "logdirty s2 i" using i inv by (auto simp: s2_def log_next_def)
    assume "logbuf s2 \<noteq> Some i"
    then show "log_hdr + hdr_bytes (logmap s2 i) \<le> blocksize s2"
      using i inv s1(3) by (auto simp: s2_def log_next_def)
  qed (use inv len nh in \<open>auto simp: s2_def log_next_def log_hdr_def\<close>)
  moreover have "logpos s2 + n \<le> blocksize s2" using len assms(3) by (simp add: s2_def log_next_def log_hdr_def)
  ultimately show ?thesis using b by (intro exI [of _ s2] exI [of _ "ess @ [[]]"] exI [of _ ?b]) (simp add: s2_def log_next_def)
qed

text \<open>The stores of a record extend the block being filled.\<close>

lemma log_end_inv:
  assumes "log_inv sb ess" and "logbuf sb = Some b" and "logpos sb + length (rec_bytes r) \<le> blocksize sb"
  shows "\<exists>sb' ess'. log_end sb (rec_bytes r) = Some sb' \<and> log_inv sb' ess' \<and> concat ess' = concat ess @ [r]"
proof -
  note inv = assms(1) [unfolded log_inv_def, simplified assms(2), simplified]
  define log where "log = splice (logpos sb) (rec_bytes r) (logmap sb b)"
  define sb' where "sb' = sb\<lparr>logmap := (logmap sb)(b := log), logpos := logpos sb + length (rec_bytes r)\<rparr>"
  have e: "log_end sb (rec_bytes r) = Some sb'" using assms(2,3) by (simp add: log_end_def sb'_def log_def)
  have len: "length (logmap sb b) = blocksize sb" "log_hdr \<le> logpos sb" "length ess = Suc b" "Suc b = lognext sb"
    using inv by auto
  have pl: "take (logpos sb - log_hdr + length (rec_bytes r)) (drop log_hdr log)
      = take (logpos sb - log_hdr) (drop log_hdr (logmap sb b)) @ rec_bytes r"
    unfolding log_def by (rule splice_extend) (use len assms(3) in simp_all)
  have mg: "take 2 log = take 2 (logmap sb b)"
    unfolding log_def by (rule take_splice) (use len assms(3) in \<open>simp_all add: log_hdr_def\<close>)
  define ess' where "ess' = butlast ess @ [last ess @ [r]]"
  have ne: "ess \<noteq> []" using len(3) by auto
  then have ess: "concat ess' = concat ess @ [r]"
    unfolding ess'_def by (metis append_assoc append_butlast_last_id concat.simps(1,2) concat_append append_Nil2)
  have lst: "last ess = ess ! b" using ne len(3) by (simp add: last_conv_nth)
  have nth: "ess' ! i = (if i = b then ess ! b @ [r] else ess ! i)" if "i < lognext sb" for i
    using that len ne unfolding ess'_def lst by (auto simp: nth_append nth_butlast)
  have "log_inv sb' ess'"
    unfolding log_inv_def
  proof (intro conjI allI impI)
    fix i assume "i < lognext sb'"
    then have i: "i < lognext sb" by (simp add: sb'_def)
    have p: "payload sb i = concat (map rec_bytes (ess ! i))" "hdr_magic (logmap sb i)" "logdirty sb i"
      "i \<noteq> b \<Longrightarrow> log_hdr + hdr_bytes (logmap sb i) \<le> blocksize sb" using inv i by auto
    have "payload sb' i = (if i = b then payload sb b @ rec_bytes r else payload sb i)"
      using pl assms(2) len by (auto simp: payload_def sb'_def)
    with p(1) show "payload sb' i = concat (map rec_bytes (ess' ! i))" by (auto simp: nth [OF i])
    show "hdr_magic (logmap sb' i)" 
      using p(2) mg by (cases "i = b") (simp_all add: sb'_def hdr_magic_def)
    show "logdirty sb' i" using p(3) by (simp add: sb'_def)
    assume "logbuf sb' \<noteq> Some i"
    with p(4) assms(2) show "log_hdr + hdr_bytes (logmap sb' i) \<le> blocksize sb'" by (simp add: sb'_def)
  qed (use inv assms(2,3) len in \<open>auto simp: sb'_def ess'_def log_def\<close>)
  with e ess show ?thesis by blast
qed

lemma log_write_inv:
  assumes "log_inv sb ess" and "rec_ok r"
  shows "\<exists>sb' ess'. log_write sb r = Some sb' \<and> log_inv sb' ess' \<and> concat ess' = concat ess @ [r]"
proof -
  obtain s1 es1 b where s1: "log_begin sb (length (rec_bytes r)) = Some s1" "log_inv s1 es1" "concat es1 = concat ess"
      "logbuf s1 = Some b" "logpos s1 + length (rec_bytes r) \<le> blocksize s1"
    using log_begin_inv [OF assms(1) rec_bytes_len] by blast
  from log_end_inv [OF s1(2,4,5)] s1(1,3) show ?thesis by (simp add: log_write_eq [OF assms(2)])
qed

section \<open>Properties\<close>

fun log_writes :: "logsb \<Rightarrow> log_rec list \<Rightarrow> logsb option" where
  "log_writes sb [] = Some sb"
| "log_writes sb (r # rs) = log_write sb r \<bind> (\<lambda>sb. log_writes sb rs)"

lemma log_writes_inv:
  "log_inv sb ess \<Longrightarrow> list_all rec_ok rs \<Longrightarrow>
   \<exists>sb' ess'. log_writes sb rs = Some sb' \<and> log_inv sb' ess' \<and> concat ess' = concat ess @ rs"
proof (induction rs arbitrary: sb ess)
  case (Cons r rs)
  then have "rec_ok r" by simp
  from log_write_inv [OF Cons.prems(1) this]
  obtain s1 es1 where s1: "log_write sb r = Some s1" "log_inv s1 es1" "concat es1 = concat ess @ [r]" by blast
  moreover have "list_all rec_ok rs" using Cons.prems(2) by simp
  ultimately show ?case using Cons.IH [of s1 es1] by auto
qed auto

text \<open>An empty cycle on cached blocks of 64 bytes.\<close>

definition empty_log :: "nat \<Rightarrow> logsb" where
  "empty_log n = \<lparr>blocksize = n, logmap = (\<lambda>_. replicate n 0xee), logdirty = (\<lambda>_. False), lognext = 0,
     logbuf = None, logpos = 0, logtop = 0\<rparr>"

lemma empty_log_inv: "42 \<le> n \<Longrightarrow> n \<le> 2 ^ 16 \<Longrightarrow> log_inv (empty_log n) []"
  by (simp add: log_inv_def empty_log_def)

text \<open>C38: the \<open>log_size\<close> table agrees with the encoders: each of the twenty record
  writers reserves by \<open>log_begin\<close> exactly as many bytes as it then stores.\<close>

theorem log_write_exact:
  assumes "rec_ok r"
  shows "log_write sb r = log_begin sb (length (rec_bytes r)) \<bind> (\<lambda>sb. log_end sb (rec_bytes r)) \<and>
    log_size (hd (rec_bytes r)) = Some (length (rec_bytes r))"
  using log_write_eq [OF assms] log_size_rec by blast

lemma log_write_exact_witness:
  "log_write (empty_log 64) (Bnode_root_rec 7 2 8 9 100) =
     log_begin (empty_log 64) 26 \<bind> (\<lambda>sb. log_end sb (rec_bytes (Bnode_root_rec 7 2 8 9 100)))"
  using log_write_exact [of "Bnode_root_rec 7 2 8 9 100" "empty_log 64"] by simp

lemma log_cycle_inv:
  assumes "log_inv sb ess" and "list_all rec_ok rs"
  shows "\<exists>sb' ess'. log_writes sb rs \<bind> log_finish = Some sb' \<and> logbuf sb' = None \<and>
    log_inv sb' ess' \<and> concat ess' = concat ess @ rs"
proof -
  obtain s1 es1 where s1: "log_writes sb rs = Some s1" "log_inv s1 es1" "concat es1 = concat ess @ rs"
    using log_writes_inv [OF assms] by blast
  from log_finish_inv [OF s1(2)] s1 show ?thesis by auto
qed

text \<open>C19: whatever records a cycle logs, no writer fails or stores outside its block, no
  record spans two blocks, and after \<open>log_finish\<close> the blocks of the cycle hold, in order
  and behind a valid header that says how many bytes they take, exactly the bytes of the
  records: those logged before and then the new ones.\<close>

theorem log_cycle:
  assumes "log_inv sb ess" and "list_all rec_ok rs"
  shows "\<exists>sb' ess'. log_writes sb rs \<bind> log_finish = Some sb' \<and> logbuf sb' = None \<and>
    log_inv sb' ess' \<and> concat ess' = concat ess @ rs"
  by (rule log_cycle_inv [OF assms])

lemma log_cycle_witness:
  "\<exists>sb' ess'. log_writes (empty_log 64) [Balloc_rec 5 1, Bnode_root_rec 7 2 8 9 100, Bnode_add_rec 7 1 2, Unify_rec] \<bind> log_finish
      = Some sb' \<and> log_inv sb' ess' \<and>
     concat ess' = [Balloc_rec 5 1, Bnode_root_rec 7 2 8 9 100, Bnode_add_rec 7 1 2, Unify_rec]"
  using log_cycle [OF empty_log_inv [of 64], of "[Balloc_rec 5 1, Bnode_root_rec 7 2 8 9 100, Bnode_add_rec 7 1 2, Unify_rec]"]
  by auto

end
