(* ===== verification/Bnode.thy ===== *)
theory Bnode
  imports Prelude "HOL-Library.Monad_Syntax"
begin

text \<open>
  Btree index nodes, from \<open>src/kernel/btree.c\<close>: lookup, insertion, removal, split and
  merge of index entries, and the functions that replay a logged node change.  A node is
  the array of all its entry slots and the count of those in use; a pointer to an entry is
  its index.  \<open>None\<close> (or the error \<open>ASSERT\<close>) is a failed assertion or a copy that leaves
  the node.  The lemmas relate every operation to the list of entries in use and to the
  routing of keys to children that the list stands for.
\<close>

section \<open>Nodes\<close>

record index_entry =
  ekey :: u64
  eblock :: u64

record bnode =
  magic :: u16
  bcount :: nat
  entries :: "index_entry list"

definition TUX3_MAGIC_BNODE :: u16 where "TUX3_MAGIC_BNODE = 0xb4de"

definition calc_entries_per_node :: "nat \<Rightarrow> nat" where
  "calc_entries_per_node blocksize = (blocksize - 8) div 16"

definition null_entry :: index_entry where
  "null_entry = \<lparr>ekey = 0, eblock = 0\<rparr>"

definition bnode_buffer_init :: "bnode \<Rightarrow> bnode" where
  "bnode_buffer_init n =
     \<lparr>magic = TUX3_MAGIC_BNODE, bcount = 0, entries = replicate (length (entries n)) null_entry\<rparr>"

definition bnode_sniff :: "bnode \<Rightarrow> bool" where
  "bnode_sniff n = (magic n = TUX3_MAGIC_BNODE)"

text \<open>The loop of \<open>bnode_lookup\<close>, from the entry \<open>next\<close> on.\<close>

function lookup_next :: "bnode \<Rightarrow> u64 \<Rightarrow> nat \<Rightarrow> nat" where
  "lookup_next node key next =
     (let next = next + 1
      in if next < bcount node
         then (if key < ekey (entries node ! next) then next else lookup_next node key next)
         else next)"
  by pat_completeness auto
termination
  by (relation "measure (\<lambda>(node, key, next). bcount node - next)") auto

declare lookup_next.simps [simp del]

definition bnode_lookup :: "bnode \<Rightarrow> u64 \<Rightarrow> nat option" where
  "bnode_lookup node key = (if \<not> (bcount node > 0) then None else Some (lookup_next node key 0 - 1))"

definition bnode_init_root :: "bnode \<Rightarrow> nat \<Rightarrow> u64 \<Rightarrow> u64 \<Rightarrow> u64 \<Rightarrow> bnode" where
  "bnode_init_root root count left right rkey =
     root\<lparr>bcount := count,
          entries := (entries root)[0 := (entries root ! 0)\<lparr>eblock := left\<rparr>, 1 := \<lparr>ekey = rkey, eblock = right\<rparr>]\<rparr>"

definition bnode_add_index :: "bnode \<Rightarrow> nat \<Rightarrow> u64 \<Rightarrow> u64 \<Rightarrow> bnode option" where
  "bnode_add_index node p child childkey =
     (let count = bcount node
      in if p \<le> count \<and> count < length (entries node)
         then let es = vecmove (p + 1) p (count - p) (entries node)
              in Some (node\<lparr>entries := es[p := \<lparr>ekey = childkey, eblock = child\<rparr>], bcount := count + 1\<rparr>)
         else None)"

definition bnode_remove_index :: "bnode \<Rightarrow> nat \<Rightarrow> nat \<Rightarrow> bnode option" where
  "bnode_remove_index node p count =
     (let total = bcount node
      in if p + count \<le> total
         then Some (node\<lparr>entries := vecmove p (p + count) (total - (p + count)) (entries node), bcount := total - count\<rparr>)
         else None)"

definition bnode_split :: "bnode \<Rightarrow> nat \<Rightarrow> bnode \<Rightarrow> (bnode \<times> bnode) option" where
  "bnode_split src pos dst =
     (if pos \<le> bcount src \<and> bcount src - pos \<le> length (entries dst)
      then let n = bcount src - pos
           in Some (src\<lparr>bcount := pos\<rparr>,
                    dst\<lparr>bcount := n, entries := splice 0 (take n (drop pos (entries src))) (entries dst)\<rparr>)
      else None)"

text \<open>\<open>epn\<close> is \<open>sb->entries_per_node\<close>; the result says whether the nodes were merged.\<close>

definition bnode_merge_nodes :: "nat \<Rightarrow> bnode \<Rightarrow> bnode \<Rightarrow> bool \<times> bnode" where
  "bnode_merge_nodes epn into frm =
     (let into_count = bcount into; from_count = bcount frm
      in if epn < from_count + into_count then (False, into)
         else (True, into\<lparr>entries := splice into_count (take from_count (entries frm)) (entries into),
                          bcount := into_count + from_count\<rparr>))"

section \<open>Entries in use\<close>

definition node_ok :: "nat \<Rightarrow> bnode \<Rightarrow> bool" where
  "node_ok epn n \<longleftrightarrow> length (entries n) = epn \<and> bcount n \<le> epn"

definition live :: "bnode \<Rightarrow> index_entry list" where
  "live n = take (bcount n) (entries n)"

lemma length_live: "node_ok epn n \<Longrightarrow> length (live n) = bcount n"
  by (simp add: node_ok_def live_def)

lemma live_nth: "node_ok epn n \<Longrightarrow> i < bcount n \<Longrightarrow> live n ! i = entries n ! i"
  by (simp add: live_def)

lemma init_live:
  "node_ok epn n \<Longrightarrow> node_ok epn (bnode_buffer_init n) \<and> live (bnode_buffer_init n) = [] \<and> bnode_sniff (bnode_buffer_init n)"
  by (simp add: node_ok_def live_def bnode_buffer_init_def bnode_sniff_def)

lemma init_root_live:
  assumes "node_ok epn n" and "2 \<le> epn" and "c = 1 \<or> c = 2" and "entries n ! 0 = null_entry"
  shows "node_ok epn (bnode_init_root n c lt rt rk) \<and>
    live (bnode_init_root n c lt rt rk) = take c [\<lparr>ekey = 0, eblock = lt\<rparr>, \<lparr>ekey = rk, eblock = rt\<rparr>]"
proof -
  have l: "length (entries n) = epn" using assms(1) by (simp add: node_ok_def)
  obtain a b es where e: "entries n = a # b # es" using l assms(2)
    by (cases "entries n"; cases "tl (entries n)") auto
  then have "a = null_entry" using assms(4) by simp
  with e assms show ?thesis by (auto simp: node_ok_def live_def bnode_init_root_def null_entry_def)
qed

lemma take_splice_all: "off + length bs \<le> length buf \<Longrightarrow> take (off + length bs) (splice off bs buf) = take off buf @ bs"
  by (simp add: splice_def)

lemma take_Suc_upd: "p < length es \<Longrightarrow> (take (Suc p) es @ ys)[p := x] = take p es @ x # ys"
  by (simp add: take_Suc_conv_app_nth list_update_append)

lemma add_index_live:
  assumes "node_ok epn n" and "p \<le> bcount n" and "bcount n < epn"
  shows "\<exists>n'. bnode_add_index n p child k = Some n' \<and> node_ok epn n' \<and> magic n' = magic n \<and>
    live n' = take p (live n) @ \<lparr>ekey = k, eblock = child\<rparr> # drop p (live n)"
proof -
  let ?es = "entries n" and ?c = "bcount n"
  let ?mv = "vecmove (p + 1) p (?c - p) ?es"
  have l: "length ?es = epn" using assms(1) by (simp add: node_ok_def)
  have mv: "?mv = take (p + 1) ?es @ take (?c - p) (drop p ?es) @ drop (?c + 1) ?es"
    using assms l by (simp add: vecmove_def splice_def)
  have len: "length ?mv = epn" unfolding mv using assms l by simp
  have "?mv[p := \<lparr>ekey = k, eblock = child\<rparr>]
      = take p ?es @ \<lparr>ekey = k, eblock = child\<rparr> # take (?c - p) (drop p ?es) @ drop (?c + 1) ?es"
    unfolding mv using assms l by (simp add: take_Suc_upd)
  moreover have "take (?c + 1) \<dots> = take p (live n) @ \<lparr>ekey = k, eblock = child\<rparr> # drop p (live n)"
    using assms l by (simp add: live_def drop_take Suc_diff_le)
  ultimately show ?thesis
    using assms l len by (simp add: bnode_add_index_def Let_def node_ok_def live_def)
qed

lemma remove_index_live:
  assumes "node_ok epn n" and "p + c \<le> bcount n"
  shows "\<exists>n'. bnode_remove_index n p c = Some n' \<and> node_ok epn n' \<and> magic n' = magic n \<and>
    live n' = take p (live n) @ drop (p + c) (live n)"
proof -
  let ?bs = "take (bcount n - (p + c)) (drop (p + c) (entries n))"
  have l: "length ?bs = bcount n - (p + c)" "length (entries n) = epn" "bcount n \<le> epn"
    using assms by (auto simp: node_ok_def)
  then have "take (bcount n - c) (splice p ?bs (entries n)) = take p (entries n) @ ?bs"
    using take_splice_all [of p ?bs "entries n"] assms(2) by (simp add: add.commute)
  moreover have "length (splice p ?bs (entries n)) = epn" using l assms(2) by simp
  ultimately show ?thesis
    using assms l by (simp add: bnode_remove_index_def Let_def node_ok_def live_def vecmove_def drop_take)
qed

lemma split_live:
  assumes "node_ok epn src" and "node_ok epn dst" and "pos \<le> bcount src"
  shows "\<exists>src' dst'. bnode_split src pos dst = Some (src', dst') \<and> node_ok epn src' \<and> node_ok epn dst' \<and>
    magic src' = magic src \<and> magic dst' = magic dst \<and> live src' = take pos (live src) \<and> live dst' = drop pos (live src)"
proof -
  let ?bs = "take (bcount src - pos) (drop pos (entries src))"
  have l: "length ?bs = bcount src - pos" "length (entries src) = epn" "length (entries dst) = epn" "bcount src - pos \<le> epn"
    using assms by (auto simp: node_ok_def)
  then have "take (bcount src - pos) (splice 0 ?bs (entries dst)) = ?bs"
    using take_splice_all [of 0 ?bs "entries dst"] by simp
  moreover have "length (splice 0 ?bs (entries dst)) = epn" using l by simp
  ultimately show ?thesis
    using assms l by (simp add: bnode_split_def Let_def node_ok_def live_def drop_take min_def)
qed

lemma merge_live:
  assumes "node_ok epn into" and "node_ok epn frm" and "bnode_merge_nodes epn into frm = (r, into')"
  shows "r = (bcount into + bcount frm \<le> epn) \<and> node_ok epn into' \<and> magic into' = magic into \<and>
    live into' = live into @ (if r then live frm else [])"
proof (cases "bcount into + bcount frm \<le> epn")
  case True
  let ?bs = "take (bcount frm) (entries frm)"
  have l: "length ?bs = bcount frm" "length (entries into) = epn" using assms(1,2) by (auto simp: node_ok_def)
  then have "take (bcount into + bcount frm) (splice (bcount into) ?bs (entries into)) = take (bcount into) (entries into) @ ?bs"
    using take_splice_all [of "bcount into" ?bs "entries into"] True by simp
  moreover have "length (splice (bcount into) ?bs (entries into)) = epn" using l True by simp
  ultimately show ?thesis
    using assms True by (auto simp: bnode_merge_nodes_def Let_def node_ok_def live_def add.commute)
qed (use assms in \<open>auto simp: bnode_merge_nodes_def Let_def node_ok_def add.commute split: if_splits\<close>)

section \<open>Routing\<close>

text \<open>The keys of a node increase from entry to entry; the key of the first entry is not
  looked at.\<close>

definition keys_ok :: "index_entry list \<Rightarrow> bool" where
  "keys_ok es \<longleftrightarrow> sorted_wrt (<) (map ekey (tl es))"

text \<open>The child that a list of entries gives for a key: the last one whose key is not
  greater, else the first one.\<close>

fun route :: "index_entry list \<Rightarrow> u64 \<Rightarrow> u64 \<Rightarrow> u64" where
  "route [] key b = b"
| "route (e # es) key b = (if key < ekey e then b else route es key (eblock e))"

definition child_of :: "index_entry list \<Rightarrow> u64 \<Rightarrow> u64" where
  "child_of es key = route (tl es) key (eblock (hd es))"

text \<open>Where a lookup stops: all entries after the first and up to it have a key that is not
  greater, the next one has a greater key.\<close>

definition looked_up :: "index_entry list \<Rightarrow> u64 \<Rightarrow> nat \<Rightarrow> bool" where
  "looked_up es key i \<longleftrightarrow> i < length es \<and> (\<forall>j. 0 < j \<and> j \<le> i \<longrightarrow> ekey (es ! j) \<le> key) \<and>
     (Suc i < length es \<longrightarrow> key < ekey (es ! Suc i))"

lemma lookup_next_ok:
  "node_ok epn n \<Longrightarrow> next < bcount n \<Longrightarrow> (\<forall>j. 0 < j \<and> j \<le> next \<longrightarrow> ekey (live n ! j) \<le> key) \<Longrightarrow>
    0 < lookup_next n key next \<and> looked_up (live n) key (lookup_next n key next - 1)"
proof (induction n key "next" rule: lookup_next.induct)
  case (1 n key nxt)
  show ?case
  proof (cases "Suc nxt < bcount n \<and> \<not> key < ekey (entries n ! Suc nxt)")
    case True
    have e: "live n ! Suc nxt = entries n ! Suc nxt" using True by (simp add: live_def)
    then have "\<forall>j. 0 < j \<and> j \<le> nxt + 1 \<longrightarrow> ekey (live n ! j) \<le> key"
      using "1.prems"(3) True by (auto simp: le_Suc_eq not_less)
    with "1.IH" [of "nxt + 1"] "1.prems"(1) True show ?thesis by (simp add: lookup_next.simps [of n key nxt] Let_def)
  next
    case False
    then have "lookup_next n key nxt = Suc nxt"
      by (auto simp: lookup_next.simps [of n key nxt] Let_def)
    moreover have "looked_up (live n) key nxt"
      using "1.prems" False length_live [OF "1.prems"(1)] live_nth [OF "1.prems"(1)] by (auto simp: looked_up_def)
    ultimately show ?thesis by simp
  qed
qed

lemma bnode_lookup_ok:
  assumes "node_ok epn n" and "0 < bcount n"
  shows "\<exists>i. bnode_lookup n key = Some i \<and> looked_up (live n) key i"
  using lookup_next_ok [OF assms, of key] assms(2) by (simp add: bnode_lookup_def)

lemma looked_up_child: "looked_up es key i \<Longrightarrow> child_of es key = eblock (es ! i)"
proof (induction es arbitrary: i)
  case (Cons a es)
  have "route es key b = (if i = 0 then b else eblock (es ! (i - 1)))" if "looked_up (a # es) key i" for i b
    using that
  proof (induction es arbitrary: a i b)
    case (Cons c es)
    show ?case
    proof (cases i)
      case 0
      with Cons.prems show ?thesis by (auto simp: looked_up_def)
    next
      case (Suc j)
      have c: "\<not> key < ekey c" using Cons.prems Suc by (fastforce simp: looked_up_def)
      have "looked_up (c # es) key j"
        using Cons.prems Suc unfolding looked_up_def by (fastforce simp: nth_Cons')
      from Cons.IH [OF this, of "eblock c"] c Suc show ?thesis by (auto simp: nth_Cons')
    qed
  qed (auto simp: looked_up_def)
  with Cons.prems show ?case by (simp add: child_of_def nth_Cons')
qed (simp add: looked_up_def)

lemma route_filter: "sorted_wrt (<) (map ekey es) \<Longrightarrow> route es key (eblock b) = eblock (last (b # filter (\<lambda>e. ekey e \<le> key) es))"
proof (induction es arbitrary: b)
  case (Cons e es)
  show ?case
  proof (cases "key < ekey e")
    case True
    then have "filter (\<lambda>e. ekey e \<le> key) es = []"
      using Cons.prems by (fastforce simp: filter_empty_conv)
    with True show ?thesis by (auto dest: leD)
  next
    case False
    with Cons show ?thesis by (auto dest: leD)
  qed
qed simp

lemma child_filter:
  "es \<noteq> [] \<Longrightarrow> keys_ok es \<Longrightarrow> child_of es key = eblock (last (hd es # filter (\<lambda>e. ekey e \<le> key) (tl es)))"
  by (simp add: child_of_def keys_ok_def route_filter)

text \<open>Inserting an entry behind the one that the lookup of its key finds.\<close>

lemma child_insert:
  assumes "keys_ok es" and "looked_up es (ekey e) i" and "0 < i \<longrightarrow> ekey (es ! i) < ekey e"
  shows "keys_ok (take (Suc i) es @ e # drop (Suc i) es) \<and>
    child_of (take (Suc i) es @ e # drop (Suc i) es) key =
      (if ekey e \<le> key \<and> (Suc i < length es \<longrightarrow> key < ekey (es ! Suc i)) then eblock e else child_of es key)"
proof -
  obtain a rest where es: "es = a # rest" using assms(2) by (cases es) (auto simp: looked_up_def)
  let ?A = "take i rest" and ?B = "drop i rest"
  have i: "i \<le> length rest" using assms(2) by (simp add: looked_up_def es)
  have srt: "sorted_wrt (<) (map ekey (?A @ ?B))" using assms(1) by (simp add: keys_ok_def es)
  then have srt2: "sorted_wrt (<) (map ekey ?A)" "sorted_wrt (<) (map ekey ?B)"
    unfolding map_append sorted_wrt_append by blast+
  have A: "ekey x < ekey e" if "x \<in> set ?A" for x
  proof -
    have ne: "?A \<noteq> []" using that by (auto simp del: take_eq_Nil)
    obtain A' y where y: "?A = A' @ [y]" by (rule rev_exhaust [of ?A]) (use ne in blast)+
    then have "0 < i" by (cases i) auto
    have "last ?A = ?A ! (length ?A - 1)" by (rule last_conv_nth [OF ne])
    moreover have "last ?A = y" by (simp add: y)
    moreover have "length ?A = i" using i by simp
    ultimately have "y = rest ! (i - 1)" using \<open>0 < i\<close> by simp
    moreover have "es ! i = rest ! (i - 1)" using \<open>0 < i\<close> by (simp add: es)
    ultimately have "es ! i = y" by simp
    with assms(3) \<open>0 < i\<close> have "ekey y < ekey e" by simp
    moreover have "x = y \<or> ekey x < ekey y" using that srt2(1) unfolding y by (auto simp: sorted_wrt_append)
    ultimately show ?thesis by (auto intro: less_trans)
  qed
  have B: "ekey e < ekey x" if "x \<in> set ?B" for x
  proof -
    have ne: "?B \<noteq> []" using that by (auto simp del: drop_eq_Nil)
    obtain y B' where y: "?B = y # B'" using ne by (meson neq_Nil_conv)
    have "es ! Suc i = y" using y by (simp add: es nth_via_drop)
    moreover have "Suc i < length es" using ne by (simp add: es)
    ultimately have "Suc i < length es" "es ! Suc i = y" by simp_all
    with assms(2) have "ekey e < ekey y" by (simp add: looked_up_def)
    moreover have "x = y \<or> ekey y < ekey x" using that srt2(2) unfolding y by (auto simp: sorted_wrt_append)
    ultimately show ?thesis by (auto intro: less_trans)
  qed
  have new: "take (Suc i) es @ e # drop (Suc i) es = a # ?A @ e # ?B" by (simp add: es)
  have ok: "keys_ok (a # ?A @ e # ?B)"
    using srt2 A B by (auto simp: keys_ok_def sorted_wrt_append intro: less_trans)
  have hdB: "?B \<noteq> [] \<Longrightarrow> hd ?B = es ! Suc i" "?B = [] \<longleftrightarrow> \<not> Suc i < length es"
    using i by (auto simp: es hd_drop_conv_nth)
  have Bf: "filter (\<lambda>x. ekey x \<le> key) ?B = [] \<longleftrightarrow> (Suc i < length es \<longrightarrow> key < ekey (es ! Suc i))"
  proof (cases ?B)
    case (Cons y B')
    then have y: "es ! Suc i = y" "Suc i < length es" using hdB by auto
    have "ekey y < ekey x" if "x \<in> set B'" for x using srt2(2) that by (auto simp: Cons)
    then have "key < ekey x" if "key < ekey y" "x \<in> set B'" for x using that less_trans by blast
    then show ?thesis unfolding Cons using y by (auto simp: filter_empty_conv not_le)
  qed (use hdB in simp)
  have orig: "child_of es key = eblock (last (a # filter (\<lambda>x. ekey x \<le> key) ?A @ filter (\<lambda>x. ekey x \<le> key) ?B))"
    using child_filter [OF _ assms(1), of key] by (simp add: es flip: filter_append)
  have "filter (\<lambda>x. ekey x \<le> key) ?B = []" if "\<not> ekey e \<le> key"
    using B that by (fastforce simp: filter_empty_conv)
  then show ?thesis
    using ok Bf child_filter [OF _ ok, of key] unfolding new orig by auto
qed

lemma child_split:
  assumes "keys_ok es" and "0 < p" and "p < length es"
  shows "keys_ok (take p es) \<and> keys_ok (drop p es) \<and>
    child_of es key = (if key < ekey (es ! p) then child_of (take p es) key else child_of (drop p es) key)"
proof -
  obtain a A where A: "take p es = a # A" using assms by (cases "take p es") auto
  obtain b B where B: "drop p es = b # B" "b = es ! p" using assms(3) by (metis Cons_nth_drop_Suc)
  have es: "es = a # A @ b # B" using append_take_drop_id [of p es] A B by simp
  have ok: "keys_ok (a # A)" "keys_ok (b # B)" using assms(1) unfolding es by (simp_all add: keys_ok_def sorted_wrt_append)
  have gt: "ekey b < ekey x" if "x \<in> set B" for x
    using assms(1) that unfolding es by (simp add: keys_ok_def sorted_wrt_append)
  have "filter (\<lambda>e. ekey e \<le> key) B = []" if "key < ekey b"
    using gt that by (fastforce simp: filter_empty_conv)
  moreover have "child_of es key = eblock (last (a # filter (\<lambda>e. ekey e \<le> key) A @ filter (\<lambda>e. ekey e \<le> key) (b # B)))"
    using child_filter [OF _ assms(1), of key] unfolding es by simp
  ultimately show ?thesis
    unfolding A B(1) B(2) [symmetric]
    using ok child_filter [OF _ ok(1), of key] child_filter [OF _ ok(2), of key] by (auto simp: not_less dest: leD)
qed

section \<open>Replay of node changes\<close>

text \<open>
  The buffers of the volume: \<open>cache\<close> is what the buffer of a block holds (anything for a
  block that has not been read), \<open>disk\<close> what is on the volume.  \<open>nomem\<close> says for which
  blocks no buffer can be had, \<open>rd_err\<close> for which reading fails.
\<close>

record vol =
  cache :: "u64 \<Rightarrow> bnode"
  uptodate :: "u64 \<Rightarrow> bool"
  unify_dirty :: "u64 \<Rightarrow> bool"
  disk :: "u64 \<Rightarrow> bnode"
  nomem :: "u64 \<Rightarrow> bool"
  rd_err :: "u64 \<Rightarrow> bool"

definition vol_getblk :: "vol \<Rightarrow> u64 \<Rightarrow> bnode option" where
  "vol_getblk v b = (if nomem v b then None else Some (cache v b))"

definition vol_bread :: "vol \<Rightarrow> u64 \<Rightarrow> (bnode \<times> vol) option" where
  "vol_bread v b =
     (if nomem v b then None
      else if uptodate v b then Some (cache v b, v)
      else if rd_err v b then None
      else Some (disk v b, v\<lparr>cache := (cache v)(b := disk v b), uptodate := (uptodate v)(b := True)\<rparr>))"

text \<open>Storing a node in its buffer, and \<open>mark_buffer_unify\<close>: a dirty buffer is up to date.\<close>

definition put_unify :: "u64 \<Rightarrow> bnode \<Rightarrow> vol \<Rightarrow> vol" where
  "put_unify b n v = v\<lparr>cache := (cache v)(b := n), uptodate := (uptodate v)(b := True),
                       unify_dirty := (unify_dirty v)(b := True)\<rparr>"

definition replay_bnode_redirect :: "vol \<Rightarrow> u64 \<Rightarrow> u64 \<Rightarrow> err \<times> vol" where
  "replay_bnode_redirect v oldblock newblock =
     (case vol_getblk v newblock of
        None \<Rightarrow> (Some ENOMEM, v)
      | Some _ \<Rightarrow>
          (case vol_bread v oldblock of
             None \<Rightarrow> (Some EIO, v)
           | Some (old, v) \<Rightarrow>
               if \<not> bnode_sniff old then (Some ASSERT, v) else (None, put_unify newblock old v)))"

definition replay_bnode_root :: "vol \<Rightarrow> u64 \<Rightarrow> nat \<Rightarrow> u64 \<Rightarrow> u64 \<Rightarrow> u64 \<Rightarrow> err \<times> vol" where
  "replay_bnode_root v root count left right rkey =
     (case vol_getblk v root of
        None \<Rightarrow> (Some ENOMEM, v)
      | Some n \<Rightarrow> (None, put_unify root (bnode_init_root (bnode_buffer_init n) count left right rkey) v))"

definition replay_bnode_split :: "vol \<Rightarrow> u64 \<Rightarrow> nat \<Rightarrow> u64 \<Rightarrow> err \<times> vol" where
  "replay_bnode_split v src pos dst =
     (case vol_getblk v src of
        None \<Rightarrow> (Some ENOMEM, v)
      | Some s \<Rightarrow>
          (case vol_getblk v dst of
             None \<Rightarrow> (Some ENOMEM, v)
           | Some d \<Rightarrow>
               (case bnode_split s pos (bnode_buffer_init d) of
                  None \<Rightarrow> (Some ASSERT, v)
                | Some (s, d) \<Rightarrow> (None, put_unify dst d (put_unify src s v)))))"

definition replay_bnode_change :: "vol \<Rightarrow> u64 \<Rightarrow> 'a \<Rightarrow> 'b \<Rightarrow> (bnode \<Rightarrow> 'a \<Rightarrow> 'b \<Rightarrow> bnode option) \<Rightarrow> err \<times> vol" where
  "replay_bnode_change v bnodeblock val1 val2 change =
     (case vol_getblk v bnodeblock of
        None \<Rightarrow> (Some ENOMEM, v)
      | Some n \<Rightarrow>
          (case change n val1 val2 of
             None \<Rightarrow> (Some ASSERT, v)
           | Some n \<Rightarrow> (None, put_unify bnodeblock n v)))"

definition add_func :: "bnode \<Rightarrow> u64 \<Rightarrow> u64 \<Rightarrow> bnode option" where
  "add_func n child key = do { i \<leftarrow> bnode_lookup n key; bnode_add_index n (i + 1) child key }"

definition replay_bnode_add :: "vol \<Rightarrow> u64 \<Rightarrow> u64 \<Rightarrow> u64 \<Rightarrow> err \<times> vol" where
  "replay_bnode_add v parent child key = replay_bnode_change v parent child key add_func"

definition update_func :: "bnode \<Rightarrow> u64 \<Rightarrow> u64 \<Rightarrow> bnode option" where
  "update_func n child key =
     do { i \<leftarrow> bnode_lookup n key;
          if ekey (entries n ! i) = key
          then Some (n\<lparr>entries := (entries n)[i := (entries n ! i)\<lparr>eblock := child\<rparr>]\<rparr>) else None }"

definition replay_bnode_update :: "vol \<Rightarrow> u64 \<Rightarrow> u64 \<Rightarrow> u64 \<Rightarrow> err \<times> vol" where
  "replay_bnode_update v parent child key = replay_bnode_change v parent child key update_func"

definition replay_bnode_merge :: "nat \<Rightarrow> vol \<Rightarrow> u64 \<Rightarrow> u64 \<Rightarrow> err \<times> vol" where
  "replay_bnode_merge epn v src dst =
     (case vol_getblk v src of
        None \<Rightarrow> (Some ENOMEM, v)
      | Some s \<Rightarrow>
          (case vol_getblk v dst of
             None \<Rightarrow> (Some ENOMEM, v)
           | Some d \<Rightarrow>
               (case bnode_merge_nodes epn d s of
                  (False, d) \<Rightarrow> (Some ASSERT, v)
                | (True, d) \<Rightarrow> (None, put_unify src (if src = dst then d else s) (put_unify dst d v)))))"

definition del_func :: "bnode \<Rightarrow> u64 \<Rightarrow> nat \<Rightarrow> bnode option" where
  "del_func n key count =
     do { i \<leftarrow> bnode_lookup n key;
          if ekey (entries n ! i) = key then bnode_remove_index n i count else None }"

definition replay_bnode_del :: "vol \<Rightarrow> u64 \<Rightarrow> u64 \<Rightarrow> nat \<Rightarrow> err \<times> vol" where
  "replay_bnode_del v bnode key count = replay_bnode_change v bnode key count del_func"

definition adjust_func :: "bnode \<Rightarrow> u64 \<Rightarrow> u64 \<Rightarrow> bnode option" where
  "adjust_func n frm to =
     do { i \<leftarrow> bnode_lookup n frm;
          if ekey (entries n ! i) = frm
          then Some (n\<lparr>entries := (entries n)[i := (entries n ! i)\<lparr>ekey := to\<rparr>]\<rparr>) else None }"

definition replay_bnode_adjust :: "vol \<Rightarrow> u64 \<Rightarrow> u64 \<Rightarrow> u64 \<Rightarrow> err \<times> vol" where
  "replay_bnode_adjust v bnode frm to = replay_bnode_change v bnode frm to adjust_func"

section \<open>Replayed and direct changes\<close>

lemma looked_up_unique:
  assumes "keys_ok es" and "looked_up es key i" and "looked_up es key j"
  shows "i = j"
proof -
  have "\<not> i < j" if "looked_up es key i" "looked_up es key j" for i j
  proof
    assume "i < j"
    then have "key < ekey (es ! Suc i)" "ekey (es ! Suc i) \<le> key" using that by (simp_all add: looked_up_def)
    then show False by simp
  qed
  with assms(2,3) show ?thesis by (meson linorder_neqE_nat)
qed

lemma keys_le:
  "keys_ok es \<Longrightarrow> 0 < i \<Longrightarrow> i \<le> j \<Longrightarrow> j < length es \<Longrightarrow> ekey (es ! i) \<le> ekey (es ! j)"
  by (cases es; cases i; cases j) (auto simp: keys_ok_def sorted_wrt_iff_nth_less le_less Suc_le_eq)

text \<open>A key between those of two neighbours is looked up at the first of them.\<close>

lemma looked_up_between:
  assumes "keys_ok es" and "i < length es" and "0 < i \<longrightarrow> ekey (es ! i) \<le> key"
    and "Suc i < length es \<longrightarrow> key < ekey (es ! Suc i)"
  shows "looked_up es key i"
  using assms keys_le [of es _ i] unfolding looked_up_def by (meson order_trans less_le_trans)

lemma add_func_at:
  assumes "node_ok epn n" and "keys_ok (live n)" and "0 < p" and "p \<le> bcount n"
    and "1 < p \<longrightarrow> ekey (live n ! (p - 1)) \<le> key" and "p < bcount n \<longrightarrow> key < ekey (live n ! p)"
  shows "add_func n child key = bnode_add_index n p child key"
proof -
  have l: "length (live n) = bcount n" by (rule length_live [OF assms(1)])
  obtain i where i: "bnode_lookup n key = Some i" "looked_up (live n) key i"
    using bnode_lookup_ok [OF assms(1), of key] assms(3,4) by auto
  have "looked_up (live n) key (p - 1)"
    using looked_up_between [OF assms(2), of "p - 1" key] assms(3-6) l by auto
  then have "i = p - 1" by (rule looked_up_unique [OF assms(2) i(2)])
  with i(1) assms(3) show ?thesis by (simp add: add_func_def)
qed

text \<open>\<open>count\<close> single removals at one position, as \<open>remove_index\<close> makes them.\<close>

fun remove_each :: "nat \<Rightarrow> bnode \<Rightarrow> nat \<Rightarrow> bnode option" where
  "remove_each 0 n p = Some n"
| "remove_each (Suc c) n p = bnode_remove_index n p 1 \<bind> (\<lambda>n. remove_each c n p)"

lemma remove_each_live:
  "node_ok epn n \<Longrightarrow> p + c \<le> bcount n \<Longrightarrow>
   \<exists>n'. remove_each c n p = Some n' \<and> node_ok epn n' \<and> magic n' = magic n \<and> live n' = take p (live n) @ drop (p + c) (live n)"
proof (induction c arbitrary: n)
  case (Suc c)
  obtain n1 where n1: "bnode_remove_index n p 1 = Some n1" "node_ok epn n1" "magic n1 = magic n"
      "live n1 = take p (live n) @ drop (p + 1) (live n)"
    using remove_index_live [OF Suc.prems(1), of p 1] Suc.prems(2) by auto
  have l: "length (live n) = bcount n" by (rule length_live [OF Suc.prems(1)])
  have "bcount n1 = bcount n - 1" using length_live [OF n1(2)] Suc.prems(2) l by (simp add: n1(4))
  then have "p + c \<le> bcount n1" using Suc.prems(2) by simp
  from Suc.IH [OF n1(2) this] n1 Suc.prems(2) l show ?case by (auto simp: min_def add.commute)
qed simp

lemma del_func_at:
  assumes "node_ok epn n" and "sorted_wrt (<) (map ekey (live n))" and "p < bcount n"
  shows "del_func n (ekey (live n ! p)) c = bnode_remove_index n p c"
proof -
  have l: "length (live n) = bcount n" by (rule length_live [OF assms(1)])
  have lt: "ekey (live n ! a) < ekey (live n ! b)" if "a < b" "b < bcount n" for a b
    using assms(2) that l by (simp add: sorted_wrt_iff_nth_less)
  have ks: "keys_ok (live n)"
    using assms(2) by (cases "live n") (simp_all add: keys_ok_def)
  obtain i where i: "bnode_lookup n (ekey (live n ! p)) = Some i" "looked_up (live n) (ekey (live n ! p)) i"
    using bnode_lookup_ok [OF assms(1)] assms(3) by (metis gr_implies_not0 gr0I)
  have "looked_up (live n) (ekey (live n ! p)) p"
    by (rule looked_up_between [OF ks]) (use assms(3) l lt in auto)
  then have "i = p" by (rule looked_up_unique [OF ks i(2)])
  with i(1) live_nth [OF assms(1,3)] show ?thesis by (simp add: del_func_def)
qed

section \<open>Properties\<close>

definition small_node :: "(u64 \<times> u64) list \<Rightarrow> bnode" where
  "small_node es = \<lparr>magic = TUX3_MAGIC_BNODE, bcount = length es,
     entries = map (\<lambda>(k, b). \<lparr>ekey = k, eblock = b\<rparr>) es @ replicate (6 - length es) null_entry\<rparr>"

text \<open>C16: inserting a separator key that the node does not have yet, at the place where
  \<open>bnode_lookup\<close> of the key points, keeps the keys in order and changes the routing of
  keys exactly so: the keys from the new one up to the next separator go to the new child,
  all others where they went before.\<close>

theorem bnode_insert_routing:
  assumes "node_ok epn n" and "keys_ok (live n)" and "0 < bcount n" and "bcount n < epn"
    and "key \<notin> ekey ` set (tl (live n))"
  shows "\<exists>n' i. add_func n child key = Some n' \<and> bnode_lookup n key = Some i \<and> node_ok epn n' \<and> keys_ok (live n') \<and>
    (\<forall>k. child_of (live n') k =
       (if key \<le> k \<and> (Suc i < bcount n \<longrightarrow> k < ekey (live n ! Suc i)) then child else child_of (live n) k))"
proof -
  have l: "length (live n) = bcount n" by (rule length_live [OF assms(1)])
  obtain i where i: "bnode_lookup n key = Some i" "looked_up (live n) key i"
    using bnode_lookup_ok [OF assms(1,3)] by blast
  have "ekey (live n ! i) < key" if "0 < i"
  proof -
    have il: "i < length (live n)" using i(2) by (simp add: looked_up_def)
    have lt: "i - 1 < length (tl (live n))" using that il by simp
    then have "live n ! i = tl (live n) ! (i - 1)" using that by (simp add: nth_tl)
    with lt have "live n ! i = tl (live n) ! (i - 1)" "i - 1 < length (tl (live n))" by simp_all
    then have "live n ! i \<in> set (tl (live n))" by simp
    with assms(5) have "ekey (live n ! i) \<noteq> key" by blast
    moreover have "ekey (live n ! i) \<le> key" using i(2) that by (simp add: looked_up_def)
    ultimately show ?thesis by simp
  qed
  then have ins: "keys_ok (take (Suc i) (live n) @ \<lparr>ekey = key, eblock = child\<rparr> # drop (Suc i) (live n))"
    "child_of (take (Suc i) (live n) @ \<lparr>ekey = key, eblock = child\<rparr> # drop (Suc i) (live n)) k =
      (if key \<le> k \<and> (Suc i < bcount n \<longrightarrow> k < ekey (live n ! Suc i)) then child else child_of (live n) k)" for k
    using child_insert [OF assms(2), of "\<lparr>ekey = key, eblock = child\<rparr>" i k] i(2) l by (simp_all cong: if_cong)
  have "Suc i \<le> bcount n" using i(2) l by (simp add: looked_up_def)
  from add_index_live [OF assms(1) this assms(4), of child key] i(1) ins show ?thesis
    by (auto simp: add_func_def)
qed

lemma bnode_insert_routing_witness:
  "\<exists>n'. add_func (small_node [(0, 10), (5, 11), (9, 12)]) 77 7 = Some n' \<and> child_of (live n') 8 = 77"
proof -
  have "node_ok 6 (small_node [(0, 10), (5, 11), (9, 12)])" "keys_ok (live (small_node [(0, 10), (5, 11), (9, 12)]))"
    by (simp_all add: small_node_def node_ok_def live_def keys_ok_def)
  moreover have "bnode_lookup (small_node [(0, 10), (5, 11), (9, 12)]) 7 = Some 1"
    by (simp add: small_node_def bnode_lookup_def lookup_next.simps)
  ultimately show ?thesis
    using bnode_insert_routing [of 6 "small_node [(0, 10), (5, 11), (9, 12)]" 7 77]
    by (auto simp: small_node_def live_def image_def)
qed

text \<open>C24: a split at \<open>pos\<close> leaves the first \<open>pos\<close> entries in the node and moves the others
  to the new one; keys below the key of entry \<open>pos\<close>, which the caller inserts in the
  parent, are routed by the old node and all others by the new node, each to the child
  that the node gave before the split.  Merging the two gives the entries back.\<close>

theorem bnode_split_routing:
  assumes "node_ok epn src" and "node_ok epn dst" and "keys_ok (live src)" and "0 < pos" and "pos < bcount src"
  shows "\<exists>src' dst'. bnode_split src pos (bnode_buffer_init dst) = Some (src', dst') \<and> bnode_sniff dst' \<and>
    node_ok epn src' \<and> node_ok epn dst' \<and> keys_ok (live src') \<and> keys_ok (live dst') \<and>
    (\<forall>k. child_of (live src) k =
       (if k < ekey (entries src ! pos) then child_of (live src') k else child_of (live dst') k)) \<and>
    fst (bnode_merge_nodes epn src' dst') \<and> live (snd (bnode_merge_nodes epn src' dst')) = live src"
proof -
  have l: "length (live src) = bcount src" by (rule length_live [OF assms(1)])
  have d: "node_ok epn (bnode_buffer_init dst)" "bnode_sniff (bnode_buffer_init dst)"
    using init_live [OF assms(2)] by simp_all
  obtain src' dst' where s: "bnode_split src pos (bnode_buffer_init dst) = Some (src', dst')" "node_ok epn src'"
      "node_ok epn dst'" "magic dst' = magic (bnode_buffer_init dst)"
      "live src' = take pos (live src)" "live dst' = drop pos (live src)"
    using split_live [OF assms(1) d(1) less_imp_le [OF assms(5)]] by blast
  have c: "bcount src' = pos" "bcount dst' = bcount src - pos"
    using length_live [OF s(2)] length_live [OF s(3)] s(5,6) l assms(5) by simp_all
  obtain r m where m: "bnode_merge_nodes epn src' dst' = (r, m)" by fastforce
  have le: "bcount src \<le> epn" using assms(1) by (simp add: node_ok_def)
  from merge_live [OF s(2,3) m] c le assms(5) s(5,6) have "r \<and> live m = live src" by simp
  moreover have "live src ! pos = entries src ! pos" by (rule live_nth [OF assms(1,5)])
  moreover note child_split [OF assms(3,4), unfolded l, OF assms(5)]
  ultimately show ?thesis using s d(2) m by (simp add: bnode_sniff_def)
qed

lemma bnode_split_routing_witness:
  "\<exists>src' dst'. bnode_split (small_node [(0, 10), (5, 11), (9, 12)]) 1 (bnode_buffer_init (small_node [])) = Some (src', dst') \<and>
     child_of (live dst') 6 = 11"
proof -
  have "node_ok 6 (small_node [(0, 10), (5, 11), (9, 12)])" "node_ok 6 (small_node [])"
      "keys_ok (live (small_node [(0, 10), (5, 11), (9, 12)]))"
    by (simp_all add: small_node_def node_ok_def live_def keys_ok_def)
  from bnode_split_routing [OF this, of 1] obtain src' dst' where
    "bnode_split (small_node [(0, 10), (5, 11), (9, 12)]) 1 (bnode_buffer_init (small_node [])) = Some (src', dst')"
    "child_of (live (small_node [(0, 10), (5, 11), (9, 12)])) 6 = child_of (live dst') 6"
    by (auto simp: small_node_def)
  moreover have "child_of (live (small_node [(0, 10), (5, 11), (9, 12)])) 6 = 11"
    by (simp add: small_node_def live_def child_of_def)
  ultimately show ?thesis by auto
qed

text \<open>C25: replay applies a logged node change where it was made: the record of an insertion
  at the cursor position \<open>p\<close> (a key between those of its neighbours) and the record of
  \<open>c\<close> entries removed one by one at position \<open>p\<close> (the key of the first and the count) give
  the node that the direct operations gave.\<close>

theorem bnode_replay_same:
  assumes "node_ok epn n" and "sorted_wrt (<) (map ekey (live n))"
  shows "(0 < p \<and> p \<le> bcount n \<and> (1 < p \<longrightarrow> ekey (live n ! (p - 1)) < key) \<and> (p < bcount n \<longrightarrow> key < ekey (live n ! p)) \<longrightarrow>
      add_func n child key = bnode_add_index n p child key) \<and>
    (0 < c \<and> p + c \<le> bcount n \<longrightarrow>
      map_option live (del_func n (ekey (live n ! p)) c) = map_option live (remove_each c n p) \<and> remove_each c n p \<noteq> None)"
proof (intro conjI impI)
  have ks: "keys_ok (live n)"
    using assms(2) by (cases "live n") (simp_all add: keys_ok_def)
  show "add_func n child key = bnode_add_index n p child key"
    if "0 < p \<and> p \<le> bcount n \<and> (1 < p \<longrightarrow> ekey (live n ! (p - 1)) < key) \<and> (p < bcount n \<longrightarrow> key < ekey (live n ! p))"
    by (rule add_func_at [OF assms(1) ks]) (use that in auto)
  assume c: "0 < c \<and> p + c \<le> bcount n"
  with remove_each_live [OF assms(1), of p c] remove_index_live [OF assms(1), of p c]
    del_func_at [OF assms, of p c]
  show "map_option live (del_func n (ekey (live n ! p)) c) = map_option live (remove_each c n p)"
    "remove_each c n p \<noteq> None" by auto
qed

lemma bnode_replay_same_witness:
  "add_func (small_node [(0, 10), (5, 11), (9, 12)]) 77 7 = bnode_add_index (small_node [(0, 10), (5, 11), (9, 12)]) 2 77 7"
proof -
  have "node_ok 6 (small_node [(0, 10), (5, 11), (9, 12)])"
    "sorted_wrt (<) (map ekey (live (small_node [(0, 10), (5, 11), (9, 12)])))"
    by (simp_all add: small_node_def node_ok_def live_def)
  from bnode_replay_same [OF this, of 2 7 77] show ?thesis by (simp add: small_node_def live_def)
qed

end
