(* ===== verification/Orphan.thy ===== *)
theory Orphan
  imports Log
begin

text \<open>
  Orphan inodes, \<open>src/kernel/orphan.c\<close>: the frontend operations that make an inode an
  orphan and destroy an orphan, each with its log record, and the replay of these records.
  The lists \<open>sb->orphan_add\<close> (orphans that \<open>sb->otree\<close> does not have yet) and
  \<open>sb->orphan_del\<close> (deletions that are to be made in \<open>sb->otree\<close>) are lists of inode
  numbers, newest first.  Whether \<open>alloc_orphan\<close> gets memory is the flag \<open>mem\<close>.
  The writes to the btree \<open>sb->otree\<close> are not part of this theory.
\<close>

section \<open>Operations\<close>

record orphans =
  version :: u32
  mem :: bool
  orphan_add :: "u64 list"
  orphan_del :: "u64 list"
  records :: "log_rec list"   \<comment> \<open>written to the log by these operations\<close>

definition alloc_orphan :: "bool \<Rightarrow> u64 \<Rightarrow> errno + u64" where
  "alloc_orphan memory inum = (if memory then Inr inum else Inl ENOMEM)"

text \<open>An inode whose \<open>orphan_list\<close> is not empty is in \<open>orphan_add\<close>.\<close>

definition tux3_make_orphan_add :: "orphans \<Rightarrow> u64 \<Rightarrow> err \<times> orphans" where
  "tux3_make_orphan_add sb inum =
     (if inum \<in> set (orphan_add sb) then (Some ASSERT, sb)
      else (None, sb\<lparr>orphan_add := inum # orphan_add sb,
                     records := records sb @ [Orphan_add_rec (version sb) inum]\<rparr>))"

definition add_defer_orphan_del :: "bool \<Rightarrow> u64 list \<Rightarrow> u64 \<Rightarrow> err \<times> u64 list" where
  "add_defer_orphan_del memory dels inum =
     (case alloc_orphan memory inum of
        Inl e \<Rightarrow> (Some e, dels)
      | Inr orphan \<Rightarrow> (None, orphan # dels))"

definition tux3_make_orphan_del :: "orphans \<Rightarrow> u64 \<Rightarrow> err \<times> orphans" where
  "tux3_make_orphan_del sb inum =
     (if inum \<in> set (orphan_add sb)
      then (None, sb\<lparr>orphan_add := remove1 inum (orphan_add sb),
                     records := records sb @ [Orphan_del_rec (version sb) inum]\<rparr>)
      else case add_defer_orphan_del (mem sb) (orphan_del sb) inum of
             (Some e, _) \<Rightarrow> (Some e, sb)
           | (None, dels) \<Rightarrow>
               (None, sb\<lparr>orphan_del := dels, records := records sb @ [Orphan_del_rec (version sb) inum]\<rparr>))"

section \<open>Replay\<close>

text \<open>The part of \<open>struct replay\<close> and \<open>struct sb\<close> that the replay of orphan records uses.\<close>

record orphan_replay =
  sb_version :: u32
  sb_mem :: bool
  rp_orphan_add :: "u64 list"
  sb_orphan_del :: "u64 list"

definition replay_find_orphan :: "u64 list \<Rightarrow> u64 \<Rightarrow> u64 option" where
  "replay_find_orphan head inum = find (\<lambda>orphan. orphan = inum) head"

definition replay_orphan_add :: "orphan_replay \<Rightarrow> u32 \<Rightarrow> u64 \<Rightarrow> err \<times> orphan_replay" where
  "replay_orphan_add rp ver inum =
     (if sb_version rp \<noteq> ver then (None, rp)
      else case alloc_orphan (sb_mem rp) inum of
             Inl e \<Rightarrow> (Some e, rp)
           | Inr orphan \<Rightarrow>
               if replay_find_orphan (rp_orphan_add rp) inum \<noteq> None then (Some ASSERT, rp)
               else (None, rp\<lparr>rp_orphan_add := orphan # rp_orphan_add rp\<rparr>))"

definition replay_orphan_del :: "orphan_replay \<Rightarrow> u32 \<Rightarrow> u64 \<Rightarrow> err \<times> orphan_replay" where
  "replay_orphan_del rp ver inum =
     (if sb_version rp \<noteq> ver then (None, rp)
      else case replay_find_orphan (rp_orphan_add rp) inum of
             Some orphan \<Rightarrow> (None, rp\<lparr>rp_orphan_add := remove1 orphan (rp_orphan_add rp)\<rparr>)
           | None \<Rightarrow>
               (case add_defer_orphan_del (sb_mem rp) (sb_orphan_del rp) inum of
                  (e, dels) \<Rightarrow> (e, rp\<lparr>sb_orphan_del := dels\<rparr>)))"

section \<open>Replay rebuilds the orphan lists\<close>

text \<open>The frontend operations, and the replay of the records that they wrote.\<close>

datatype orphan_op = Make_orphan u64 | Destroy_orphan u64

fun orphan_step :: "orphans \<Rightarrow> orphan_op \<Rightarrow> err \<times> orphans" where
  "orphan_step sb (Make_orphan inum) = tux3_make_orphan_add sb inum"
| "orphan_step sb (Destroy_orphan inum) = tux3_make_orphan_del sb inum"

fun replay_orphan_rec :: "orphan_replay \<Rightarrow> log_rec \<Rightarrow> err \<times> orphan_replay" where
  "replay_orphan_rec rp (Orphan_add_rec ver inum) = replay_orphan_add rp ver inum"
| "replay_orphan_rec rp (Orphan_del_rec ver inum) = replay_orphan_del rp ver inum"
| "replay_orphan_rec rp _ = (None, rp)"

fun replay_orphan_recs :: "orphan_replay \<Rightarrow> log_rec list \<Rightarrow> err \<times> orphan_replay" where
  "replay_orphan_recs rp [] = (None, rp)"
| "replay_orphan_recs rp (r # rs) =
     (case replay_orphan_rec rp r of (Some e, rp) \<Rightarrow> (Some e, rp) | (None, rp) \<Rightarrow> replay_orphan_recs rp rs)"

lemma replay_orphan_recs_append:
  "replay_orphan_recs rp (xs @ ys) =
     (case replay_orphan_recs rp xs of (Some e, rp) \<Rightarrow> (Some e, rp) | (None, rp) \<Rightarrow> replay_orphan_recs rp ys)"
  by (induction xs arbitrary: rp) (auto split: prod.splits option.splits)

lemma find_orphan [simp]: "replay_find_orphan head inum = (if inum \<in> set head then Some inum else None)"
  by (induction head) (auto simp: replay_find_orphan_def)

definition orphan_replayed :: "orphan_replay \<Rightarrow> orphans \<Rightarrow> bool" where
  "orphan_replayed rp0 sb \<longleftrightarrow>
     replay_orphan_recs rp0 (records sb) =
       (None, rp0\<lparr>rp_orphan_add := orphan_add sb, sb_orphan_del := orphan_del sb\<rparr>)"

lemma orphan_step_replayed:
  assumes "orphan_replayed rp0 sb" and "sb_version rp0 = version sb" and "sb_mem rp0"
    and "orphan_step sb op = (e, sb')"
  shows "version sb' = version sb \<and> (e = Some ASSERT \<or> orphan_replayed rp0 sb')"
  using assms
  by (cases op)
    (auto simp: orphan_replayed_def tux3_make_orphan_add_def tux3_make_orphan_del_def add_defer_orphan_del_def
      alloc_orphan_def replay_orphan_recs_append replay_orphan_add_def replay_orphan_del_def split: if_splits)

text \<open>An inode number is an orphan when \<open>sb->otree\<close> or \<open>orphan_add\<close> has it and no deletion
  is pending.\<close>

definition living :: "u64 set \<Rightarrow> orphans \<Rightarrow> u64 set" where
  "living otree sb = (otree - set (orphan_del sb)) \<union> set (orphan_add sb)"

section \<open>Properties\<close>

fun orphan_run :: "orphans \<Rightarrow> orphan_op list \<Rightarrow> orphans" where
  "orphan_run sb [] = sb"
| "orphan_run sb (op # ops) = orphan_run (snd (orphan_step sb op)) ops"

lemma orphan_run_replayed:
  "orphan_replayed rp0 sb \<Longrightarrow> sb_version rp0 = version sb \<Longrightarrow> sb_mem rp0 \<Longrightarrow>
   orphan_replayed rp0 (orphan_run sb ops)"
proof (induction ops arbitrary: sb)
  case (Cons op ops)
  obtain e sb' where s: "orphan_step sb op = (e, sb')" by fastforce
  have "orphan_replayed rp0 sb'"
  proof (cases "e = Some ASSERT")
    case True
    with s have "sb' = sb"
      by (cases op) (auto simp: tux3_make_orphan_add_def tux3_make_orphan_del_def add_defer_orphan_del_def
          alloc_orphan_def split: if_splits)
    with Cons.prems show ?thesis by simp
  next
    case False
    with orphan_step_replayed [OF Cons.prems s] show ?thesis by simp
  qed
  with Cons orphan_step_replayed [OF Cons.prems s] s show ?case by simp
qed simp


definition no_orphans :: orphans where
  "no_orphans = \<lparr>version = 1, mem = True, orphan_add = [], orphan_del = [], records = []\<rparr>"


end
