(* ===== verification/Replay.thy ===== *)
theory Replay
  imports Log Bnode Stash Orphan
begin

text \<open>
  Replay of the log at mount, \<open>src/kernel/replay.c\<close>: the check of the log blocks with the
  search for the latest unify mark (\<open>replay_check_log\<close>), and the two stages that decode the
  records and apply them, stage 1 to the index nodes and \<open>freeblocks\<close>, stage 2 to the
  bitmap, the deferred frees and the orphan lists.  A log block is the list of its bytes.
  \<open>None\<close> is undefined behaviour of the code: a read outside the block or outside the
  \<open>log_size\<close> table.
\<close>

section \<open>State\<close>

record replay_sb =
  r_bal :: bsb
  r_pool :: pool
  r_deunify :: stash
  r_vol :: vol
  r_epn :: nat
  r_orph :: orphan_replay

text \<open>\<open>struct replay\<close>; \<open>unify_index\<close> is \<open>None\<close> for \<open>-1\<close>, \<open>unify_pos\<close> an offset in \<open>data\<close>.\<close>

record replay =
  unify_index :: "nat option"
  unify_pos :: nat
  blocknrs :: "nat \<Rightarrow> u64"

definition alloc_replay :: "replay" where
  "alloc_replay = \<lparr>unify_index = None, unify_pos = 0, blocknrs = (\<lambda>_. 0)\<rparr>"

definition log_data :: "u8 list \<Rightarrow> u8 list" where
  "log_data log = drop log_hdr log"

section \<open>Checking a log block\<close>

text \<open>The loop of \<open>replay_check_log\<close> at offset \<open>at\<close> of the data of the block of index \<open>idx\<close>.\<close>

function check_loop :: "replay \<Rightarrow> nat \<Rightarrow> u8 list \<Rightarrow> nat \<Rightarrow> nat \<Rightarrow> (err \<times> replay) option" where
  "check_loop rp idx data bytes at =
     (if at < bytes
      then if length data \<le> at then None
           else (let code = data ! at;
                     rp = (if code = LOG_UNIFY \<and> unify_index rp = None
                           then rp\<lparr>unify_pos := at, unify_index := Some idx\<rparr> else rp)
                 in case log_size code of
                      None \<Rightarrow> None
                    | Some n \<Rightarrow> if n = 0 then Some (Some EINVAL, rp) else check_loop rp idx data bytes (at + n))
      else Some (None, rp))"
  by pat_completeness auto
termination
  by (relation "measure (\<lambda>(rp, idx, data, bytes, at). bytes - at)") auto

declare check_loop.simps [simp del]

definition replay_check_log :: "replay \<Rightarrow> nat \<Rightarrow> nat \<Rightarrow> u8 list \<Rightarrow> (err \<times> replay) option" where
  "replay_check_log rp blksize idx log =
     (if \<not> hdr_magic log then Some (Some EINVAL, rp)
      else if blksize < hdr_bytes log + log_hdr then Some (Some EINVAL, rp)
      else check_loop rp idx (log_data log) (hdr_bytes log) 0)"

section \<open>Stage 1\<close>

definition put_vol :: "replay_sb \<Rightarrow> err \<times> vol \<Rightarrow> err \<times> replay_sb" where
  "put_vol sb r = (case r of (e, v) \<Rightarrow> (e, sb\<lparr>r_vol := v\<rparr>))"

text \<open>One round of the loop: the record at the start of \<open>data\<close>.  The result has the bytes
  behind the record.\<close>

definition stage1_step :: "replay_sb \<Rightarrow> u8 list \<Rightarrow> ((err \<times> replay_sb) \<times> u8 list) option" where
  "stage1_step sb bytes =
     (case bytes of
        [] \<Rightarrow> None
      | code # data \<Rightarrow>
          if code = LOG_BNODE_REDIRECT then do {
            (oldblock, data) \<leftarrow> decode48 data;
            (newblock, data) \<leftarrow> decode48 data;
            Some (put_vol sb (replay_bnode_redirect (r_vol sb) oldblock newblock), data) }
          else if code = LOG_BNODE_ROOT then do {
            (count, data) \<leftarrow> (case data of [] \<Rightarrow> None | c # data \<Rightarrow> Some (unat c, data));
            (root, data) \<leftarrow> decode48 data;
            (left, data) \<leftarrow> decode48 data;
            (right, data) \<leftarrow> decode48 data;
            (rkey, data) \<leftarrow> decode48 data;
            Some (put_vol sb (replay_bnode_root (r_vol sb) root count left right rkey), data) }
          else if code = LOG_BNODE_SPLIT then do {
            (pos, data) \<leftarrow> decode16 data;
            (src, data) \<leftarrow> decode48 data;
            (dst, data) \<leftarrow> decode48 data;
            Some (put_vol sb (replay_bnode_split (r_vol sb) src (unat pos) dst), data) }
          else if code = LOG_BNODE_ADD \<or> code = LOG_BNODE_UPDATE then do {
            (parent, data) \<leftarrow> decode48 data;
            (child, data) \<leftarrow> decode48 data;
            (key, data) \<leftarrow> decode48 data;
            Some (put_vol sb ((if code = LOG_BNODE_UPDATE then replay_bnode_update else replay_bnode_add)
                                (r_vol sb) parent child key), data) }
          else if code = LOG_BNODE_MERGE then do {
            (src, data) \<leftarrow> decode48 data;
            (dst, data) \<leftarrow> decode48 data;
            Some (put_vol sb (replay_bnode_merge (r_epn sb) (r_vol sb) src dst), data) }
          else if code = LOG_BNODE_DEL then do {
            (count, data) \<leftarrow> decode16 data;
            (bnode, data) \<leftarrow> decode48 data;
            (key, data) \<leftarrow> decode48 data;
            Some (put_vol sb (replay_bnode_del (r_vol sb) bnode key (unat count)), data) }
          else if code = LOG_BNODE_ADJUST then do {
            (bnode, data) \<leftarrow> decode48 data;
            (frm, data) \<leftarrow> decode48 data;
            (to, data) \<leftarrow> decode48 data;
            Some (put_vol sb (replay_bnode_adjust (r_vol sb) bnode frm to), data) }
          else if code = LOG_FREEBLOCKS then do {
            (freeblks, data) \<leftarrow> decode48 data;
            Some ((None, sb\<lparr>r_bal := (r_bal sb)\<lparr>freeblocks := int (unat freeblks)\<rparr>\<rparr>), data) }
          else if code \<in> set [LOG_BALLOC, LOG_BFREE, LOG_BFREE_ON_UNIFY, LOG_BFREE_RELOG, LOG_LEAF_REDIRECT,
                              LOG_LEAF_FREE, LOG_BNODE_FREE, LOG_ORPHAN_ADD, LOG_ORPHAN_DEL, LOG_UNIFY, LOG_DELTA]
          then do { n \<leftarrow> log_size code; Some ((None, sb), drop (n - 1) data) }
          else Some ((Some EINVAL, sb), data))"

section \<open>Stage 2\<close>

definition put_bal :: "replay_sb \<Rightarrow> err \<times> bsb \<Rightarrow> err \<times> replay_sb" where
  "put_bal sb r = (case r of (e, b) \<Rightarrow> (e, sb\<lparr>r_bal := b\<rparr>))"

definition put_orph :: "replay_sb \<Rightarrow> err \<times> orphan_replay \<Rightarrow> err \<times> replay_sb" where
  "put_orph sb r = (case r of (e, orph) \<Rightarrow> (e, sb\<lparr>r_orph := orph\<rparr>))"

definition update_bitmap :: "replay_sb \<Rightarrow> u64 \<Rightarrow> nat \<Rightarrow> bool \<Rightarrow> err \<times> replay_sb" where
  "update_bitmap sb b n st = put_bal sb (replay_update_bitmap (r_bal sb) (unat b) n st)"

text \<open>\<open>defer_bfree(&sb->deunify, ...)\<close>: its error is ignored in this file.\<close>

definition defer_deunify :: "replay_sb \<Rightarrow> u64 \<Rightarrow> nat \<Rightarrow> replay_sb" where
  "defer_deunify sb b n =
     (case defer_bfree (r_pool sb, r_deunify sb) b n of (_, pool, st) \<Rightarrow> sb\<lparr>r_pool := pool, r_deunify := st\<rparr>)"

text \<open>\<open>blockput_free_unify(sb, vol_find_get_block(sb, block))\<close>: the buffer is clean and empty.\<close>

definition free_unify :: "replay_sb \<Rightarrow> u64 \<Rightarrow> replay_sb" where
  "free_unify sb b =
     sb\<lparr>r_vol := (r_vol sb)\<lparr>unify_dirty := (unify_dirty (r_vol sb))(b := False),
                             uptodate := (uptodate (r_vol sb))(b := False)\<rparr>\<rparr>"

definition stage2_step :: "replay_sb \<Rightarrow> u8 list \<Rightarrow> ((err \<times> replay_sb) \<times> u8 list) option" where
  "stage2_step sb bytes =
     (case bytes of
        [] \<Rightarrow> None
      | code # data \<Rightarrow>
          if code = LOG_BALLOC \<or> code = LOG_BFREE \<or> code = LOG_BFREE_ON_UNIFY \<or> code = LOG_BFREE_RELOG then do {
            (count, data) \<leftarrow> decode32 data;
            (block, data) \<leftarrow> decode48 data;
            Some ((if code = LOG_BALLOC then update_bitmap sb block (unat count) True
                   else if code = LOG_BFREE_ON_UNIFY then (None, defer_deunify sb block (unat count))
                   else update_bitmap sb block (unat count) False), data) }
          else if code = LOG_LEAF_REDIRECT \<or> code = LOG_BNODE_REDIRECT then do {
            (oldblock, data) \<leftarrow> decode48 data;
            (newblock, data) \<leftarrow> decode48 data;
            Some ((case update_bitmap sb newblock 1 True of
                     (Some e, sb) \<Rightarrow> (Some e, sb)
                   | (None, sb) \<Rightarrow>
                       if code = LOG_LEAF_REDIRECT then update_bitmap sb oldblock 1 False
                       else (None, defer_deunify sb oldblock 1)), data) }
          else if code = LOG_LEAF_FREE \<or> code = LOG_BNODE_FREE then do {
            (block, data) \<leftarrow> decode48 data;
            Some ((case update_bitmap sb block 1 False of
                     (Some e, sb) \<Rightarrow> (Some e, sb)
                   | (None, sb) \<Rightarrow> (None, if code = LOG_BNODE_FREE then free_unify sb block else sb)), data) }
          else if code = LOG_BNODE_ROOT then do {
            (count, data) \<leftarrow> (case data of [] \<Rightarrow> None | c # data \<Rightarrow> Some (c, data));
            (root, data) \<leftarrow> decode48 data;
            (left, data) \<leftarrow> decode48 data;
            (right, data) \<leftarrow> decode48 data;
            (rkey, data) \<leftarrow> decode48 data;
            Some (update_bitmap sb root 1 True, data) }
          else if code = LOG_BNODE_SPLIT then do {
            (pos, data) \<leftarrow> decode16 data;
            (src, data) \<leftarrow> decode48 data;
            (dst, data) \<leftarrow> decode48 data;
            Some (update_bitmap sb dst 1 True, data) }
          else if code = LOG_BNODE_MERGE then do {
            (src, data) \<leftarrow> decode48 data;
            (dst, data) \<leftarrow> decode48 data;
            Some ((case update_bitmap sb src 1 False of
                     (Some e, sb) \<Rightarrow> (Some e, sb)
                   | (None, sb) \<Rightarrow> (None, free_unify sb src)), data) }
          else if code = LOG_ORPHAN_ADD \<or> code = LOG_ORPHAN_DEL then do {
            (version, data) \<leftarrow> decode16 data;
            (inum, data) \<leftarrow> decode48 data;
            Some (put_orph sb ((if code = LOG_ORPHAN_ADD then replay_orphan_add else replay_orphan_del)
                                 (r_orph sb) version inum), data) }
          else if code \<in> set [LOG_FREEBLOCKS, LOG_BNODE_ADD, LOG_BNODE_UPDATE, LOG_BNODE_DEL, LOG_BNODE_ADJUST,
                              LOG_UNIFY, LOG_DELTA]
          then do { n \<leftarrow> log_size code; Some ((None, sb), drop (n - 1) data) }
          else Some ((Some EINVAL, sb), data))"

section \<open>The loops over a block and over the blocks\<close>

lemma decode_less:
  "decode16 bs = Some (v, r) \<Longrightarrow> length r < length bs" "decode32 bs = Some (w, r) \<Longrightarrow> length r < length bs"
  by (auto dest: decode_len)

lemma stage1_shorter: "stage1_step sb bytes = Some (res, rest) \<Longrightarrow> length rest < length bytes"
  by (auto simp: stage1_step_def bind_eq_Some_conv dest!: decode48_len decode_less split: list.splits if_splits)

lemma stage2_shorter: "stage2_step sb bytes = Some (res, rest) \<Longrightarrow> length rest < length bytes"
  by (auto simp: stage2_step_def bind_eq_Some_conv dest!: decode48_len decode_less split: list.splits if_splits)

text \<open>The loop runs while more than \<open>trail\<close> bytes are left, the part behind the records.\<close>

function stage1_loop :: "replay_sb \<Rightarrow> u8 list \<Rightarrow> nat \<Rightarrow> (err \<times> replay_sb) option" where
  "stage1_loop sb data trail =
     (if trail < length data
      then (case stage1_step sb data of
              None \<Rightarrow> None
            | Some ((Some e, sb), _) \<Rightarrow> Some (Some e, sb)
            | Some ((None, sb), data) \<Rightarrow> stage1_loop sb data trail)
      else Some (None, sb))"
  by pat_completeness auto
termination
  by (relation "measure (\<lambda>(sb, data, trail). length data)") (auto dest: stage1_shorter)

function stage2_loop :: "replay_sb \<Rightarrow> u8 list \<Rightarrow> nat \<Rightarrow> (err \<times> replay_sb) option" where
  "stage2_loop sb data trail =
     (if trail < length data
      then (case stage2_step sb data of
              None \<Rightarrow> None
            | Some ((Some e, sb), _) \<Rightarrow> Some (Some e, sb)
            | Some ((None, sb), data) \<Rightarrow> stage2_loop sb data trail)
      else Some (None, sb))"
  by pat_completeness auto
termination
  by (relation "measure (\<lambda>(sb, data, trail). length data)") (auto dest: stage2_shorter)

declare stage1_loop.simps [simp del] stage2_loop.simps [simp del]

definition before_unify :: "replay \<Rightarrow> nat \<Rightarrow> bool" where
  "before_unify rp idx = (case unify_index rp of None \<Rightarrow> False | Some u \<Rightarrow> idx < u)"

definition start_pos :: "replay \<Rightarrow> nat \<Rightarrow> nat" where
  "start_pos rp idx = (if unify_index rp = Some idx then unify_pos rp else 0)"

definition replay_log_stage1 :: "replay \<Rightarrow> replay_sb \<Rightarrow> nat \<Rightarrow> u8 list \<Rightarrow> (err \<times> replay_sb) option" where
  "replay_log_stage1 rp sb idx log =
     (if before_unify rp idx then Some (None, sb)
      else stage1_loop sb (drop (start_pos rp idx) (log_data log)) (length (log_data log) - hdr_bytes log))"

definition replay_log_stage2 :: "replay \<Rightarrow> replay_sb \<Rightarrow> nat \<Rightarrow> u8 list \<Rightarrow> (err \<times> replay_sb) option" where
  "replay_log_stage2 rp sb idx log =
     (case update_bitmap sb (blocknrs rp idx) 1 True of
        (Some e, sb) \<Rightarrow> Some (Some e, sb)
      | (None, sb) \<Rightarrow>
          (let sb = defer_deunify sb (blocknrs rp idx) 1
           in if before_unify rp idx then Some (None, sb)
              else stage2_loop sb (drop (start_pos rp idx) (log_data log)) (length (log_data log) - hdr_bytes log)))"

function replay_logblocks ::
  "(replay_sb \<Rightarrow> nat \<Rightarrow> u8 list \<Rightarrow> (err \<times> replay_sb) option) \<Rightarrow> replay_sb \<Rightarrow> (nat \<Rightarrow> u8 list) \<Rightarrow> nat \<Rightarrow> nat \<Rightarrow>
   (err \<times> replay_sb) option" where
  "replay_logblocks func sb lmap next logcount =
     (if next < logcount
      then (case func sb next (lmap next) of
              None \<Rightarrow> None
            | Some (Some e, sb) \<Rightarrow> Some (Some e, sb)
            | Some (None, sb) \<Rightarrow> replay_logblocks func sb lmap (Suc next) logcount)
      else Some (None, sb))"
  by pat_completeness auto
termination
  by (relation "measure (\<lambda>(func, sb, lmap, next, logcount). logcount - next)") auto

declare replay_logblocks.simps [simp del]

text \<open>The log as it lies on the volume.\<close>

record logdev =
  ld_blocksize :: nat
  ld_disk :: "u64 \<Rightarrow> u8 list"
  ld_ioerr :: "u64 \<Rightarrow> err"
  ld_nobuf :: "nat \<Rightarrow> bool"

definition hdr_chain :: "u8 list \<Rightarrow> u64" where
  "hdr_chain log = be_get (take 8 (drop 8 log))"

text \<open>\<open>replay_prepare\<close> loads the blocks of index \<open>i - 1\<close> down to 0 along the chain.\<close>

fun prepare_loop :: "logdev \<Rightarrow> replay \<Rightarrow> (nat \<Rightarrow> u8 list) \<Rightarrow> u64 \<Rightarrow> nat \<Rightarrow> (err \<times> replay \<times> (nat \<Rightarrow> u8 list)) option" where
  "prepare_loop d rp lmap logchain 0 = Some (None, rp, lmap)"
| "prepare_loop d rp lmap logchain (Suc i) =
     (if ld_nobuf d i then Some (Some ENOMEM, rp, lmap)
      else case ld_ioerr d logchain of
        Some e \<Rightarrow> Some (Some e, rp, lmap)
      | None \<Rightarrow>
          (let log = ld_disk d logchain; lmap = lmap(i := log)
           in case replay_check_log rp (ld_blocksize d) i log of
                None \<Rightarrow> None
              | Some (Some e, rp) \<Rightarrow> Some (Some e, rp, lmap)
              | Some (None, rp) \<Rightarrow>
                  prepare_loop d (rp\<lparr>blocknrs := (blocknrs rp)(i := logchain)\<rparr>) lmap (hdr_chain log) i))"

definition replay_prepare :: "logdev \<Rightarrow> (nat \<Rightarrow> u8 list) \<Rightarrow> u64 \<Rightarrow> nat \<Rightarrow> (err \<times> replay \<times> (nat \<Rightarrow> u8 list)) option" where
  "replay_prepare d lmap logchain logcount = prepare_loop d alloc_replay lmap logchain logcount"

definition replay_stage1 ::
  "logdev \<Rightarrow> replay_sb \<Rightarrow> (nat \<Rightarrow> u8 list) \<Rightarrow> u64 \<Rightarrow> nat \<Rightarrow> (err \<times> replay_sb \<times> replay \<times> (nat \<Rightarrow> u8 list)) option" where
  "replay_stage1 d sb lmap logchain logcount =
     (case replay_prepare d lmap logchain logcount of
        None \<Rightarrow> None
      | Some (Some e, rp, lmap) \<Rightarrow> Some (Some e, sb, rp, lmap)
      | Some (None, rp, lmap) \<Rightarrow>
          map_option (\<lambda>(e, sb). (e, sb, rp, lmap)) (replay_logblocks (replay_log_stage1 rp) sb lmap 0 logcount))"

text \<open>\<open>replay_stage2\<close> up to the loading of the orphan inodes.\<close>

definition replay_stage2 :: "replay \<Rightarrow> replay_sb \<Rightarrow> (nat \<Rightarrow> u8 list) \<Rightarrow> nat \<Rightarrow> (err \<times> replay_sb) option" where
  "replay_stage2 rp sb lmap logcount = replay_logblocks (replay_log_stage2 rp) sb lmap 0 logcount"

section \<open>What a record does\<close>

text \<open>The fields of a record as they come back from the log.\<close>

fun cut_rec :: "log_rec \<Rightarrow> log_rec" where
  "cut_rec (Balloc_rec b n) = Balloc_rec (take_bit 48 b) n"
| "cut_rec (Bfree_rec b n) = Bfree_rec (take_bit 48 b) n"
| "cut_rec (Bfree_on_unify_rec b n) = Bfree_on_unify_rec (take_bit 48 b) n"
| "cut_rec (Bfree_relog_rec b n) = Bfree_relog_rec (take_bit 48 b) n"
| "cut_rec (Leaf_redirect_rec a b) = Leaf_redirect_rec (take_bit 48 a) (take_bit 48 b)"
| "cut_rec (Leaf_free_rec a) = Leaf_free_rec (take_bit 48 a)"
| "cut_rec (Bnode_redirect_rec a b) = Bnode_redirect_rec (take_bit 48 a) (take_bit 48 b)"
| "cut_rec (Bnode_root_rec r n lt rt k) = Bnode_root_rec (take_bit 48 r) n (take_bit 48 lt) (take_bit 48 rt) (take_bit 48 k)"
| "cut_rec (Bnode_split_rec s p d) = Bnode_split_rec (take_bit 48 s) (take_bit 16 p) (take_bit 48 d)"
| "cut_rec (Bnode_add_rec p c k) = Bnode_add_rec (take_bit 48 p) (take_bit 48 c) (take_bit 48 k)"
| "cut_rec (Bnode_update_rec p c k) = Bnode_update_rec (take_bit 48 p) (take_bit 48 c) (take_bit 48 k)"
| "cut_rec (Bnode_merge_rec s d) = Bnode_merge_rec (take_bit 48 s) (take_bit 48 d)"
| "cut_rec (Bnode_del_rec b k n) = Bnode_del_rec (take_bit 48 b) (take_bit 48 k) (take_bit 16 n)"
| "cut_rec (Bnode_adjust_rec b f t) = Bnode_adjust_rec (take_bit 48 b) (take_bit 48 f) (take_bit 48 t)"
| "cut_rec (Bnode_free_rec b) = Bnode_free_rec (take_bit 48 b)"
| "cut_rec (Orphan_add_rec v i) = Orphan_add_rec (take_bit 16 v) (take_bit 48 i)"
| "cut_rec (Orphan_del_rec v i) = Orphan_del_rec (take_bit 16 v) (take_bit 48 i)"
| "cut_rec (Freeblocks_rec n) = Freeblocks_rec (take_bit 48 n)"
| "cut_rec Unify_rec = Unify_rec"
| "cut_rec Delta_rec = Delta_rec"

text \<open>The meaning of the records for the index nodes, by the comments of \<open>log.c\<close>.\<close>

fun exec1 :: "replay_sb \<Rightarrow> log_rec \<Rightarrow> err \<times> replay_sb" where
  "exec1 sb (Bnode_redirect_rec a b) = put_vol sb (replay_bnode_redirect (r_vol sb) a b)"
| "exec1 sb (Bnode_root_rec r n lt rt k) = put_vol sb (replay_bnode_root (r_vol sb) r (unat n) lt rt k)"
| "exec1 sb (Bnode_split_rec s p d) = put_vol sb (replay_bnode_split (r_vol sb) s (unat p) d)"
| "exec1 sb (Bnode_add_rec p c k) = put_vol sb (replay_bnode_add (r_vol sb) p c k)"
| "exec1 sb (Bnode_update_rec p c k) = put_vol sb (replay_bnode_update (r_vol sb) p c k)"
| "exec1 sb (Bnode_merge_rec s d) = put_vol sb (replay_bnode_merge (r_epn sb) (r_vol sb) s d)"
| "exec1 sb (Bnode_del_rec b k n) = put_vol sb (replay_bnode_del (r_vol sb) b k (unat n))"
| "exec1 sb (Bnode_adjust_rec b f t) = put_vol sb (replay_bnode_adjust (r_vol sb) b f t)"
| "exec1 sb (Freeblocks_rec n) = (None, sb\<lparr>r_bal := (r_bal sb)\<lparr>freeblocks := int (unat n)\<rparr>\<rparr>)"
| "exec1 sb _ = (None, sb)"

text \<open>Two steps, the second one only when the first did not fail.\<close>

definition and_then :: "err \<times> 's \<Rightarrow> ('s \<Rightarrow> err \<times> 's) \<Rightarrow> err \<times> 's" where
  "and_then r f = (case r of (Some e, s) \<Rightarrow> (Some e, s) | (None, s) \<Rightarrow> f s)"

text \<open>The meaning of the records for the bitmap, the deferred frees and the orphans.\<close>

fun exec2 :: "replay_sb \<Rightarrow> log_rec \<Rightarrow> err \<times> replay_sb" where
  "exec2 sb (Balloc_rec b n) = update_bitmap sb b (unat n) True"
| "exec2 sb (Bfree_rec b n) = update_bitmap sb b (unat n) False"
| "exec2 sb (Bfree_on_unify_rec b n) = (None, defer_deunify sb b (unat n))"
| "exec2 sb (Bfree_relog_rec b n) = update_bitmap sb b (unat n) False"
| "exec2 sb (Leaf_redirect_rec a b) = and_then (update_bitmap sb b 1 True) (\<lambda>sb. update_bitmap sb a 1 False)"
| "exec2 sb (Leaf_free_rec a) = and_then (update_bitmap sb a 1 False) (\<lambda>sb. (None, sb))"
| "exec2 sb (Bnode_redirect_rec a b) = and_then (update_bitmap sb b 1 True) (\<lambda>sb. (None, defer_deunify sb a 1))"
| "exec2 sb (Bnode_root_rec r n lt rt k) = update_bitmap sb r 1 True"
| "exec2 sb (Bnode_split_rec s p d) = update_bitmap sb d 1 True"
| "exec2 sb (Bnode_merge_rec s d) = and_then (update_bitmap sb s 1 False) (\<lambda>sb. (None, free_unify sb s))"
| "exec2 sb (Bnode_free_rec b) = and_then (update_bitmap sb b 1 False) (\<lambda>sb. (None, free_unify sb b))"
| "exec2 sb (Orphan_add_rec v i) = put_orph sb (replay_orphan_add (r_orph sb) v i)"
| "exec2 sb (Orphan_del_rec v i) = put_orph sb (replay_orphan_del (r_orph sb) v i)"
| "exec2 sb _ = (None, sb)"

lemma root_count: "n = 1 \<or> n = 2 \<Longrightarrow> unat (ucast (n :: u32) :: u8) = unat n"
  by auto

lemma skip_rec:
  "log_size (hd (rec_bytes r)) \<bind> (\<lambda>n. Some ((None, sb), drop (n - 1) (tl (rec_bytes r) @ rest))) = Some ((None, sb), rest)"
  by (simp add: log_size_rec)

lemma stage1_rec: "rec_ok r \<Longrightarrow> stage1_step sb (rec_bytes r @ rest) = Some (exec1 sb (cut_rec r), rest)"
  using skip_rec [of r sb rest]
  by (cases r) (simp_all add: stage1_step_def root_count)

lemma stage2_rec: "rec_ok r \<Longrightarrow> stage2_step sb (rec_bytes r @ rest) = Some (exec2 sb (cut_rec r), rest)"
  using skip_rec [of r sb rest]
  by (cases r) (simp_all add: stage2_step_def and_then_def split: option.split prod.split)

fun execs :: "('s \<Rightarrow> log_rec \<Rightarrow> err \<times> 's) \<Rightarrow> 's \<Rightarrow> log_rec list \<Rightarrow> err \<times> 's" where
  "execs f sb [] = (None, sb)"
| "execs f sb (r # rs) = and_then (f sb r) (\<lambda>sb. execs f sb rs)"

lemma execs_append: "execs f sb (xs @ ys) = and_then (execs f sb xs) (\<lambda>sb. execs f sb ys)"
  by (induction xs arbitrary: sb) (auto simp: and_then_def split: prod.splits option.splits)

lemma stage1_recs:
  "list_all rec_ok rs \<Longrightarrow>
   stage1_loop sb (concat (map rec_bytes rs) @ pad) (length pad) = Some (execs exec1 sb (map cut_rec rs))"
proof (induction rs arbitrary: sb)
  case (Cons r rs)
  obtain e sb1 where e: "exec1 sb (cut_rec r) = (e, sb1)" by fastforce
  have "stage1_step sb (concat (map rec_bytes (r # rs)) @ pad) = Some ((e, sb1), concat (map rec_bytes rs) @ pad)"
    using stage1_rec [of r sb "concat (map rec_bytes rs) @ pad"] Cons.prems e by simp
  then show ?case
    using Cons e rec_bytes_len(1) [of r]
    by (subst stage1_loop.simps) (auto simp: and_then_def split: option.split)
qed (simp add: stage1_loop.simps)

lemma stage2_recs:
  "list_all rec_ok rs \<Longrightarrow>
   stage2_loop sb (concat (map rec_bytes rs) @ pad) (length pad) = Some (execs exec2 sb (map cut_rec rs))"
proof (induction rs arbitrary: sb)
  case (Cons r rs)
  obtain e sb1 where e: "exec2 sb (cut_rec r) = (e, sb1)" by fastforce
  have "stage2_step sb (concat (map rec_bytes (r # rs)) @ pad) = Some ((e, sb1), concat (map rec_bytes rs) @ pad)"
    using stage2_rec [of r sb "concat (map rec_bytes rs) @ pad"] Cons.prems e by simp
  then show ?case
    using Cons e rec_bytes_len(1) [of r]
    by (subst stage2_loop.simps) (auto simp: and_then_def split: option.split)
qed (simp add: stage2_loop.simps)

section \<open>Replaying finished blocks\<close>

definition not_unify :: "log_rec \<Rightarrow> bool" where
  "not_unify r \<longleftrightarrow> r \<noteq> Unify_rec"

definition blen :: "log_rec list \<Rightarrow> nat" where
  "blen rs = length (concat (map rec_bytes rs))"

lemma blen_simps [simp]: "blen [] = 0" "blen (r # rs) = length (rec_bytes r) + blen rs"
    "blen (xs @ ys) = blen xs + blen ys"
  by (simp_all add: blen_def)

text \<open>A finished log block that holds the records \<open>rs\<close>.\<close>

definition block_of :: "nat \<Rightarrow> log_rec list \<Rightarrow> u8 list \<Rightarrow> bool" where
  "block_of blksize rs log \<longleftrightarrow> hdr_magic log \<and> log_hdr + hdr_bytes log \<le> blksize \<and> length log = blksize \<and>
     take (hdr_bytes log) (log_data log) = concat (map rec_bytes rs) \<and> list_all rec_ok rs"

lemma block_of_data:
  assumes "block_of blksize rs log"
  shows "\<exists>pad. log_data log = concat (map rec_bytes rs) @ pad \<and> length (log_data log) - hdr_bytes log = length pad \<and>
    hdr_bytes log = blen rs"
proof -
  let ?pad = "drop (hdr_bytes log) (log_data log)"
  have "hdr_bytes log \<le> length (log_data log)" using assms by (auto simp: block_of_def log_data_def)
  then have "hdr_bytes log = blen rs"
    using assms length_take [of "hdr_bytes log" "log_data log"] by (simp add: block_of_def blen_def)
  moreover have "log_data log = concat (map rec_bytes rs) @ ?pad"
    using assms append_take_drop_id [of "hdr_bytes log" "log_data log"] by (simp add: block_of_def)
  ultimately show ?thesis by (intro exI [of _ ?pad]) simp
qed

lemma code_unify: "hd (rec_bytes r) = LOG_UNIFY \<longleftrightarrow> r = Unify_rec"
  by (cases r) simp_all

definition mark_unify :: "nat \<Rightarrow> nat \<Rightarrow> log_rec list \<Rightarrow> replay \<Rightarrow> replay" where
  "mark_unify idx at rs rp =
     (if unify_index rp = None \<and> Unify_rec \<in> set rs
      then rp\<lparr>unify_pos := at + blen (takeWhile not_unify rs), unify_index := Some idx\<rparr> else rp)"

lemma check_loop_recs:
  "check_loop rp idx (pre @ concat (map rec_bytes rs) @ pad) (length pre + blen rs) (length pre)
   = Some (None, mark_unify idx (length pre) rs rp)"
proof (induction rs arbitrary: pre rp)
  case Nil
  then show ?case by (simp add: check_loop.simps mark_unify_def)
next
  case (Cons r rs)
  obtain c bs where r: "rec_bytes r = c # bs" using rec_bytes_len(1) [of r] by (cases "rec_bytes r") auto
  define rp1 where "rp1 = (if c = LOG_UNIFY \<and> unify_index rp = None
      then rp\<lparr>unify_pos := length pre, unify_index := Some idx\<rparr> else rp)"
  have sz: "log_size c = Some (length (rec_bytes r))" using log_size_rec [of r] r by simp
  have cu: "c = 0x45 \<longleftrightarrow> r = Unify_rec" using code_unify [of r] r by simp
  have "check_loop rp idx (pre @ concat (map rec_bytes (r # rs)) @ pad) (length pre + blen (r # rs)) (length pre)
      = check_loop rp1 idx (pre @ concat (map rec_bytes (r # rs)) @ pad) (length pre + blen (r # rs))
          (length pre + length (rec_bytes r))"
    by (subst check_loop.simps) (simp add: r sz [unfolded r] rp1_def Let_def nth_append)
  also have "\<dots> = Some (None, mark_unify idx (length (pre @ rec_bytes r)) rs rp1)"
    using Cons.IH [of rp1 "pre @ rec_bytes r"] by (simp add: add.assoc)
  also have "mark_unify idx (length (pre @ rec_bytes r)) rs rp1 = mark_unify idx (length pre) (r # rs) rp"
    by (auto simp: mark_unify_def rp1_def cu not_unify_def)
  finally show ?case .
qed

lemma check_log_recs:
  assumes "block_of blksize rs log"
  shows "replay_check_log rp blksize idx log = Some (None, mark_unify idx 0 rs rp)"
proof -
  obtain pad where p: "log_data log = concat (map rec_bytes rs) @ pad" "hdr_bytes log = blen rs"
    using block_of_data [OF assms] by blast
  then show ?thesis
    using assms check_loop_recs [of rp idx "[]" rs pad] by (simp add: replay_check_log_def block_of_def)
qed

text \<open>The records of block \<open>i\<close> that count when the latest unify mark is in block \<open>u\<close>.\<close>

definition since :: "nat option \<Rightarrow> nat \<Rightarrow> log_rec list \<Rightarrow> log_rec list" where
  "since u i rs =
     (case u of None \<Rightarrow> rs | Some u \<Rightarrow> if i < u then [] else if i = u then dropWhile not_unify rs else rs)"

definition mark_ok :: "replay \<Rightarrow> nat \<Rightarrow> log_rec list \<Rightarrow> bool" where
  "mark_ok rp i rs \<longleftrightarrow> (unify_index rp = Some i \<longrightarrow> unify_pos rp = blen (takeWhile not_unify rs))"

lemma block_from:
  assumes "block_of blksize rs log" and "mark_ok rp i rs" and "\<not> before_unify rp i"
  shows "\<exists>pad. drop (start_pos rp i) (log_data log) = concat (map rec_bytes (since (unify_index rp) i rs)) @ pad \<and>
    length (log_data log) - hdr_bytes log = length pad \<and> list_all rec_ok (since (unify_index rp) i rs)"
proof -
  obtain pad where p: "log_data log = concat (map rec_bytes rs) @ pad" "length (log_data log) - hdr_bytes log = length pad"
    using block_of_data [OF assms(1)] by blast
  have ok: "list_all rec_ok rs" using assms(1) by (simp add: block_of_def)
  show ?thesis
  proof (cases "unify_index rp = Some i")
    case True
    have "concat (map rec_bytes rs) = concat (map rec_bytes (takeWhile not_unify rs)) @ concat (map rec_bytes (dropWhile not_unify rs))"
      by (simp flip: map_append concat_append)
    moreover have "list_all rec_ok (dropWhile not_unify rs)"
      using ok set_dropWhileD by (fastforce simp: list_all_iff)
    ultimately show ?thesis
      using True assms(2) p by (auto simp: start_pos_def mark_ok_def since_def blen_def)
  next
    case False
    with assms(3) p ok show ?thesis
      by (auto simp: start_pos_def since_def before_unify_def split: option.splits)
  qed
qed

lemma log_stage1_recs:
  assumes "block_of blksize rs log" and "mark_ok rp i rs"
  shows "replay_log_stage1 rp sb i log = Some (execs exec1 sb (map cut_rec (since (unify_index rp) i rs)))"
proof (cases "before_unify rp i")
  case True
  then show ?thesis by (auto simp: replay_log_stage1_def before_unify_def since_def split: option.splits)
next
  case False
  with block_from [OF assms False] stage1_recs show ?thesis by (auto simp: replay_log_stage1_def)
qed

text \<open>Stage 2 also takes the log block itself out of the free blocks.\<close>

definition exec2_block :: "u64 \<Rightarrow> replay_sb \<Rightarrow> log_rec list \<Rightarrow> err \<times> replay_sb" where
  "exec2_block nr sb rs = and_then (update_bitmap sb nr 1 True) (\<lambda>sb. execs exec2 (defer_deunify sb nr 1) (map cut_rec rs))"

lemma log_stage2_recs:
  assumes "block_of blksize rs log" and "mark_ok rp i rs"
  shows "replay_log_stage2 rp sb i log = Some (exec2_block (blocknrs rp i) sb (since (unify_index rp) i rs))"
proof (cases "before_unify rp i")
  case True
  then have "since (unify_index rp) i rs = []" by (auto simp: before_unify_def since_def split: option.splits)
  with True show ?thesis
    by (auto simp: replay_log_stage2_def exec2_block_def and_then_def Let_def split: option.split prod.split)
next
  case False
  obtain pad where p: "drop (start_pos rp i) (log_data log) = concat (map rec_bytes (since (unify_index rp) i rs)) @ pad"
      "length (log_data log) - hdr_bytes log = length pad" "list_all rec_ok (since (unify_index rp) i rs)"
    using block_from [OF assms False] by blast
  show ?thesis
    using False by (auto simp: replay_log_stage2_def exec2_block_def and_then_def Let_def p(1,2) stage2_recs [OF p(3)]
      split: option.split prod.split)
qed

section \<open>Replaying the log\<close>

fun latest_unify :: "log_rec list list \<Rightarrow> nat \<Rightarrow> nat option" where
  "latest_unify ess 0 = None"
| "latest_unify ess (Suc i) = (if Unify_rec \<in> set (ess ! i) then Some i else latest_unify ess i)"

text \<open>The records that replay executes: those from the latest unify mark on.\<close>

definition since_unify :: "log_rec list list \<Rightarrow> log_rec list" where
  "since_unify ess = concat (map (\<lambda>i. since (latest_unify ess (length ess)) i (ess ! i)) [0..<length ess])"

text \<open>The volume holds the blocks \<open>L\<close> of index \<open>0\<close> to \<open>n - 1\<close> at the addresses \<open>N\<close>, linked
  backwards from \<open>chain\<close>.\<close>

definition log_on_disk :: "logdev \<Rightarrow> nat \<Rightarrow> (nat \<Rightarrow> u64) \<Rightarrow> (nat \<Rightarrow> u8 list) \<Rightarrow> u64 \<Rightarrow> bool" where
  "log_on_disk d n N L chain \<longleftrightarrow> (0 < n \<longrightarrow> chain = N (n - 1)) \<and>
     (\<forall>j<n. ld_disk d (N j) = L j \<and> ld_ioerr d (N j) = None \<and> \<not> ld_nobuf d j) \<and>
     (\<forall>j. Suc j < n \<longrightarrow> hdr_chain (L (Suc j)) = N j)"

lemma prepare_loop_ok:
  "log_on_disk d n N L chain \<Longrightarrow> (\<And>j. j < n \<Longrightarrow> block_of (ld_blocksize d) (ess ! j) (L j)) \<Longrightarrow>
   \<exists>rp' m'. prepare_loop d rp m chain n = Some (None, rp', m') \<and> (\<forall>j<n. m' j = L j \<and> blocknrs rp' j = N j) \<and>
     (\<forall>j\<ge>n. m' j = m j \<and> blocknrs rp' j = blocknrs rp j) \<and>
     unify_index rp' = (if unify_index rp = None then latest_unify ess n else unify_index rp) \<and>
     (unify_index rp \<noteq> None \<longrightarrow> unify_pos rp' = unify_pos rp) \<and>
     (unify_index rp = None \<longrightarrow> (\<forall>j<n. mark_ok rp' j (ess ! j)))"
proof (induction n arbitrary: rp m chain)
  case (Suc n)
  have d: "chain = N n" "ld_disk d chain = L n" "ld_ioerr d chain = None" "\<not> ld_nobuf d n"
    using Suc.prems(1) by (auto simp: log_on_disk_def)
  have next_chain: "log_on_disk d n N L (hdr_chain (L n))"
    using Suc.prems(1) by (cases n) (auto simp: log_on_disk_def)
  define rp1 where "rp1 = (mark_unify n 0 (ess ! n) rp)\<lparr>blocknrs := (blocknrs (mark_unify n 0 (ess ! n) rp))(n := chain)\<rparr>"
  have ck: "replay_check_log rp (ld_blocksize d) n (L n) = Some (None, mark_unify n 0 (ess ! n) rp)"
    by (rule check_log_recs) (use Suc.prems(2) in blast)
  have step: "prepare_loop d rp m chain (Suc n) = prepare_loop d rp1 (m(n := L n)) (hdr_chain (L n)) n"
    using d ck by (simp add: Let_def rp1_def)
  let ?P = "\<lambda>rp' m'. prepare_loop d rp1 (m(n := L n)) (hdr_chain (L n)) n = Some (None, rp', m') \<and>
     (\<forall>j<n. m' j = L j \<and> blocknrs rp' j = N j) \<and> (\<forall>j\<ge>n. m' j = (m(n := L n)) j \<and> blocknrs rp' j = blocknrs rp1 j) \<and>
     unify_index rp' = (if unify_index rp1 = None then latest_unify ess n else unify_index rp1) \<and>
     (unify_index rp1 \<noteq> None \<longrightarrow> unify_pos rp' = unify_pos rp1) \<and>
     (unify_index rp1 = None \<longrightarrow> (\<forall>j<n. mark_ok rp' j (ess ! j)))"
  have "\<exists>rp' m'. ?P rp' m'" by (rule Suc.IH [OF next_chain]) (use Suc.prems(2) in simp)
  then obtain rp' m' where R: "?P rp' m'" by (elim exE)
  note r = R [THEN conjunct1] R [THEN conjunct2, THEN conjunct1] R [THEN conjunct2, THEN conjunct2, THEN conjunct1]
    R [THEN conjunct2, THEN conjunct2, THEN conjunct2, THEN conjunct1]
    R [THEN conjunct2, THEN conjunct2, THEN conjunct2, THEN conjunct2, THEN conjunct1]
    R [THEN conjunct2, THEN conjunct2, THEN conjunct2, THEN conjunct2, THEN conjunct2]
  have b: "blocknrs rp1 n = N n" "\<And>j. n < j \<Longrightarrow> blocknrs rp1 j = blocknrs rp j"
    by (auto simp: rp1_def mark_unify_def d(1))
  have u: "unify_index rp1 = (if unify_index rp = None then (if Unify_rec \<in> set (ess ! n) then Some n else None) else unify_index rp)"
    "unify_index rp \<noteq> None \<longrightarrow> unify_pos rp1 = unify_pos rp"
    "unify_index rp = None \<longrightarrow> Unify_rec \<in> set (ess ! n) \<longrightarrow> unify_pos rp1 = blen (takeWhile not_unify (ess ! n))"
    by (auto simp: rp1_def mark_unify_def)
  have "\<forall>j<Suc n. mark_ok rp' j (ess ! j)" if "unify_index rp = None"
  proof (cases "Unify_rec \<in> set (ess ! n)")
    case True
    with that u r(4,5) show ?thesis by (auto simp: mark_ok_def)
  next
    case False
    have lt: "latest_unify ess k = Some j \<Longrightarrow> j < k" for k j by (induction k) (auto split: if_splits)
    with that u r(4,6) False show ?thesis by (auto simp: mark_ok_def less_Suc_eq)
  qed
  moreover have "\<forall>j<Suc n. m' j = L j \<and> blocknrs rp' j = N j" using r(2,3) b(1) by (auto simp: less_Suc_eq)
  moreover have "\<forall>j\<ge>Suc n. m' j = m j \<and> blocknrs rp' j = blocknrs rp j" using r(3) b(2) by auto
  moreover have "unify_index rp' = (if unify_index rp = None then latest_unify ess (Suc n) else unify_index rp)"
    using r(4) u(1) by auto
  moreover have "unify_index rp \<noteq> None \<longrightarrow> unify_pos rp' = unify_pos rp" using r(5) u by auto
  ultimately show ?case using step r(1) by auto
qed (simp add: mark_ok_def)

lemma logblocks_stage1:
  "(\<And>j. j < n \<Longrightarrow> block_of blksize (ess ! j) (m j) \<and> mark_ok rp j (ess ! j)) \<Longrightarrow> k \<le> n \<Longrightarrow>
   replay_logblocks (replay_log_stage1 rp) sb m k n =
     Some (execs exec1 sb (map cut_rec (concat (map (\<lambda>i. since (unify_index rp) i (ess ! i)) [k..<n]))))"
proof (induction "n - k" arbitrary: k sb)
  case (Suc x)
  then have k: "k < n" "x = n - Suc k" by simp_all
  let ?rs = "map cut_rec (since (unify_index rp) k (ess ! k))"
  have s: "replay_log_stage1 rp sb k (m k) = Some (execs exec1 sb ?rs)"
    using log_stage1_recs Suc.prems(1) k(1) by blast
  obtain e sb1 where e: "execs exec1 sb ?rs = (e, sb1)" by fastforce
  show ?case
    using s e k Suc.hyps(1) [OF k(2), of sb1] Suc.prems(1)
    by (subst replay_logblocks.simps)
       (auto simp: upt_conv_Cons execs_append and_then_def split: option.split)
qed (simp add: replay_logblocks.simps)

fun exec2_blocks :: "(nat \<Rightarrow> u64) \<Rightarrow> replay_sb \<Rightarrow> (nat \<times> log_rec list) list \<Rightarrow> err \<times> replay_sb" where
  "exec2_blocks N sb [] = (None, sb)"
| "exec2_blocks N sb ((i, rs) # bs) = and_then (exec2_block (N i) sb rs) (\<lambda>sb. exec2_blocks N sb bs)"

lemma logblocks_stage2:
  "(\<And>j. j < n \<Longrightarrow> block_of blksize (ess ! j) (m j) \<and> mark_ok rp j (ess ! j)) \<Longrightarrow> k \<le> n \<Longrightarrow>
   replay_logblocks (replay_log_stage2 rp) sb m k n =
     Some (exec2_blocks (blocknrs rp) sb (map (\<lambda>i. (i, since (unify_index rp) i (ess ! i))) [k..<n]))"
proof (induction "n - k" arbitrary: k sb)
  case (Suc x)
  then have k: "k < n" "x = n - Suc k" by simp_all
  let ?rs = "since (unify_index rp) k (ess ! k)"
  have s: "replay_log_stage2 rp sb k (m k) = Some (exec2_block (blocknrs rp k) sb ?rs)"
    using log_stage2_recs Suc.prems(1) k(1) by blast
  obtain e sb1 where e: "exec2_block (blocknrs rp k) sb ?rs = (e, sb1)" by fastforce
  show ?case
    using s e k Suc.hyps(1) [OF k(2), of sb1] Suc.prems(1)
    by (subst replay_logblocks.simps) (auto simp: upt_conv_Cons and_then_def split: option.split)
qed (simp add: replay_logblocks.simps)

lemma exec2_blocks_cong:
  "(\<And>i. i \<in> fst ` set bs \<Longrightarrow> f i = g i) \<Longrightarrow> exec2_blocks f sb bs = exec2_blocks g sb bs"
proof (induction bs arbitrary: sb)
  case (Cons b bs)
  then show ?case by (cases b) (simp add: and_then_def split: option.split prod.split)
qed simp

lemma replay_stages_recs:
  assumes "log_on_disk d (length ess) N L chain" and "\<forall>j<length ess. block_of (ld_blocksize d) (ess ! j) (L j)"
  shows "\<exists>rp m'.
    replay_stage1 d sb m chain (length ess) =
      (case execs exec1 sb (map cut_rec (since_unify ess)) of (e, sb') \<Rightarrow> Some (e, sb', rp, m')) \<and>
    (\<forall>sb2. replay_stage2 rp sb2 m' (length ess) =
      Some (exec2_blocks N sb2 (map (\<lambda>i. (i, since (latest_unify ess (length ess)) i (ess ! i))) [0..<length ess])))"
proof -
  let ?n = "length ess"
  have u0: "unify_index alloc_replay = None" by (simp add: alloc_replay_def)
  let ?P = "\<lambda>rp' m'. prepare_loop d alloc_replay m chain ?n = Some (None, rp', m') \<and>
     (\<forall>j<?n. m' j = L j \<and> blocknrs rp' j = N j) \<and> (\<forall>j\<ge>?n. m' j = m j \<and> blocknrs rp' j = blocknrs alloc_replay j) \<and>
     unify_index rp' = (if unify_index alloc_replay = None then latest_unify ess ?n else unify_index alloc_replay) \<and>
     (unify_index alloc_replay \<noteq> None \<longrightarrow> unify_pos rp' = unify_pos alloc_replay) \<and>
     (unify_index alloc_replay = None \<longrightarrow> (\<forall>j<?n. mark_ok rp' j (ess ! j)))"
  have "\<exists>rp' m'. ?P rp' m'" by (rule prepare_loop_ok [OF assms(1)]) (use assms(2) in simp)
  then obtain rp m' where R: "?P rp m'" by (elim exE)
  then have p: "replay_prepare d m chain ?n = Some (None, rp, m')" "unify_index rp = latest_unify ess ?n"
    by (simp_all add: replay_prepare_def u0)
  have b: "block_of (ld_blocksize d) (ess ! j) (m' j) \<and> mark_ok rp j (ess ! j)" if "j < ?n" for j
    using R assms(2) that by (simp add: u0)
  have s1: "replay_logblocks (replay_log_stage1 rp) sb m' 0 ?n = Some (execs exec1 sb (map cut_rec (since_unify ess)))"
    unfolding since_unify_def p(2) [symmetric] by (rule logblocks_stage1) (use b in auto)
  have s2: "replay_stage2 rp sb2 m' ?n =
      Some (exec2_blocks (blocknrs rp) sb2 (map (\<lambda>i. (i, since (latest_unify ess ?n) i (ess ! i))) [0..<?n]))" for sb2
    unfolding replay_stage2_def p(2) [symmetric] by (rule logblocks_stage2) (use b in auto)
  have "exec2_blocks (blocknrs rp) sb2 (map (\<lambda>i. (i, since (latest_unify ess ?n) i (ess ! i))) [0..<?n])
      = exec2_blocks N sb2 (map (\<lambda>i. (i, since (latest_unify ess ?n) i (ess ! i))) [0..<?n])" for sb2
    by (rule exec2_blocks_cong) (use R in auto)
  with s1 s2 p(1) show ?thesis
    by (intro exI [of _ rp] exI [of _ m']) (auto simp: replay_stage1_def split: prod.split)
qed

lemma replay_stage1_recs:
  assumes "log_on_disk d (length ess) N L chain" and "\<forall>j<length ess. block_of (ld_blocksize d) (ess ! j) (L j)"
  shows "\<exists>rp m'. replay_stage1 d sb m chain (length ess) =
      (case execs exec1 sb (map cut_rec (since_unify ess)) of (e, sb') \<Rightarrow> Some (e, sb', rp, m'))"
  using replay_stages_recs [OF assms] by blast

section \<open>Properties\<close>

text \<open>C11: replay is the inverse of logging: when the volume holds the blocks of a log that
  carries the records \<open>ess\<close>, block by block, replay finds them along the reverse chain,
  and stage 1 and stage 2 execute, in order and with the fields that were logged, exactly
  the records from the latest unify mark on, stage 2 taking every log block out of the free
  blocks first.  No read leaves a block, and the only failures are those of the operations
  that a record asks for.\<close>

theorem replay_executes:
  assumes "log_on_disk d (length ess) N L chain" and "\<forall>j<length ess. block_of (ld_blocksize d) (ess ! j) (L j)"
  shows "\<exists>rp m'.
    replay_stage1 d sb m chain (length ess) =
      (case execs exec1 sb (map cut_rec (since_unify ess)) of (e, sb') \<Rightarrow> Some (e, sb', rp, m')) \<and>
    (\<forall>sb2. replay_stage2 rp sb2 m' (length ess) =
      Some (exec2_blocks N sb2 (map (\<lambda>i. (i, since (latest_unify ess (length ess)) i (ess ! i))) [0..<length ess])))"
  by (rule replay_stages_recs [OF assms])

text \<open>A log block of 64 bytes with the records of one cycle, for the witness.\<close>

definition demo_block :: "log_rec list \<Rightarrow> u8 list" where
  "demo_block rs = encode16 TUX3_MAGIC_LOG @ encode16 (of_nat (blen rs)) @ replicate 12 0 @
     concat (map rec_bytes rs) @ replicate (48 - blen rs) 0"

lemma demo_block_ok:
  assumes "blen rs \<le> 48" and "list_all rec_ok rs"
  shows "block_of 64 rs (demo_block rs)"
proof -
  have "hdr_bytes (demo_block rs) = blen rs"
    using assms(1) be_get_encode16 [of "blen rs"] by (simp add: hdr_bytes_def demo_block_def)
  moreover have "log_data (demo_block rs) = concat (map rec_bytes rs) @ replicate (48 - blen rs) 0"
    by (simp add: log_data_def demo_block_def log_hdr_def)
  ultimately show ?thesis
    using assms by (simp add: block_of_def hdr_magic_def log_hdr_def demo_block_def blen_def)
qed

lemma replay_executes_witness:
  "\<forall>sb m. \<exists>rp m'. replay_stage1
      \<lparr>ld_blocksize = 64, ld_disk = (\<lambda>_. demo_block [Balloc_rec 5 1, Unify_rec, Freeblocks_rec 9]),
       ld_ioerr = (\<lambda>_. None), ld_nobuf = (\<lambda>_. False)\<rparr> sb m 7 1
     = Some (None, sb\<lparr>r_bal := (r_bal sb)\<lparr>freeblocks := 9\<rparr>\<rparr>, rp, m')"
proof (intro allI)
  fix sb m
  let ?rs = "[Balloc_rec 5 1, Unify_rec, Freeblocks_rec 9]"
  let ?d = "\<lparr>ld_blocksize = 64, ld_disk = (\<lambda>_. demo_block ?rs), ld_ioerr = (\<lambda>_. None), ld_nobuf = (\<lambda>_. False)\<rparr>"
  have b: "block_of 64 ?rs (demo_block ?rs)" by (rule demo_block_ok) (simp_all add: blen_def)
  have "log_on_disk ?d (length [?rs]) (\<lambda>_. 7) (\<lambda>_. demo_block ?rs) 7" by (simp add: log_on_disk_def)
  moreover have "\<forall>j<length [?rs]. block_of (ld_blocksize ?d) ([?rs] ! j) (demo_block ?rs)" using b by simp
  moreover have "since_unify [?rs] = [Unify_rec, Freeblocks_rec 9]"
    by (simp add: since_unify_def since_def not_unify_def)
  moreover have "take_bit 48 (9 :: u64) = 9" by simp
  ultimately show "\<exists>rp m'. replay_stage1 ?d sb m 7 1 = Some (None, sb\<lparr>r_bal := (r_bal sb)\<lparr>freeblocks := 9\<rparr>\<rparr>, rp, m')"
    using replay_executes [of ?d "[?rs]" "\<lambda>_. 7" "\<lambda>_. demo_block ?rs" 7 sb m] by (auto simp: and_then_def)
qed

text \<open>The check of a log block indexes \<open>log_size\<close> with a byte of the block before
  anything has bounded it: a block with a valid header whose first record code is not below
  \<open>LOG_TYPES\<close> makes it read outside the table, while a code below \<open>LOG_BALLOC\<close> is
  refused as it should be.\<close>

theorem replay_check_log_table:
  "replay_check_log rp 64 0 (encode16 TUX3_MAGIC_LOG @ encode16 1 @ replicate 12 0 @ 0x47 # replicate 47 0) = None \<and>
   replay_check_log rp 64 0 (encode16 TUX3_MAGIC_LOG @ encode16 1 @ replicate 12 0 @ 0x32 # replicate 47 0)
     = Some (Some EINVAL, rp)"
proof -
  have "hdr_bytes (encode16 TUX3_MAGIC_LOG @ encode16 1 @ xs) = 1" for xs
    using be_get_encode16 [of 1] by (simp add: hdr_bytes_def)
  then show ?thesis
    by (simp add: replay_check_log_def hdr_magic_def log_hdr_def log_data_def check_loop.simps log_size_def
        log_sizes_def nth_append)
qed

end
