(* ===== verification/Logflush.thy ===== *)
theory Logflush
  imports Replay
begin

text \<open>
  Writing the log at the end of a delta, \<open>tux3_logmap_io\<close> of \<open>src/kernel/log.c\<close>: the
  finished log blocks get addresses from \<open>balloc_partial\<close>, are linked into the reverse
  chain that starts at \<open>super.logchain\<close>, and are written segment by segment.  The write
  of a segment, \<open>__tux3_volmap_io\<close>, is the copy of the blocks to the volume; \<open>ioerr\<close>
  says with which error it fails.  \<open>None\<close> is the failed assertion on the magic number.
\<close>

section \<open>Model\<close>

record flush_sb =
  fl_bal :: bsb
  fl_pool :: pool
  fl_deunify :: stash
  fl_map :: "nat \<Rightarrow> u8 list"
  fl_disk :: "u64 \<Rightarrow> u8 list"
  logchain :: u64
  logcount :: nat

text \<open>The loop over the buffers of a segment: set \<open>logchain\<close> of the block and of the superblock.\<close>

fun link_blocks :: "(nat \<Rightarrow> u8 list) \<Rightarrow> u64 \<Rightarrow> nat \<Rightarrow> nat \<Rightarrow> nat \<Rightarrow> ((nat \<Rightarrow> u8 list) \<times> u64) option" where
  "link_blocks m chain idx blk 0 = Some (m, chain)"
| "link_blocks m chain idx blk (Suc n) =
     (if \<not> hdr_magic (m idx) then None
      else link_blocks (m(idx := splice 8 (encode64 chain) (m idx))) (of_nat blk) (Suc idx) (Suc blk) n)"

fun store_blocks :: "(u64 \<Rightarrow> u8 list) \<Rightarrow> (nat \<Rightarrow> u8 list) \<Rightarrow> nat \<Rightarrow> nat \<Rightarrow> nat \<Rightarrow> u64 \<Rightarrow> u8 list" where
  "store_blocks dk m idx blk 0 = dk"
| "store_blocks dk m idx blk (Suc n) = store_blocks (dk(of_nat blk := m idx)) m (Suc idx) (Suc blk) n"

lemma balloc_partial_pos: "balloc_partial sb n = (None, seg, sb') \<Longrightarrow> 0 < seg_count seg"
  by (auto simp: balloc_partial_def balloc_goal_def balloc_from_range_def balloc_take_def Let_def
      split: if_splits search_result.splits prod.splits option.splits)

function flush_loop :: "(nat \<Rightarrow> nat \<Rightarrow> err) \<Rightarrow> flush_sb \<Rightarrow> nat \<Rightarrow> nat \<Rightarrow> (err \<times> flush_sb) option" where
  "flush_loop ioerr sb idx count =
     (if count > 0
      then (case balloc_partial (fl_bal sb) count of
              (Some e, _, bal) \<Rightarrow> Some (Some e, sb\<lparr>fl_bal := bal\<rparr>)
            | (None, seg, bal) \<Rightarrow>
                let n = min (seg_count seg) count
                in (case link_blocks (fl_map sb) (logchain sb) idx (seg_block seg) n of
                      None \<Rightarrow> None
                    | Some (m, chain) \<Rightarrow>
                        let sb = sb\<lparr>fl_bal := bal, fl_map := m, logchain := chain\<rparr>
                        in (case ioerr (seg_block seg) (seg_count seg) of
                              Some e \<Rightarrow> Some (Some e, sb)
                            | None \<Rightarrow>
                                let sb = sb\<lparr>fl_disk := store_blocks (fl_disk sb) m idx (seg_block seg) n\<rparr>;
                                    r = defer_bfree (fl_pool sb, fl_deunify sb) (of_nat (seg_block seg)) (seg_count seg);
                                    sb = sb\<lparr>fl_pool := fst (snd r), fl_deunify := snd (snd r),
                                            logcount := logcount sb + seg_count seg\<rparr>
                                in flush_loop ioerr sb (idx + n) (count - seg_count seg))))
      else Some (None, sb))"
  by pat_completeness auto
termination
  by (relation "measure (\<lambda>(ioerr, sb, idx, count). count)") (auto dest!: balloc_partial_pos [OF sym])

declare flush_loop.simps [simp del]

definition tux3_logmap_io :: "(nat \<Rightarrow> nat \<Rightarrow> err) \<Rightarrow> flush_sb \<Rightarrow> nat \<Rightarrow> (err \<times> flush_sb) option" where
  "tux3_logmap_io ioerr sb count = flush_loop ioerr sb 0 count"

section \<open>Linking and storing a segment\<close>

definition relinked :: "u8 list \<Rightarrow> u8 list \<Rightarrow> u64 \<Rightarrow> bool" where
  "relinked old new chain \<longleftrightarrow> new = splice 8 (encode64 chain) old"

lemma link_blocks_ok:
  "(\<And>i. idx \<le> i \<Longrightarrow> i < idx + n \<Longrightarrow> hdr_magic (m i)) \<Longrightarrow>
   \<exists>m'. link_blocks m chain idx blk n = Some (m', if n = 0 then chain else of_nat (blk + n - 1)) \<and>
     (\<forall>i. m' i = (if idx \<le> i \<and> i < idx + n
                  then splice 8 (encode64 (if i = idx then chain else of_nat (blk + (i - idx) - 1))) (m i) else m i))"
proof (induction n arbitrary: m chain idx blk)
  case (Suc n)
  let ?m1 = "m(idx := splice 8 (encode64 chain) (m idx))"
  have mg: "hdr_magic (m idx)" using Suc.prems by simp
  have "\<exists>m'. link_blocks ?m1 (of_nat blk) (Suc idx) (Suc blk) n = Some (m', if n = 0 then of_nat blk else of_nat (Suc blk + n - 1)) \<and>
     (\<forall>i. m' i = (if Suc idx \<le> i \<and> i < Suc idx + n
        then splice 8 (encode64 (if i = Suc idx then of_nat blk else of_nat (Suc blk + (i - Suc idx) - 1))) (?m1 i) else ?m1 i))"
    by (rule Suc.IH) (use Suc.prems in auto)
  then obtain m' where m': "link_blocks ?m1 (of_nat blk) (Suc idx) (Suc blk) n = Some (m', if n = 0 then of_nat blk else of_nat (Suc blk + n - 1))"
    "\<And>i. m' i = (if Suc idx \<le> i \<and> i < Suc idx + n
        then splice 8 (encode64 (if i = Suc idx then of_nat blk else of_nat (Suc blk + (i - Suc idx) - 1))) (?m1 i) else ?m1 i)"
    by blast
  have "m' i = (if idx \<le> i \<and> i < idx + Suc n
      then splice 8 (encode64 (if i = idx then chain else of_nat (blk + (i - idx) - 1))) (m i) else m i)" for i
  proof -
    consider "i = idx" | "i = Suc idx" | "Suc idx < i" | "i < idx" by linarith
    then show ?thesis
    proof cases
      case 3
      then obtain k where "i = Suc (Suc idx) + k" using less_iff_Suc_add by auto
      then show ?thesis by (simp add: m'(2))
    qed (simp_all add: m'(2))
  qed
  with m'(1) mg show ?case by (intro exI [of _ m']) auto
qed auto

lemma store_blocks_eq:
  "blk + n \<le> 2 ^ 64 \<Longrightarrow>
   store_blocks dk m idx blk n b = (if blk \<le> unat b \<and> unat b < blk + n then m (idx + (unat b - blk)) else dk b)"
proof (induction n arbitrary: dk idx blk)
  case (Suc n)
  have u: "unat (of_nat blk :: u64) = blk" using Suc.prems by (simp add: unat_of_nat take_bit_eq_mod)
  then have "b = of_nat blk \<longleftrightarrow> unat b = blk" by (simp add: word_unat_eq_iff)
  have IH: "store_blocks (dk(of_nat blk := m idx)) m (Suc idx) (Suc blk) n b =
      (if Suc blk \<le> unat b \<and> unat b < Suc blk + n then m (Suc idx + (unat b - Suc blk)) else (dk(of_nat blk := m idx)) b)"
    by (rule Suc.IH) (use Suc.prems in simp)
  consider "b = of_nat blk" | "b \<noteq> of_nat blk" "Suc blk \<le> unat b" | "b \<noteq> of_nat blk" "unat b < blk"
    using \<open>b = of_nat blk \<longleftrightarrow> unat b = blk\<close> by linarith
  then show ?case
  proof cases
    case 2
    then have "Suc idx + (unat b - Suc blk) = idx + (unat b - blk)" by simp
    with 2 IH show ?thesis by (simp only: store_blocks.simps) auto
  next
    case 1
    with IH u show ?thesis by (simp only: store_blocks.simps) auto
  next
    case 3
    with IH show ?thesis by (simp only: store_blocks.simps) auto
  qed
qed auto

section \<open>The chain on the volume\<close>

text \<open>
  What writing the blocks \<open>idx\<close> to \<open>idx + n - 1\<close> does: they are on the volume at the
  addresses \<open>N\<close>, which were free before and are allocated now, the \<open>logchain\<close> field of
  each is the address of the one before it (of the first, the old chain), nothing else of
  the blocks and no other address of the volume has changed.
\<close>

definition written :: "flush_sb \<Rightarrow> nat \<Rightarrow> nat \<Rightarrow> (nat \<Rightarrow> u64) \<Rightarrow> flush_sb \<Rightarrow> bool" where
  "written sb idx n N sb' \<longleftrightarrow>
     (\<forall>i. idx \<le> i \<and> i < idx + n \<longrightarrow> fl_disk sb' (N i) = fl_map sb' i \<and> \<not> allocated (fl_bal sb) (unat (N i)) \<and>
        allocated (fl_bal sb') (unat (N i)) \<and> unat (N i) < volblocks (fl_bal sb)) \<and>
     (\<forall>i. fl_map sb' i = (if idx \<le> i \<and> i < idx + n
        then splice 8 (encode64 (if i = idx then logchain sb else N (i - 1))) (fl_map sb i) else fl_map sb i)) \<and>
     logchain sb' = (if n = 0 then logchain sb else N (idx + n - 1)) \<and> logcount sb' = logcount sb + n \<and>
     (\<forall>b. (\<forall>i. idx \<le> i \<and> i < idx + n \<longrightarrow> N i \<noteq> b) \<longrightarrow> fl_disk sb' b = fl_disk sb b) \<and>
     (\<forall>b. allocated (fl_bal sb) b \<longrightarrow> allocated (fl_bal sb') b)"

definition flush_inv :: "flush_sb \<Rightarrow> bool" where
  "flush_inv sb \<longleftrightarrow> balloc_inv (fl_bal sb) \<and> volblocks (fl_bal sb) < 2 ^ 48"

lemma balloc_partial_success:
  assumes "balloc_inv sb" and "balloc_partial sb n = (None, seg, sb')"
  shows "0 < seg_count seg \<and> seg_count seg \<le> n \<and> seg_block seg + seg_count seg \<le> volblocks sb \<and>
    free_run sb (seg_block seg) (seg_count seg) \<and> balloc_inv sb' \<and> volblocks sb' = volblocks sb \<and>
    (\<forall>b. allocated sb' b \<longleftrightarrow> allocated sb b \<or> seg_block seg \<le> b \<and> b < seg_block seg + seg_count seg)"
proof -
  have r: "balloc_from_range sb (nextblock sb) (volblocks sb) n True = (None, seg, sb')"
    using assms(2) by (simp add: balloc_partial_def balloc_goal_def)
  have "0 < n" using r by (cases n) (auto simp: balloc_from_range_def)
  have a: "alloc_spec sb n True None seg sb'"
    using balloc_from_range_cases [OF _ \<open>0 < n\<close> _ order_refl r] assms(1) by (simp add: balloc_inv_def)
  have i: "balloc_inv sb'" by (rule balloc_goal_inv [OF assms(1)]) (use assms(2) in \<open>simp add: balloc_partial_def\<close>)
  have m: "marks sb (sb'\<lparr>nextblock := nextblock sb\<rparr>) (seg_block seg) (seg_count seg) True"
    using a by (simp add: alloc_spec_def)
  have "allocated sb' b \<longleftrightarrow> allocated sb b \<or> seg_block seg \<le> b \<and> b < seg_block seg + seg_count seg" for b
    using marks_allocated [OF m, of b] by auto
  moreover have "volblocks sb' = volblocks sb" using m by (simp add: marks_def)
  ultimately show ?thesis using a i by (simp add: alloc_spec_def)
qed

lemma magic_relink: "hdr_magic log \<Longrightarrow> 16 \<le> length log \<Longrightarrow> hdr_magic (splice 8 (encode64 c) log)"
  by (simp add: hdr_magic_def take_splice)

lemma written_step:
  assumes inv: "flush_inv sb" and k: "0 < k" "k \<le> count" "f + k \<le> volblocks (fl_bal sb)" "free_run (fl_bal sb) f k"
    and al: "\<And>b. allocated bal b \<longleftrightarrow> allocated (fl_bal sb) b \<or> f \<le> b \<and> b < f + k"
    and vol: "volblocks (fl_bal sb) < 2 ^ 48"
    and m: "\<And>i. m i = (if idx \<le> i \<and> i < idx + k
        then splice 8 (encode64 (if i = idx then logchain sb else of_nat (f + (i - idx) - 1))) (fl_map sb i) else fl_map sb i)"
    and N': "written s3 (idx + k) (count - k) N' sb'"
    and s3: "fl_bal s3 = bal" "fl_map s3 = m" "logchain s3 = of_nat (f + k - 1)" "logcount s3 = logcount sb + k"
        "fl_disk s3 = store_blocks (fl_disk sb) m idx f k"
    and vb: "volblocks bal = volblocks (fl_bal sb)"
  shows "\<exists>N. written sb idx count N sb'"
proof -
  define N where "N i = (if i < idx + k then of_nat (f + (i - idx)) else N' i)" for i
  have u: "unat (of_nat x :: u64) = x" if "x < 2 ^ 48" for x
    using that by (simp add: unat_of_nat take_bit_eq_mod)
  have lo: "unat (N i) = f + (i - idx)" if "idx \<le> i" "i < idx + k" for i
    using that k(3) vol u [of "f + (i - idx)"] by (simp add: N_def)
  have rg: "f \<le> unat (N i)" "unat (N i) < f + k" if "idx \<le> i" "i < idx + k" for i
    using lo [OF that] that by auto
  have hi: "N i = N' i" "\<not> allocated bal (unat (N' i))" "unat (N' i) < volblocks (fl_bal sb)" "fl_disk sb' (N' i) = fl_map sb' i"
      "allocated (fl_bal sb') (unat (N' i))"
    if "idx + k \<le> i" "i < idx + count" for i
    using that N' k(2) vb by (auto simp: N_def written_def s3)
  have mono: "allocated bal b \<Longrightarrow> allocated (fl_bal sb') b" for b using N' by (auto simp: written_def s3)
  have ne: "N' i \<noteq> N j" if "idx \<le> j" "j < idx + k" "idx + k \<le> i" "i < idx + count" for i j
    using hi(2) [OF that(3,4)] lo [OF that(1,2)] al [of "unat (N' i)"] that by auto
  have keep: "fl_disk sb' b = fl_disk s3 b" if "\<And>i. idx + k \<le> i \<Longrightarrow> i < idx + count \<Longrightarrow> N' i \<noteq> b" for b
    using N' that k(2) by (auto simp: written_def)
  have st: "fl_disk s3 b = (if f \<le> unat b \<and> unat b < f + k then m (idx + (unat b - f)) else fl_disk sb b)" for b
    unfolding s3 by (rule store_blocks_eq) (use k(3) vol in simp)
  have map': "fl_map sb' i = (if idx + k \<le> i \<and> i < idx + count
      then splice 8 (encode64 (if i = idx + k then of_nat (f + k - 1) else N' (i - 1))) (m i) else m i)" for i
    using N' k(2) by (auto simp: written_def s3)
  have "fl_disk sb' (N i) = fl_map sb' i \<and> \<not> allocated (fl_bal sb) (unat (N i)) \<and>
        allocated (fl_bal sb') (unat (N i)) \<and> unat (N i) < volblocks (fl_bal sb)" if i: "idx \<le> i" "i < idx + count" for i
  proof (cases "i < idx + k")
    case True
    have "fl_disk sb' (N i) = fl_disk s3 (N i)" by (rule keep) (use ne i True in blast)
    also have "\<dots> = m i"
    proof -
      have "i - idx < k" using i(1) True by linarith
      then have "f \<le> unat (N i) \<and> unat (N i) < f + k" "idx + (unat (N i) - f) = i"
        unfolding lo [OF i(1) True] using i(1) by auto
      then show ?thesis by (simp add: st)
    qed
    also have "\<dots> = fl_map sb' i" using True by (simp add: map')
    finally show ?thesis
      using rg [OF i(1) True] k(3,4) mono [of "unat (N i)"] al [of "unat (N i)"] by (simp add: free_run_def)
  next
    case False
    with hi [of i] i al [of "unat (N' i)"] show ?thesis by simp
  qed
  moreover have "fl_map sb' i = (if idx \<le> i \<and> i < idx + count
      then splice 8 (encode64 (if i = idx then logchain sb else N (i - 1))) (fl_map sb i) else fl_map sb i)" for i
  proof -
    consider "i < idx" | "i = idx" | "idx < i" "i < idx + k" | "i = idx + k" | "idx + k < i" using k(1) by linarith
    then show ?thesis
    proof cases
      case 3
      then have "N (i - 1) = of_nat (f + (i - idx) - 1)" unfolding N_def by auto
      with 3 k(2) show ?thesis by (simp add: map' m)
    next
      case 4
      then have "N (i - 1) = of_nat (f + k - 1)" using k(1) by (simp add: N_def)
      with 4 k(1,2) show ?thesis by (simp add: map' m)
    next
      case 5
      then have "\<not> i - 1 < idx + k" by linarith
      then have "N (i - 1) = N' (i - 1)" by (simp only: N_def if_False)
      with 5 k(1,2) show ?thesis by (simp add: map' m)
    qed (use k(1,2) in \<open>simp_all add: map' m\<close>)
  qed
  moreover have "logchain sb' = N (idx + count - 1)"
    using N' k by (cases "count = k") (auto simp: written_def s3 N_def)
  moreover have "logcount sb' = logcount sb + count" using N' k(2) by (simp add: written_def s3)
  moreover have "fl_disk sb' b = fl_disk sb b" if b: "\<forall>i. idx \<le> i \<and> i < idx + count \<longrightarrow> N i \<noteq> b" for b
  proof -
    have "fl_disk sb' b = fl_disk s3 b" by (rule keep) (use b hi(1) in force)
    moreover have "\<not> (f \<le> unat b \<and> unat b < f + k)"
    proof
      assume r: "f \<le> unat b \<and> unat b < f + k"
      then obtain j where j: "unat b = f + j" "j < k" using le_Suc_ex by (metis nat_add_left_cancel_less)
      then have "unat (N (idx + j)) = unat b" using lo [of "idx + j"] by simp
      then have "N (idx + j) = b" by (simp add: word_unat_eq_iff)
      with b j(2) k(2) show False by auto
    qed
    ultimately show ?thesis by (simp add: st)
  qed
  moreover have "allocated (fl_bal sb) b \<longrightarrow> allocated (fl_bal sb') b" for b using mono al by blast
  ultimately show ?thesis using k(1,2) unfolding written_def by (intro exI [of _ N]) auto
qed

lemma flush_loop_written:
  "flush_inv sb \<Longrightarrow> (\<And>i. idx \<le> i \<Longrightarrow> i < idx + count \<Longrightarrow> hdr_magic (fl_map sb i)) \<Longrightarrow> (\<And>b n. ioerr b n = None) \<Longrightarrow>
   \<exists>sb' e. flush_loop ioerr sb idx count = Some (e, sb') \<and> (e = None \<longrightarrow> (\<exists>N. written sb idx count N sb'))"
proof (induction count arbitrary: sb idx rule: less_induct)
  case (less count)
  note prems = less.prems
  show ?case
  proof (cases "count > 0")
    case False
    then show ?thesis by (auto simp: flush_loop.simps written_def)
  next
    case True
    obtain e seg bal where b: "balloc_partial (fl_bal sb) count = (e, seg, bal)" by (rule prod_cases3)
    show ?thesis
    proof (cases e)
      case (Some x)
      with b True show ?thesis by (simp add: flush_loop.simps [of ioerr sb])
    next
      case None
      let ?k = "seg_count seg" and ?f = "seg_block seg"
      have inv: "balloc_inv (fl_bal sb)" "volblocks (fl_bal sb) < 2 ^ 48" using prems(1) by (simp_all add: flush_inv_def)
      have ok: "0 < ?k" "?k \<le> count" "?f + ?k \<le> volblocks (fl_bal sb)" "free_run (fl_bal sb) ?f ?k" "balloc_inv bal"
        "volblocks bal = volblocks (fl_bal sb)"
        "\<And>b. allocated bal b \<longleftrightarrow> allocated (fl_bal sb) b \<or> ?f \<le> b \<and> b < ?f + ?k"
        using balloc_partial_success [OF inv(1) b [unfolded None]] by blast+
      define n where "n = min ?k count"
      have nk: "n = ?k" "min ?k count = ?k" using ok(2) by (simp_all add: n_def)
      obtain m where m: "link_blocks (fl_map sb) (logchain sb) idx ?f ?k = Some (m, of_nat (?f + ?k - 1))"
        "\<And>i. m i = (if idx \<le> i \<and> i < idx + ?k
            then splice 8 (encode64 (if i = idx then logchain sb else of_nat (?f + (i - idx) - 1))) (fl_map sb i) else fl_map sb i)"
        using link_blocks_ok [of idx ?k "fl_map sb" "logchain sb" ?f] prems(2) ok(1,2) by fastforce
      define s1 where "s1 = sb\<lparr>fl_bal := bal, fl_map := m, logchain := of_nat (?f + ?k - 1)\<rparr>"
      define s2 where "s2 = s1\<lparr>fl_disk := store_blocks (fl_disk s1) m idx ?f ?k\<rparr>"
      define r where "r = defer_bfree (fl_pool s2, fl_deunify s2) (of_nat ?f) ?k"
      define s3 where "s3 = s2\<lparr>fl_pool := fst (snd r), fl_deunify := snd (snd r), logcount := logcount s2 + ?k\<rparr>"
      have step: "flush_loop ioerr sb idx count = flush_loop ioerr s3 (idx + ?k) (count - ?k)"
        using True b None m(1) prems(3) nk
        by (subst flush_loop.simps) (simp add: Let_def s1_def s2_def s3_def r_def)
      have s3: "fl_bal s3 = bal" "fl_map s3 = m" "logchain s3 = of_nat (?f + ?k - 1)" "logcount s3 = logcount sb + ?k"
        "fl_disk s3 = store_blocks (fl_disk sb) m idx ?f ?k"
        by (simp_all add: s1_def s2_def s3_def)
      have inv3: "flush_inv s3" using ok(5,6) inv(2) by (simp add: flush_inv_def s3)
      have mg3: "hdr_magic (fl_map s3 i)" if "idx + ?k \<le> i" "i < idx + ?k + (count - ?k)" for i
        using that prems(2) [of i] ok(2) by (simp add: s3(2) m(2))
      have "count - ?k < count" using ok(1) True by simp
      from less.IH [OF this inv3 mg3 prems(3)] obtain sb' e' where
        l: "flush_loop ioerr s3 (idx + ?k) (count - ?k) = Some (e', sb')"
           "e' = None \<longrightarrow> (\<exists>N. written s3 (idx + ?k) (count - ?k) N sb')" by blast
      have "\<exists>N. written sb idx count N sb'" if e': "e' = None"
      proof -
        obtain N' where N': "written s3 (idx + ?k) (count - ?k) N' sb'" using l(2) e' by blast
        show ?thesis
          by (rule written_step [OF prems(1) ok(1-4,7) inv(2) m(2) N' s3 ok(6)])
      qed
      with step l(1) show ?thesis by auto
    qed
  qed
qed

section \<open>Relinked blocks\<close>

lemma relink_block:
  assumes "block_of blksize rs log" and "16 \<le> blksize"
  shows "block_of blksize rs (splice 8 (encode64 c) log) \<and> hdr_chain (splice 8 (encode64 c) log) = c"
proof -
  let ?new = "splice 8 (encode64 c) log"
  have l: "length log = blksize" using assms(1) by (simp add: block_of_def)
  have "take 2 ?new = take 2 log" using l assms(2) by (intro take_splice) simp_all
  moreover have "take 2 (drop 2 ?new) = take 2 (drop 2 log)" using l assms(2) by (intro splice_below) simp_all
  moreover have "drop 16 ?new = drop 16 log" using l assms(2) by (intro drop_splice) simp_all
  moreover have "length ?new = length log" using l assms(2) by simp
  moreover have "take 8 (drop 8 ?new) = encode64 c" using splice_at [of 8 "encode64 c" log] l assms(2) by simp
  moreover have "be_get (encode64 c) = c" using c64.dec_enc_nil [of c] by (simp add: decode64_def)
  ultimately show ?thesis
    using assms(1) by (simp add: block_of_def hdr_magic_def hdr_bytes_def log_data_def log_hdr_def hdr_chain_def)
qed

lemma log_inv_block:
  assumes "log_inv sb ess" and "logbuf sb = None" and "list_all rec_ok (concat ess)" and "i < lognext sb"
  shows "block_of (blocksize sb) (ess ! i) (logmap sb i) \<and> 16 \<le> blocksize sb"
proof -
  have "ess ! i \<in> set ess" using assms(1,4) by (simp add: log_inv_def)
  then have "list_all rec_ok (ess ! i)" using assms(3) by (auto simp: list_all_iff)
  then show ?thesis
    using assms(1,2,4) by (auto simp: log_inv_def block_of_def payload_def log_data_def)
qed

text \<open>The blocks of the flushed cycle extend the log that was on the volume.\<close>

lemma flush_extends:
  assumes old: "log_on_disk d n0 N0 L0 (logchain sb)" "ld_disk d = fl_disk sb"
    and alloc: "\<And>j. j < n0 \<Longrightarrow> allocated (fl_bal sb) (unat (N0 j))"
    and new: "written sb 0 n N sb'"
    and io: "\<And>b. ld_ioerr d b = None" "\<And>j. \<not> ld_nobuf d j"
    and blk: "\<And>i. i < n \<Longrightarrow> block_of blksize (ess ! i) (fl_map sb i) \<and> 16 \<le> blksize"
  shows "log_on_disk (d\<lparr>ld_disk := fl_disk sb'\<rparr>) (n0 + n) (\<lambda>i. if i < n0 then N0 i else N (i - n0))
      (\<lambda>i. if i < n0 then L0 i else fl_map sb' (i - n0)) (logchain sb')"
proof -
  have m: "fl_map sb' i = splice 8 (encode64 (if i = 0 then logchain sb else N (i - 1))) (fl_map sb i)" if "i < n" for i
    using new that by (simp add: written_def)
  have ch: "hdr_chain (fl_map sb' i) = (if i = 0 then logchain sb else N (i - 1))" if "i < n" for i
    using relink_block [OF conjunct1 [OF blk [OF that]] conjunct2 [OF blk [OF that]]] by (simp add: m [OF that])
  have "fl_disk sb' (N0 j) = fl_disk sb (N0 j)" if "j < n0" for j
  proof -
    have "N i \<noteq> N0 j" if "i < n" for i
      using new that alloc [OF \<open>j < n0\<close>] by (auto simp: written_def)
    then show ?thesis using new by (simp add: written_def)
  qed
  then have d0: "fl_disk sb' (N0 j) = L0 j" if "j < n0" for j
    using old that by (simp add: log_on_disk_def)
  have link: "hdr_chain (if Suc j < n0 then L0 (Suc j) else fl_map sb' (Suc j - n0)) = (if j < n0 then N0 j else N (j - n0))"
    if "Suc j < n0 + n" for j
  proof (cases "Suc j < n0")
    case True
    then show ?thesis using old by (simp add: log_on_disk_def)
  next
    case False
    then have "hdr_chain (fl_map sb' (Suc j - n0)) = (if Suc j = n0 then logchain sb else N (Suc j - n0 - 1))"
      using ch [of "Suc j - n0"] that by auto
    moreover have "logchain sb = N0 j" if "Suc j = n0" using old(1) that by (auto simp: log_on_disk_def)
    ultimately show ?thesis using False by auto
  qed
  have end': "logchain sb' = (if n0 + n - 1 < n0 then N0 (n0 + n - 1) else N (n0 + n - 1 - n0))" if "0 < n0 + n"
    using that old(1) new by (cases "n = 0") (auto simp: written_def log_on_disk_def)
  have "fl_disk sb' (N i) = fl_map sb' i" if "i < n" for i using new that by (simp add: written_def)
  then show ?thesis
    using d0 link end' io by (auto simp: log_on_disk_def)
qed

section \<open>Properties\<close>

text \<open>C23: writing the log of a delta: the blocks of the cycle are stored at addresses that
  were free and are now allocated, they are linked backwards behind the chain of the
  earlier blocks, which are not touched, \<open>super.logchain\<close> names the last of them and
  \<open>super.logcount\<close> grows by their number.  The assertion on the magic never fails.\<close>

theorem logmap_io_chain:
  assumes "flush_inv sb" and "\<forall>i<n. hdr_magic (fl_map sb i)" and "\<forall>b k. ioerr b k = None"
  shows "\<exists>e sb'. tux3_logmap_io ioerr sb n = Some (e, sb') \<and> (e = None \<longrightarrow> (\<exists>N. written sb 0 n N sb'))"
  using flush_loop_written [OF assms(1), of 0 n ioerr] assms(2,3) unfolding tux3_logmap_io_def by auto

definition demo_flush :: "(nat \<Rightarrow> u8 list) \<Rightarrow> flush_sb" where
  "demo_flush m = \<lparr>fl_bal = small_vol 7 1 3, fl_pool = [replicate 8 0], fl_deunify = stash_init, fl_map = m,
     fl_disk = (\<lambda>_. []), logchain = 0, logcount = 0\<rparr>"

lemma demo_flush_inv: "flush_inv (demo_flush m)"
  by (simp add: flush_inv_def demo_flush_def balloc_inv_def small_vol_inv)

lemma logmap_io_chain_witness:
  "\<exists>e sb'. tux3_logmap_io (\<lambda>_ _. None) (demo_flush (\<lambda>_. demo_block [Unify_rec])) 2 = Some (e, sb') \<and>
     (e = None \<longrightarrow> logcount sb' = 2)"
proof -
  have "hdr_magic (demo_block [Unify_rec])"
    using demo_block_ok [of "[Unify_rec]"] by (simp add: block_of_def)
  then have "\<forall>i<2. hdr_magic (fl_map (demo_flush (\<lambda>_. demo_block [Unify_rec])) i)"
    by (simp add: demo_flush_def)
  from logmap_io_chain [OF demo_flush_inv this, of "\<lambda>_ _. None"]
  show ?thesis by (auto simp: written_def demo_flush_def)
qed



end
