(* ===== verification/Ileaf.thy ===== *)
theory Ileaf
  imports Endian
begin

text \<open>
  Leaves of the inode btrees, \<open>src/kernel/ileaf.c\<close>: the attributes of consecutive inode
  numbers from \<open>ibase\<close> on, stored one after the other in \<open>table\<close>, and the dictionary of
  their end offsets.  In the block the dictionary grows down from the end and the table up
  from the header; here they are two fields, the entry at \<open>dict - i\<close> is element \<open>i - 1\<close> of
  the list, \<open>count\<close> is its length, and \<open>rep\<close> says that table and dictionary fit in the
  block without overlap.  Dictionary entries are 16 bits wide.  Both leaf types of the
  program, inodes and orphans, use these operations with their own attribute functions,
  which are a record of functions here as in the code.  \<open>None\<close> is a failed assertion.
\<close>

section \<open>Leaves\<close>

record ileaf =
  il_magic :: u16
  il_base :: nat
  il_dict :: "nat list"
  il_table :: "u8 list"

text \<open>\<open>sizeof(struct ileaf)\<close>\<close>

definition ileaf_hdr :: nat where "ileaf_hdr = 16"

definition icount :: "ileaf \<Rightarrow> nat" where
  "icount leaf = length (il_dict leaf)"

definition atdict :: "nat list \<Rightarrow> nat \<Rightarrow> nat" where
  "atdict dict at = (if at \<noteq> 0 then dict ! (at - 1) else 0)"

text \<open>\<open>be16_add_cpu\<close>\<close>

definition add_be16 :: "nat \<Rightarrow> int \<Rightarrow> nat" where
  "add_be16 d n = nat ((int d + n) mod 2 ^ 16)"

text \<open>A 64-bit value assigned to an \<open>int\<close>.\<close>

definition to_int :: "int \<Rightarrow> int" where
  "to_int x = (x + 2 ^ 31) mod 2 ^ 32 - 2 ^ 31"

record 'd attr_ops =
  op_magic :: u16
  encoded_size :: "'d \<Rightarrow> nat"
  encode :: "'d \<Rightarrow> u8 list"
  decode :: "'d \<Rightarrow> u8 list \<Rightarrow> err \<times> 'd"

definition entries_per_leaf :: "nat \<Rightarrow> nat" where
  "entries_per_leaf blockbits = 2 ^ (blockbits - 6)"

definition ileaf_init :: "'d attr_ops \<Rightarrow> nat \<Rightarrow> u8 list \<Rightarrow> ileaf" where
  "ileaf_init ops bs garbage = \<lparr>il_magic = op_magic ops, il_base = 0, il_dict = [], il_table = garbage\<rparr>"

definition ileaf_need :: "ileaf \<Rightarrow> nat" where
  "ileaf_need leaf = atdict (il_dict leaf) (icount leaf) + icount leaf * 2"

definition ileaf_free :: "nat \<Rightarrow> ileaf \<Rightarrow> int" where
  "ileaf_free bs leaf = int bs - int (ileaf_need leaf) - int ileaf_hdr"

definition ileaf_sniff :: "'d attr_ops \<Rightarrow> ileaf \<Rightarrow> bool" where
  "ileaf_sniff ops leaf = (il_magic leaf = op_magic ops)"

definition ileaf_can_free :: "ileaf \<Rightarrow> bool" where
  "ileaf_can_free leaf = (icount leaf = 0)"

text \<open>The size of the attributes and, when it is not 0, their offset in the table.\<close>

definition ileaf_lookup :: "nat \<Rightarrow> ileaf \<Rightarrow> (nat \<times> nat option) option" where
  "ileaf_lookup inum leaf =
     (if \<not> (il_base leaf \<le> inum) then None
      else let at = inum - il_base leaf in
        if at < icount leaf
        then let offset = atdict (il_dict leaf) at;
                 siz = sub64 (atdict (il_dict leaf) (at + 1)) offset
             in Some (siz, if siz \<noteq> 0 then Some offset else None)
        else Some (0, None))"

fun isinorder_from :: "nat \<Rightarrow> nat list \<Rightarrow> bool" where
  "isinorder_from offset [] \<longleftrightarrow> True"
| "isinorder_from offset (limit # ds) \<longleftrightarrow> (if limit < offset then False else isinorder_from limit ds)"

definition isinorder :: "ileaf \<Rightarrow> bool" where
  "isinorder leaf = isinorder_from 0 (il_dict leaf)"

definition ileaf_check :: "'d attr_ops \<Rightarrow> ileaf \<Rightarrow> bool" where
  "ileaf_check ops leaf \<longleftrightarrow> il_magic leaf = op_magic ops \<and> isinorder leaf"

text \<open>\<open>ileaf_trim\<close> drops entries from the end; the list is reversed for it.\<close>

fun trim_rev :: "nat list \<Rightarrow> nat list" where
  "trim_rev [] = []"
| "trim_rev [a] = (if a = 0 then [] else [a])"
| "trim_rev (a # b # ds) = (if a = b then trim_rev (b # ds) else a # b # ds)"

definition ileaf_trim :: "ileaf \<Rightarrow> ileaf" where
  "ileaf_trim leaf = leaf\<lparr>il_dict := rev (trim_rev (rev (il_dict leaf)))\<rparr>"

section \<open>Split, merge and chop\<close>

text \<open>\<open>epl\<close> is \<open>btree->entries_per_leaf\<close>, a power of two.\<close>

definition ileaf_split :: "'d attr_ops \<Rightarrow> nat \<Rightarrow> nat \<Rightarrow> ileaf \<Rightarrow> ileaf \<Rightarrow> (nat \<times> ileaf \<times> ileaf) option" where
  "ileaf_split ops epl hint leaf dest =
     (if \<not> ileaf_sniff ops leaf then None
      else let hint = (if hint = il_base leaf then hint + 1 else hint);
               at = min (sub64 hint (il_base leaf)) (icount leaf);
               split = atdict (il_dict leaf) at; free = atdict (il_dict leaf) (icount leaf)
           in if \<not> (split \<le> free) then None
              else let round = hint - hint mod epl;
                       dest = dest\<lparr>il_table := splice 0 (take (free - split) (drop split (il_table leaf))) (il_table dest),
                                   il_dict := map (\<lambda>d. add_be16 d (- int split)) (drop at (il_dict leaf)),
                                   il_base := (if il_base leaf + icount leaf < round then round else hint)\<rparr>;
                       leaf = leaf\<lparr>il_dict := take at (il_dict leaf),
                                   il_table := splice split (replicate (length (il_table leaf) - 2 * at - split) 0) (il_table leaf)\<rparr>
                   in Some (il_base dest, ileaf_trim leaf, dest))"

definition ileaf_merge :: "nat \<Rightarrow> ileaf \<Rightarrow> ileaf \<Rightarrow> (bool \<times> ileaf) option" where
  "ileaf_merge bs into frm =
     (let fromcount = icount frm in
      if fromcount = 0 then Some (True, into)
      else if \<not> (il_base into < il_base frm) then None
      else let count = icount into;
               hole = to_int (int (il_base frm) - int (il_base into) + int count);
               need_size = to_int (hole * 2 + int (ileaf_need frm))
           in if ileaf_free bs into < need_size then Some (False, into)
              else if hole < 0 then None
              else let limit = atdict (il_dict into) count;
                       dict = il_dict into @ replicate (nat hole) limit;
                       fromlimit = atdict (il_dict frm) fromcount;
                       table = splice limit (take fromlimit (il_table frm)) (il_table into);
                       dict = (if limit \<noteq> 0
                               then map (\<lambda>d. add_be16 d (int limit)) (take fromcount dict) @ drop fromcount dict
                               else dict)
                   in Some (True, into\<lparr>il_table := table, il_dict := dict @ il_dict frm\<rparr>))"

definition ileaf_chop :: "nat \<Rightarrow> nat \<Rightarrow> ileaf \<Rightarrow> bool \<times> ileaf" where
  "ileaf_chop start len leaf =
     (let dict = il_dict leaf; count = icount leaf; at = sub64 start (il_base leaf) in
      if count < at + 1 then (False, leaf)
      else let len = min len (count - at);
               startp = atdict dict at; endp = atdict dict (at + len)
           in if startp = endp then (False, leaf)
              else let tailp = atdict dict count;
                       table = vecmove startp endp (tailp - endp) (il_table leaf);
                       siz = endp - startp;
                       dict = take at dict @ map (\<lambda>d. add_be16 d (- int siz)) (drop at dict)
                   in (True, ileaf_trim (leaf\<lparr>il_table := table, il_dict := dict\<rparr>)))"

section \<open>Writing and reading\<close>

text \<open>The offset of the attributes, or \<open>None\<close> inside when there is no space.\<close>

definition ileaf_resize :: "nat \<Rightarrow> nat \<Rightarrow> ileaf \<Rightarrow> nat \<Rightarrow> (nat option \<times> ileaf) option" where
  "ileaf_resize bs inum leaf newsize =
     (if \<not> (il_base leaf \<le> inum) then None
      else let dict = il_dict leaf; count = icount leaf; at = inum - il_base leaf in
        if count < at + 1 \<and> bs \<le> (at + 1) * 2 then Some (None, leaf)
        else let extend_dict = (if count < at + 1 then (at + 1 - count) * 2 else 0);
                 offset = (if count < at + 1 then atdict dict count else atdict dict at);
                 siz = (if count < at + 1 then 0 else int (atdict dict (at + 1)) - int offset)
             in if ileaf_free bs leaf < int newsize - siz + int extend_dict then Some (None, leaf)
                else let dict = (if extend_dict \<noteq> 0 then dict @ replicate (at + 1 - count) (atdict dict count) else dict);
                         count = length dict
                     in if int newsize \<noteq> siz
                        then let limit = atdict dict count in
                          if \<not> (int offset + siz \<le> int limit) then None
                          else let siz = nat siz;
                                   table = vecmove (offset + newsize) (offset + siz) (limit - offset - siz) (il_table leaf);
                                   dict = take at dict @ map (\<lambda>d. add_be16 d (int newsize - int siz)) (drop at dict)
                               in Some (Some offset, leaf\<lparr>il_table := table, il_dict := dict\<rparr>)
                        else Some (Some offset, leaf\<lparr>il_dict := dict\<rparr>))"

definition ileaf_split_hint :: "nat \<Rightarrow> ileaf \<Rightarrow> nat \<Rightarrow> nat" where
  "ileaf_split_hint epl leaf key =
     (let base = il_base leaf; count = icount leaf
      in if base + count \<le> key then key - key mod epl else base + count div 2)"

datatype 'd write_result = Written ileaf nat nat   \<comment> \<open>the leaf and the rest of the key range\<close>
  | Need_split nat                                 \<comment> \<open>the hint\<close>

definition ileaf_write ::
  "'d attr_ops \<Rightarrow> nat \<Rightarrow> nat \<Rightarrow> ileaf \<Rightarrow> nat \<Rightarrow> nat \<Rightarrow> 'd \<Rightarrow> 'd write_result option" where
  "ileaf_write ops bs epl leaf key_start key_len data =
     (if \<not> (key_len = 1) then None
      else let siz = encoded_size ops data in
        if siz = 0 then None
        else case ileaf_resize bs key_start leaf siz of
               None \<Rightarrow> None
             | Some (None, leaf) \<Rightarrow> Some (Need_split (ileaf_split_hint epl leaf key_start))
             | Some (Some attrs, leaf) \<Rightarrow>
                 Some (Written (leaf\<lparr>il_table := splice attrs (encode ops data) (il_table leaf)\<rparr>)
                         (key_start + 1) (key_len - 1)))"

definition ileaf_read :: "'d attr_ops \<Rightarrow> ileaf \<Rightarrow> nat \<Rightarrow> 'd \<Rightarrow> (err \<times> 'd) option" where
  "ileaf_read ops leaf key_start data =
     (case ileaf_lookup key_start leaf of
        None \<Rightarrow> None
      | Some (siz, None) \<Rightarrow> Some (Some ENOENT, data)
      | Some (siz, Some attrs) \<Rightarrow> Some (decode ops data (take siz (drop attrs (il_table leaf)))))"

text \<open>The search of \<open>ileaf_find_free\<close> from entry \<open>at\<close> on, whose attributes start at \<open>offset\<close>.\<close>

function find_free_at :: "nat list \<Rightarrow> nat \<Rightarrow> nat \<Rightarrow> nat" where
  "find_free_at dict at offset =
     (if at < length dict
      then (let at = at + 1; limit = atdict dict at
            in if offset = limit then at - 1 else find_free_at dict at limit)
      else at)"
  by pat_completeness auto
termination
  by (relation "measure (\<lambda>(dict, at, offset). length dict - at)") auto

declare find_free_at.simps [simp del]

definition ileaf_find_free :: "nat \<Rightarrow> ileaf \<Rightarrow> nat \<Rightarrow> nat \<Rightarrow> nat option" where
  "ileaf_find_free key_limit leaf key len =
     (let at = sub64 key (il_base leaf); key_limit = min key_limit (key + len);
          at = (if at < icount leaf then find_free_at (il_dict leaf) at (atdict (il_dict leaf) at) else at)
      in if il_base leaf + at < key_limit then Some (il_base leaf + at) else None)"

text \<open>
  \<open>ileaf_enumerate\<close> hands every inode with attributes to the callback, until that fails.
  \<open>s\<close> is the data of the callback.
\<close>

function enumerate_at ::
  "(nat \<Rightarrow> u8 list \<Rightarrow> 's \<Rightarrow> err \<times> 's) \<Rightarrow> ileaf \<Rightarrow> nat \<Rightarrow> nat \<Rightarrow> nat \<Rightarrow> 's \<Rightarrow> err \<times> 's" where
  "enumerate_at cb leaf at count offset s =
     (if at < count
      then (let limit = atdict (il_dict leaf) (at + 1)
            in if limit \<le> offset then enumerate_at cb leaf (at + 1) count offset s
               else case cb (il_base leaf + at) (take (limit - offset) (drop offset (il_table leaf))) s of
                      (Some e, s) \<Rightarrow> (Some e, s)
                    | (None, s) \<Rightarrow> enumerate_at cb leaf (at + 1) count limit s)
      else (None, s))"
  by pat_completeness auto
termination
  by (relation "measure (\<lambda>(cb, leaf, at, count, offset, s). count - at)") auto

declare enumerate_at.simps [simp del]

definition ileaf_enumerate ::
  "(nat \<Rightarrow> u8 list \<Rightarrow> 's \<Rightarrow> err \<times> 's) \<Rightarrow> ileaf \<Rightarrow> nat \<Rightarrow> nat \<Rightarrow> 's \<Rightarrow> err \<times> 's" where
  "ileaf_enumerate cb leaf key len s =
     (let base = il_base leaf; at = sub64 key base; count = min (sub64 (key + len) base) (icount leaf)
      in if at < count then enumerate_at cb leaf at count (atdict (il_dict leaf) at) s
         else (None, s))"

section \<open>Leaves as lists of attributes\<close>

text \<open>The end offsets of attributes \<open>segs\<close> stored from \<open>n\<close> on.\<close>

fun psums :: "nat \<Rightarrow> u8 list list \<Rightarrow> nat list" where
  "psums n [] = []"
| "psums n (s # segs) = (n + length s) # psums (n + length s) segs"

definition total_len :: "u8 list list \<Rightarrow> nat" where
  "total_len segs = length (concat segs)"

lemma total_len_simps [simp]: "total_len [] = 0" "total_len (s # segs) = length s + total_len segs"
    "total_len (xs @ ys) = total_len xs + total_len ys"
  by (simp_all add: total_len_def)

lemma total_len_empty [simp]: "total_len (replicate n []) = 0"
  by (simp add: total_len_def concat_replicate_trivial)

lemma length_psums [simp]: "length (psums n segs) = length segs"
  by (induction segs arbitrary: n) simp_all

lemma psums_append: "psums n (xs @ ys) = psums n xs @ psums (n + total_len xs) ys"
  by (induction xs arbitrary: n) (simp_all add: add.assoc)

lemma psums_take: "take i (psums n segs) = psums n (take i segs)"
  by (induction segs arbitrary: n i) (auto simp: take_Cons' split: if_splits)

lemma psums_drop: "drop i (psums n segs) = psums (n + total_len (take i segs)) (drop i segs)"
  by (induction segs arbitrary: n i) (auto simp: drop_Cons' take_Cons' add.assoc)

lemma psums_empty: "psums n (replicate k []) = replicate k n"
  by (induction k) simp_all

lemma total_len_take: "i \<le> j \<Longrightarrow> total_len (take i segs) \<le> total_len (take j segs)"
proof -
  assume "i \<le> j"
  then have "take j segs = take i segs @ drop i (take j segs)" by (metis append_take_drop_id min.absorb1 take_take)
  then show ?thesis by (metis le_add1 total_len_simps(3))
qed

lemma total_len_take_le: "total_len (take i segs) \<le> total_len segs"
  by (metis append_take_drop_id le_add1 total_len_simps(3))

lemma atdict_psums: "i \<le> length segs \<Longrightarrow> atdict (psums 0 segs) i = total_len (take i segs)"
proof (induction segs arbitrary: i rule: rev_induct)
  case (snoc s segs)
  show ?case
  proof (cases "i \<le> length segs")
    case True
    then have "i \<noteq> 0 \<Longrightarrow> i - 1 < length (psums 0 segs)" by (cases i) auto
    then have "i \<noteq> 0 \<Longrightarrow> (psums 0 segs @ [total_len segs + length s]) ! (i - 1) = psums 0 segs ! (i - 1)"
      unfolding nth_append by simp
    with snoc.IH [OF True] True show ?thesis by (auto simp: atdict_def psums_append)
  next
    case False
    then have "i = Suc (length segs)" using snoc.prems by simp
    then show ?thesis by (simp add: atdict_def psums_append nth_append)
  qed
qed (simp add: atdict_def)

text \<open>\<open>add_idict\<close> over entries that belong to later attributes.\<close>

lemma add_psums:
  assumes "int n' = int n + k" and "n' + total_len segs < 2 ^ 16"
  shows "map (\<lambda>d. add_be16 d k) (psums n segs) = psums n' segs"
  using assms
proof (induction segs arbitrary: n n')
  case (Cons s segs)
  have "map (\<lambda>d. add_be16 d k) (psums (n + length s) segs) = psums (n' + length s) segs"
    using Cons.prems by (intro Cons.IH) simp_all
  moreover have "int n + int (length s) + k = int (n' + length s)" using Cons.prems by simp
  ultimately show ?case using Cons.prems by (simp add: add_be16_def)
qed simp

definition rep :: "nat \<Rightarrow> ileaf \<Rightarrow> u8 list list \<Rightarrow> bool" where
  "rep bs leaf segs \<longleftrightarrow> il_dict leaf = psums 0 segs \<and> take (total_len segs) (il_table leaf) = concat segs \<and>
     length (il_table leaf) = bs - ileaf_hdr \<and> ileaf_hdr + total_len segs + 2 * length segs \<le> bs \<and> bs \<le> 2 ^ 16"

lemma rep_count: "rep bs leaf segs \<Longrightarrow> icount leaf = length segs"
  by (simp add: rep_def icount_def)

lemma rep_bound: "rep bs leaf segs \<Longrightarrow> total_len segs < 2 ^ 16"
  by (simp add: rep_def ileaf_hdr_def)

lemma rep_at: "rep bs leaf segs \<Longrightarrow> i \<le> length segs \<Longrightarrow> atdict (il_dict leaf) i = total_len (take i segs)"
  by (simp add: rep_def atdict_psums)

lemma rep_free: "rep bs leaf segs \<Longrightarrow> ileaf_free bs leaf = int bs - int (total_len segs) - 2 * int (length segs) - int ileaf_hdr"
  by (simp add: ileaf_free_def ileaf_need_def rep_count rep_at)

lemma rep_need: "rep bs leaf segs \<Longrightarrow> ileaf_need leaf = total_len segs + 2 * length segs"
  by (simp add: ileaf_need_def rep_count rep_at)

text \<open>The bytes of an attribute in the table.\<close>

lemma concat_seg:
  assumes "i < length segs"
  shows "concat segs = concat (take i segs) @ segs ! i @ concat (drop (Suc i) segs)"
  using assms by (metis append_Cons concat.simps(2) concat_append id_take_nth_drop)

lemma take_drop_concat:
  assumes "take (total_len segs) table = concat segs" and "i < length segs"
  shows "take (length (segs ! i)) (drop (total_len (take i segs)) table) = segs ! i"
proof -
  let ?a = "total_len (take i segs)" and ?n = "length (segs ! i)"
  have le: "?a + ?n \<le> total_len segs"
    using concat_seg [OF assms(2)] by (simp add: total_len_def)
  have "take ?n (drop ?a table) = take ?n (drop ?a (take (total_len segs) table))"
    using le by (simp add: take_drop min_def)
  also have "\<dots> = segs ! i"
    using concat_seg [OF assms(2)] unfolding assms(1) by (simp add: total_len_def)
  finally show ?thesis .
qed

lemma total_len_Suc: "i < length segs \<Longrightarrow> total_len (take (Suc i) segs) = total_len (take i segs) + length (segs ! i)"
  by (simp add: take_Suc_conv_app_nth)

text \<open>The attributes of an inode number.\<close>

definition seg_at :: "nat \<Rightarrow> u8 list list \<Rightarrow> nat \<Rightarrow> u8 list" where
  "seg_at base segs inum = (if base \<le> inum \<and> inum - base < length segs then segs ! (inum - base) else [])"

lemma lookup_rep:
  assumes "rep bs leaf segs" and "il_base leaf \<le> inum"
  shows "\<exists>siz off. ileaf_lookup inum leaf = Some (siz, off) \<and> siz = length (seg_at (il_base leaf) segs inum) \<and>
    (off = None \<longleftrightarrow> siz = 0) \<and>
    (\<forall>a. off = Some a \<longrightarrow> take siz (drop a (il_table leaf)) = seg_at (il_base leaf) segs inum)"
proof (cases "inum - il_base leaf < length segs")
  case True
  let ?i = "inum - il_base leaf"
  have a: "atdict (il_dict leaf) ?i = total_len (take ?i segs)"
    "atdict (il_dict leaf) (?i + 1) = total_len (take ?i segs) + length (segs ! ?i)"
    using rep_at [OF assms(1)] True total_len_Suc [OF True] by simp_all
  have "total_len (take ?i segs) + length (segs ! ?i) \<le> total_len segs"
    using total_len_Suc [OF True] total_len_take_le [of "Suc ?i" segs] by simp
  then have "sub64 (total_len (take ?i segs) + length (segs ! ?i)) (total_len (take ?i segs)) = length (segs ! ?i)"
    using rep_bound [OF assms(1)] by simp
  moreover have "take (total_len segs) (il_table leaf) = concat segs" using assms(1) by (simp add: rep_def)
  ultimately show ?thesis
    using assms True a take_drop_concat [OF _ True, of "il_table leaf"] by (simp add: ileaf_lookup_def Let_def rep_count seg_at_def)
next
  case False
  with assms show ?thesis by (simp add: ileaf_lookup_def Let_def rep_count seg_at_def)
qed

text \<open>Dropping empty attributes at the end.\<close>

definition trimmed :: "u8 list list \<Rightarrow> u8 list list" where
  "trimmed segs = rev (dropWhile (\<lambda>s. s = []) (rev segs))"

lemma trim_psums: "rev (trim_rev (rev (psums 0 segs))) = psums 0 (trimmed segs)"
proof (induction segs rule: rev_induct)
  case (snoc s segs)
  show ?case
  proof (cases segs rule: rev_cases)
    case (snoc ts t)
    have r: "rev (psums 0 segs) = total_len segs # rev (psums 0 ts)" by (simp add: snoc psums_append)
    with snoc.IH show ?thesis by (auto simp: psums_append trimmed_def)
  qed (simp add: trimmed_def)
qed (simp add: trimmed_def)

lemma trimmed_split: "\<exists>k. segs = trimmed segs @ replicate k []"
proof -
  have "rev segs = takeWhile (\<lambda>s. s = []) (rev segs) @ dropWhile (\<lambda>s. s = []) (rev segs)" by simp
  then have "segs = trimmed segs @ rev (takeWhile (\<lambda>s. s = []) (rev segs))"
    unfolding trimmed_def by (metis rev_append rev_rev_ident)
  moreover have "rev (takeWhile (\<lambda>s. s = []) (rev segs)) = replicate (length (takeWhile (\<lambda>s. s = []) (rev segs))) []"
    by (metis (mono_tags, lifting) replicate_length_same rev_replicate set_takeWhileD)
  ultimately show ?thesis by metis
qed

lemma trim_rep:
  assumes "rep bs leaf segs"
  shows "rep bs (ileaf_trim leaf) (trimmed segs) \<and> il_base (ileaf_trim leaf) = il_base leaf \<and>
    seg_at base (trimmed segs) inum = seg_at base segs inum"
proof -
  obtain k where k: "segs = trimmed segs @ replicate k []" using trimmed_split by blast
  have t: "total_len (trimmed segs) = total_len segs" "concat (trimmed segs) = concat segs"
    "length (trimmed segs) \<le> length segs"
    using arg_cong [OF k, of total_len] arg_cong [OF k, of concat] arg_cong [OF k, of length]
    by (simp_all add: concat_replicate_trivial)
  have "seg_at base (trimmed segs) inum = seg_at base segs inum"
    by (subst (2) k) (auto simp: seg_at_def nth_append)
  then show ?thesis
    using assms t by (simp add: rep_def ileaf_trim_def trim_psums)
qed

section \<open>Replacing attributes\<close>

lemma vecmove_same: "a + n \<le> length xs \<Longrightarrow> vecmove a a n xs = xs"
  by (simp add: vecmove_def splice_def) (metis append.assoc append_take_drop_id take_add)

text \<open>A part \<open>ys\<close> of the bytes in use is replaced by \<open>bs\<close>, the bytes behind are moved.\<close>

lemma splice_replace:
  assumes "take (length xs + length ys + length zs) table = xs @ ys @ zs"
    and "length xs + length bs + length zs \<le> length table" and "length xs + length ys + length zs \<le> length table"
  shows "take (length xs + length bs + length zs)
      (splice (length xs) bs (vecmove (length xs + length bs) (length xs + length ys) (length zs) table)) = xs @ bs @ zs"
proof -
  let ?a = "length xs" and ?b = "length ys" and ?c = "length zs"
  have "take ?c (drop (?a + ?b) table) = drop (?a + ?b) (take (?a + ?b + ?c) table)" by (simp add: drop_take)
  then have z: "take ?c (drop (?a + ?b) table) = zs" unfolding assms(1) by simp
  have "take ?a table = take ?a (take (?a + ?b + ?c) table)" by (simp add: min_def)
  then have x: "take ?a table = xs" unfolding assms(1) by simp
  show ?thesis
    using assms(2) x by (simp add: vecmove_def z splice_def take_add)
qed

text \<open>The attributes after inode \<open>at\<close> got \<open>s\<close>, the list extended when it ends before.\<close>

definition padded :: "nat \<Rightarrow> u8 list list \<Rightarrow> u8 list list" where
  "padded at segs = segs @ replicate (Suc at - length segs) []"

definition put_seg :: "nat \<Rightarrow> u8 list \<Rightarrow> u8 list list \<Rightarrow> u8 list list" where
  "put_seg at s segs = (padded at segs)[at := s]"

lemma padded_facts: "at < length (padded at segs)" "total_len (padded at segs) = total_len segs"
    "concat (padded at segs) = concat segs" "length (padded at segs) = max (length segs) (Suc at)"
  by (auto simp: padded_def concat_replicate_trivial)

lemma length_put_seg: "length (put_seg at s segs) = max (length segs) (Suc at)"
  by (simp add: put_seg_def padded_facts)

lemma seg_at_put: "base \<le> inum \<Longrightarrow> base \<le> i \<Longrightarrow>
    seg_at base (put_seg (inum - base) s segs) i = (if i = inum then s else seg_at base segs i)"
  by (auto simp: seg_at_def put_seg_def padded_def nth_list_update nth_append)

lemma total_len_put: "total_len (put_seg at s segs) + length (padded at segs ! at) = total_len segs + length s"
proof -
  let ?p = "padded at segs"
  have "?p = take at ?p @ ?p ! at # drop (Suc at) ?p" by (simp add: padded_facts id_take_nth_drop)
  then have "total_len ?p = total_len (take at ?p) + length (?p ! at) + total_len (drop (Suc at) ?p)"
    by (metis add.assoc total_len_simps(2,3))
  moreover have "put_seg at s segs = take at ?p @ s # drop (Suc at) ?p"
    by (simp add: put_seg_def padded_facts upd_conv_take_nth_drop)
  ultimately show ?thesis by (simp add: padded_facts)
qed

definition fits :: "nat \<Rightarrow> u8 list list \<Rightarrow> bool" where
  "fits bs segs \<longleftrightarrow> ileaf_hdr + total_len segs + 2 * length segs \<le> bs"

text \<open>What \<open>ileaf_resize\<close> does for attributes of \<open>newsize\<close> bytes that are then stored.\<close>

lemma resize_put:
  assumes r: "rep bs leaf segs" and base: "il_base leaf \<le> inum" and s: "length s = newsize"
  defines "at \<equiv> inum - il_base leaf"
  defines "segs' \<equiv> put_seg at s segs"
  shows "if fits bs segs'
    then \<exists>off leaf'. ileaf_resize bs inum leaf newsize = Some (Some off, leaf') \<and>
      rep bs (leaf'\<lparr>il_table := splice off s (il_table leaf')\<rparr>) segs' \<and>
      il_base leaf' = il_base leaf \<and> il_magic leaf' = il_magic leaf
    else ileaf_resize bs inum leaf newsize = Some (None, leaf)"
proof -
  let ?p = "padded at segs" and ?count = "length segs"
  define off where "off = total_len (take at ?p)"
  define old where "old = ?p ! at"
  define post where "post = drop (Suc at) ?p"
  have p: "?p = take at ?p @ old # post" by (simp add: padded_facts id_take_nth_drop old_def post_def)
  have segs': "segs' = take at ?p @ s # post"
    by (simp add: segs'_def put_seg_def padded_facts upd_conv_take_nth_drop post_def)
  have tot: "total_len segs = off + length old + total_len post"
    using arg_cong [OF p, of total_len] by (simp add: padded_facts off_def)
  have tot': "total_len segs' = off + newsize + total_len post" using s by (simp add: segs' off_def)
  have len': "length segs' = max ?count (Suc at)" by (simp add: segs'_def length_put_seg)
  have offset: "off = (if ?count < at + 1 then atdict (il_dict leaf) ?count else atdict (il_dict leaf) at)"
    by (auto simp: off_def padded_def rep_at [OF r] take_Cons' min_def)
  have siz: "int (length old) =
      (if ?count < at + 1 then 0 else int (atdict (il_dict leaf) (at + 1)) - int off)"
    using total_len_Suc [of at segs] by (auto simp: offset old_def padded_def nth_append rep_at [OF r])
  have room: "int bs - int (ileaf_need leaf) - int ileaf_hdr < int newsize - int (length old) +
      int (if ?count < at + 1 then (at + 1 - ?count) * 2 else 0) \<longleftrightarrow> \<not> fits bs segs'"
    using r tot by (auto simp: rep_need [OF r] fits_def tot' len' rep_def)
  let ?dict = "if ?count < at + 1 then il_dict leaf @ replicate (at + 1 - ?count) (atdict (il_dict leaf) ?count) else il_dict leaf"
  have dict: "?dict = psums 0 ?p"
  proof (cases "?count < at + 1")
    case True
    have "il_dict leaf = psums 0 segs" using r by (simp add: rep_def)
    with True rep_at [OF r, of ?count] show ?thesis by (simp add: padded_def psums_append psums_empty)
  qed (use r in \<open>simp add: padded_def rep_def\<close>)
  have tight: "?count < at + 1 \<and> bs \<le> (at + 1) * 2 \<Longrightarrow> \<not> fits bs segs'"
    by (simp add: fits_def len' ileaf_hdr_def)
  have unf: "ileaf_resize bs inum leaf newsize =
    (if ?count < at + 1 \<and> bs \<le> (at + 1) * 2 then Some (None, leaf)
     else if \<not> fits bs segs' then Some (None, leaf)
     else if newsize \<noteq> length old
       then if \<not> (off + length old \<le> atdict (psums 0 ?p) (length (psums 0 ?p))) then None
         else Some (Some off, leaf\<lparr>il_table := vecmove (off + newsize) (off + length old)
                 (atdict (psums 0 ?p) (length (psums 0 ?p)) - off - length old) (il_table leaf),
               il_dict := take at (psums 0 ?p) @ map (\<lambda>d. add_be16 d (int newsize - int (length old))) (drop at (psums 0 ?p))\<rparr>)
     else Some (Some off, leaf\<lparr>il_dict := psums 0 ?p\<rparr>))"
  proof -
    have e: "(if (if ?count < at + 1 then (at + 1 - ?count) * 2 else 0) \<noteq> 0
        then il_dict leaf @ replicate (at + 1 - ?count) (atdict (il_dict leaf) ?count) else il_dict leaf) = psums 0 ?p"
      using dict by auto
    show ?thesis
      unfolding ileaf_resize_def Let_def rep_count [OF r] ileaf_free_def at_def [symmetric] offset [symmetric]
        siz [symmetric] room e nat_int of_nat_add [symmetric] of_nat_le_iff of_nat_eq_iff
      by (simp only: base not_True_eq_False if_False)
  qed
  show ?thesis
  proof (cases "fits bs segs'")
    case False
    then show ?thesis by (simp add: unf)
  next
    case True
    let ?t = "il_table leaf" and ?k = "int newsize - int (length old)"
    have limit: "atdict (psums 0 ?p) (length (psums 0 ?p)) = off + length old + total_len post"
      by (simp add: atdict_psums padded_facts tot)
    have small: "off + newsize + total_len post < 2 ^ 16" using True r by (simp add: fits_def tot' rep_def ileaf_hdr_def)
    have dp: "drop at ?p = old # post" unfolding old_def post_def by (rule Cons_nth_drop_Suc [symmetric]) (rule padded_facts)
    have d: "drop at (psums 0 ?p) = psums off (old # post)"
      unfolding psums_drop dp by (simp add: off_def)
    have m: "map (\<lambda>d. add_be16 d ?k) (psums off (old # post)) = psums off (s # post)"
      using small s add_psums [of "off + newsize" "off + length old" ?k "[] # post"] by simp
    have dict': "take at (psums 0 ?p) @ map (\<lambda>d. add_be16 d ?k) (drop at (psums 0 ?p)) = psums 0 segs'"
      unfolding d m by (simp add: segs' psums_append psums_take off_def)
    have same: "newsize = length old \<Longrightarrow> psums 0 ?p = psums 0 segs'"
      by (subst p) (simp add: segs' psums_append s)
    have table: "take (off + length old + total_len post) ?t = concat (take at ?p) @ old @ concat post"
      using r arg_cong [OF p, of concat] by (simp add: rep_def tot padded_facts)
    have room': "off + newsize + total_len post \<le> length ?t" "off + length old + total_len post \<le> length ?t"
      using True r tot by (auto simp: fits_def tot' rep_def)
    have l: "length (concat (take at ?p)) = off" "length (concat post) = total_len post"
      by (simp_all add: off_def total_len_def)
    have moved: "take (off + newsize + total_len post)
        (splice off s (vecmove (off + newsize) (off + length old) (total_len post) ?t)) =
        concat (take at ?p) @ s @ concat post"
      using splice_replace [of "concat (take at ?p)" old "concat post" ?t s] table room' s by (simp add: l)
    let ?v = "vecmove (off + newsize) (off + length old) (total_len post) ?t"
    have lv: "length ?v = length ?t" using room' by (simp add: vecmove_def)
    have c': "concat segs' = concat (take at ?p) @ s @ concat post" by (simp add: segs')
    have reps: "rep bs (leaf\<lparr>il_table := splice off s ?v, il_dict := psums 0 segs'\<rparr>) segs'"
      using r True moved lv room' s by (simp add: rep_def fits_def tot' c')
    show ?thesis
    proof (cases "newsize = length old")
      case True
      then have "?v = ?t" using vecmove_same room' by simp
      moreover have "ileaf_resize bs inum leaf newsize = Some (Some off, leaf\<lparr>il_dict := psums 0 segs'\<rparr>)"
        using True same \<open>fits bs segs'\<close> tight unfolding unf by auto
      ultimately show ?thesis using reps \<open>fits bs segs'\<close> by (simp add: rep_def)
    next
      case False
      then have "ileaf_resize bs inum leaf newsize = Some (Some off, leaf\<lparr>il_table := ?v, il_dict := psums 0 segs'\<rparr>)"
        using \<open>fits bs segs'\<close> tight unfolding unf limit dict' by (auto simp: add.commute)
      then show ?thesis using reps \<open>fits bs segs'\<close> by (simp add: rep_def)
    qed
  qed
qed

text \<open>Reading with one list of attributes.\<close>

lemma read_rep:
  assumes r: "rep bs leaf segs" and base: "il_base leaf \<le> inum"
  shows "ileaf_read ops leaf inum data =
    Some (let s = seg_at (il_base leaf) segs inum in if s = [] then (Some ENOENT, data) else decode ops data s)"
proof -
  obtain siz off where l: "ileaf_lookup inum leaf = Some (siz, off)"
      "siz = length (seg_at (il_base leaf) segs inum)" "off = None \<longleftrightarrow> siz = 0"
      "\<And>a. off = Some a \<Longrightarrow> take siz (drop a (il_table leaf)) = seg_at (il_base leaf) segs inum"
    using lookup_rep [OF r base] by blast
  then show ?thesis by (cases off) (simp_all add: ileaf_read_def Let_def)
qed

section \<open>The contract of the attribute functions\<close>

text \<open>What writing relies on: the announced size is the size of the encoding and not 0.\<close>

locale attr_encoder =
  fixes ops :: "'d attr_ops" and valid :: "'d \<Rightarrow> bool"
  assumes encoded_length: "valid d \<Longrightarrow> length (encode ops d) = encoded_size ops d"
    and encoded_not_empty: "valid d \<Longrightarrow> encoded_size ops d \<noteq> 0"
begin

lemma write_put:
  assumes r: "rep bs leaf segs" and base: "il_base leaf \<le> inum" and d: "valid data"
  defines "segs' \<equiv> put_seg (inum - il_base leaf) (encode ops data) segs"
  shows "if fits bs segs'
    then \<exists>leaf'. ileaf_write ops bs epl leaf inum 1 data = Some (Written leaf' (inum + 1) 0) \<and>
      rep bs leaf' segs' \<and> il_base leaf' = il_base leaf \<and> il_magic leaf' = il_magic leaf
    else ileaf_write ops bs epl leaf inum 1 data = Some (Need_split (ileaf_split_hint epl leaf inum))"
proof -
  note R = resize_put [OF r base encoded_length [OF d], folded segs'_def]
  show ?thesis
  proof (cases "fits bs segs'")
    case True
    with R obtain off leaf' where
      "ileaf_resize bs inum leaf (encoded_size ops data) = Some (Some off, leaf')"
      "rep bs (leaf'\<lparr>il_table := splice off (encode ops data) (il_table leaf')\<rparr>) segs'"
      "il_base leaf' = il_base leaf" "il_magic leaf' = il_magic leaf" by auto
    with True show ?thesis by (simp add: ileaf_write_def encoded_not_empty [OF d])
  next
    case False
    with R show ?thesis by (simp add: ileaf_write_def encoded_not_empty [OF d])
  qed
qed

end

text \<open>
  Reading back needs the decoder to undo the encoder: into the inode \<open>d0\<close>, if it is \<open>fresh\<close>, it puts
  what it has \<open>seen\<close> of \<open>d\<close>.
\<close>

locale attr_codec = attr_encoder +
  fixes fresh :: "'d \<Rightarrow> bool" and seen :: "'d \<Rightarrow> 'd \<Rightarrow> 'd"
  assumes decode_encode: "valid d \<Longrightarrow> fresh d0 \<Longrightarrow> decode ops d0 (encode ops d) = (None, seen d d0)"
begin

lemma write_read:
  assumes r: "rep bs leaf segs" and base: "il_base leaf \<le> inum" and d: "valid data"
    and w: "ileaf_write ops bs epl leaf inum 1 data = Some (Written leaf' k l)"
  shows "rep bs leaf' (put_seg (inum - il_base leaf) (encode ops data) segs) \<and> k = inum + 1 \<and> l = 0 \<and>
    (fresh d0 \<longrightarrow> ileaf_read ops leaf' inum d0 = Some (None, seen data d0)) \<and>
    (\<forall>i. il_base leaf \<le> i \<and> i \<noteq> inum \<longrightarrow> ileaf_read ops leaf' i d0 = ileaf_read ops leaf i d0)"
proof -
  let ?segs = "put_seg (inum - il_base leaf) (encode ops data) segs"
  have "fits bs ?segs" using write_put [OF r base d, of epl] w by (auto split: if_splits)
  with write_put [OF r base d, of epl] w have l: "rep bs leaf' ?segs" "k = inum + 1" "l = 0" "il_base leaf' = il_base leaf"
    by simp_all
  have ne: "encode ops data \<noteq> []" using encoded_length [OF d] encoded_not_empty [OF d] by force
  show ?thesis
    using l base ne by (auto simp: read_rep [OF l(1)] read_rep [OF r] decode_encode [OF d] seg_at_put Let_def)
qed

end

section \<open>Split, chop and search as operations on lists of attributes\<close>

lemma split_rep:
  assumes r: "rep bs leaf segs" and m: "ileaf_sniff ops leaf"
    and hint: "il_base leaf \<le> hint" "hint < 2 ^ 64 - 1" and dest: "length (il_table dest) = bs - ileaf_hdr"
    and epl: "0 < epl"
  shows "\<exists>key l d lsegs dsegs. ileaf_split ops epl hint leaf dest = Some (key, l, d) \<and> rep bs l lsegs \<and> rep bs d dsegs \<and>
    il_base l = il_base leaf \<and> il_base d = key \<and> il_base leaf < key \<and> key \<le> max hint (il_base leaf + 1) \<and>
    il_magic l = il_magic leaf \<and> il_magic d = il_magic dest \<and>
    (\<forall>i. il_base leaf \<le> i \<longrightarrow> seg_at (il_base leaf) segs i =
        (if i < key then seg_at (il_base l) lsegs i else seg_at (il_base d) dsegs i))"
proof -
  define h where "h = (if hint = il_base leaf then hint + 1 else hint)"
  have h: "il_base leaf < h" "h < 2 ^ 64" using hint by (auto simp: h_def)
  define at where "at = min (h - il_base leaf) (length segs)"
  have at: "at \<le> length segs" by (simp add: at_def)
  let ?split = "total_len (take at segs)" and ?free = "total_len segs"
  define key where "key = (if il_base leaf + length segs < h - h mod epl then h - h mod epl else h)"
  have key: "il_base leaf < key" "key \<le> h" using h by (auto simp: key_def)
  let ?l0 = "leaf\<lparr>il_dict := take at (il_dict leaf),
      il_table := splice ?split (replicate (length (il_table leaf) - 2 * at - ?split) 0) (il_table leaf)\<rparr>"
  let ?d = "dest\<lparr>il_table := splice 0 (take (?free - ?split) (drop ?split (il_table leaf))) (il_table dest),
      il_dict := map (\<lambda>d. add_be16 d (- int ?split)) (drop at (il_dict leaf)), il_base := key\<rparr>"
  have le: "?split \<le> ?free" by (rule total_len_take_le)
  have run: "ileaf_split ops epl hint leaf dest = Some (key, ileaf_trim ?l0, ?d)"
    using h le at unfolding ileaf_split_def h_def [symmetric]
    by (simp add: m Let_def rep_count [OF r] rep_at [OF r] at_def [symmetric] key_def)
  have tt: "?free = ?split + total_len (drop at segs)" "concat segs = concat (take at segs) @ concat (drop at segs)"
    by (metis append_take_drop_id total_len_simps(3)) (metis append_take_drop_id concat_append)
  have ld: "length (il_table leaf) = bs - ileaf_hdr" and sz: "ileaf_hdr + ?free + 2 * length segs \<le> bs" "bs \<le> 2 ^ 16"
    and tab: "take ?free (il_table leaf) = concat segs" and dic: "il_dict leaf = psums 0 segs"
    using r by (simp_all add: rep_def)
  have "rep bs ?l0 (take at segs)"
  proof -
    have "take ?split (il_table leaf) = take ?split (take ?free (il_table leaf))" using le by (simp add: min_def)
    also have "\<dots> = concat (take at segs)" unfolding tab tt(2) by (simp add: total_len_def)
    finally have "take ?split (il_table leaf) = concat (take at segs)" .
    moreover have "?split + (length (il_table leaf) - 2 * at - ?split) \<le> length (il_table leaf)"
      using le at sz ld by simp
    ultimately show ?thesis
      using le at sz ld by (auto simp: rep_def dic psums_take take_splice min_def)
  qed
  note L = trim_rep [OF this]
  have D: "rep bs ?d (drop at segs)"
  proof -
    have "take (?free - ?split) (drop ?split (il_table leaf)) = drop ?split (take ?free (il_table leaf))" by (simp add: drop_take)
    also have "\<dots> = concat (drop at segs)" unfolding tab tt(2) by (simp add: total_len_def)
    finally have t: "take (?free - ?split) (drop ?split (il_table leaf)) = concat (drop at segs)" .
    have "map (\<lambda>d. add_be16 d (- int ?split)) (psums ?split (drop at segs)) = psums 0 (drop at segs)"
      using sz tt by (intro add_psums) (simp_all add: ileaf_hdr_def)
    then have d: "map (\<lambda>d. add_be16 d (- int ?split)) (drop at (il_dict leaf)) = psums 0 (drop at segs)"
      by (simp add: dic psums_drop)
    show ?thesis
      unfolding rep_def t d using sz dest tt at by (auto simp: splice_def total_len_def)
  qed
  have "\<forall>i. il_base leaf \<le> i \<longrightarrow> seg_at (il_base leaf) segs i =
      (if i < key then seg_at (il_base leaf) (take at segs) i else seg_at key (drop at segs) i)"
  proof (cases "h - il_base leaf \<le> length segs")
    case True
    then have "key = h" "at = h - il_base leaf" using h by (auto simp: key_def at_def)
    with h True show ?thesis by (auto simp: seg_at_def intro!: arg_cong [where f = "(!) segs"])
  next
    case False
    then have "length segs \<le> key - il_base leaf" "at = length segs" by (auto simp: key_def at_def)
    then show ?thesis by (auto simp: seg_at_def)
  qed
  then show ?thesis
    using run L D key h
    by (intro exI [of _ key] exI [of _ "ileaf_trim ?l0"] exI [of _ ?d] exI [of _ "trimmed (take at segs)"]
        exI [of _ "drop at segs"]) (auto simp: ileaf_trim_def h_def split: if_splits)
qed

text \<open>The attributes of inodes from \<open>at\<close> on, \<open>n\<close> of them, removed.\<close>

definition chop_segs :: "nat \<Rightarrow> nat \<Rightarrow> u8 list list \<Rightarrow> u8 list list" where
  "chop_segs at n segs = take at segs @ replicate n [] @ drop (at + n) segs"

lemma seg_at_chop: "at + n \<le> length segs \<Longrightarrow> base \<le> i \<Longrightarrow>
    seg_at base (chop_segs at n segs) i = (if base + at \<le> i \<and> i < base + at + n then [] else seg_at base segs i)"
  by (auto simp: seg_at_def chop_segs_def nth_append min_def)

lemma psums_zero: "total_len segs = 0 \<Longrightarrow> psums n segs = replicate (length segs) n"
  by (induction segs) simp_all

lemma chop_rep:
  assumes r: "rep bs leaf segs" and start: "il_base leaf \<le> start" "start < 2 ^ 64" and one: "len \<le> 1"
  shows "\<exists>b leaf' segs'. ileaf_chop start len leaf = (b, leaf') \<and> rep bs leaf' segs' \<and>
    il_base leaf' = il_base leaf \<and> il_magic leaf' = il_magic leaf \<and>
    (\<forall>i. il_base leaf \<le> i \<longrightarrow> seg_at (il_base leaf) segs' i =
        (if start \<le> i \<and> i < start + len then [] else seg_at (il_base leaf) segs i)) \<and>
    (\<not> b \<longrightarrow> leaf' = leaf)"
proof (cases "length segs < start - il_base leaf + 1")
  case True
  then have "ileaf_chop start len leaf = (False, leaf)" using start by (simp add: ileaf_chop_def Let_def rep_count [OF r])
  with True r show ?thesis by (intro exI [of _ False] exI [of _ leaf] exI [of _ segs]) (auto simp: seg_at_def)
next
  case False
  define at where "at = start - il_base leaf"
  define n where "n = min len (length segs - at)"
  have at: "at < length segs" "at + n \<le> length segs" "sub64 start (il_base leaf) = at"
    using False start by (auto simp: at_def n_def)
  have all: "il_base leaf \<le> i \<Longrightarrow> (start \<le> i \<and> i < start + len \<and> i - il_base leaf < length segs) =
      (il_base leaf + at \<le> i \<and> i < il_base leaf + at + n)" for i
    using start by (auto simp: at_def n_def)
  have out: "\<not> i - il_base leaf < length segs \<Longrightarrow> seg_at (il_base leaf) segs i = []" for i by (simp add: seg_at_def)
  let ?a = "total_len (take at segs)" and ?mid = "take n (drop at segs)" and ?post = "drop (at + n) segs"
  let ?b = "total_len (take (at + n) segs)"
  have b: "?b = ?a + total_len ?mid" by (simp add: take_add)
  have parts: "segs = take at segs @ ?mid @ ?post"
    by (metis append_take_drop_id drop_drop add.commute)
  have tot: "total_len segs = ?a + total_len ?mid + total_len ?post"
    using arg_cong [OF parts, of total_len] by simp
  have lk: "atdict (il_dict leaf) at = ?a" "atdict (il_dict leaf) (at + n) = ?b"
    "atdict (il_dict leaf) (length segs) = total_len segs"
    using rep_at [OF r] at by simp_all
  have dic: "il_dict leaf = psums 0 segs" and tab: "take (total_len segs) (il_table leaf) = concat segs"
    and sz: "length (il_table leaf) = bs - ileaf_hdr" "ileaf_hdr + total_len segs + 2 * length segs \<le> bs" "bs \<le> 2 ^ 16"
    using r by (simp_all add: rep_def)
  show ?thesis
  proof (cases "?a = ?b")
    case True
    then have "ileaf_chop start len leaf = (False, leaf)"
      using at lk by (simp add: ileaf_chop_def Let_def rep_count [OF r] n_def [symmetric])
    moreover have "total_len ?mid = 0" using True b by simp
    then have "\<forall>s \<in> set ?mid. s = []" by (simp add: total_len_def)
    then have "seg_at (il_base leaf) segs i = []" if "il_base leaf + at \<le> i" "i < il_base leaf + at + n" for i
    proof -
      have "?mid ! (i - il_base leaf - at) \<in> set ?mid" using that at by (intro nth_mem) auto
      with \<open>\<forall>s \<in> set ?mid. s = []\<close> have "?mid ! (i - il_base leaf - at) = []" by blast
      then show ?thesis using that at by (auto simp: seg_at_def)
    qed
    ultimately show ?thesis using r all out
      by (intro exI [of _ False] exI [of _ leaf] exI [of _ segs]) (simp, metis)
  next
    case False
    let ?leaf = "leaf\<lparr>il_table := vecmove ?a ?b (total_len segs - ?b) (il_table leaf),
        il_dict := take at (il_dict leaf) @ map (\<lambda>d. add_be16 d (- int (?b - ?a))) (drop at (il_dict leaf))\<rparr>"
    have run: "ileaf_chop start len leaf = (True, ileaf_trim ?leaf)"
      using at lk False by (simp add: ileaf_chop_def Let_def rep_count [OF r] n_def [symmetric])
    have "n \<noteq> 0" using False by (metis add.right_neutral)
    then have n1: "n = 1" using one unfolding n_def by linarith
    have len: "?b - ?a = total_len ?mid" "total_len segs - ?b = total_len ?post" using b tot by simp_all
    have ds: "drop at segs = ?mid @ ?post" by (metis append_take_drop_id drop_drop add.commute)
    have "psums ?a (drop at segs) = psums ?a ?mid @ psums ?b ?post" by (subst ds) (simp only: psums_append b)
    then have "map (\<lambda>d. add_be16 d (- int (?b - ?a))) (drop at (il_dict leaf)) =
        map (\<lambda>d. add_be16 d (- int (total_len ?mid))) (psums ?a ?mid) @
        map (\<lambda>d. add_be16 d (- int (total_len ?mid))) (psums ?b ?post)"
      by (simp add: dic psums_drop len)
    also have "map (\<lambda>d. add_be16 d (- int (total_len ?mid))) (psums ?b ?post) = psums ?a ?post"
      using sz tot b by (intro add_psums) (simp_all add: ileaf_hdr_def)
    also have "map (\<lambda>d. add_be16 d (- int (total_len ?mid))) (psums ?a ?mid) = psums ?a (replicate n [])"
    proof -
      have "?mid = [segs ! at]" using at by (simp add: n1 take_Suc hd_drop_conv_nth)
      then show ?thesis using sz tot by (simp add: n1 add_be16_def ileaf_hdr_def)
    qed
    finally have dict: "take at (il_dict leaf) @ map (\<lambda>d. add_be16 d (- int (?b - ?a))) (drop at (il_dict leaf)) =
        psums 0 (chop_segs at n segs)"
      by (simp add: dic psums_take chop_segs_def psums_append)
    have t: "take (?a + total_len ?mid + total_len ?post) (il_table leaf) =
        concat (take at segs) @ concat ?mid @ concat ?post"
      using tab parts tot by (metis concat_append)
    have moved: "take (?a + total_len ?post) (vecmove ?a ?b (total_len ?post) (il_table leaf)) =
        concat (take at segs) @ concat ?post"
      using splice_replace [of "concat (take at segs)" "concat ?mid" "concat ?post" "il_table leaf" "[]"] t sz tot b
      by (simp add: total_len_def splice_def)
    have "rep bs ?leaf (chop_segs at n segs)"
    proof -
      have c: "concat (chop_segs at n segs) = concat (take at segs) @ concat ?post"
        "total_len (chop_segs at n segs) = ?a + total_len ?post" "length (chop_segs at n segs) = length segs"
        using at by (auto simp: chop_segs_def concat_replicate_trivial)
      have "length (vecmove ?a ?b (total_len ?post) (il_table leaf)) = length (il_table leaf)"
        unfolding vecmove_def using sz tot by (intro length_splice) simp
      then show ?thesis
        unfolding rep_def len c using sz moved tot dict [unfolded len] by simp
    qed
    note L = trim_rep [OF this]
    have "seg_at (il_base leaf) (trimmed (chop_segs at n segs)) i =
        (if start \<le> i \<and> i < start + len then [] else seg_at (il_base leaf) segs i)" if "il_base leaf \<le> i" for i
      using L [THEN conjunct2, THEN conjunct2] seg_at_chop [OF at(2) that] all [OF that] out [of i] by metis
    then show ?thesis
      using run L [THEN conjunct1] L [THEN conjunct2, THEN conjunct1]
      by (intro exI [of _ True] exI [of _ "ileaf_trim ?leaf"] exI [of _ "trimmed (chop_segs at n segs)"])
        (simp add: ileaf_trim_def)
  qed
qed

lemma find_free_at_rep:
  assumes "dict = psums 0 segs" and "at \<le> length segs" and "offset = total_len (take at segs)"
  shows "find_free_at dict at offset = at + length (takeWhile (\<lambda>s. s \<noteq> []) (drop at segs))"
  using assms
proof (induction dict at offset rule: find_free_at.induct)
  case (1 dict at offset)
  show ?case
  proof (cases "at < length segs")
    case True
    have l: "atdict dict (at + 1) = offset + length (segs ! at)"
      using 1(2,4) True atdict_psums [of "at + 1" segs] total_len_Suc [OF True] by simp
    have d: "drop at segs = segs ! at # drop (at + 1) segs" using True by (simp add: Cons_nth_drop_Suc)
    show ?thesis
    proof (cases "segs ! at = []")
      case True
      with \<open>at < length segs\<close> l 1(2) d show ?thesis by (subst find_free_at.simps) simp
    next
      case False
      have "find_free_at dict (at + 1) (atdict dict (at + 1)) =
          at + 1 + length (takeWhile (\<lambda>s. s \<noteq> []) (drop (at + 1) segs))"
        using 1(2-4) True False l total_len_Suc [OF True] by (intro 1(1)) simp_all
      with \<open>at < length segs\<close> l 1(2) False d show ?thesis by (subst find_free_at.simps) simp
    qed
  qed (use 1(2,3) in \<open>simp add: find_free_at.simps\<close>)
qed

lemma find_free_rep:
  assumes r: "rep bs leaf segs" and key: "il_base leaf \<le> key" "key < 2 ^ 64"
  shows "case ileaf_find_free key_limit leaf key len of
      Some i \<Rightarrow> key \<le> i \<and> i < min key_limit (key + len) \<and> seg_at (il_base leaf) segs i = [] \<and>
        (\<forall>j. key \<le> j \<and> j < i \<longrightarrow> seg_at (il_base leaf) segs j \<noteq> [])
    | None \<Rightarrow> (\<forall>j. key \<le> j \<and> j < min key_limit (key + len) \<longrightarrow> seg_at (il_base leaf) segs j \<noteq> [])"
proof -
  define at where "at = key - il_base leaf"
  define n where "n = (if at < length segs then length (takeWhile (\<lambda>s. s \<noteq> []) (drop at segs)) else 0)"
  have at: "sub64 key (il_base leaf) = at" using key by (simp add: at_def)
  have f: "ileaf_find_free key_limit leaf key len =
      (if key + n < min key_limit (key + len) then Some (key + n) else None)"
  proof -
    have "at < length segs \<Longrightarrow> find_free_at (il_dict leaf) at (atdict (il_dict leaf) at) = at + n"
      using r by (subst find_free_at_rep) (simp_all add: rep_at [OF r] n_def, simp add: rep_def)
    then have "il_base leaf + (if at < length segs then find_free_at (il_dict leaf) at (atdict (il_dict leaf) at) else at) = key + n"
      using key by (simp add: at_def n_def)
    then show ?thesis by (simp add: ileaf_find_free_def at rep_count [OF r] Let_def)
  qed
  have used: "seg_at (il_base leaf) segs j \<noteq> []" if j: "key \<le> j" "j < key + n" for j
  proof -
    have "n \<le> length (drop at segs)" by (simp add: n_def length_takeWhile_le [THEN order_trans])
    then have "j - il_base leaf < length segs" "j - key < length (takeWhile (\<lambda>s. s \<noteq> []) (drop at segs))"
      using j key by (auto simp: at_def n_def split: if_splits)
    then have "takeWhile (\<lambda>s. s \<noteq> []) (drop at segs) ! (j - key) \<in> set (takeWhile (\<lambda>s. s \<noteq> []) (drop at segs))"
      by simp
    then have "drop at segs ! (j - key) \<noteq> []"
      using takeWhile_nth [OF \<open>j - key < _\<close>] set_takeWhileD by metis
    moreover have "at + (j - key) = j - il_base leaf" using j key by (simp add: at_def)
    ultimately have "segs ! (j - il_base leaf) \<noteq> []" using \<open>j - il_base leaf < length segs\<close> by (metis le_add1 less_imp_le nth_drop order_trans)
    with \<open>j - il_base leaf < length segs\<close>
    show ?thesis using j key by (simp add: seg_at_def)
  qed
  have free: "seg_at (il_base leaf) segs (key + n) = []"
  proof (cases "key + n - il_base leaf < length segs")
    case True
    then have "at < length segs" using key by (simp add: at_def)
    then have n: "n = length (takeWhile (\<lambda>s. s \<noteq> []) (drop at segs))" by (simp add: n_def)
    have "n < length (drop at segs)" using True key by (simp add: at_def)
    then have "drop at segs ! n = []" using nth_length_takeWhile [of "\<lambda>s. s \<noteq> []" "drop at segs", folded n] by simp
    moreover have "at + n = key + n - il_base leaf" using key by (simp add: at_def)
    ultimately show ?thesis using \<open>at < length segs\<close> by (simp add: seg_at_def)
  qed (use key in \<open>simp add: seg_at_def\<close>)
  show ?thesis
  proof (cases "key + n < min key_limit (key + len)")
    case True
    then show ?thesis using used free by (simp add: f)
  next
    case False
    then have "j < key + n" if "j < min key_limit (key + len)" for j using that by linarith
    with False used free show ?thesis by (simp add: f)
  qed
qed

text \<open>A callback over a list of inodes, until it fails.\<close>

fun run_cb :: "(nat \<Rightarrow> u8 list \<Rightarrow> 's \<Rightarrow> err \<times> 's) \<Rightarrow> (nat \<times> u8 list) list \<Rightarrow> 's \<Rightarrow> err \<times> 's" where
  "run_cb cb [] s = (None, s)"
| "run_cb cb ((i, attrs) # xs) s =
     (case cb i attrs s of (Some e, s) \<Rightarrow> (Some e, s) | (None, s) \<Rightarrow> run_cb cb xs s)"

definition used_inums :: "nat \<Rightarrow> u8 list list \<Rightarrow> nat \<Rightarrow> nat \<Rightarrow> (nat \<times> u8 list) list" where
  "used_inums base segs key limit =
     filter (\<lambda>(i, s). s \<noteq> []) (map (\<lambda>i. (i, seg_at base segs i)) [key..<limit])"

lemma used_inums_Cons: "key < limit \<Longrightarrow> used_inums base segs key limit =
    (if seg_at base segs key = [] then [] else [(key, seg_at base segs key)]) @ used_inums base segs (Suc key) limit"
  by (simp add: used_inums_def upt_conv_Cons)

lemma enumerate_at_rep:
  assumes "rep bs leaf segs" and "count \<le> length segs" and "offset = total_len (take at segs)"
  shows "enumerate_at cb leaf at count offset s =
    run_cb cb (used_inums (il_base leaf) segs (il_base leaf + at) (il_base leaf + count)) s"
  using assms
proof (induction cb leaf at count offset s rule: enumerate_at.induct)
  case (1 cb leaf at count offset s)
  note r = 1(3)
  show ?case
  proof (cases "at < count")
    case True
    then have at: "at < length segs" using 1(4) by simp
    have l: "atdict (il_dict leaf) (at + 1) = offset + length (segs ! at)"
      using 1(5) at rep_at [OF r, of "at + 1"] total_len_Suc [OF at] by simp
    have sg: "seg_at (il_base leaf) segs (il_base leaf + at) = segs ! at" using at by (simp add: seg_at_def)
    have u: "used_inums (il_base leaf) segs (il_base leaf + at) (il_base leaf + count) =
        (if segs ! at = [] then [] else [(il_base leaf + at, segs ! at)]) @
        used_inums (il_base leaf) segs (il_base leaf + (at + 1)) (il_base leaf + count)"
      using True by (simp add: used_inums_Cons sg)
    show ?thesis
    proof (cases "segs ! at = []")
      case True
      then have "enumerate_at cb leaf (at + 1) count offset s =
          run_cb cb (used_inums (il_base leaf) segs (il_base leaf + (at + 1)) (il_base leaf + count)) s"
        using \<open>at < count\<close> l 1(3-5) total_len_Suc [OF at] by (intro 1(1) [OF _ refl]) simp_all
      with True \<open>at < count\<close> l u show ?thesis by (subst enumerate_at.simps) simp
    next
      case False
      have "take (total_len segs) (il_table leaf) = concat segs" using r by (simp add: rep_def)
      then have t: "take (length (segs ! at)) (drop offset (il_table leaf)) = segs ! at"
        using take_drop_concat at 1(5) by blast
      have IH: "enumerate_at cb leaf (at + 1) count (atdict (il_dict leaf) (at + 1)) s' =
          run_cb cb (used_inums (il_base leaf) segs (il_base leaf + (at + 1)) (il_base leaf + count)) s'"
        if "cb (il_base leaf + at) (segs ! at) s = (None, s')" for s'
        using \<open>at < count\<close> False l t that 1(3-5) total_len_Suc [OF at] by (intro 1(2) [OF _ refl _ _ refl]) simp_all
      show ?thesis using IH False \<open>at < count\<close> l u t
        by (subst enumerate_at.simps) (simp add: split: prod.split option.split)
    qed
  qed (simp add: enumerate_at.simps used_inums_def)
qed

lemma enumerate_rep:
  assumes r: "rep bs leaf segs" and key: "il_base leaf \<le> key" "key + len < 2 ^ 64"
  shows "ileaf_enumerate cb leaf key len s = run_cb cb (used_inums (il_base leaf) segs key (key + len)) s"
proof -
  define at where "at = key - il_base leaf"
  define count where "count = min (key + len - il_base leaf) (length segs)"
  have at: "sub64 key (il_base leaf) = at" "sub64 (key + len) (il_base leaf) = key + len - il_base leaf"
    "key = il_base leaf + at" using key by (simp_all add: at_def)
  have none: "used_inums (il_base leaf) segs a b = []" if "il_base leaf + length segs \<le> a \<or> b \<le> a" for a b
    using that by (auto simp: used_inums_def seg_at_def filter_empty_conv)
  have run: "ileaf_enumerate cb leaf key len s =
      (if at < count then enumerate_at cb leaf at count (total_len (take at segs)) s else (None, s))"
    by (simp add: ileaf_enumerate_def at(1,2) rep_count [OF r] Let_def count_def rep_at [OF r])
  have cut: "used_inums (il_base leaf) segs key (key + len) =
      used_inums (il_base leaf) segs key (il_base leaf + count)" if "at < count"
  proof (cases "key + len \<le> il_base leaf + length segs")
    case True
    then have "il_base leaf + count = key + len" using at by (simp add: count_def)
    then show ?thesis by simp
  next
    case False
    then have c: "il_base leaf + count = il_base leaf + length segs" by (simp add: count_def)
    have "[key..<key + len] = [key..<il_base leaf + count] @ [il_base leaf + count..<key + len]"
      using that c False at(3) upt_add_eq_append [of key "il_base leaf + count" "key + len - (il_base leaf + count)"]
      by (simp add: add.assoc)
    then show ?thesis
      using none [of "il_base leaf + count" "key + len"] c by (simp add: used_inums_def)
  qed
  show ?thesis
  proof (cases "at < count")
    case True
    then show ?thesis
      using enumerate_at_rep [OF r, of count "total_len (take at segs)" at cb s] cut at(3)
      unfolding run by (simp add: count_def)
  next
    case False
    then have "used_inums (il_base leaf) segs key (key + len) = []"
      using at(3) by (intro none) (auto simp: count_def)
    with False show ?thesis by (simp add: run)
  qed
qed

text \<open>A merge into an empty leaf.\<close>

lemma to_int_small: "- (2 ^ 31) \<le> x \<Longrightarrow> x < 2 ^ 31 \<Longrightarrow> to_int x = x"
  by (simp add: to_int_def)

lemma merge_into_empty_rep:
  assumes i: "rep bs into []" and f: "rep bs frm fsegs" and ne: "fsegs \<noteq> []"
    and base: "il_base into < il_base frm" "il_base frm - il_base into < 2 ^ 29"
  defines "segs' \<equiv> replicate (il_base frm - il_base into) [] @ fsegs"
  shows "if fits bs segs'
    then \<exists>into'. ileaf_merge bs into frm = Some (True, into') \<and> rep bs into' segs' \<and> il_base into' = il_base into \<and>
      il_magic into' = il_magic into
    else ileaf_merge bs into frm = Some (False, into)"
proof -
  let ?d = "il_base frm - il_base into"
  have n: "icount frm = length fsegs" "icount into = 0" "atdict (il_dict frm) (length fsegs) = total_len fsegs"
      "atdict (il_dict into) 0 = 0" "ileaf_need frm = total_len fsegs + 2 * length fsegs" "ileaf_need into = 0"
    using rep_count [OF f] rep_count [OF i] rep_at [OF f, of "length fsegs"] rep_need [OF f] rep_need [OF i]
    by simp_all (simp add: atdict_def)
  have sz: "total_len fsegs + 2 * length fsegs \<le> 2 ^ 16" "bs \<le> 2 ^ 16" using f by (auto simp: rep_def)
  have h: "to_int (int (il_base frm) - int (il_base into) + int 0) = int ?d"
    "to_int (int ?d * 2 + int (total_len fsegs + 2 * length fsegs)) = int (2 * ?d + total_len fsegs + 2 * length fsegs)"
    using base sz by (subst to_int_small; simp)+
  have ff: "fits bs segs' \<longleftrightarrow> ileaf_hdr + total_len fsegs + 2 * ?d + 2 * length fsegs \<le> bs"
    by (auto simp: fits_def segs'_def)
  have di: "il_dict into = []" using i by (simp add: rep_def)
  have run: "ileaf_merge bs into frm = (if \<not> fits bs segs' then Some (False, into)
    else Some (True, into\<lparr>il_table := splice 0 (take (total_len fsegs) (il_table frm)) (il_table into),
                          il_dict := replicate ?d 0 @ il_dict frm\<rparr>))"
    using base ne unfolding ileaf_merge_def Let_def n h ff by (simp add: ileaf_free_def n di) linarith
  show ?thesis
  proof (cases "fits bs segs'")
    case True
    have "take (total_len fsegs) (splice 0 (take (total_len fsegs) (il_table frm)) (il_table into)) = concat fsegs"
      using f by (simp add: rep_def splice_def total_len_def)
    moreover have "length (splice 0 (take (total_len fsegs) (il_table frm)) (il_table into)) = bs - ileaf_hdr"
      using f i by (subst length_splice) (auto simp: rep_def total_len_def)
    ultimately have "rep bs (into\<lparr>il_table := splice 0 (take (total_len fsegs) (il_table frm)) (il_table into),
        il_dict := replicate ?d 0 @ il_dict frm\<rparr>) segs'"
      using True f sz by (simp add: rep_def fits_def segs'_def psums_append psums_empty concat_replicate_trivial)
    with True show ?thesis by (simp add: run)
  qed (simp add: run)
qed

lemma seg_at_hole: "base \<le> i \<Longrightarrow> base < fbase \<Longrightarrow> seg_at base (replicate (fbase - base) [] @ fsegs) i = seg_at fbase fsegs i"
  by (auto simp: seg_at_def nth_append)

section \<open>Correctness of the leaf operations\<close>

text \<open>A leaf of 64 bytes with inodes 8 and 10, for examples.\<close>

definition small_leaf :: ileaf where
  "small_leaf = \<lparr>il_magic = 1, il_base = 8, il_dict = [2, 2, 5], il_table = [1, 2, 3, 4, 5] @ replicate 43 0\<rparr>"

definition small_ops :: "u8 list attr_ops" where
  "small_ops = \<lparr>op_magic = 1, encoded_size = length, encode = id, decode = (\<lambda>d bs. (None, bs))\<rparr>"

text \<open>C15: Splitting an inode leaf at a hint divides its inodes between the two leaves: every inode
  number from the base of the leaf on has the same attributes as before, those below the returned
  key in the old leaf and the others in the new one. Both are well-formed leaves.\<close>

theorem ileaf_split_exact:
  assumes "rep bs leaf segs" and "ileaf_sniff ops leaf" and "il_base leaf \<le> hint" and "hint < 2 ^ 64 - 1"
    and "length (il_table dest) = bs - ileaf_hdr" and "0 < epl"
  shows "\<exists>key l d lsegs dsegs. ileaf_split ops epl hint leaf dest = Some (key, l, d) \<and> rep bs l lsegs \<and> rep bs d dsegs \<and>
    il_base l = il_base leaf \<and> il_base d = key \<and> il_base leaf < key \<and> key \<le> max hint (il_base leaf + 1) \<and>
    il_magic l = il_magic leaf \<and> il_magic d = il_magic dest \<and>
    (\<forall>i. il_base leaf \<le> i \<longrightarrow> seg_at (il_base leaf) segs i =
        (if i < key then seg_at (il_base l) lsegs i else seg_at (il_base d) dsegs i))"
  by (rule split_rep [OF assms])

lemma ileaf_split_exact_witness:
  "\<exists>key l d lsegs dsegs. ileaf_split small_ops 1 10 small_leaf (small_leaf\<lparr>il_dict := []\<rparr>) = Some (key, l, d) \<and>
    rep 64 l lsegs \<and> rep 64 d dsegs \<and> il_base l = 8 \<and> il_base d = key \<and> 8 < key \<and> key \<le> 10 \<and>
    il_magic l = 1 \<and> il_magic d = 1 \<and>
    (\<forall>i. 8 \<le> i \<longrightarrow> seg_at 8 [[1, 2], [], [3, 4, 5]] i =
        (if i < key then seg_at 8 lsegs i else seg_at (il_base d) dsegs i))"
proof -
  have r: "rep 64 small_leaf [[1, 2], [], [3, 4, 5]]" by (simp add: rep_def small_leaf_def ileaf_hdr_def)
  have f: "il_base small_leaf = 8" "il_magic small_leaf = 1" "length (il_table small_leaf) = 48"
    "ileaf_sniff small_ops small_leaf"
    by (simp_all add: small_leaf_def small_ops_def ileaf_sniff_def)
  obtain key l d lsegs dsegs where
    "ileaf_split small_ops 1 10 small_leaf (small_leaf\<lparr>il_dict := []\<rparr>) = Some (key, l, d)"
    "rep 64 l lsegs" "rep 64 d dsegs" "il_base l = 8" "il_base d = key" "8 < key" "key \<le> 10"
    "il_magic l = 1" "il_magic d = 1"
    "\<forall>i. 8 \<le> i \<longrightarrow> seg_at 8 [[1, 2], [], [3, 4, 5]] i = (if i < key then seg_at (il_base l) lsegs i else seg_at (il_base d) dsegs i)"
    using ileaf_split_exact [OF r f(4), of 10 "small_leaf\<lparr>il_dict := []\<rparr>" 1] by (auto simp: f ileaf_hdr_def)
  then show ?thesis by metis
qed

text \<open>C27: Chopping one inode removes exactly its attributes: every other inode keeps its own, the
  leaf stays well-formed, and a result of 0 means that nothing was changed.\<close>

theorem ileaf_chop_exact:
  assumes "rep bs leaf segs" and "il_base leaf \<le> start" and "start < 2 ^ 64" and "len \<le> 1"
  shows "\<exists>b leaf' segs'. ileaf_chop start len leaf = (b, leaf') \<and> rep bs leaf' segs' \<and>
    il_base leaf' = il_base leaf \<and> il_magic leaf' = il_magic leaf \<and>
    (\<forall>i. il_base leaf \<le> i \<longrightarrow> seg_at (il_base leaf) segs' i =
        (if start \<le> i \<and> i < start + len then [] else seg_at (il_base leaf) segs i)) \<and>
    (\<not> b \<longrightarrow> leaf' = leaf)"
  by (rule chop_rep [OF assms])

lemma ileaf_chop_exact_witness:
  "\<exists>b leaf' segs'. ileaf_chop 10 1 small_leaf = (b, leaf') \<and> rep 64 leaf' segs' \<and>
    il_base leaf' = il_base small_leaf \<and> il_magic leaf' = il_magic small_leaf \<and>
    (\<forall>i. il_base small_leaf \<le> i \<longrightarrow> seg_at (il_base small_leaf) segs' i =
        (if 10 \<le> i \<and> i < 10 + 1 then [] else seg_at (il_base small_leaf) [[1, 2], [], [3, 4, 5]] i)) \<and>
    (\<not> b \<longrightarrow> leaf' = small_leaf)"
  by (rule ileaf_chop_exact [of 64]) (simp_all add: rep_def small_leaf_def ileaf_hdr_def)

text \<open>Chopping several inodes at once does not keep the leaf well-formed: when a later inode of
  the range has attributes, the entry of an earlier one is lowered below zero and wraps around, so
  the dictionary is out of order.\<close>

theorem ileaf_chop_range_breaks:
  "ileaf_check small_ops small_leaf \<and> \<not> ileaf_check small_ops (snd (ileaf_chop 8 3 small_leaf))"
  by (simp add: small_leaf_def small_ops_def ileaf_check_def isinorder_def ileaf_chop_def icount_def atdict_def
      add_be16_def ileaf_trim_def sub64_def numeral_2_eq_2 numeral_3_eq_3 Let_def)

text \<open>The search for a free inode number returns the least one from the goal on that has no
  attributes, within the range it is given; no result means that every number of the range is in use.\<close>

theorem ileaf_find_free_least:
  assumes "rep bs leaf segs" and "il_base leaf \<le> key" and "key < 2 ^ 64"
  shows "case ileaf_find_free key_limit leaf key len of
      Some i \<Rightarrow> key \<le> i \<and> i < min key_limit (key + len) \<and> seg_at (il_base leaf) segs i = [] \<and>
        (\<forall>j. key \<le> j \<and> j < i \<longrightarrow> seg_at (il_base leaf) segs j \<noteq> [])
    | None \<Rightarrow> (\<forall>j. key \<le> j \<and> j < min key_limit (key + len) \<longrightarrow> seg_at (il_base leaf) segs j \<noteq> [])"
  by (rule find_free_rep [OF assms])

lemma ileaf_find_free_least_witness: "ileaf_find_free 100 small_leaf 8 50 = Some 9 \<and> seg_at 8 [[1, 2], [], [3, 4, 5]] 9 = []"
proof -
  have "rep 64 small_leaf [[1, 2], [], [3, 4, 5]]" by (simp add: rep_def small_leaf_def ileaf_hdr_def)
  moreover have "ileaf_find_free 100 small_leaf 8 50 = Some 9"
    by (simp add: ileaf_find_free_def small_leaf_def icount_def atdict_def find_free_at.simps sub64_def)
  ultimately show ?thesis using ileaf_find_free_least [of 64 small_leaf "[[1, 2], [], [3, 4, 5]]" 8 100 50]
    by (simp add: small_leaf_def)
qed

text \<open>Enumeration hands the callback every inode of the range that has attributes, in order and
  with exactly these attributes, until the callback fails.\<close>

theorem ileaf_enumerate_exact:
  assumes "rep bs leaf segs" and "il_base leaf \<le> key" and "key + len < 2 ^ 64"
  shows "ileaf_enumerate cb leaf key len s =
    run_cb cb (filter (\<lambda>(i, attrs). attrs \<noteq> [])
      (map (\<lambda>i. (i, seg_at (il_base leaf) segs i)) [key..<key + len])) s"
  using enumerate_rep [OF assms] by (simp only: used_inums_def)

lemma ileaf_enumerate_exact_witness:
  "ileaf_enumerate (\<lambda>i attrs s. (None, s @ [i])) small_leaf 8 9 [] = (None, [8, 10])"
proof -
  have "rep 64 small_leaf [[1, 2], [], [3, 4, 5]]" by (simp add: rep_def small_leaf_def ileaf_hdr_def)
  from ileaf_enumerate_exact [OF this, of 8 9 "\<lambda>i attrs s. (None, s @ [i])" "[]"] show ?thesis
    by (simp add: small_leaf_def seg_at_def upt_rec)
qed


end
