(* ===== verification/Dleaf.thy ===== *)
theory Dleaf
  imports Balloc Stash Log
begin

unbundle bit_operations_syntax

text \<open>
  Leaves of the file index btrees, \<open>src/kernel/dleaf2.c\<close>: a table of extents sorted by
  logical address. An entry starts an extent that goes up to the logical address of the
  next entry; physical address 0 is a hole, and the last entry is a sentinel with physical
  address 0. The table is an array of \<open>entries_per_leaf\<close> entries of two 64-bit words, of
  which the first \<open>dl_count\<close> are in use. Addresses of entries are indices. The debug output
  and the stride statistics of the read path are left out. \<open>None\<close> is a failed assertion.
  Requests (\<open>struct dleaf_req\<close>) hold the array \<open>seg[]\<close>, whose allocation for writes is the
  function pointer \<open>seg_alloc\<close> of the request, here an argument with its own state.
\<close>

section \<open>Entries\<close>

record diskextent2 =
  verhi_logical :: u64
  verlo_physical :: u64

record extent =
  ex_version :: u32
  ex_logical :: nat
  ex_physical :: nat

definition ADDR_MASK :: u64 where "ADDR_MASK = 0xffffffffffff"

text \<open>\<open>VER_MASK\<close> is \<open>1 << VER_BITS\<close>.\<close>

definition VER_MASK :: u32 where "VER_MASK = push_bit 16 1"

definition get_logical :: "diskextent2 \<Rightarrow> nat" where
  "get_logical dex = unat (verhi_logical dex AND ADDR_MASK)"

definition get_extent :: "diskextent2 \<Rightarrow> extent" where
  "get_extent dex = \<lparr>
     ex_version = push_bit 16 (ucast (drop_bit 48 (verhi_logical dex))) OR ucast (drop_bit 48 (verlo_physical dex)),
     ex_logical = unat (verhi_logical dex AND ADDR_MASK),
     ex_physical = unat (verlo_physical dex AND ADDR_MASK)\<rparr>"

definition put_extent :: "u32 \<Rightarrow> nat \<Rightarrow> nat \<Rightarrow> diskextent2" where
  "put_extent version logical physical =
     (let verhi = ucast (drop_bit 16 version) :: u64; verlo = ucast (version AND VER_MASK) :: u64
      in \<lparr>verhi_logical = push_bit 48 verhi OR of_nat logical,
          verlo_physical = push_bit 48 verlo OR of_nat physical\<rparr>)"

section \<open>Leaves\<close>

record dleaf2 =
  dl_magic :: u16
  dl_count :: nat
  dl_table :: "diskextent2 list"

definition TUX3_MAGIC_DLEAF2 :: u16 where "TUX3_MAGIC_DLEAF2 = 0xbeaf"

definition dleaf2_btree_init :: "nat \<Rightarrow> nat" where
  "dleaf2_btree_init bs = (bs - 8) div 16"

definition dleaf2_init :: "dleaf2 \<Rightarrow> dleaf2" where
  "dleaf2_init dleaf = dleaf\<lparr>dl_magic := TUX3_MAGIC_DLEAF2, dl_count := 0\<rparr>"

abbreviation physical_at :: "dleaf2 \<Rightarrow> nat \<Rightarrow> nat" where
  "physical_at dleaf i \<equiv> ex_physical (get_extent (dl_table dleaf ! i))"

abbreviation logical_at :: "dleaf2 \<Rightarrow> nat \<Rightarrow> nat" where
  "logical_at dleaf i \<equiv> ex_logical (get_extent (dl_table dleaf ! i))"

definition dleaf2_sniff :: "dleaf2 \<Rightarrow> bool" where
  "dleaf2_sniff dleaf =
     (if dl_magic dleaf \<noteq> TUX3_MAGIC_DLEAF2 then True
      else if dl_count dleaf = 0 then True
      else if physical_at dleaf (dl_count dleaf - 1) = 0 then True
      else False)"

definition dleaf2_can_free :: "dleaf2 \<Rightarrow> bool option" where
  "dleaf2_can_free dleaf =
     (if \<not> dleaf2_sniff dleaf then None else Some (if 1 < dl_count dleaf then False else True))"

text \<open>The scan of \<open>dleaf2_lookup_index\<close> from entry \<open>dex\<close> on.\<close>

function lookup_at :: "dleaf2 \<Rightarrow> nat \<Rightarrow> nat \<Rightarrow> nat option" where
  "lookup_at dleaf index dex =
     (if dex < dl_count dleaf
      then if index = get_logical (dl_table dleaf ! dex) then Some dex
           else if index < get_logical (dl_table dleaf ! dex)
             then (if 0 < dex then Some (dex - 1) else None)
           else lookup_at dleaf index (dex + 1)
      else if dl_count dleaf \<noteq> 0 \<and> physical_at dleaf (dex - 1) \<noteq> 0 then None
      else Some dex)"
  by pat_completeness auto
termination
  by (relation "measure (\<lambda>(dleaf, index, dex). dl_count dleaf - dex)") auto

declare lookup_at.simps [simp del]

definition dleaf2_lookup_index :: "dleaf2 \<Rightarrow> nat \<Rightarrow> nat option" where
  "dleaf2_lookup_index dleaf index = lookup_at dleaf index 0"

definition put_at :: "dleaf2 \<Rightarrow> nat \<Rightarrow> u32 \<Rightarrow> nat \<Rightarrow> nat \<Rightarrow> dleaf2" where
  "put_at dleaf i version logical physical =
     dleaf\<lparr>dl_table := (dl_table dleaf)[i := put_extent version logical physical]\<rparr>"

definition dleaf2_split :: "nat \<Rightarrow> dleaf2 \<Rightarrow> dleaf2 \<Rightarrow> (nat \<times> dleaf2 \<times> dleaf2) option" where
  "dleaf2_split hint from into =
     (let count = dl_count from in
      if \<not> 3 \<le> count then None
      else case dleaf2_lookup_index from hint of
             None \<Rightarrow> None
           | Some dex \<Rightarrow>
               if dex = count
               then (let ex = get_extent (dl_table from ! (dex - 1))
                     in if ex_physical ex \<noteq> 0 then None else Some (ex_logical ex, from, into))
               else let split_at = dex; ex = get_extent (dl_table from ! split_at);
                        into = into\<lparr>dl_count := count - split_at,
                          dl_table := splice 0 (take (count - split_at) (drop split_at (dl_table from))) (dl_table into)\<rparr>;
                        from = put_at (from\<lparr>dl_count := split_at + 1\<rparr>) split_at (ex_version ex) (ex_logical ex) 0
                    in Some (ex_logical ex, from, into))"

definition dleaf2_merge :: "nat \<Rightarrow> dleaf2 \<Rightarrow> dleaf2 \<Rightarrow> (bool \<times> dleaf2 \<times> dleaf2) option" where
  "dleaf2_merge entries_per_leaf into from =
     (let from_count = dl_count from; into_count = dl_count into in
      if from_count \<le> 1 then Some (True, into, from)
      else if into_count = 0
      then Some (True, into\<lparr>dl_count := from_count, dl_table := splice 0 (take from_count (dl_table from)) (dl_table into)\<rparr>,
                 from\<lparr>dl_count := 0\<rparr>)
      else let into_ex = get_extent (dl_table into ! (into_count - 1)); from_ex = get_extent (dl_table from ! 0) in
        if \<not> (ex_logical into_ex \<le> ex_logical from_ex) \<or> ex_physical into_ex \<noteq> 0 then None
        else let can_merge = (if ex_physical from_ex = 0 \<or> ex_logical into_ex = ex_logical from_ex then 1 else 0) in
          if entries_per_leaf < into_count + from_count - can_merge then Some (False, into, from)
          else let table =
                     (if ex_physical from_ex = 0
                      then splice into_count (take (from_count - can_merge) (drop 1 (dl_table from))) (dl_table into)
                      else if ex_logical into_ex = ex_logical from_ex
                      then splice (into_count - 1) (take from_count (dl_table from)) (dl_table into)
                      else splice into_count (take from_count (dl_table from)) (dl_table into))
               in Some (True, into\<lparr>dl_count := into_count + from_count - can_merge, dl_table := table\<rparr>,
                        from\<lparr>dl_count := 0\<rparr>))"

section \<open>Chop\<close>

text \<open>The part of \<open>struct sb\<close> that chopping changes: the deferred frees and the log.\<close>

record free_sb =
  fr_defree :: "pool \<times> stash"
  fr_log :: logsb

definition free_extent :: "free_sb \<Rightarrow> nat \<Rightarrow> nat \<Rightarrow> free_sb option" where
  "free_extent sb blk count =
     (let defree = snd (defer_bfree (fr_defree sb) (of_nat blk) count)
      in case log_bfree (fr_log sb) (of_nat blk) (of_nat count) of
           None \<Rightarrow> None
         | Some log \<Rightarrow> Some (sb\<lparr>fr_defree := defree, fr_log := log\<rparr>))"

text \<open>The loop of \<open>dleaf2_chop\<close> over the entries up to the old count \<open>dex_limit\<close>.\<close>

function chop_loop ::
  "u32 \<Rightarrow> nat \<Rightarrow> nat \<Rightarrow> nat \<Rightarrow> nat \<Rightarrow> bool \<Rightarrow> dleaf2 \<Rightarrow> free_sb \<Rightarrow> (dleaf2 \<times> free_sb) option" where
  "chop_loop version dex_limit dex start blk need_sentinel dleaf sb =
     (if dex < dex_limit
      then let ex = get_extent (dl_table dleaf ! dex); count = sub64 (ex_logical ex) start mod 2 ^ 32
           in case (if blk \<noteq> 0 \<and> count \<noteq> 0 then free_extent sb blk count else Some sb) of
                None \<Rightarrow> None
              | Some sb \<Rightarrow>
                  chop_loop version dex_limit (dex + 1) (ex_logical ex) (ex_physical ex) False
                    (if need_sentinel then put_at dleaf dex version start 0 else dleaf) sb
      else Some (dleaf, sb))"
  by pat_completeness auto
termination
  by (relation "measure (\<lambda>(version, dex_limit, dex, start, blk, need_sentinel, dleaf, sb). dex_limit - dex)") auto

declare chop_loop.simps [simp del]

text \<open>\<open>len\<close> is \<open>TUXKEY_LIMIT\<close>, the only length the code accepts.\<close>

definition dleaf2_chop :: "u32 \<Rightarrow> nat \<Rightarrow> dleaf2 \<Rightarrow> free_sb \<Rightarrow> (bool \<times> dleaf2 \<times> free_sb) option" where
  "dleaf2_chop version start dleaf sb =
     (if dl_count dleaf = 0 then Some (False, dleaf, sb)
      else let dex_limit = dl_count dleaf in
        case dleaf2_lookup_index dleaf start of
          None \<Rightarrow> None
        | Some dex \<Rightarrow>
            if dex_limit - 1 \<le> dex then Some (False, dleaf, sb)
            else let ex = get_extent (dl_table dleaf ! dex);
                     prev_hole = (0 < dex \<and> physical_at dleaf (dex - 1) = 0);
                     dex' = (if start = ex_logical ex \<and> prev_hole then dex - 1 else dex);
                     dleaf = (if start = ex_logical ex \<and> \<not> prev_hole then put_at dleaf dex version start 0 else dleaf);
                     need_sentinel = (start \<noteq> ex_logical ex \<and> ex_physical ex \<noteq> 0);
                     start = (if start \<noteq> ex_logical ex \<and> ex_physical ex = 0 then ex_logical ex else start);
                     dleaf = dleaf\<lparr>dl_count := dex' + 1 + (if need_sentinel then 1 else 0)\<rparr>;
                     blk = ex_physical ex + (start - ex_logical ex)
                 in case chop_loop version dex_limit (dex' + 1) start blk need_sentinel dleaf sb of
                      None \<Rightarrow> None
                    | Some (dleaf, sb) \<Rightarrow> Some (True, dleaf, sb))"

section \<open>Writing\<close>

record segment = block_segment +
  seg_state :: nat

definition BLOCK_SEG_HOLE :: nat where "BLOCK_SEG_HOLE = 1"
definition BLOCK_SEG_NEW :: nat where "BLOCK_SEG_NEW = 2"

text \<open>\<open>rq_start\<close> and \<open>rq_len\<close> are \<open>key.start\<close> and \<open>key.len\<close>.\<close>

record dleaf_req =
  rq_start :: nat
  rq_len :: nat
  seg_idx :: nat
  seg_cnt :: nat
  seg_max :: nat
  rq_seg :: "segment list"

definition seg_total_count :: "segment list \<Rightarrow> nat" where
  "seg_total_count segs = sum_list (map seg_count segs)"

definition pending :: "dleaf_req \<Rightarrow> segment list" where
  "pending rq = take (seg_cnt rq - seg_idx rq) (drop (seg_idx rq) (rq_seg rq))"

definition dleaf2_resize :: "dleaf2 \<Rightarrow> nat \<Rightarrow> int \<Rightarrow> dleaf2" where
  "dleaf2_resize dleaf head diff =
     (if diff = 0 then dleaf
      else let limit = dl_count dleaf;
               table = (if 0 < diff then vecmove (head + nat diff) head (limit - head) (dl_table dleaf)
                        else vecmove head (head + nat (- diff)) (limit - (head + nat (- diff))) (dl_table dleaf))
           in dleaf\<lparr>dl_table := table, dl_count := nat (int limit + diff)\<rparr>)"

definition dleaf2_init_sentinel :: "u32 \<Rightarrow> dleaf2 \<Rightarrow> nat \<Rightarrow> dleaf2" where
  "dleaf2_init_sentinel version dleaf key_bottom =
     (if dl_count dleaf = 0 then put_at (dleaf\<lparr>dl_count := 1\<rparr>) 0 version key_bottom 0 else dleaf)"

definition dleaf2_split_at_center :: "dleaf2 \<Rightarrow> nat" where
  "dleaf2_split_at_center dleaf = logical_at dleaf (dl_count dleaf div 2)"

datatype alloc_ret = Alloc_ok | Alloc_partial | Alloc_error errno

datatype write_ret = Write_done | Write_split nat | Write_error errno

text \<open>\<open>n\<close> rounds of the loop that fills the extents.\<close>

fun fill_extents :: "nat \<Rightarrow> u32 \<Rightarrow> nat \<Rightarrow> dleaf2 \<Rightarrow> dleaf_req \<Rightarrow> nat \<times> dleaf2 \<times> dleaf_req" where
  "fill_extents 0 version dex_start dleaf rq = (dex_start, dleaf, rq)"
| "fill_extents (Suc n) version dex_start dleaf rq =
     (let seg = rq_seg rq ! seg_idx rq in
      fill_extents n version (dex_start + 1)
        (put_at dleaf dex_start version (rq_start rq) (seg_block seg))
        (rq\<lparr>rq_start := rq_start rq + seg_count seg, rq_len := rq_len rq - seg_count seg,
            seg_idx := seg_idx rq + 1\<rparr>))"

text \<open>
  The entries to overwrite: the index of the first one, how many there are, the physical
  address behind the written range, and how many entries the leaf needs besides the segments.
\<close>

definition write_range :: "dleaf2 \<Rightarrow> nat \<Rightarrow> nat \<Rightarrow> (nat \<times> nat \<times> nat \<times> nat) option" where
  "write_range dleaf start limit =
     (let count = dl_count dleaf in
      case dleaf2_lookup_index dleaf start of
        None \<Rightarrow> None
      | Some dex \<Rightarrow>
          if dex < count \<and> \<not> logical_at dleaf dex \<le> start then None
          else let dex_start = (if dex < count \<and> logical_at dleaf dex < start then dex + 1 else dex)
          in case dleaf2_lookup_index dleaf limit of
               None \<Rightarrow> None
             | Some dex_end \<Rightarrow>
                 if dex_end < count
                 then Some (dex_start,
                            if dex_end < dex_start then 0 else dex_end - dex_start + 1,
                            if physical_at dleaf dex_end \<noteq> 0
                            then physical_at dleaf dex_end + (limit - logical_at dleaf dex_end) else 0,
                            1 + dex_start + (count - dex_end - 1))
                 else Some (dex_start, dex_end - dex_start, 0, 1 + dex_start))"

text \<open>The part behind the allocation, for \<open>write_segs\<close> segments of which the last one is
  written as a temporary hole when \<open>rest_segs\<close> is not 0.\<close>

definition write_segments ::
  "u32 \<Rightarrow> dleaf2 \<Rightarrow> dleaf_req \<Rightarrow> nat \<Rightarrow> nat \<Rightarrow> nat \<Rightarrow> nat \<Rightarrow> nat \<Rightarrow> nat \<Rightarrow> nat \<Rightarrow> (write_ret \<times> dleaf2 \<times> dleaf_req) option" where
  "write_segments version dleaf rq dex_start between write_segs rest_segs need limit end_physical =
     (let dleaf = dleaf2_resize dleaf dex_start (int (write_segs + 1) - int between) in
      if need \<noteq> dl_count dleaf then None
      else case fill_extents (seg_cnt rq - rest_segs - seg_idx rq) version dex_start dleaf rq of
             (dex, dleaf, rq) \<Rightarrow>
               if rest_segs \<noteq> 0
               then let dleaf = put_at dleaf dex version (rq_start rq) 0
                    in Some (Write_split (dleaf2_split_at_center dleaf),
                             put_at dleaf (dex + 1) version limit end_physical, rq)
               else Some (Write_done, put_at dleaf dex version limit end_physical, rq))"

text \<open>\<open>fuel\<close> bounds the number of passes from the label \<open>recheck\<close>.\<close>

primrec dleaf2_write ::
  "nat \<Rightarrow> (nat \<Rightarrow> dleaf_req \<Rightarrow> 's \<Rightarrow> alloc_ret \<times> dleaf_req \<times> 's) \<Rightarrow> u32 \<Rightarrow> nat \<Rightarrow> nat \<Rightarrow> dleaf2 \<Rightarrow> dleaf_req \<Rightarrow> 's \<Rightarrow>
     (write_ret \<times> dleaf2 \<times> dleaf_req \<times> 's) option" where
  "dleaf2_write 0 seg_alloc version epl key_bottom dleaf rq s = None"
| "dleaf2_write (Suc fuel) seg_alloc version epl key_bottom dleaf rq s =
     (if rq_len rq \<noteq> seg_total_count (pending rq) then None
      else let dleaf = dleaf2_init_sentinel version dleaf key_bottom;
               limit = rq_start rq + rq_len rq; write_segs = seg_cnt rq - seg_idx rq
           in case write_range dleaf (rq_start rq) limit of
                None \<Rightarrow> None
              | Some (dex_start, between, end_physical, need) \<Rightarrow>
                  let need = need + write_segs; need_split = (epl < need); rest_segs = need - epl
                  in if need_split \<and> write_segs \<le> rest_segs
                     then Some (Write_split (if dex_start + 1 < dl_count dleaf - 1
                                             then logical_at dleaf (dex_start + 1) else rq_start rq), dleaf, rq, s)
                     else let write_segs = write_segs - rest_segs; need = need - rest_segs;
                              rest_segs = (if need_split then rest_segs + 1 else 0)
                          in case seg_alloc write_segs rq s of
                               (ret, rq, s) \<Rightarrow>
                                 (case ret of
                                    Alloc_error e \<Rightarrow> if e = ENOSPC then None else Some (Write_error e, dleaf, rq, s)
                                  | Alloc_partial \<Rightarrow>
                                      dleaf2_write fuel seg_alloc version epl key_bottom dleaf
                                        (rq\<lparr>rq_len := seg_total_count (pending rq)\<rparr>) s
                                  | Alloc_ok \<Rightarrow>
                                      (case write_segments version dleaf rq dex_start between write_segs rest_segs
                                              need limit end_physical of
                                         None \<Rightarrow> None
                                       | Some (ret, dleaf, rq) \<Rightarrow> Some (ret, dleaf, rq, s))))"

section \<open>Reading\<close>

definition take_seg :: "dleaf_req \<Rightarrow> nat \<Rightarrow> nat \<Rightarrow> dleaf_req" where
  "take_seg rq n physical =
     rq\<lparr>rq_seg := (rq_seg rq)[seg_idx rq := \<lparr>seg_block = physical, seg_count = n,
           seg_state = (if physical \<noteq> 0 then 0 else BLOCK_SEG_HOLE)\<rparr>],
        rq_start := rq_start rq + n, rq_len := rq_len rq - n, seg_idx := seg_idx rq + 1\<rparr>"

function read_extents :: "dleaf2 \<Rightarrow> nat \<Rightarrow> nat \<Rightarrow> dleaf_req \<Rightarrow> dleaf_req" where
  "read_extents dleaf dex physical rq =
     (let nxt = get_extent (dl_table dleaf ! dex);
          rq = take_seg rq (min (rq_len rq) (sub64 (ex_logical nxt) (rq_start rq))) physical
      in if rq_len rq \<noteq> 0 \<and> seg_idx rq < seg_max rq \<and> dex + 1 < dl_count dleaf
         then read_extents dleaf (dex + 1) (ex_physical nxt) rq else rq)"
  by pat_completeness auto
termination
  by (relation "measure (\<lambda>(dleaf, dex, physical, rq). dl_count dleaf - dex)") auto

declare read_extents.simps [simp del]

text \<open>The code from the label \<open>fill_seg\<close> on.\<close>

definition fill_seg :: "nat \<Rightarrow> dleaf_req \<Rightarrow> dleaf_req" where
  "fill_seg key_limit rq =
     (if rq_start rq < key_limit \<and> rq_len rq \<noteq> 0 \<and> seg_idx rq < seg_max rq
      then take_seg rq (min (rq_len rq) (key_limit - rq_start rq)) 0 else rq)"

definition dleaf2_read :: "nat \<Rightarrow> dleaf2 \<Rightarrow> dleaf_req \<Rightarrow> dleaf_req option" where
  "dleaf2_read key_limit dleaf rq =
     (if seg_max rq \<le> seg_idx rq then Some rq
      else case dleaf2_lookup_index dleaf (rq_start rq) of
        None \<Rightarrow> None
      | Some dex \<Rightarrow>
          if dl_count dleaf \<le> dex + 1
          then (if dex < dl_count dleaf \<and> physical_at dleaf (dl_count dleaf - 1) \<noteq> 0 then None
                else Some (fill_seg key_limit rq))
          else let nxt = get_extent (dl_table dleaf ! dex);
                   physical = (if ex_physical nxt \<noteq> 0 then ex_physical nxt + (rq_start rq - ex_logical nxt)
                               else ex_physical nxt)
               in Some (fill_seg key_limit (read_extents dleaf (dex + 1) physical rq)))"

section \<open>Entries as pairs of addresses\<close>

lemma ADDR_MASK_mask: "ADDR_MASK = mask 48"
  by (simp add: ADDR_MASK_def mask_eq_exp_minus_1)

lemma addr_bits:
  assumes "n < 2 ^ 48"
  shows "unat ((push_bit 48 a OR of_nat n) AND ADDR_MASK :: u64) = n"
proof -
  have "take_bit 48 (push_bit 48 a) = (0 :: u64)" by (simp add: take_bit_push_bit)
  moreover have "take_bit 48 (of_nat n :: u64) = of_nat n"
    using assms by (simp add: take_bit_of_nat take_bit_nat_eq_self)
  ultimately have "(push_bit 48 a OR of_nat n) AND ADDR_MASK = (of_nat n :: u64)"
    by (simp add: ADDR_MASK_mask take_bit_or flip: take_bit_eq_mask)
  then show ?thesis using assms by (simp add: unat_of_nat take_bit_nat_eq_self take_bit_eq_mod)
qed

lemma get_put [simp]:
  assumes "logical < 2 ^ 48" and "physical < 2 ^ 48"
  shows "ex_logical (get_extent (put_extent version logical physical)) = logical"
    and "ex_physical (get_extent (put_extent version logical physical)) = physical"
  using assms by (simp_all add: get_extent_def put_extent_def Let_def addr_bits)

text \<open>The logical and the physical address of an entry.\<close>

definition ext :: "diskextent2 \<Rightarrow> nat \<times> nat" where
  "ext dex = (ex_logical (get_extent dex), ex_physical (get_extent dex))"

definition exts :: "dleaf2 \<Rightarrow> (nat \<times> nat) list" where
  "exts dleaf = map ext (take (dl_count dleaf) (dl_table dleaf))"

lemma ext_put [simp]: "logical < 2 ^ 48 \<Longrightarrow> physical < 2 ^ 48 \<Longrightarrow> ext (put_extent v logical physical) = (logical, physical)"
  by (simp add: ext_def)

lemma get_logical_ext: "get_logical dex = fst (ext dex)"
  by (simp add: get_logical_def ext_def get_extent_def)

lemma addr_small: "unat (x AND ADDR_MASK :: u64) < 2 ^ 48"
proof -
  have "unat (x AND mask 48) = take_bit 48 (unat x)" by (simp flip: take_bit_eq_mask add: unsigned_take_bit_eq)
  then show ?thesis using take_bit_nat_less_exp [of 48 "unat x"] by (simp add: ADDR_MASK_mask)
qed

lemma ext_small: "fst (ext dex) < 2 ^ 48" "snd (ext dex) < 2 ^ 48"
  using addr_small by (simp_all add: ext_def get_extent_def)

text \<open>The file that a list of extents maps: the physical block of a logical one, 0 for holes.\<close>

fun lmap :: "(nat \<times> nat) list \<Rightarrow> nat \<Rightarrow> nat" where
  "lmap [] l = 0"
| "lmap [e] l = 0"
| "lmap ((a, p) # (b, q) # es) l =
     (if l < b then (if a \<le> l \<and> p \<noteq> 0 then p + (l - a) else 0) else lmap ((b, q) # es) l)"

text \<open>Sorted by logical address, no extent beyond the 48-bit physical addresses, a sentinel last.\<close>

fun sorted_exts :: "(nat \<times> nat) list \<Rightarrow> bool" where
  "sorted_exts [] \<longleftrightarrow> False"
| "sorted_exts [(a, p)] \<longleftrightarrow> a < 2 ^ 48 \<and> p = 0"
| "sorted_exts ((a, p) # (b, q) # es) \<longleftrightarrow> a < b \<and> p + (b - a) \<le> 2 ^ 48 \<and> sorted_exts ((b, q) # es)"

lemma sorted_exts_last: "sorted_exts es \<Longrightarrow> es \<noteq> [] \<and> snd (last es) = 0"
  by (induction es rule: sorted_exts.induct) auto

lemma sorted_exts_less: "sorted_exts ((a, p) # es) \<Longrightarrow> e \<in> set es \<Longrightarrow> a < fst e"
  by (induction es arbitrary: a p) force+

lemma sorted_exts_Cons: "sorted_exts (e # es) \<Longrightarrow> es \<noteq> [] \<Longrightarrow> sorted_exts es"
  by (cases e; cases es) auto

lemma sorted_exts_append: "sorted_exts (xs @ ys) \<Longrightarrow> ys \<noteq> [] \<Longrightarrow> sorted_exts ys"
  by (induction xs) (auto dest: sorted_exts_Cons)

lemma sorted_exts_nth: "sorted_exts es \<Longrightarrow> i < j \<Longrightarrow> j < length es \<Longrightarrow> fst (es ! i) < fst (es ! j)"
proof (induction es arbitrary: i j)
  case (Cons e es)
  show ?case
  proof (cases i)
    case 0
    with Cons.prems have "es ! (j - 1) \<in> set es" "es ! (j - 1) = (e # es) ! j" by (auto simp: nth_Cons')
    then show ?thesis using Cons.prems(1) 0 sorted_exts_less [of "fst e" "snd e" es] by (metis nth_Cons_0 prod.collapse)
  next
    case (Suc i')
    then obtain j' where "j = Suc j'" using Cons.prems(2) by (cases j) auto
    moreover have "sorted_exts es" using Cons.prems Suc \<open>j = Suc j'\<close> by (auto intro: sorted_exts_Cons)
    ultimately show ?thesis using Cons Suc by simp
  qed
qed simp

definition wf_leaf :: "nat \<Rightarrow> dleaf2 \<Rightarrow> bool" where
  "wf_leaf epl dleaf \<longleftrightarrow> length (dl_table dleaf) = epl \<and> dl_count dleaf \<le> epl \<and> sorted_exts (exts dleaf)"

lemma exts_length: "wf_leaf epl dleaf \<Longrightarrow> length (exts dleaf) = dl_count dleaf"
  by (simp add: wf_leaf_def exts_def)

lemma exts_nth: "i < dl_count dleaf \<Longrightarrow> dl_count dleaf \<le> length (dl_table dleaf) \<Longrightarrow>
    exts dleaf ! i = (logical_at dleaf i, physical_at dleaf i)"
  by (simp add: exts_def ext_def)

text \<open>Lookup: the entry whose extent holds the index, or the end behind the sentinel.\<close>

lemma lookup_at_spec:
  assumes wf: "wf_leaf epl dleaf" and first: "fst (exts dleaf ! 0) \<le> index"
  shows "dex \<le> dl_count dleaf \<Longrightarrow> (\<forall>i < dex. fst (exts dleaf ! i) < index) \<Longrightarrow>
    \<exists>i. lookup_at dleaf index dex = Some i \<and> i \<le> dl_count dleaf \<and> (\<forall>j < i. fst (exts dleaf ! j) < index) \<and>
      (i < dl_count dleaf \<longrightarrow> fst (exts dleaf ! i) \<le> index \<and> (\<forall>j. i < j \<and> j < dl_count dleaf \<longrightarrow> index < fst (exts dleaf ! j))) \<and>
      (i = dl_count dleaf \<longrightarrow> fst (last (exts dleaf)) < index)"
proof (induction "dl_count dleaf - dex" arbitrary: dex)
  case 0
  then have "dex = dl_count dleaf" by simp
  have l: "length (exts dleaf) = dl_count dleaf" using exts_length [OF wf] .
  have s: "exts dleaf \<noteq> []" "snd (last (exts dleaf)) = 0"
    using wf sorted_exts_last [of "exts dleaf"] by (auto simp: wf_leaf_def)
  have "0 < dl_count dleaf" using s l by (metis length_greater_0_conv)
  have "last (exts dleaf) = exts dleaf ! (dex - 1)" using s l \<open>dex = _\<close> by (simp add: last_conv_nth)
  moreover have "exts dleaf ! (dex - 1) = (logical_at dleaf (dex - 1), physical_at dleaf (dex - 1))"
    using \<open>0 < dl_count dleaf\<close> \<open>dex = _\<close> wf by (intro exts_nth) (auto simp: wf_leaf_def)
  moreover have "fst (exts dleaf ! (dex - 1)) < index" using 0(3) \<open>0 < dl_count dleaf\<close> \<open>dex = _\<close> by simp
  ultimately show ?case
    using 0(3) s l \<open>dex = _\<close> by (simp add: lookup_at.simps)
next
  case (Suc n)
  then have dex: "dex < dl_count dleaf" by simp
  have l: "length (exts dleaf) = dl_count dleaf" using exts_length [OF wf] .
  have e: "fst (exts dleaf ! dex) = get_logical (dl_table dleaf ! dex)"
    using wf dex by (simp add: exts_def get_logical_ext wf_leaf_def)
  have later: "dex \<le> i \<Longrightarrow> i < j \<Longrightarrow> j < dl_count dleaf \<Longrightarrow> fst (exts dleaf ! i) < fst (exts dleaf ! j)" for i j
    using wf l by (intro sorted_exts_nth) (auto simp: wf_leaf_def)
  consider "index = fst (exts dleaf ! dex)" | "index < fst (exts dleaf ! dex)" | "fst (exts dleaf ! dex) < index" by linarith
  then show ?case
  proof cases
    case 1
    then show ?thesis using dex e Suc.prems(2) later [of dex]
      by (subst lookup_at.simps) auto
  next
    case 2
    then have "dex \<noteq> 0" using first by (cases dex) auto
    moreover have "index < fst (exts dleaf ! j)" if "dex - 1 < j" "j < dl_count dleaf" for j
    proof (cases "j = dex")
      case False
      then have "dex < j" using that \<open>dex \<noteq> 0\<close> by linarith
      then show ?thesis using 2 that later [of dex j] by simp
    qed (use 2 in simp)
    ultimately show ?thesis using dex e Suc.prems(2) 2
      by (subst lookup_at.simps) (auto intro!: less_imp_le)
  next
    case 3
    then have "lookup_at dleaf index dex = lookup_at dleaf index (dex + 1)"
      using dex e by (subst lookup_at.simps) auto
    then show ?thesis
      using Suc.hyps Suc.prems(2) dex 3 by (simp add: less_Suc_eq)
  qed
qed

lemmas lookup_spec = lookup_at_spec [where dex = 0, simplified, folded dleaf2_lookup_index_def]

lemma takeWhile_length_nth:
  assumes "i \<le> length xs" and "\<forall>j < i. P (xs ! j)" and "i < length xs \<longrightarrow> \<not> P (xs ! i)"
  shows "length (takeWhile P xs) = i"
proof -
  have "takeWhile P xs = take i xs"
    using assms by (intro takeWhile_eq_take_P_nth) auto
  then show ?thesis using assms(1) by simp
qed

lemma lmap_nth:
  assumes "sorted_exts es" and "i < length es" and "fst (es ! i) \<le> l" and "Suc i < length es \<longrightarrow> l < fst (es ! Suc i)"
  shows "lmap es l = (if snd (es ! i) \<noteq> 0 then snd (es ! i) + (l - fst (es ! i)) else 0)"
  using assms
proof (induction es l arbitrary: i rule: lmap.induct)
  case (2 e l)
  then show ?case by (cases e) simp
next
  case (3 a p b q es l)
  show ?case
  proof (cases i)
    case 0
    then show ?thesis using 3 by simp
  next
    case (Suc i')
    have "b \<le> fst (((b, q) # es) ! i')"
    proof (cases i')
      case (Suc k)
      then have "((b, q) # es) ! i' \<in> set es" using 3 \<open>i = Suc i'\<close> by simp
      then show ?thesis using sorted_exts_less [of b q es] 3(2) by (metis less_imp_le sorted_exts.simps(3))
    qed simp
    then have "\<not> l < b" using 3 Suc by simp
    then show ?thesis using 3 Suc by simp
  qed
qed simp

lemma lmap_above: "sorted_exts es \<Longrightarrow> fst (last es) \<le> l \<Longrightarrow> lmap es l = 0"
proof (induction es l rule: lmap.induct)
  case (3 a p b q es l)
  have "b \<le> fst (last ((b, q) # es))"
    using sorted_exts_less [of b q es "last es"] 3(2) by (auto intro: less_imp_le)
  with 3 show ?case by simp
qed simp_all

lemma lmap_below: "sorted_exts es \<Longrightarrow> l < fst (hd es) \<Longrightarrow> lmap es l = 0"
  by (induction es l rule: lmap.induct) auto

text \<open>The entries before \<open>start\<close> and behind \<open>limit\<close>.\<close>

abbreviation entries_below :: "nat \<Rightarrow> (nat \<times> nat) list \<Rightarrow> (nat \<times> nat) list" where
  "entries_below start \<equiv> takeWhile (\<lambda>e. fst e < start)"

abbreviation entries_above :: "nat \<Rightarrow> (nat \<times> nat) list \<Rightarrow> (nat \<times> nat) list" where
  "entries_above limit \<equiv> dropWhile (\<lambda>e. fst e \<le> limit)"

lemma write_range_spec:
  assumes wf: "wf_leaf epl dleaf" and first: "fst (exts dleaf ! 0) \<le> start" and less: "start < limit"
  defines "E \<equiv> exts dleaf"
  shows "write_range dleaf start limit =
    Some (length (entries_below start E),
          length E - length (entries_below start E) - length (entries_above limit E), lmap E limit,
          1 + length (entries_below start E) + length (entries_above limit E))"
proof -
  have len: "length E = dl_count dleaf" using exts_length [OF wf] by (simp add: E_def)
  have srt: "sorted_exts E" using wf by (simp add: wf_leaf_def E_def)
  have at: "i < length E \<Longrightarrow> E ! i = (logical_at dleaf i, physical_at dleaf i)" for i
    using wf len exts_nth [of i dleaf] by (simp add: E_def wf_leaf_def)
  have "fst (exts dleaf ! 0) \<le> limit" using first less by simp
  from lookup_spec [OF wf first] lookup_spec [OF wf this] obtain i k where
    i: "dleaf2_lookup_index dleaf start = Some i" "i \<le> length E" "\<forall>j < i. fst (E ! j) < start"
      "i < length E \<longrightarrow> fst (E ! i) \<le> start \<and> (\<forall>j. i < j \<and> j < length E \<longrightarrow> start < fst (E ! j))"
    and k: "dleaf2_lookup_index dleaf limit = Some k" "k \<le> length E" "\<forall>j < k. fst (E ! j) < limit"
      "k < length E \<longrightarrow> fst (E ! k) \<le> limit \<and> (\<forall>j. k < j \<and> j < length E \<longrightarrow> limit < fst (E ! j))"
      "k = length E \<longrightarrow> fst (last E) < limit"
    unfolding E_def [symmetric] len [symmetric] by metis
  define ds where "ds = (if i < length E \<and> fst (E ! i) < start then i + 1 else i)"
  have ds: "length (entries_below start E) = ds"
  proof (rule takeWhile_length_nth)
    show "ds \<le> length E" using i(2) by (auto simp: ds_def)
    show "\<forall>j < ds. fst (E ! j) < start" using i(3) by (auto simp: ds_def less_Suc_eq)
    show "ds < length E \<longrightarrow> \<not> fst (E ! ds) < start" using i(4) by (auto simp: ds_def)
  qed
  have "length (takeWhile (\<lambda>e. fst e \<le> limit) E) = min (k + 1) (length E)"
  proof (rule takeWhile_length_nth)
    show "\<forall>j < min (k + 1) (length E). fst (E ! j) \<le> limit" using k(3,4) by (auto simp: less_Suc_eq intro: less_imp_le)
    show "min (k + 1) (length E) < length E \<longrightarrow> \<not> fst (E ! min (k + 1) (length E)) \<le> limit"
      using k(4) by (auto simp: min_def not_le)
  qed simp
  then have above: "length (entries_above limit E) = length E - min (k + 1) (length E)"
    by (metis add_diff_cancel_left' length_append takeWhile_dropWhile_id)
  have ik: "k + 1 < ds \<Longrightarrow> False"
  proof -
    assume "k + 1 < ds"
    then have "k < i" "k + 1 < length E" using i(2) by (auto simp: ds_def split: if_splits)
    with k(4) i(3,4) \<open>k + 1 < ds\<close> less show False by (metis Suc_eq_plus1 less_Suc_eq less_imp_le_nat less_or_eq_imp_le not_less order_less_le_trans order_less_trans ds_def lessI)
  qed
  have "lmap E limit = (if k < length E \<and> physical_at dleaf k \<noteq> 0 then physical_at dleaf k + (limit - logical_at dleaf k) else 0)"
  proof (cases "k < length E")
    case True
    then show ?thesis using lmap_nth [OF srt True, of limit] k(4) at by auto
  next
    case False
    then show ?thesis using lmap_above [OF srt, of limit] k(2,5) by simp
  qed
  note L = this
  have nb: "(i < length E \<and> \<not> logical_at dleaf i \<le> start) = False" using i(4) at [of i] by auto
  have dsl: "(if i < length E \<and> logical_at dleaf i < start then i + 1 else i) = ds" using at [of i] by (auto simp: ds_def)
  have run: "write_range dleaf start limit =
      (if k < length E then Some (ds, if k < ds then 0 else k - ds + 1, lmap E limit, 1 + ds + (length E - k - 1))
       else Some (ds, k - ds, lmap E limit, 1 + ds))"
    unfolding write_range_def Let_def len [symmetric] i(1) k(1) option.case nb if_False dsl by (simp add: L)
  show ?thesis
  proof (cases "k < length E")
    case True
    with ik above show ?thesis by (simp add: run ds) linarith
  next
    case False
    then have a0: "length (entries_above limit E) = 0" using k(2) above by simp
    show ?thesis unfolding run ds a0 using False k(2) by simp
  qed
qed

section \<open>Overwriting a range of a file\<close>

text \<open>The entries of segments that start at a logical address, and the block they give to another one.\<close>

fun seg_exts :: "nat \<Rightarrow> segment list \<Rightarrow> (nat \<times> nat) list" where
  "seg_exts start [] = []"
| "seg_exts start (seg # segs) = (start, seg_block seg) # seg_exts (start + seg_count seg) segs"

fun seg_map :: "nat \<Rightarrow> segment list \<Rightarrow> nat \<Rightarrow> nat" where
  "seg_map start [] l = 0"
| "seg_map start (seg # segs) l =
     (if l < start + seg_count seg then (if seg_block seg \<noteq> 0 then seg_block seg + (l - start) else 0)
      else seg_map (start + seg_count seg) segs l)"

definition segm_ok :: "segment \<Rightarrow> bool" where
  "segm_ok seg \<longleftrightarrow> 0 < seg_count seg \<and> seg_block seg + seg_count seg \<le> 2 ^ 48"

lemma seg_total_simps [simp]: "seg_total_count [] = 0" "seg_total_count (s # ss) = seg_count s + seg_total_count ss"
    "seg_total_count (xs @ ys) = seg_total_count xs + seg_total_count ys"
  by (simp_all add: seg_total_count_def)

lemma length_seg_exts [simp]: "length (seg_exts start segs) = length segs"
  by (induction segs arbitrary: start) simp_all

lemma seg_exts_append: "seg_exts start (xs @ ys) = seg_exts start xs @ seg_exts (start + seg_total_count xs) ys"
  by (induction xs arbitrary: start) (simp_all add: add.assoc)

definition overwrite :: "nat \<Rightarrow> segment list \<Rightarrow> (nat \<times> nat) list \<Rightarrow> (nat \<times> nat) list" where
  "overwrite start segs E =
     entries_below start E @ seg_exts start segs @
     (start + seg_total_count segs, lmap E (start + seg_total_count segs)) # entries_above (start + seg_total_count segs) E"

lemma sorted_below: "sorted_exts E \<Longrightarrow> sorted_exts ((start, p) # r) \<Longrightarrow> start < 2 ^ 48 \<Longrightarrow>
    sorted_exts (entries_below start E @ (start, p) # r)"
proof (induction E rule: sorted_exts.induct)
  case (3 a p b q es)
  then show ?case by (cases "b < start") auto
qed auto

lemma lmap_below_part: "sorted_exts E \<Longrightarrow> sorted_exts ((start, p) # r) \<Longrightarrow>
    lmap (entries_below start E @ (start, p) # r) l = (if l < start then lmap E l else lmap ((start, p) # r) l)"
proof (induction E rule: sorted_exts.induct)
  case (2 a p')
  have low: "l < start \<Longrightarrow> lmap ((start, p) # r) l = 0" using lmap_below [OF 2(2)] by simp
  with 2 show ?case by auto
next
  case (3 a p' b q es)
  have low: "l < start \<Longrightarrow> lmap ((start, p) # r) l = 0" using lmap_below [OF 3(3)] by simp
  show ?case
  proof (cases "a < start")
    case True
    then show ?thesis
      using 3 by (cases "b < start") (auto simp: low)
  next
    case False
    then show ?thesis using 3 low by auto
  qed
qed simp

lemma sorted_above: "sorted_exts E \<Longrightarrow> limit < 2 ^ 48 \<Longrightarrow> sorted_exts ((limit, lmap E limit) # entries_above limit E)"
proof (induction E rule: sorted_exts.induct)
  case (3 a p b q es)
  show ?case
  proof (cases "a \<le> limit")
    case True
    with 3 show ?thesis by (cases "b \<le> limit") auto
  next
    case False
    have "b < 2 ^ 48 \<Longrightarrow> a < 2 ^ 48" using 3(2) by simp
    moreover have "sorted_exts ((b, q) # es)" using 3(2) by simp
    then have "b < 2 ^ 48" by (induction "(b, q) # es" arbitrary: b q es rule: sorted_exts.induct) auto
    ultimately show ?thesis using 3(2) False by auto
  qed
qed auto

lemma lmap_above_part: "sorted_exts E \<Longrightarrow> limit \<le> l \<Longrightarrow> lmap ((limit, lmap E limit) # entries_above limit E) l = lmap E l"
proof (induction E rule: sorted_exts.induct)
  case (3 a p b q es)
  then show ?case by (cases "a \<le> limit"; cases "b \<le> limit") auto
qed auto

lemma lmap_segs: "start \<le> l \<Longrightarrow> \<forall>s \<in> set segs. segm_ok s \<Longrightarrow>
    lmap (seg_exts start segs @ (start + seg_total_count segs, q) # r) l =
    (if l < start + seg_total_count segs then seg_map start segs l else lmap ((start + seg_total_count segs, q) # r) l)"
proof (induction segs arbitrary: start)
  case (Cons s segs)
  let ?next = "start + seg_count s"
  have tail: "\<exists>p' r'. seg_exts ?next segs @ (?next + seg_total_count segs, q) # r = (?next, p') # r'"
    by (cases segs) auto
  then obtain p' r' where t: "seg_exts ?next segs @ (?next + seg_total_count segs, q) # r = (?next, p') # r'" by blast
  show ?case
  proof (cases "l < ?next")
    case True
    with Cons.prems t show ?thesis by (simp add: add.assoc [symmetric])
  next
    case False
    have "lmap (seg_exts ?next segs @ (?next + seg_total_count segs, q) # r) l =
      (if l < ?next + seg_total_count segs then seg_map ?next segs l else lmap ((?next + seg_total_count segs, q) # r) l)"
      using False Cons.prems by (intro Cons.IH) simp_all
    with False t show ?thesis by (simp add: add.assoc [symmetric])
  qed
qed simp

lemma sorted_segs: "\<forall>s \<in> set segs. segm_ok s \<Longrightarrow> sorted_exts ((start + seg_total_count segs, q) # r) \<Longrightarrow>
    sorted_exts (seg_exts start segs @ (start + seg_total_count segs, q) # r)"
proof (induction segs arbitrary: start)
  case (Cons s segs)
  let ?next = "start + seg_count s"
  have "sorted_exts (seg_exts ?next segs @ (?next + seg_total_count segs, q) # r)"
    using Cons.prems by (intro Cons.IH) (simp_all add: add.assoc)
  moreover have "\<exists>p' r'. seg_exts ?next segs @ (?next + seg_total_count segs, q) # r = (?next, p') # r'"
    by (cases segs) auto
  ultimately show ?case using Cons.prems by (auto simp: add.assoc segm_ok_def)
qed simp

text \<open>What overwriting does to the file.\<close>

lemma overwrite_spec:
  assumes E: "sorted_exts E" and segs: "\<forall>s \<in> set segs. segm_ok s" "segs \<noteq> []"
    and limit: "start + seg_total_count segs < 2 ^ 48"
  shows "sorted_exts (overwrite start segs E)"
    and "lmap (overwrite start segs E) l =
      (if start \<le> l \<and> l < start + seg_total_count segs then seg_map start segs l else lmap E l)"
proof -
  let ?limit = "start + seg_total_count segs"
  let ?behind = "(?limit, lmap E ?limit) # entries_above ?limit E"
  obtain p r where r: "seg_exts start segs @ ?behind = (start, p) # r" using segs(2) by (cases segs) auto
  have "sorted_exts (seg_exts start segs @ ?behind)"
    using sorted_segs [OF segs(1)] sorted_above [OF E limit] by blast
  then have sr: "sorted_exts ((start, p) # r)" by (simp only: r)
  then show "sorted_exts (overwrite start segs E)"
    unfolding overwrite_def r using E limit by (intro sorted_below) simp_all
  show "lmap (overwrite start segs E) l =
      (if start \<le> l \<and> l < ?limit then seg_map start segs l else lmap E l)"
  proof (cases "l < start")
    case True
    then show ?thesis unfolding overwrite_def r lmap_below_part [OF E sr] by simp
  next
    case False
    then have "lmap (overwrite start segs E) l = lmap (seg_exts start segs @ ?behind) l"
      unfolding overwrite_def r lmap_below_part [OF E sr] by simp
    also have "\<dots> = (if l < ?limit then seg_map start segs l else lmap ?behind l)"
      using False segs(1) by (intro lmap_segs) simp_all
    finally show ?thesis using False lmap_above_part [OF E, of ?limit l] by simp
  qed
qed

section \<open>The table after a write\<close>

lemma splice_Cons: "i < length t \<Longrightarrow> splice i (x # xs) t = splice (Suc i) xs (t[i := x])"
  by (simp add: splice_def take_Suc_conv_app_nth)

lemma splice_snoc: "i + length xs < length t \<Longrightarrow> (splice i xs t)[i + length xs := y] = splice i (xs @ [y]) t"
  by (simp add: splice_def list_update_append Cons_nth_drop_Suc [symmetric])

lemma splice_Nil [simp]: "splice i [] t = t"
  by (simp add: splice_def)

text \<open>The entries in front of the range and behind it keep their place at the ends of the table.\<close>

lemma resize_table:
  assumes n: "ds + between + na = dl_count dleaf" "dl_count dleaf \<le> length (dl_table dleaf)"
    "ds + w + 1 + na \<le> length (dl_table dleaf)"
  defines "dleaf' \<equiv> dleaf2_resize dleaf ds (int (w + 1) - int between)"
  shows "dl_count dleaf' = ds + w + 1 + na \<and> length (dl_table dleaf') = length (dl_table dleaf) \<and>
    take ds (dl_table dleaf') = take ds (dl_table dleaf) \<and>
    take na (drop (ds + w + 1) (dl_table dleaf')) = take na (drop (ds + between) (dl_table dleaf)) \<and>
    dl_magic dleaf' = dl_magic dleaf"
proof -
  let ?t = "dl_table dleaf" and ?n = "dl_count dleaf"
  consider "w + 1 = between" | d where "w + 1 = between + d" "0 < d" | d where "between = w + 1 + d" "0 < d"
    by (metis less_imp_add_positive linorder_neqE_nat)
  then show ?thesis
  proof cases
    case 1
    with n show ?thesis by (auto simp: dleaf'_def dleaf2_resize_def)
  next
    case 2
    have d: "int (w + 1) - int between = int d" using 2 by simp
    have e: "dleaf' = dleaf\<lparr>dl_table := vecmove (ds + d) ds (?n - ds) ?t, dl_count := ?n + d\<rparr>"
      using 2(2) unfolding dleaf'_def d by (simp add: dleaf2_resize_def Let_def flip: of_nat_add)
    have "take na (drop (ds + d + between) (vecmove (ds + d) ds (?n - ds) ?t)) = take na (drop (ds + between) ?t)"
      using n 2 by (intro vecmove_part) simp_all
    moreover have "ds + d + between = ds + w + 1" using 2 by simp
    ultimately have "take na (drop (ds + w + 1) (vecmove (ds + d) ds (?n - ds) ?t)) = take na (drop (ds + between) ?t)"
      by (simp only:)
    then show ?thesis
      using n 2 by (simp add: e take_vecmove)
  next
    case 3
    have d: "int (w + 1) - int between = - int d" using 3 by simp
    have "nat (int ?n + - int d) = ?n - d" using n 3 by (simp add: nat_diff_distrib)
    then have e: "dleaf' = dleaf\<lparr>dl_table := vecmove ds (ds + d) (?n - (ds + d)) ?t, dl_count := ?n - d\<rparr>"
      using 3(2) unfolding dleaf'_def d by (simp add: dleaf2_resize_def Let_def)
    have "take na (drop (ds + (w + 1)) (vecmove ds (ds + d) (?n - (ds + d)) ?t)) = take na (drop (ds + d + (w + 1)) ?t)"
      using n 3 by (intro vecmove_part) simp_all
    moreover have "ds + d + (w + 1) = ds + between" using 3 by simp
    ultimately have "take na (drop (ds + w + 1) (vecmove ds (ds + d) (?n - (ds + d)) ?t)) = take na (drop (ds + between) ?t)"
      by (simp only: add.assoc)
    then show ?thesis
      using n 3 by (simp add: e take_vecmove)
  qed
qed

definition put_exts :: "u32 \<Rightarrow> (nat \<times> nat) list \<Rightarrow> diskextent2 list" where
  "put_exts version es = map (\<lambda>(l, p). put_extent version l p) es"

lemma map_ext_put: "\<forall>(l, p) \<in> set es. l < 2 ^ 48 \<and> p < 2 ^ 48 \<Longrightarrow> map ext (put_exts version es) = es"
  by (induction es) (auto simp: put_exts_def)

lemma fill_extents_spec:
  "seg_idx rq + n \<le> length (rq_seg rq) \<Longrightarrow> dex + n \<le> length (dl_table dleaf) \<Longrightarrow>
   fill_extents n version dex dleaf rq =
     (let segs = take n (drop (seg_idx rq) (rq_seg rq)) in
      (dex + n, dleaf\<lparr>dl_table := splice dex (put_exts version (seg_exts (rq_start rq) segs)) (dl_table dleaf)\<rparr>,
       rq\<lparr>rq_start := rq_start rq + seg_total_count segs, rq_len := rq_len rq - seg_total_count segs,
          seg_idx := seg_idx rq + n\<rparr>))"
proof (induction n arbitrary: dex dleaf rq)
  case 0
  then show ?case by (simp add: put_exts_def Let_def)
next
  case (Suc n)
  let ?s = "rq_seg rq ! seg_idx rq"
  have "take (Suc n) (drop (seg_idx rq) (rq_seg rq)) = ?s # take n (drop (Suc (seg_idx rq)) (rq_seg rq))"
    using Suc.prems(1) by (simp add: Cons_nth_drop_Suc [symmetric])
  with Suc show ?case
    by (simp add: Let_def put_exts_def put_at_def splice_Cons add.commute add.left_commute)
qed

lemma below_above_length:
  assumes "start \<le> limit"
  shows "length (entries_below start E) + length (entries_above limit E) \<le> length E"
proof -
  have "length (entries_below start E) \<le> length (takeWhile (\<lambda>e. fst e \<le> limit) E)"
    using assms by (induction E) auto
  then show ?thesis by (metis add_le_mono1 length_append takeWhile_dropWhile_id)
qed

lemma entries_above_drop: "drop (length E - length (entries_above limit E)) E = entries_above limit E"
  by (metis (no_types, lifting) append_eq_conv_conj length_append add_diff_cancel_right' takeWhile_dropWhile_id)

lemma exts_of_parts:
  assumes "dl_count d' = ds + length es + na" and "dl_count d' \<le> length (dl_table d')"
    and "map ext (take ds (dl_table d')) = xs" and "take (length es) (drop ds (dl_table d')) = es"
    and "map ext (take na (drop (ds + length es) (dl_table d'))) = zs"
  shows "exts d' = xs @ map ext es @ zs"
proof -
  have "take (ds + length es + na) (dl_table d') =
      take ds (dl_table d') @ take (length es) (drop ds (dl_table d')) @ take na (drop (ds + length es) (dl_table d'))"
    by (simp add: take_add)
  then show ?thesis using assms by (simp add: exts_def)
qed

text \<open>The segments that end up in the leaf: with \<open>rest_segs\<close>, the last one is a temporary hole.\<close>

definition written_segs :: "dleaf_req \<Rightarrow> nat \<Rightarrow> nat \<Rightarrow> segment list" where
  "written_segs rq rest_segs limit =
     (let segs = take (seg_cnt rq - rest_segs - seg_idx rq) (drop (seg_idx rq) (rq_seg rq)) in
      if rest_segs = 0 then segs
      else segs @ [\<lparr>seg_block = 0, seg_count = limit - (rq_start rq + seg_total_count segs), seg_state = BLOCK_SEG_HOLE\<rparr>])"

lemma seg_exts_small: "\<forall>s \<in> set segs. segm_ok s \<Longrightarrow> start + seg_total_count segs < 2 ^ 48 \<Longrightarrow>
    \<forall>(l, p) \<in> set (seg_exts start segs). l < 2 ^ 48 \<and> p < 2 ^ 48"
  by (induction segs arbitrary: start) (force simp: segm_ok_def add.assoc)+

lemma sorted_head_small: "sorted_exts ((a, p) # r) \<Longrightarrow> p < 2 ^ 48"
  by (cases r) auto

lemma write_segments_spec:
  fixes dleaf rq limit rest_segs w
  defines "E \<equiv> exts dleaf" and "start \<equiv> rq_start rq" and "segs \<equiv> written_segs rq rest_segs limit"
    and "m \<equiv> seg_cnt rq - rest_segs - seg_idx rq"
  assumes wf: "wf_leaf epl dleaf" and less: "start < limit" "limit < 2 ^ 48"
    and total: "start + seg_total_count segs = limit" and ok: "\<forall>s \<in> set segs. segm_ok s"
    and w: "length segs = w" "0 < w" and room: "length (entries_below start E) + length (entries_above limit E) + w + 1 \<le> epl"
    and arr: "seg_idx rq + m \<le> length (rq_seg rq)"
  defines "need \<equiv> 1 + length (entries_below start E) + length (entries_above limit E) + w"
  shows "\<exists>ret dleaf'. write_segments version dleaf rq (length (entries_below start E))
      (length E - length (entries_below start E) - length (entries_above limit E)) w rest_segs need limit (lmap E limit) =
      Some (ret, dleaf', rq\<lparr>rq_start := start + seg_total_count (take m (drop (seg_idx rq) (rq_seg rq))),
        rq_len := rq_len rq - seg_total_count (take m (drop (seg_idx rq) (rq_seg rq))), seg_idx := seg_idx rq + m\<rparr>) \<and>
    wf_leaf epl dleaf' \<and> dl_magic dleaf' = dl_magic dleaf \<and> exts dleaf' = overwrite start segs E \<and>
    (if rest_segs = 0 then ret = Write_done else (\<exists>hint. ret = Write_split hint))"
proof -
  let ?t = "dl_table dleaf"
  define ds where "ds = length (entries_below start E)"
  define na where "na = length (entries_above limit E)"
  define between where "between = length E - ds - na"
  define taken where "taken = take m (drop (seg_idx rq) (rq_seg rq))"
  have len: "length E = dl_count dleaf" "length ?t = epl" "dl_count dleaf \<le> epl"
    using wf exts_length [OF wf] by (simp_all add: E_def wf_leaf_def)
  have sum: "ds + between + na = dl_count dleaf"
    using below_above_length [of start limit E] less len(1) by (simp add: ds_def na_def between_def)
  define d1 where "d1 = dleaf2_resize dleaf ds (int (w + 1) - int between)"
  have d1: "dl_count d1 = ds + w + 1 + na" "length (dl_table d1) = epl" "take ds (dl_table d1) = take ds ?t"
    "take na (drop (ds + w + 1) (dl_table d1)) = take na (drop (ds + between) ?t)" "dl_magic d1 = dl_magic dleaf"
    using resize_table [of ds between na dleaf w] sum len room by (simp_all add: d1_def ds_def na_def)
  have R: "ds + na + w + 1 \<le> epl" using room by (simp add: ds_def na_def)
  have lt: "length taken = m" using arr by (simp add: taken_def)
  have segs: "segs = (if rest_segs = 0 then taken else taken @ [\<lparr>seg_block = 0,
      seg_count = limit - (start + seg_total_count taken), seg_state = BLOCK_SEG_HOLE\<rparr>])"
    by (simp add: segs_def written_segs_def taken_def m_def start_def Let_def)
  have wm: "w = m + (if rest_segs = 0 then 0 else 1)" using w(1) lt by (auto simp: segs)
  have fill: "fill_extents m version ds d1 rq =
      (ds + m, d1\<lparr>dl_table := splice ds (put_exts version (seg_exts start taken)) (dl_table d1)\<rparr>,
       rq\<lparr>rq_start := start + seg_total_count taken, rq_len := rq_len rq - seg_total_count taken, seg_idx := seg_idx rq + m\<rparr>)"
    using fill_extents_spec [of rq m ds d1 version] arr wm d1(2) room by (simp add: Let_def taken_def start_def ds_def)
  define ents where "ents = seg_exts start segs @ [(limit, lmap E limit)]"
  have le: "length (put_exts version ents) = w + 1" by (simp add: put_exts_def ents_def w)
  define d2 where "d2 = d1\<lparr>dl_table := splice ds (put_exts version ents) (dl_table d1)\<rparr>"
  have snoc: "(splice ds (put_exts version xs) (dl_table d1))[ds + length xs := put_extent version l p] =
      splice ds (put_exts version (xs @ [(l, p)])) (dl_table d1)" if "ds + length xs < epl" for xs l p
    using that splice_snoc [of ds "put_exts version xs" "dl_table d1"] d1(2) by (simp add: put_exts_def)
  have nd: "need = dl_count d1" using d1(1) by (simp add: need_def ds_def na_def)
  let ?rq = "rq\<lparr>rq_start := start + seg_total_count taken, rq_len := rq_len rq - seg_total_count taken,
      seg_idx := seg_idx rq + m\<rparr>"
  let ?d = "d1\<lparr>dl_table := splice ds (put_exts version (seg_exts start taken)) (dl_table d1)\<rparr>"
  have run: "write_segments version dleaf rq ds between w rest_segs need limit (lmap E limit) =
      (if rest_segs \<noteq> 0
       then Some (Write_split (dleaf2_split_at_center (put_at ?d (ds + m) version (rq_start ?rq) 0)),
              put_at (put_at ?d (ds + m) version (rq_start ?rq) 0) (ds + m + 1) version limit (lmap E limit), ?rq)
       else Some (Write_done, put_at ?d (ds + m) version limit (lmap E limit), ?rq))"
    unfolding write_segments_def Let_def d1_def [symmetric] m_def [symmetric] fill nd by simp
  have "\<exists>ret. write_segments version dleaf rq ds between w rest_segs need limit (lmap E limit) =
      Some (ret, d2, rq\<lparr>rq_start := start + seg_total_count taken, rq_len := rq_len rq - seg_total_count taken,
                        seg_idx := seg_idx rq + m\<rparr>) \<and>
      (if rest_segs = 0 then ret = Write_done else (\<exists>hint. ret = Write_split hint))"
  proof (cases "rest_segs = 0")
    case True
    then have "w = m" "segs = taken" using wm segs by simp_all
    then show ?thesis
      using True run snoc [of "seg_exts start taken" limit "lmap E limit"] lt room d1(1)
      by (simp add: put_at_def d2_def ents_def ds_def na_def)
  next
    case False
    then have "w = m + 1" "seg_exts start segs = seg_exts start taken @ [(start + seg_total_count taken, 0)]"
      using wm segs by (simp_all add: seg_exts_append)
    then show ?thesis
      using False run snoc [of "seg_exts start taken" "start + seg_total_count taken" 0]
        snoc [of "seg_exts start segs" limit "lmap E limit"] lt room d1(1)
      by (simp add: put_at_def d2_def ents_def ds_def na_def)
  qed
  moreover have x2: "exts d2 = overwrite start segs E"
  proof -
    have "exts d2 = entries_below start E @ map ext (put_exts version ents) @ entries_above limit E"
    proof (rule exts_of_parts [where ds = ds and na = na])
      have "map ext (take ds ?t) = take ds E" using sum by (simp add: E_def exts_def take_map min_def)
      moreover have "take ds E = entries_below start E" unfolding ds_def by (rule takeWhile_eq_take [symmetric])
      moreover have "take ds (dl_table d2) = take ds ?t" using d1 R by (simp add: d2_def take_splice)
      ultimately show "map ext (take ds (dl_table d2)) = entries_below start E" by simp
      have "map ext (take na (drop (ds + between) ?t)) = drop (ds + between) E"
        unfolding E_def exts_def sum [symmetric] by (simp add: drop_map drop_take)
      moreover have "ds + between = length E - na" using sum len(1) by simp
      moreover have "take na (drop (ds + length (put_exts version ents)) (dl_table d2)) = take na (drop (ds + between) ?t)"
        using d1 R unfolding le by (simp add: d2_def drop_splice le)
      ultimately show "map ext (take na (drop (ds + length (put_exts version ents)) (dl_table d2))) = entries_above limit E"
        using entries_above_drop [of E limit] by (simp add: na_def)
      show "take (length (put_exts version ents)) (drop ds (dl_table d2)) = put_exts version ents"
        using splice_at [of ds "put_exts version ents" "dl_table d1"] d1 R by (simp add: d2_def le)
      show "dl_count d2 = ds + length (put_exts version ents) + na" using d1(1) unfolding le by (simp add: d2_def)
      show "dl_count d2 \<le> length (dl_table d2)" using d1 R by (simp add: d2_def le)
    qed
    moreover have "map ext (put_exts version ents) = ents"
    proof (rule map_ext_put)
      have "lmap E limit < 2 ^ 48"
        using sorted_above [of E limit] sorted_head_small wf less by (auto simp: wf_leaf_def E_def)
      then show "\<forall>(l, p) \<in> set ents. l < 2 ^ 48 \<and> p < 2 ^ 48"
        using seg_exts_small [OF ok, of start] total less by (simp add: ents_def)
    qed
    ultimately show ?thesis by (simp add: overwrite_def total ents_def)
  qed
  moreover have "wf_leaf epl d2"
  proof -
    have "length (dl_table d2) = epl \<and> dl_count d2 \<le> epl" using d1 R le by (simp add: d2_def)
    moreover have "sorted_exts (exts d2)"
      unfolding x2 using wf ok w less total by (intro overwrite_spec(1)) (auto simp: wf_leaf_def E_def)
    ultimately show ?thesis by (simp add: wf_leaf_def)
  qed
  ultimately show ?thesis
    using d1(5) by (auto simp: ds_def na_def between_def taken_def d2_def)
qed

section \<open>Writing with an allocator\<close>

definition req_ok :: "dleaf_req \<Rightarrow> bool" where
  "req_ok rq \<longleftrightarrow> seg_idx rq < seg_cnt rq \<and> seg_cnt rq \<le> seg_max rq \<and> seg_max rq \<le> length (rq_seg rq) \<and>
     (\<forall>s \<in> set (pending rq). segm_ok s \<and> (seg_state s \<noteq> BLOCK_SEG_HOLE \<longrightarrow> seg_block s \<noteq> 0))"

text \<open>The blocks that are not allocated yet.\<close>

definition hole_blocks :: "dleaf_req \<Rightarrow> nat" where
  "hole_blocks rq = seg_total_count (filter (\<lambda>s. seg_state s = BLOCK_SEG_HOLE) (pending rq))"

text \<open>The segments that a request has behind it since an earlier state.\<close>

definition done_segs :: "dleaf_req \<Rightarrow> dleaf_req \<Rightarrow> segment list" where
  "done_segs rq rq' = take (seg_idx rq' - seg_idx rq) (drop (seg_idx rq) (rq_seg rq'))"

definition leaf_ok :: "nat \<Rightarrow> nat \<Rightarrow> nat \<Rightarrow> dleaf2 \<Rightarrow> bool" where
  "leaf_ok epl key_bottom start dleaf \<longleftrightarrow>
     (if dl_count dleaf = 0 then 0 < epl \<and> length (dl_table dleaf) = epl \<and> key_bottom \<le> start \<and> key_bottom < 2 ^ 48
      else wf_leaf epl dleaf \<and> fst (exts dleaf ! 0) \<le> start)"

lemma init_sentinel_ok:
  fixes version
  assumes "leaf_ok epl key_bottom start dleaf"
  defines "d \<equiv> dleaf2_init_sentinel version dleaf key_bottom"
  shows "wf_leaf epl d" and "fst (exts d ! 0) \<le> start" and "lmap (exts d) l = lmap (exts dleaf) l"
    and "dl_magic d = dl_magic dleaf" and "leaf_ok epl key_bottom start d"
proof -
  have "wf_leaf epl d \<and> fst (exts d ! 0) \<le> start \<and> lmap (exts d) l = lmap (exts dleaf) l \<and> dl_magic d = dl_magic dleaf \<and>
    dl_count d \<noteq> 0"
  proof (cases "dl_count dleaf = 0")
    case True
    then have "length (dl_table dleaf) = epl" "0 < epl" "key_bottom < 2 ^ 48" "key_bottom \<le> start"
      using assms(1) by (simp_all add: leaf_ok_def)
    moreover from this have "exts d = [(key_bottom, 0)]"
      using True by (cases "dl_table dleaf") (auto simp: d_def dleaf2_init_sentinel_def put_at_def exts_def)
    ultimately show ?thesis
      using True by (simp add: wf_leaf_def d_def dleaf2_init_sentinel_def put_at_def) (simp add: exts_def)
  next
    case False
    then show ?thesis using assms(1) by (simp add: d_def dleaf2_init_sentinel_def leaf_ok_def)
  qed
  then show "wf_leaf epl d" and "fst (exts d ! 0) \<le> start" and "lmap (exts d) l = lmap (exts dleaf) l"
    and "dl_magic d = dl_magic dleaf" and "leaf_ok epl key_bottom start d"
    by (simp_all add: leaf_ok_def)
qed

lemma pending_length: "req_ok rq \<Longrightarrow> length (pending rq) = seg_cnt rq - seg_idx rq"
  by (auto simp: req_ok_def pending_def)

lemma seg_total_pos: "\<forall>s \<in> set segs. segm_ok s \<Longrightarrow> segs \<noteq> [] \<Longrightarrow> 0 < seg_total_count segs"
  by (cases segs) (auto simp: segm_ok_def)

lemma seg_total_map: "map seg_count xs = map seg_count ys \<Longrightarrow> seg_total_count xs = seg_total_count ys"
  by (simp add: seg_total_count_def)

text \<open>The written segments, when the allocation left the counts as they are.\<close>

lemma written_ok:
  fixes rq limit rest_segs
  defines "segs \<equiv> written_segs rq rest_segs limit" and "m \<equiv> seg_cnt rq - rest_segs - seg_idx rq"
  assumes ok: "req_ok rq" and limit: "limit = rq_start rq + seg_total_count (pending rq)" "limit < 2 ^ 48"
    and rest: "rest_segs \<le> seg_cnt rq - seg_idx rq"
  shows "rq_start rq + seg_total_count segs = limit" and "\<forall>s \<in> set segs. segm_ok s"
    and "length segs = m + (if rest_segs = 0 then 0 else 1)" and "seg_idx rq + m \<le> length (rq_seg rq)"
    and "take m (drop (seg_idx rq) (rq_seg rq)) = take m (pending rq)"
proof -
  let ?p = "pending rq"
  have lp: "length ?p = seg_cnt rq - seg_idx rq" by (rule pending_length [OF ok])
  have m: "m \<le> length ?p" unfolding m_def lp by simp
  show t: "take m (drop (seg_idx rq) (rq_seg rq)) = take m ?p"
    using m lp by (simp add: pending_def min_def)
  show "seg_idx rq + m \<le> length (rq_seg rq)" using ok by (auto simp: req_ok_def m_def)
  have tot: "seg_total_count ?p = seg_total_count (take m ?p) + seg_total_count (drop m ?p)"
    by (metis append_take_drop_id seg_total_simps(3))
  have okp: "\<forall>s \<in> set ?p. segm_ok s" using ok by (simp add: req_ok_def)
  have s: "segs = (if rest_segs = 0 then take m ?p else take m ?p @
      [\<lparr>seg_block = 0, seg_count = limit - (rq_start rq + seg_total_count (take m ?p)), seg_state = BLOCK_SEG_HOLE\<rparr>])"
    unfolding segs_def written_segs_def m_def [symmetric] t Let_def by simp
  show "length segs = m + (if rest_segs = 0 then 0 else 1)" using m by (simp add: s)
  have all: "rest_segs = 0 \<Longrightarrow> take m ?p = ?p" unfolding m_def using lp by simp
  have "seg_total_count (take m ?p) \<le> seg_total_count ?p" unfolding tot by simp
  moreover have "seg_total_count segs = (if rest_segs = 0 then seg_total_count ?p
      else seg_total_count (take m ?p) + (limit - (rq_start rq + seg_total_count (take m ?p))))"
    by (simp add: s all)
  ultimately show "rq_start rq + seg_total_count segs = limit" unfolding limit(1) by simp
  have "segm_ok \<lparr>seg_block = 0, seg_count = limit - (rq_start rq + seg_total_count (take m ?p)), seg_state = BLOCK_SEG_HOLE\<rparr>"
    if "rest_segs \<noteq> 0"
  proof -
    have "m < length ?p" unfolding m_def lp using that ok by (auto simp: req_ok_def)
    then have "0 < seg_total_count (drop m ?p)" using okp by (intro seg_total_pos) (auto dest: in_set_dropD)
    then have "seg_total_count (take m ?p) < seg_total_count ?p" unfolding tot by simp
    then show ?thesis using limit by (simp add: segm_ok_def)
  qed
  then show "\<forall>s \<in> set segs. segm_ok s" using okp by (auto simp: s dest: in_set_takeD)
qed

text \<open>
  What a write achieves: outside the range of the request nothing changes; the segments it
  has behind it are mapped; it is done when nothing is left of the request.
\<close>

definition write_ok :: "nat \<Rightarrow> dleaf2 \<Rightarrow> dleaf_req \<Rightarrow> write_ret \<Rightarrow> dleaf2 \<Rightarrow> dleaf_req \<Rightarrow> bool" where
  "write_ok epl dleaf rq ret dleaf' rq' \<longleftrightarrow>
     wf_leaf epl dleaf' \<and> dl_magic dleaf' = dl_magic dleaf \<and> fst (exts dleaf' ! 0) \<le> rq_start rq \<and>
     (if \<exists>e. ret = Write_error e then lmap (exts dleaf') = lmap (exts dleaf)
      else rq_start rq' = rq_start rq + seg_total_count (done_segs rq rq') \<and>
        (\<forall>s \<in> set (done_segs rq rq'). segm_ok s \<and> seg_block s \<noteq> 0) \<and>
        (ret = Write_done \<longrightarrow> rq_len rq' = 0) \<and>
        (\<forall>l. l < rq_start rq \<or> rq_start rq' + rq_len rq' \<le> l \<longrightarrow> lmap (exts dleaf') l = lmap (exts dleaf) l) \<and>
        (\<forall>l. rq_start rq \<le> l \<and> l < rq_start rq' \<longrightarrow>
           lmap (exts dleaf') l = seg_map (rq_start rq) (done_segs rq rq') l))"

lemma overwrite_first: "segs \<noteq> [] \<Longrightarrow> fst (overwrite start segs E ! 0) \<le> start"
  by (cases segs; cases E) (auto simp: overwrite_def)

lemma seg_map_append: "start \<le> l \<Longrightarrow> l < start + seg_total_count xs \<Longrightarrow> seg_map start (xs @ ys) l = seg_map start xs l"
  by (induction xs arbitrary: start) auto

text \<open>The pass that writes, behind a successful allocation.\<close>

lemma write_pass:
  fixes rq rq' w rest_segs
  defines "start \<equiv> rq_start rq" and "limit \<equiv> rq_start rq + rq_len rq" and "w0 \<equiv> seg_cnt rq - seg_idx rq"
    and "m \<equiv> seg_cnt rq' - rest_segs - seg_idx rq'"
  assumes wf: "wf_leaf epl d" and first: "fst (exts d ! 0) \<le> start" and ok: "req_ok rq" "req_ok rq'"
    and len: "rq_len rq = seg_total_count (pending rq)" "limit < 2 ^ 48"
    and same: "seg_idx rq' = seg_idx rq" "rq_start rq' = rq_start rq" "seg_cnt rq' = seg_cnt rq" "rq_len rq' = rq_len rq"
      "map seg_count (pending rq') = map seg_count (pending rq)"
    and alloc: "\<forall>s \<in> set (take w (pending rq')). seg_block s \<noteq> 0"
    and w: "0 < w" "w \<le> w0" "rest_segs = (if w = w0 then 0 else w0 - w + 1)"
    and room: "length (entries_below start (exts d)) + length (entries_above limit (exts d)) + w + 1 \<le> epl"
  shows "\<exists>ret d' rq''. write_segments version d rq' (length (entries_below start (exts d)))
      (length (exts d) - length (entries_below start (exts d)) - length (entries_above limit (exts d))) w rest_segs
      (1 + length (entries_below start (exts d)) + length (entries_above limit (exts d)) + w) limit (lmap (exts d) limit) =
      Some (ret, d', rq'') \<and> write_ok epl d rq ret d' rq'' \<and> set (done_segs rq rq'') \<subseteq> set (take w (pending rq'))"
proof -
  let ?segs = "written_segs rq' rest_segs limit" and ?p = "pending rq'"
  have tot: "seg_total_count ?p = rq_len rq" using seg_total_map [OF same(5)] len(1) by simp
  have lw: "length ?p = w0" using pending_length [OF ok(2)] same by (simp add: w0_def)
  have rest: "rest_segs \<le> seg_cnt rq' - seg_idx rq'" using w same by (auto simp: w0_def)
  have limit': "limit = rq_start rq' + seg_total_count ?p" using tot same by (simp add: limit_def)
  note W = written_ok [OF ok(2) limit' len(2) rest, folded m_def]
  have pos: "0 < rq_len rq"
    using ok(1) len(1) pending_length [OF ok(1)] by (auto intro!: seg_total_pos simp: req_ok_def)
  have m: "m = (if rest_segs = 0 then w else w - 1)" using w same by (auto simp: m_def w0_def)
  then have lens: "length ?segs = w" using W(3) w(1) by simp
  let ?taken = "take m (drop (seg_idx rq') (rq_seg rq'))"
  let ?rq = "rq'\<lparr>rq_start := rq_start rq' + seg_total_count ?taken, rq_len := rq_len rq' - seg_total_count ?taken,
      seg_idx := seg_idx rq' + m\<rparr>"
  have "start < limit" using pos by (simp add: start_def limit_def)
  with wf len(2) W lens w(1) room same obtain ret d' where
    run: "write_segments version d rq' (length (entries_below start (exts d)))
      (length (exts d) - length (entries_below start (exts d)) - length (entries_above limit (exts d))) w rest_segs
      (1 + length (entries_below start (exts d)) + length (entries_above limit (exts d)) + w) limit (lmap (exts d) limit) =
      Some (ret, d', ?rq)"
    and d': "wf_leaf epl d'" "dl_magic d' = dl_magic d" "exts d' = overwrite start ?segs (exts d)"
      "if rest_segs = 0 then ret = Write_done else (\<exists>hint. ret = Write_split hint)"
    using write_segments_spec [of epl d rq' limit rest_segs w version] by (auto simp: start_def m_def)
  have dn: "done_segs rq ?rq = take m ?p" using W(5) same by (simp add: done_segs_def)
  have ne: "?segs \<noteq> []" using lens w(1) by auto
  have sp: "lmap (exts d') l = (if start \<le> l \<and> l < limit then seg_map start ?segs l else lmap (exts d) l)" for l
    using overwrite_spec(2) [of "exts d" ?segs start l] W(1,2) ne len(2) wf same by (simp add: d'(3) wf_leaf_def start_def)
  have segs: "\<exists>r. ?segs = take m ?p @ r" unfolding written_segs_def m_def [symmetric] W(5) Let_def by simp
  have mw: "set (take m ?p) \<subseteq> set (take w ?p)" using m by (intro set_take_subset_set_take) simp
  have tm: "seg_total_count (take m ?p) \<le> seg_total_count ?p"
    by (metis append_take_drop_id le_add1 seg_total_simps(3))
  have fin: "rest_segs = 0 \<Longrightarrow> take m ?p = ?p" using m w lw by (auto split: if_splits)
  have low: "rq_start ?rq = rq_start rq + seg_total_count (take m ?p)" using W(5) same by simp
  have up: "rq_start ?rq + rq_len ?rq = limit" using W(5) same tm tot by (simp add: limit_def)
  have good: "\<forall>s \<in> set (take m ?p). segm_ok s \<and> seg_block s \<noteq> 0"
    using ok(2) alloc mw by (auto simp: req_ok_def dest: in_set_takeD)
  have zero: "ret = Write_done \<Longrightarrow> rq_len ?rq = 0"
    using d'(4) fin W(5) tot same by (auto split: if_splits)
  have in_range: "lmap (exts d') l = seg_map (rq_start rq) (take m ?p) l"
    if "rq_start rq \<le> l" "l < rq_start rq + seg_total_count (take m ?p)" for l
  proof -
    have "l < limit" using that tm tot by (simp add: limit_def)
    then show ?thesis using that segs sp [of l] seg_map_append by (auto simp: start_def)
  qed
  have out: "lmap (exts d') l = lmap (exts d) l" if "l < rq_start rq \<or> limit \<le> l" for l
    using sp [of l] that by (auto simp: start_def)
  have fst: "fst (exts d' ! 0) \<le> rq_start rq" using overwrite_first [OF ne] by (simp add: d'(3) start_def)
  have "write_ok epl d rq ret d' ?rq"
    unfolding write_ok_def dn up using d'(1,2,4) low good zero in_range out fst
    by (auto split: if_splits)
  then show ?thesis using run mw dn by metis
qed

text \<open>How many segments fit into the leaf.\<close>

lemma split_room:
  fixes a b w w0 epl need :: nat
  assumes "need = 1 + a + b + w0" and "\<not> (epl < need \<and> w0 \<le> need - epl)" and "w = w0 - (need - epl)"
  shows "need - (need - epl) = 1 + a + b + w" and "a + b + w + 1 \<le> epl"
    and "(if epl < need then need - epl + 1 else 0) = (if w = w0 then 0 else w0 - w + 1)" and "w \<le> w0"
  using assms by auto

declare dleaf2_write.simps [simp del]

definition owns :: "(segment \<Rightarrow> bool) \<Rightarrow> dleaf_req \<Rightarrow> bool" where
  "owns owned rq \<longleftrightarrow> (\<forall>seg \<in> set (pending rq). seg_state seg \<noteq> BLOCK_SEG_HOLE \<longrightarrow> owned seg)"

text \<open>
  The contract of \<open>seg_alloc\<close>: \<open>sound\<close> is the invariant of its state, \<open>owned\<close> says that the
  blocks of a segment are allocated, and \<open>later\<close> relates the states before and after.
\<close>

locale seg_allocator =
  fixes seg_alloc :: "nat \<Rightarrow> dleaf_req \<Rightarrow> 's \<Rightarrow> alloc_ret \<times> dleaf_req \<times> 's" and sound :: "'s \<Rightarrow> bool"
    and owned :: "'s \<Rightarrow> segment \<Rightarrow> bool" and later :: "'s \<Rightarrow> 's \<Rightarrow> bool"
  assumes keeps: "sound s \<Longrightarrow> req_ok rq \<Longrightarrow> 0 < w \<Longrightarrow> seg_idx rq + w \<le> seg_cnt rq \<Longrightarrow>
      seg_alloc w rq s = (ret, rq', s') \<Longrightarrow>
      sound s' \<and> req_ok rq' \<and> seg_idx rq' = seg_idx rq \<and> rq_start rq' = rq_start rq \<and>
      seg_total_count (pending rq') \<le> seg_total_count (pending rq) \<and> (owns (owned s) rq \<longrightarrow> owns (owned s') rq') \<and>
      (ret \<noteq> Alloc_error ASSERT \<longrightarrow> later s s')"
    and allocates: "sound s \<Longrightarrow> req_ok rq \<Longrightarrow> 0 < w \<Longrightarrow> seg_idx rq + w \<le> seg_cnt rq \<Longrightarrow>
      seg_alloc w rq s = (Alloc_ok, rq', s') \<Longrightarrow>
      seg_cnt rq' = seg_cnt rq \<and> rq_len rq' = rq_len rq \<and> map seg_count (pending rq') = map seg_count (pending rq) \<and>
      (\<forall>seg \<in> set (take w (pending rq')). seg_state seg \<noteq> BLOCK_SEG_HOLE)"
    and progress: "sound s \<Longrightarrow> req_ok rq \<Longrightarrow> 0 < w \<Longrightarrow> seg_idx rq + w \<le> seg_cnt rq \<Longrightarrow>
      seg_alloc w rq s = (Alloc_partial, rq', s') \<Longrightarrow> hole_blocks rq' < hole_blocks rq"
    and later_refl: "later s s" and later_trans: "later s s1 \<Longrightarrow> later s1 s2 \<Longrightarrow> later s s2"
begin

lemma write_correct:
  assumes "sound s" and "req_ok rq" and "rq_len rq = seg_total_count (pending rq)"
    and "rq_start rq + rq_len rq < 2 ^ 48" and "leaf_ok epl key_bottom (rq_start rq) dleaf" and "owns (owned s) rq"
  shows "case dleaf2_write fuel seg_alloc version epl key_bottom dleaf rq s of
      Some (ret, dleaf', rq', s') \<Rightarrow> sound s' \<and> write_ok epl dleaf rq ret dleaf' rq' \<and>
        (ret \<noteq> Write_error ASSERT \<longrightarrow> later s s') \<and>
        ((\<nexists>e. ret = Write_error e) \<longrightarrow> (\<forall>seg \<in> set (done_segs rq rq'). owned s' seg))
    | None \<Rightarrow> hole_blocks rq < fuel \<longrightarrow>
        (\<exists>s1 w rq1 rq' s'. later s s1 \<and> sound s1 \<and> req_ok rq1 \<and> seg_alloc w rq1 s1 = (Alloc_error ENOSPC, rq', s'))"
  using assms
proof (induction fuel arbitrary: dleaf rq s)
  case (Suc fuel)
  note prems = Suc.prems
  define d where "d = dleaf2_init_sentinel version dleaf key_bottom"
  note d = init_sentinel_ok [OF prems(5), of version, folded d_def]
  let ?start = "rq_start rq" and ?limit = "rq_start rq + rq_len rq" and ?E = "exts d"
  define w0 where "w0 = seg_cnt rq - seg_idx rq"
  define need where "need = 1 + length (entries_below ?start ?E) + length (entries_above ?limit ?E) + w0"
  define w where "w = w0 - (need - epl)"
  define rest where "rest = (if epl < need then need - epl + 1 else 0)"
  have w0: "0 < w0" using prems(2) by (simp add: w0_def req_ok_def)
  have "0 < rq_len rq"
    using prems(2,3) pending_length [OF prems(2)] by (auto intro!: seg_total_pos simp: req_ok_def)
  then have range: "write_range d ?start ?limit = Some (length (entries_below ?start ?E),
      length ?E - length (entries_below ?start ?E) - length (entries_above ?limit ?E), lmap ?E ?limit,
      1 + length (entries_below ?start ?E) + length (entries_above ?limit ?E))"
    using write_range_spec [OF d(1,2), of ?limit] by simp
  have ne: "(rq_len rq \<noteq> seg_total_count (pending rq)) = False" using prems(3) by simp
  have unf: "dleaf2_write (Suc fuel) seg_alloc version epl key_bottom dleaf rq s =
     (if epl < need \<and> w0 \<le> need - epl
      then Some (Write_split (if length (entries_below ?start ?E) + 1 < dl_count d - 1
                              then logical_at d (length (entries_below ?start ?E) + 1) else ?start), d, rq, s)
      else case seg_alloc w rq s of
        (ret, rq', s') \<Rightarrow>
          (case ret of
             Alloc_error e \<Rightarrow> if e = ENOSPC then None else Some (Write_error e, d, rq', s')
           | Alloc_partial \<Rightarrow> dleaf2_write fuel seg_alloc version epl key_bottom d (rq'\<lparr>rq_len := seg_total_count (pending rq')\<rparr>) s'
           | Alloc_ok \<Rightarrow>
               (case write_segments version d rq' (length (entries_below ?start ?E))
                       (length ?E - length (entries_below ?start ?E) - length (entries_above ?limit ?E)) w rest
                       (need - (need - epl)) ?limit (lmap ?E ?limit) of
                  None \<Rightarrow> None
                | Some (ret, dleaf, rq) \<Rightarrow> Some (ret, dleaf, rq, s'))))"
    unfolding dleaf2_write.simps Let_def d_def [symmetric] w0_def [symmetric] ne if_False range option.case prod.case
      need_def [symmetric] w_def [symmetric] rest_def [symmetric] by (rule refl)
  have same: "write_ok epl d rq ret d' rq' \<longleftrightarrow> write_ok epl dleaf rq ret d' rq'" for ret d' rq'
  proof -
    have "lmap (exts d) = lmap (exts dleaf)" using d(3) by (intro ext)
    then show ?thesis by (simp add: write_ok_def d(4))
  qed
  show ?case
  proof (cases "epl < need \<and> w0 \<le> need - epl")
    case True
    then obtain hint where "dleaf2_write (Suc fuel) seg_alloc version epl key_bottom dleaf rq s = Some (Write_split hint, d, rq, s)"
      unfolding unf by simp
    then show ?thesis using prems(1) d(1,2) later_refl by (simp add: same [symmetric]) (simp add: write_ok_def done_segs_def)
  next
    case False
    then have w: "0 < w" "w \<le> w0" using w0 by (auto simp: w_def)
    obtain ret rq' s' where al: "seg_alloc w rq s = (ret, rq', s')" by (rule prod_cases3)
    have run: "dleaf2_write (Suc fuel) seg_alloc version epl key_bottom dleaf rq s =
       (case ret of
          Alloc_error e \<Rightarrow> if e = ENOSPC then None else Some (Write_error e, d, rq', s')
        | Alloc_partial \<Rightarrow> dleaf2_write fuel seg_alloc version epl key_bottom d (rq'\<lparr>rq_len := seg_total_count (pending rq')\<rparr>) s'
        | Alloc_ok \<Rightarrow>
            (case write_segments version d rq' (length (entries_below ?start ?E))
                    (length ?E - length (entries_below ?start ?E) - length (entries_above ?limit ?E)) w rest
                    (need - (need - epl)) ?limit (lmap ?E ?limit) of
               None \<Rightarrow> None
             | Some (ret, dleaf, rq) \<Rightarrow> Some (ret, dleaf, rq, s')))"
      unfolding unf if_not_P [OF False] al prod.case by (rule refl)
    have bound: "seg_idx rq + w \<le> seg_cnt rq" using w by (simp add: w0_def)
    note K = keeps [OF prems(1,2) w(1) bound al]
    show ?thesis
    proof (cases ret)
      case Alloc_ok
      note A = allocates [OF prems(1,2) w(1) bound al [unfolded Alloc_ok]]
      have F: "need - (need - epl) = 1 + length (entries_below ?start ?E) + length (entries_above ?limit ?E) + w"
        "length (entries_below ?start ?E) + length (entries_above ?limit ?E) + w + 1 \<le> epl"
        "rest = (if w = seg_cnt rq - seg_idx rq then 0 else seg_cnt rq - seg_idx rq - w + 1)"
        "w \<le> seg_cnt rq - seg_idx rq"
        using split_room [OF need_def False w_def, folded rest_def] by (simp_all add: w0_def)
      have S: "req_ok rq'" "seg_idx rq' = seg_idx rq" "rq_start rq' = rq_start rq" "seg_cnt rq' = seg_cnt rq"
        "rq_len rq' = rq_len rq" "map seg_count (pending rq') = map seg_count (pending rq)"
        using K A by simp_all
      have S7: "\<forall>seg \<in> set (take w (pending rq')). seg_block seg \<noteq> 0"
        and own: "\<forall>seg \<in> set (take w (pending rq')). owned s' seg"
        using K A prems(6) by (auto simp: req_ok_def owns_def dest: in_set_takeD)
      obtain ret' d' rq'' where
        "write_segments version d rq' (length (entries_below ?start ?E))
            (length ?E - length (entries_below ?start ?E) - length (entries_above ?limit ?E)) w rest
            (need - (need - epl)) ?limit (lmap ?E ?limit) = Some (ret', d', rq'')"
        "write_ok epl d rq ret' d' rq''" "set (done_segs rq rq'') \<subseteq> set (take w (pending rq'))"
        unfolding F(1)
        using write_pass [OF d(1,2) prems(2) S(1) prems(3,4) S(2-6) S7 w(1) F(4,3,2), of version] by blast
      moreover from this have "\<forall>seg \<in> set (done_segs rq rq''). owned s' seg" using own by blast
      ultimately show ?thesis using run K same by (simp add: Alloc_ok)
    next
      case Alloc_partial
      let ?rq = "rq'\<lparr>rq_len := seg_total_count (pending rq')\<rparr>"
      have p: "pending ?rq = pending rq'" by (simp add: pending_def)
      have "hole_blocks ?rq < hole_blocks rq"
        using progress [OF prems(1,2) w(1) bound al [unfolded Alloc_partial]] by (simp add: hole_blocks_def p)
      moreover have "write_ok epl d ?rq r d' rq'' \<longleftrightarrow> write_ok epl dleaf rq r d' rq''" "done_segs ?rq rq'' = done_segs rq rq''"
          for r d' rq''
        using K by (simp_all add: same [symmetric]) (simp_all add: write_ok_def done_segs_def)
      moreover have "later s s'" using K by (simp add: Alloc_partial)
      moreover have "case dleaf2_write fuel seg_alloc version epl key_bottom d ?rq s' of
          Some (ret, dleaf', rq', s2) \<Rightarrow> sound s2 \<and> write_ok epl d ?rq ret dleaf' rq' \<and>
            (ret \<noteq> Write_error ASSERT \<longrightarrow> later s' s2) \<and>
            ((\<nexists>e. ret = Write_error e) \<longrightarrow> (\<forall>seg \<in> set (done_segs ?rq rq'). owned s2 seg))
        | None \<Rightarrow> hole_blocks ?rq < fuel \<longrightarrow>
            (\<exists>s1 w rq1 rq' s2. later s' s1 \<and> sound s1 \<and> req_ok rq1 \<and> seg_alloc w rq1 s1 = (Alloc_error ENOSPC, rq', s2))"
        using K prems d(5) by (intro Suc.IH) (auto simp: p req_ok_def owns_def)
      ultimately show ?thesis using run later_trans [of s s']
        by (auto simp: Alloc_partial split: option.splits) (metis less_trans_Suc)+
    next
      case (Alloc_error e)
      have "write_ok epl d rq (Write_error e) d rq'" using d(1,2) by (simp add: write_ok_def)
      moreover have "ENOSPC \<noteq> ASSERT" by simp
      ultimately show ?thesis using run K same al prems(1,2) later_refl unfolding Alloc_error
        by (cases "e = ENOSPC") (simp, blast, simp)
    qed
  qed
qed (simp add: dleaf2_write.simps)

end

end
