(* ===== verification/Dleafmap.thy ===== *)
theory Dleafmap
  imports Dleaf
begin

text \<open>
  The other operations on the leaves of the file index btrees as operations on the file that
  a leaf maps: split and merge keep it, a chop cuts it off and frees exactly the blocks
  behind the cut, a read reports it.
\<close>

section \<open>Cutting lists of extents\<close>

lemma sorted_small: "sorted_exts ((a, p) # ys) \<Longrightarrow> a < 2 ^ 48"
proof (induction ys arbitrary: a p)
  case (Cons y ys)
  obtain b q where "y = (b, q)" by (cases y)
  with Cons have "a < b" "b < 2 ^ 48" by auto
  then show ?case by simp
qed simp

lemma sorted_cut: "sorted_exts (xs @ (a, p) # ys) \<longleftrightarrow> sorted_exts (xs @ [(a, 0)]) \<and> sorted_exts ((a, p) # ys)"
proof (induction xs)
  case Nil
  then show ?case using sorted_small by auto
next
  case (Cons x xs)
  obtain b q where x: "x = (b, q)" by (cases x)
  show ?case
  proof (cases xs)
    case Nil
    then show ?thesis using Cons x by auto
  next
    case (Cons y zs)
    obtain c r where "y = (c, r)" by (cases y)
    then show ?thesis using Cons.IH Cons x by auto
  qed
qed

lemma lmap_cut: "sorted_exts (xs @ (a, p) # ys) \<Longrightarrow>
    lmap (xs @ (a, p) # ys) l = (if l < a then lmap (xs @ [(a, 0)]) l else lmap ((a, p) # ys) l)"
proof (induction xs)
  case Nil
  then show ?case using lmap_below [OF Nil, of l] by (cases ys) auto
next
  case (Cons x xs)
  obtain b q where x: "x = (b, q)" by (cases x)
  show ?case
  proof (cases xs)
    case Nil
    then show ?thesis using Cons x by auto
  next
    case (Cons y zs)
    obtain c r where y: "y = (c, r)" by (cases y)
    have s: "sorted_exts (xs @ (a, p) # ys)" using Cons.prems Cons x y by simp
    have "c < a" using s Cons y sorted_exts_less [of c r "zs @ (a, p) # ys" "(a, p)"] by simp
    then show ?thesis using Cons.IH [OF s] Cons x y by auto
  qed
qed

lemma nth_split: "i < length E \<Longrightarrow> E = take i E @ (fst (E ! i), snd (E ! i)) # drop (Suc i) E"
  by (simp add: id_take_nth_drop)

lemma lmap_sentinel: "sorted_exts (xs @ [(a, 0)]) \<Longrightarrow> a \<le> l \<Longrightarrow> lmap (xs @ [(a, 0)]) l = 0"
  using lmap_cut [of xs a 0 "[]" l] by simp

section \<open>Split\<close>

lemma lookup_exts:
  assumes wf: "wf_leaf epl dleaf" and first: "fst (exts dleaf ! 0) \<le> index"
  shows "\<exists>i. dleaf2_lookup_index dleaf index = Some i \<and> i \<le> length (exts dleaf) \<and> length (exts dleaf) = dl_count dleaf \<and>
      (i < length (exts dleaf) \<longrightarrow> fst (exts dleaf ! i) \<le> index \<and>
         (Suc i < length (exts dleaf) \<longrightarrow> index < fst (exts dleaf ! Suc i))) \<and>
      (i = length (exts dleaf) \<longrightarrow> fst (last (exts dleaf)) < index)"
  using lookup_spec [OF wf first] exts_length [OF wf] by auto

lemma exts_take: "n \<le> dl_count dleaf \<Longrightarrow> exts (dleaf\<lparr>dl_count := n\<rparr>) = take n (exts dleaf)"
  by (simp add: exts_def take_map min_def)

lemma split_spec:
  assumes wf: "wf_leaf epl from" and hint: "fst (exts from ! 0) \<le> hint" and three: "3 \<le> dl_count from"
    and into: "length (dl_table into) = epl" "dl_count into = 0"
  shows "\<exists>key f i. dleaf2_split hint from into = Some (key, f, i) \<and>
    wf_leaf epl f \<and> (dl_count i = 0 \<or> wf_leaf epl i \<and> fst (exts i ! 0) = key) \<and> length (dl_table i) = epl \<and>
    (\<forall>l. lmap (exts from) l = (if l < key then lmap (exts f) l else lmap (exts i) l))"
proof -
  let ?E = "exts from"
  have srt: "sorted_exts ?E" and tl: "length (dl_table from) = epl" "dl_count from \<le> epl" using wf by (simp_all add: wf_leaf_def)
  obtain d where d: "dleaf2_lookup_index from hint = Some d" "d \<le> length ?E" "length ?E = dl_count from"
    using lookup_exts [OF wf hint] by blast
  have at: "i < length ?E \<Longrightarrow> ?E ! i = (logical_at from i, physical_at from i)" for i
    using wf d exts_nth [of i "from"] by (simp add: wf_leaf_def)
  have last: "?E \<noteq> []" "snd (last ?E) = 0" using sorted_exts_last [OF srt] by simp_all
  show ?thesis
  proof (cases "d = length ?E")
    case True
    have "last ?E = (logical_at from (d - 1), physical_at from (d - 1))"
      using last True at [of "d - 1"] three d by (simp add: last_conv_nth)
    then have "dleaf2_split hint from into = Some (fst (last ?E), from, into)"
      using d True three last by (simp add: dleaf2_split_def Let_def)
    moreover have "lmap ?E l = 0" if "fst (last ?E) \<le> l" for l using lmap_above [OF srt that] .
    ultimately show ?thesis using wf into by (auto simp: exts_def)
  next
    case False
    then have lt: "d < length ?E" using d by simp
    let ?a = "logical_at from d" and ?p = "physical_at from d"
    let ?i = "into\<lparr>dl_count := dl_count from - d, dl_table := splice 0 (take (dl_count from - d) (drop d (dl_table from))) (dl_table into)\<rparr>"
    let ?v = "ex_version (get_extent (dl_table from ! d))"
    let ?f = "put_at (from\<lparr>dl_count := d + 1\<rparr>) d ?v ?a 0"
    have run: "dleaf2_split hint from into = Some (?a, ?f, ?i)"
      using d lt three by (simp add: dleaf2_split_def Let_def)
    have E: "?E = take d ?E @ (?a, ?p) # drop (Suc d) ?E" using nth_split [OF lt] at [OF lt] by simp
    have i: "exts ?i = (?a, ?p) # drop (Suc d) ?E"
    proof -
      have "exts ?i = map ext (take (dl_count from - d) (drop d (dl_table from)))"
        using tl into d lt by (simp add: exts_def splice_def)
      also have "\<dots> = drop d ?E" by (simp add: exts_def drop_map drop_take)
      finally show ?thesis using at [OF lt] lt by (simp add: Cons_nth_drop_Suc [symmetric])
    qed
    have f: "exts ?f = take d ?E @ [(?a, 0)]"
    proof -
      have "?a < 2 ^ 48" using ext_small(1) [of "dl_table from ! d"] by (simp add: ext_def)
      then have "exts ?f = (take (Suc d) ?E)[d := (?a, 0)]"
        using lt d tl by (simp add: exts_def put_at_def take_map min_def take_update_swap map_update)
      then show ?thesis using lt by (simp add: take_Suc_conv_app_nth list_update_append min_def)
    qed
    have "sorted_exts (exts ?f)" "sorted_exts (exts ?i)" using srt sorted_cut E f i by metis+
    then have "wf_leaf epl ?f" "wf_leaf epl ?i"
      using tl into d lt by (auto simp: wf_leaf_def put_at_def)
    moreover have "lmap ?E l = (if l < ?a then lmap (exts ?f) l else lmap (exts ?i) l)" for l
      using lmap_cut srt E f i by metis
    ultimately show ?thesis using run i tl into d by (intro exI [of _ ?a] exI [of _ ?f] exI [of _ ?i]) (simp add: wf_leaf_def)
  qed
qed

section \<open>Merge\<close>

text \<open>The mapping of two leaves of which the first ends before the second one starts.\<close>

definition joined :: "(nat \<times> nat) list \<Rightarrow> (nat \<times> nat) list \<Rightarrow> nat \<Rightarrow> nat" where
  "joined E F l = (if lmap E l \<noteq> 0 then lmap E l else lmap F l)"

lemma joined_cut:
  assumes "sorted_exts (xs @ [(c, 0)])" and "sorted_exts F" and "c \<le> fst (hd F)"
    and "sorted_exts (xs @ (c, q) # ys)" and "\<And>l. c \<le> l \<Longrightarrow> lmap ((c, q) # ys) l = lmap F l"
  shows "lmap (xs @ (c, q) # ys) l = joined (xs @ [(c, 0)]) F l"
proof (cases "l < c")
  case True
  then show ?thesis using lmap_cut [OF assms(4), of l] lmap_below [OF assms(2), of l] assms(3) by (simp add: joined_def)
next
  case False
  then show ?thesis
    using lmap_cut [OF assms(4), of l] assms(5) [of l] lmap_sentinel [OF assms(1)] by (simp add: joined_def)
qed

lemma merge_lists:
  assumes E: "sorted_exts (xs @ [(c, 0)])" and F: "sorted_exts ((a, p) # ys)" "ys \<noteq> []" and le: "c \<le> a"
  defines "G \<equiv> (if p = 0 then xs @ (c, 0) # ys else if c = a then xs @ (a, p) # ys else xs @ (c, 0) # (a, p) # ys)"
  shows "sorted_exts G" and "lmap G l = joined (xs @ [(c, 0)]) ((a, p) # ys) l"
proof -
  obtain b q zs where ys: "ys = (b, q) # zs" using F(2) by (cases ys) auto
  have ab: "a < b" "p + (b - a) \<le> 2 ^ 48" "sorted_exts ((b, q) # zs)"
    using F(1) by (auto simp: ys)
  have small: "b < 2 ^ 48" using sorted_small [OF ab(3)] .
  consider "p = 0" | "p \<noteq> 0" "c = a" | "p \<noteq> 0" "c < a" using le by linarith
  then have "sorted_exts G \<and> (\<forall>l. lmap G l = joined (xs @ [(c, 0)]) ((a, p) # ys) l)"
  proof cases
    case 1
    have "sorted_exts ((c, 0) # ys)" using ab small le by (auto simp: ys)
    then have s: "sorted_exts (xs @ (c, 0) # ys)" using E sorted_cut by blast
    moreover have "lmap ((c, 0) # ys) l = lmap ((a, p) # ys) l" for l by (simp add: ys 1)
    ultimately show ?thesis using joined_cut [OF E F(1) _ s] le 1 by (simp add: G_def)
  next
    case 2
    then have s: "sorted_exts (xs @ (c, p) # ys)" using E F(1) sorted_cut by blast
    with 2 show ?thesis using joined_cut [OF E F(1) _ s] by (simp add: G_def)
  next
    case 3
    have "sorted_exts ((c, 0) # (a, p) # ys)" using 3 F(1) ab small by simp
    then have s: "sorted_exts (xs @ (c, 0) # (a, p) # ys)" using E sorted_cut by blast
    moreover have "lmap ((c, 0) # (a, p) # ys) l = lmap ((a, p) # ys) l" if "c \<le> l" for l
      using lmap_below [OF F(1), of l] by simp
    ultimately show ?thesis using joined_cut [OF E F(1) _ s] 3 by (simp add: G_def)
  qed
  then show "sorted_exts G" and "lmap G l = joined (xs @ [(c, 0)]) ((a, p) # ys) l" by simp_all
qed

lemma exts_splice_end:
  assumes "dl_count d = n + k" and "n + k \<le> length t" and "dl_table d = splice n es t" and "length es = k"
  shows "exts d = map ext (take n t) @ map ext es"
  using assms by (simp add: exts_def splice_def min_def)

lemma merge_spec:
  assumes into: "wf_leaf epl into" and frm: "wf_leaf epl frm" and le: "fst (last (exts into)) \<le> fst (exts frm ! 0)"
  shows "\<exists>b i f. dleaf2_merge epl into frm = Some (b, i, f) \<and> wf_leaf epl i \<and>
    (if b then (\<forall>l. lmap (exts i) l = joined (exts into) (exts frm) l) else i = into \<and> f = frm)"
proof (cases "dl_count frm \<le> 1")
  case True
  have "lmap (exts frm) l = 0" for l
  proof -
    have "length (exts frm) \<le> 1" using True exts_length [OF frm] by simp
    then show ?thesis by (cases "exts frm" rule: lmap.cases [of "(_, l)"]) auto
  qed
  with True into show ?thesis by (intro exI [of _ True] exI [of _ into] exI [of _ frm]) (simp add: dleaf2_merge_def joined_def)
next
  case False
  let ?E = "exts into" and ?F = "exts frm" and ?n = "dl_count into" and ?m = "dl_count frm"
  have srt: "sorted_exts ?E" "sorted_exts ?F" and tl: "length (dl_table into) = epl" "?n \<le> epl" "length (dl_table frm) = epl" "?m \<le> epl"
    using into frm by (simp_all add: wf_leaf_def)
  have len: "length ?E = ?n" "length ?F = ?m" using exts_length into frm by blast+
  have "?n \<noteq> 0" using sorted_exts_last [OF srt(1)] len(1) by (metis list.size(3) length_0_conv)
  have atE: "?E ! i = (logical_at into i, physical_at into i)" if "i < ?n" for i
    using tl that by (intro exts_nth) simp_all
  have atF: "?F ! i = (logical_at frm i, physical_at frm i)" if "i < ?m" for i
    using tl that by (intro exts_nth) simp_all
  have "last ?E = ?E ! (?n - 1)" using sorted_exts_last [OF srt(1)] len by (simp add: last_conv_nth)
  also have "\<dots> = (logical_at into (?n - 1), physical_at into (?n - 1))" using \<open>?n \<noteq> 0\<close> by (intro atE) simp
  finally have lastE: "last ?E = (logical_at into (?n - 1), physical_at into (?n - 1))" .
  then have p0: "physical_at into (?n - 1) = 0" using sorted_exts_last [OF srt(1)] by simp
  define c where "c = logical_at into (?n - 1)"
  define a where "a = logical_at frm 0"
  define p where "p = physical_at frm 0"
  have E: "?E = take (?n - 1) ?E @ [(c, 0)]"
    using lastE p0 sorted_exts_last [OF srt(1)] len by (metis c_def append_butlast_last_id butlast_conv_take)
  have F: "?F = (a, p) # drop 1 ?F" "drop 1 ?F \<noteq> []"
    using atF [of 0] False len by (cases ?F; auto simp: a_def p_def)+
  have "c \<le> a" using le lastE atF [of 0] False by (simp add: c_def a_def)
  note G = merge_lists [of "take (?n - 1) ?E" c a p "drop 1 ?F", folded E F(1), OF srt F(2) \<open>c \<le> a\<close>]
  define can where "can = (if p = 0 \<or> c = a then 1 else 0 :: nat)"
  define table where "table =
    (if p = 0 then splice ?n (take (?m - can) (drop 1 (dl_table frm))) (dl_table into)
     else if c = a then splice (?n - 1) (take ?m (dl_table frm)) (dl_table into)
     else splice ?n (take ?m (dl_table frm)) (dl_table into))"
  let ?i = "into\<lparr>dl_count := ?n + ?m - can, dl_table := table\<rparr>"
  have run: "dleaf2_merge epl into frm =
      (if epl < ?n + ?m - can then Some (False, into, frm) else Some (True, ?i, frm\<lparr>dl_count := 0\<rparr>))"
    using False \<open>?n \<noteq> 0\<close> p0 \<open>c \<le> a\<close>
    unfolding dleaf2_merge_def Let_def can_def table_def c_def a_def p_def by simp
  show ?thesis
  proof (cases "epl < ?n + ?m - can")
    case True
    then show ?thesis using run into by auto
  next
    case False
    have mapF: "map ext (take ?m (dl_table frm)) = ?F" by (simp add: exts_def)
    have mapF1: "map ext (take (?m - 1) (drop 1 (dl_table frm))) = drop 1 ?F"
      by (simp add: exts_def drop_map drop_take)
    have mapE: "map ext (take ?n (dl_table into)) = ?E" by (simp add: exts_def)
    have mapE1: "map ext (take (?n - 1) (dl_table into)) = take (?n - 1) ?E" by (simp add: exts_def take_map)
    have m1: "1 \<le> ?m" using \<open>\<not> ?m \<le> 1\<close> by simp
    have ex: "exts ?i = (if p = 0 then take (?n - 1) ?E @ (c, 0) # drop 1 ?F
        else if c = a then take (?n - 1) ?E @ ?F else take (?n - 1) ?E @ (c, 0) # ?F)"
    proof -
      consider "p = 0" | "p \<noteq> 0" "c = a" | "p \<noteq> 0" "c \<noteq> a" by blast
      then show ?thesis
      proof cases
        case 1
        then have "exts ?i = map ext (take ?n (dl_table into)) @ map ext (take (?m - 1) (drop 1 (dl_table frm)))"
          using False tl m1 by (intro exts_splice_end [where k = "?m - 1"]) (simp_all add: can_def table_def)
        then show ?thesis using 1 E unfolding mapE mapF1 by simp
      next
        case 2
        then have "exts ?i = map ext (take (?n - 1) (dl_table into)) @ map ext (take ?m (dl_table frm))"
          using False tl m1 \<open>?n \<noteq> 0\<close> by (intro exts_splice_end [where k = ?m]) (simp_all add: can_def table_def)
        then show ?thesis using 2 unfolding mapE1 mapF by simp
      next
        case 3
        then have "exts ?i = map ext (take ?n (dl_table into)) @ map ext (take ?m (dl_table frm))"
          using False tl m1 by (intro exts_splice_end [where k = ?m]) (simp_all add: can_def table_def)
        then show ?thesis using 3 E unfolding mapE mapF by simp
      qed
    qed
    have "length table = epl" using False tl m1 \<open>?n \<noteq> 0\<close> by (auto simp: table_def can_def)
    then have "wf_leaf epl ?i" using False G(1) unfolding wf_leaf_def ex by simp
    moreover have "lmap (exts ?i) l = joined ?E ?F l" for l unfolding ex by (rule G(2))
    ultimately show ?thesis using run False by auto
  qed
qed

section \<open>Chop\<close>

text \<open>The extents that a chop frees, from an address \<open>start\<close> with block \<open>blk\<close> on.\<close>

fun frees :: "nat \<Rightarrow> nat \<Rightarrow> (nat \<times> nat) list \<Rightarrow> (nat \<times> nat) list" where
  "frees start blk [] = []"
| "frees start blk ((a, p) # es) = (if blk \<noteq> 0 \<and> a - start \<noteq> 0 then [(blk, a - start)] else []) @ frees a p es"

fun free_all :: "free_sb \<Rightarrow> (nat \<times> nat) list \<Rightarrow> free_sb option" where
  "free_all sb [] = Some sb"
| "free_all sb ((blk, count) # fs) = (case free_extent sb blk count of None \<Rightarrow> None | Some sb \<Rightarrow> free_all sb fs)"

definition extent_blocks :: "(nat \<times> nat) list \<Rightarrow> nat list" where
  "extent_blocks fs = concat (map (\<lambda>(blk, count). [blk..<blk + count]) fs)"

text \<open>No extent is longer than a 32-bit count.\<close>

fun short_exts :: "(nat \<times> nat) list \<Rightarrow> bool" where
  "short_exts (e # f # E) \<longleftrightarrow> fst f - fst e < 2 ^ 32 \<and> short_exts (f # E)"
| "short_exts _ \<longleftrightarrow> True"

lemma frees_blocks: "sorted_exts ((start, blk) # es) \<Longrightarrow>
    extent_blocks (frees start blk es) =
    filter (\<lambda>b. b \<noteq> 0) (map (lmap ((start, blk) # es)) [start..<fst (last ((start, blk) # es))])"
proof (induction es arbitrary: start blk)
  case (Cons e es)
  obtain a p where e: "e = (a, p)" by (cases e)
  have s: "sorted_exts ((a, p) # es)" "start < a" using Cons.prems e by simp_all
  let ?last = "fst (last ((a, p) # es))"
  have le: "a \<le> ?last" using sorted_exts_less [OF s(1), of "last es"] by (cases es) (auto intro: less_imp_le)
  have up: "[start..<?last] = [start..<a] @ [a..<?last]" using s(2) le upt_add_eq_append [of start a "?last - a"] by simp
  have m1: "map (lmap ((start, blk) # (a, p) # es)) [start..<a] = map (\<lambda>l. if blk \<noteq> 0 then blk + (l - start) else 0) [start..<a]"
    by (rule map_cong) auto
  have m2: "map (lmap ((start, blk) # (a, p) # es)) [a..<?last] = map (lmap ((a, p) # es)) [a..<?last]"
    by (rule map_cong) auto
  have first: "filter (\<lambda>b. b \<noteq> 0) (map (\<lambda>l. if blk \<noteq> 0 then blk + (l - start) else 0) [start..<a]) =
      (if blk \<noteq> 0 then [blk..<blk + (a - start)] else [])"
  proof (cases "blk = 0")
    case False
    have "map (\<lambda>l. blk + (l - start)) [start..<a] = [blk..<blk + (a - start)]"
      by (rule nth_equalityI) auto
    with False show ?thesis by (simp add: filter_id_conv)
  qed simp
  show ?case
  proof -
    have last: "fst (last ((start, blk) # (a, p) # es)) = ?last" by simp
    have "extent_blocks (frees start blk (e # es)) =
        (if blk \<noteq> 0 then [blk..<blk + (a - start)] else []) @ extent_blocks (frees a p es)"
      using s(2) by (simp add: e extent_blocks_def)
    then show ?thesis unfolding Cons.IH [OF s(1)] e last up map_append m1 m2 filter_append first .
  qed
qed (simp add: extent_blocks_def)


lemma short_exts_drop: "short_exts E \<Longrightarrow> short_exts (drop n E)"
proof (induction E arbitrary: n rule: short_exts.induct)
  case (1 e f E)
  then show ?case by (cases n) auto
qed (auto simp: drop_Cons')

lemma chop_loop_spec:
  assumes "map ext (drop dex (take lim (dl_table d))) = es" and "lim \<le> length (dl_table d)" and "es = [] \<or> sorted_exts es"
    and "es \<noteq> [] \<longrightarrow> start \<le> fst (hd es) \<and> fst (hd es) - start < 2 ^ 32" and "short_exts es" and "dex < lim \<or> es = []"
  shows "chop_loop version lim dex start blk ns d sb =
    (case free_all sb (frees start blk es) of None \<Rightarrow> None
     | Some sb' \<Rightarrow> Some (if ns \<and> es \<noteq> [] then put_at d dex version start 0 else d, sb'))"
  using assms
proof (induction es arbitrary: dex start blk ns d sb)
  case Nil
  then have "lim \<le> dex" by simp
  then show ?case by (simp add: chop_loop.simps)
next
  case (Cons e es)
  then have dex: "dex < lim" by auto
  have dr: "drop dex (take lim (dl_table d)) = dl_table d ! dex # drop (Suc dex) (take lim (dl_table d))"
    using dex Cons.prems(2) by (simp add: Cons_nth_drop_Suc [symmetric])
  then have e: "e = (logical_at d dex, physical_at d dex)" and es: "map ext (drop (Suc dex) (take lim (dl_table d))) = es"
    using Cons.prems(1) unfolding dr by (simp_all, simp add: ext_def)
  let ?a = "logical_at d dex" and ?p = "physical_at d dex"
  have start: "start \<le> ?a" "?a - start < 2 ^ 32" using Cons.prems(4) e by simp_all
  have "?a < 2 ^ 48" using ext_small(1) [of "dl_table d ! dex"] by (simp add: ext_def)
  then have cnt: "sub64 ?a start mod 2 ^ 32 = ?a - start" using start by simp
  define d' where "d' = (if ns then put_at d dex version start 0 else d)"
  have d': "map ext (drop (Suc dex) (take lim (dl_table d'))) = es" "length (dl_table d') = length (dl_table d)"
    using es by (simp_all add: d'_def put_at_def take_update_swap)
  have IH: "chop_loop version lim (Suc dex) ?a ?p False d' sb' =
      (case free_all sb' (frees ?a ?p es) of None \<Rightarrow> None | Some sb'' \<Rightarrow> Some (d', sb''))" for sb'
  proof -
    have "es \<noteq> [] \<longrightarrow> ?a \<le> fst (hd es) \<and> fst (hd es) - ?a < 2 ^ 32"
      using Cons.prems(3,5) e by (cases es) (auto intro: less_imp_le)
    moreover have "es = [] \<or> sorted_exts es" using Cons.prems(3) sorted_exts_Cons [of e es] by auto
    moreover have "short_exts es" using Cons.prems(5) by (cases es) auto
    moreover have "Suc dex < lim \<or> es = []" using es dex by auto
    ultimately show ?thesis using d' Cons.prems(2) Cons.IH [of "Suc dex" d' ?a ?p False sb'] by simp
  qed
  have "chop_loop version lim dex start blk ns d sb =
      (case (if blk \<noteq> 0 \<and> ?a - start \<noteq> 0 then free_extent sb blk (?a - start) else Some sb) of None \<Rightarrow> None
       | Some sb' \<Rightarrow> chop_loop version lim (Suc dex) ?a ?p False d' sb')"
    using dex by (subst chop_loop.simps) (simp only: Let_def cnt d'_def Suc_eq_plus1 if_True)
  also have "\<dots> = (case free_all sb (frees start blk (e # es)) of None \<Rightarrow> None | Some sb' \<Rightarrow> Some (d', sb'))"
    by (auto simp: IH e split: option.splits)
  finally show ?case unfolding d'_def by (cases ns) simp_all
qed


text \<open>What stays in front of the cut.\<close>

lemma cut_hole: "sorted_exts (xs @ (b, 0) # (a, p) # ys) \<Longrightarrow>
    sorted_exts (xs @ [(b, 0)]) \<and>
    lmap (xs @ [(b, 0)]) l = (if l < a then lmap (xs @ (b, 0) # (a, p) # ys) l else 0)"
  using sorted_cut [of xs b 0 "(a, p) # ys"] lmap_cut [of xs b 0 "(a, p) # ys" l] lmap_sentinel [of xs b l] by auto

lemma cut_extent: "sorted_exts (xs @ (a, p) # (c, q) # ys) \<Longrightarrow> a < start \<Longrightarrow> start < c \<Longrightarrow>
    sorted_exts (xs @ [(a, p), (start, 0)]) \<and>
    lmap (xs @ [(a, p), (start, 0)]) l = (if l < start then lmap (xs @ (a, p) # (c, q) # ys) l else 0)"
proof -
  assume s: "sorted_exts (xs @ (a, p) # (c, q) # ys)" and st: "a < start" "start < c"
  have "sorted_exts ((a, p) # (c, q) # ys)" using s sorted_cut by blast
  then have "sorted_exts [(a, p), (start, 0)]" using st sorted_small [of c q ys] by auto
  then have t: "sorted_exts (xs @ [(a, p), (start, 0)])" using s sorted_cut by blast
  then show ?thesis
    using lmap_cut [OF s, of l] lmap_cut [OF t, of l] st by auto
qed

lemma tail_blocks:
  assumes E: "sorted_exts (xs @ (a, p) # (c, q) # ys)" and st: "a \<le> start" "start < c"
  defines "S \<equiv> (if p = 0 then a else start)" and "B \<equiv> (if p = 0 then 0 else p + (start - a))"
  shows "extent_blocks (frees S B ((c, q) # ys)) =
    filter (\<lambda>b. b \<noteq> 0) (map (lmap (xs @ (a, p) # (c, q) # ys)) [start..<fst (last ((c, q) # ys))])"
proof -
  let ?E = "xs @ (a, p) # (c, q) # ys" and ?last = "fst (last ((c, q) # ys))"
  have s: "sorted_exts ((a, p) # (c, q) # ys)" using E sorted_cut by blast
  then have t: "sorted_exts ((S, B) # (c, q) # ys)" using st by (auto simp: S_def B_def)
  have S: "S \<le> start" "S < c" using st by (auto simp: S_def)
  have eq: "lmap ((S, B) # (c, q) # ys) l = lmap ?E l" if "S \<le> l" for l
    using that st lmap_cut [OF E, of l] by (auto simp: S_def B_def)
  have le: "c \<le> ?last" using sorted_exts_less [of c q ys "last ys"] s by (cases ys) (auto intro: less_imp_le)
  have up: "[S..<?last] = [S..<start] @ [start..<?last]"
    using S st le upt_add_eq_append [of S start "?last - start"] by simp
  have f: "filter (\<lambda>b. b \<noteq> 0) (map (lmap ((S, B) # (c, q) # ys)) [S..<start]) = []"
    using st by (auto simp: S_def B_def filter_empty_conv)
  have m: "map (lmap ((S, B) # (c, q) # ys)) [start..<?last] = map (lmap ?E) [start..<?last]"
    using eq S by (intro map_cong) auto
  have last: "fst (last ((S, B) # (c, q) # ys)) = ?last" by simp
  show ?thesis unfolding frees_blocks [OF t] last up map_append filter_append f m by simp
qed


lemma chop_spec:
  assumes wf: "wf_leaf epl dleaf" and first: "fst (exts dleaf ! 0) \<le> start" and short: "short_exts (exts dleaf)"
  shows "if fst (last (exts dleaf)) \<le> start then dleaf2_chop version start dleaf sb = Some (False, dleaf, sb)
    else \<exists>fs d'. dleaf2_chop version start dleaf sb =
        (case free_all sb fs of None \<Rightarrow> None | Some sb' \<Rightarrow> Some (True, d', sb')) \<and>
      wf_leaf epl d' \<and> (\<forall>l. lmap (exts d') l = (if l < start then lmap (exts dleaf) l else 0)) \<and>
      extent_blocks fs = filter (\<lambda>b. b \<noteq> 0) (map (lmap (exts dleaf)) [start..<fst (last (exts dleaf))])"
proof -
  let ?E = "exts dleaf" and ?n = "dl_count dleaf" and ?t = "dl_table dleaf"
  have srt: "sorted_exts ?E" and tl: "length ?t = epl" "?n \<le> epl" using wf by (simp_all add: wf_leaf_def)
  obtain i where i: "dleaf2_lookup_index dleaf start = Some i" "i \<le> length ?E" "length ?E = ?n"
      "i < length ?E \<longrightarrow> fst (?E ! i) \<le> start \<and> (Suc i < length ?E \<longrightarrow> start < fst (?E ! Suc i))"
      "i = length ?E \<longrightarrow> fst (last ?E) < start"
    using lookup_exts [OF wf first] by blast
  have "?E \<noteq> []" using sorted_exts_last [OF srt] by simp
  then have n: "0 < ?n" using i(3) by (metis length_greater_0_conv)
  have lastE: "last ?E = ?E ! (?n - 1)" using \<open>?E \<noteq> []\<close> i(3) by (simp add: last_conv_nth)
  have at: "?E ! j = (logical_at dleaf j, physical_at dleaf j)" if "j < ?n" for j
    using tl that by (intro exts_nth) simp_all
  show ?thesis
  proof (cases "Suc i < ?n")
    case False
    then have "fst (last ?E) \<le> start"
    proof (cases "i = length ?E")
      case False
      then have "i = ?n - 1" "i < length ?E" using \<open>\<not> Suc i < ?n\<close> i(2,3) by simp_all
      then show ?thesis using i(4) lastE by simp
    qed (use i(5) in simp)
    moreover have "dleaf2_chop version start dleaf sb = Some (False, dleaf, sb)"
    proof -
      have c: "(?n - 1 \<le> i) = True" "(?n = 0) = False" using False n by auto
      show ?thesis unfolding dleaf2_chop_def Let_def i(1) option.case c if_True if_False by (rule refl)
    qed
    ultimately show ?thesis by simp
  next
    case True
    then have lt: "i < ?n" by simp
    let ?a = "logical_at dleaf i" and ?p = "physical_at dleaf i"
    let ?c = "logical_at dleaf (Suc i)" and ?q = "physical_at dleaf (Suc i)"
    define ys where "ys = drop (Suc (Suc i)) ?E"
    have d1: "drop (Suc i) ?E = (?c, ?q) # ys" using True i(3) at [OF True] by (simp add: ys_def Cons_nth_drop_Suc [symmetric])
    then have d0: "drop i ?E = (?a, ?p) # (?c, ?q) # ys" using lt i(3) at [OF lt] by (metis Cons_nth_drop_Suc)
    then have E: "?E = take i ?E @ (?a, ?p) # (?c, ?q) # ys" by (metis append_take_drop_id)
    then have srt': "sorted_exts (take i ?E @ (?a, ?p) # (?c, ?q) # ys)" using srt by simp
    have ac: "?a \<le> start" "start < ?c" using i(3,4) True at [OF lt] at [OF True] by auto
    have small: "?c < 2 ^ 48" "start < 2 ^ 48" using ext_small(1) [of "?t ! Suc i"] ac by (simp_all add: ext_def)
    have last: "fst (last ?E) = fst (last ((?c, ?q) # ys))" by (subst E) simp
    have "?c \<le> fst (last ?E)"
    proof -
      have "sorted_exts ((?c, ?q) # ys)" using srt' sorted_cut [of "take i ?E @ [(?a, ?p)]" ?c ?q ys] by simp
      then show ?thesis
        unfolding last using sorted_exts_less [of ?c ?q ys "last ys"] by (cases ys) (auto intro: less_imp_le)
    qed
    then have nl: "\<not> fst (last ?E) \<le> start" using ac by simp
    define prev_hole where "prev_hole = (0 < i \<and> physical_at dleaf (i - 1) = 0)"
    define S where "S = (if ?p = 0 then ?a else start)"
    define B where "B = (if ?p = 0 then 0 else ?p + (start - ?a))"
    define fs where "fs = frees S B ((?c, ?q) # ys)"
    have blocks: "extent_blocks fs = filter (\<lambda>b. b \<noteq> 0) (map (lmap ?E) [start..<fst (last ?E)])"
      using tail_blocks [OF srt' ac] unfolding fs_def S_def B_def last by (simp flip: E)
    have c: "(?n - 1 \<le> i) = False" "(?n = 0) = False" using True by auto
    have run: "dleaf2_chop version start dleaf sb =
      (case chop_loop version ?n ((if start = ?a \<and> prev_hole then i - 1 else i) + 1)
          (if start \<noteq> ?a \<and> ?p = 0 then ?a else start)
          (?p + ((if start \<noteq> ?a \<and> ?p = 0 then ?a else start) - ?a)) (start \<noteq> ?a \<and> ?p \<noteq> 0)
          ((if start = ?a \<and> \<not> prev_hole then put_at dleaf i version start 0 else dleaf)
             \<lparr>dl_count := (if start = ?a \<and> prev_hole then i - 1 else i) + 1 + (if start \<noteq> ?a \<and> ?p \<noteq> 0 then 1 else 0)\<rparr>) sb of
         None \<Rightarrow> None | Some (dleaf, sb) \<Rightarrow> Some (True, dleaf, sb))"
      unfolding dleaf2_chop_def Let_def i(1) option.case c if_True if_False prev_hole_def by (rule refl)
    have shortd: "short_exts (drop j ?E)" for j using short_exts_drop [OF short] .
    have ca: "?c - ?a < 2 ^ 32" "?c - start < 2 ^ 32" using shortd [of i] ac by (auto simp: d0)
    have sd: "sorted_exts (drop j ?E)" if "j < ?n" for j
    proof -
      have "sorted_exts (take j ?E @ drop j ?E)" using srt by simp
      moreover have "drop j ?E \<noteq> []" using that i(3) by simp
      ultimately show ?thesis by (rule sorted_exts_append)
    qed
    have tab: "map ext (drop j (take ?n ?t)) = drop j ?E" for j by (simp add: exts_def drop_map)
    have loop: "chop_loop version ?n j S' B' ns d' sb = (case free_all sb (frees S' B' (drop j ?E)) of None \<Rightarrow> None
         | Some sb' \<Rightarrow> Some (if ns then put_at d' j version S' 0 else d', sb'))"
      if "map ext (drop j (take ?n (dl_table d'))) = drop j ?E" "length (dl_table d') = epl" "j < ?n"
        "S' \<le> logical_at dleaf j" "logical_at dleaf j - S' < 2 ^ 32" for j S' B' ns d'
    proof -
      have ne: "drop j ?E \<noteq> []" using that(3) i(3) by simp
      have h: "fst (hd (drop j ?E)) = logical_at dleaf j" using at [OF that(3)] that(3) i(3) by (simp add: hd_drop_conv_nth)
      show ?thesis
        using chop_loop_spec [OF that(1), of S' version B' ns sb] that(2-) sd [OF that(3)] shortd [of j] tl ne unfolding h by simp
    qed
    consider (hole_before) "start = ?a" "prev_hole" | (at_entry) "start = ?a" "\<not> prev_hole"
      | (in_hole) "start \<noteq> ?a" "?p = 0" | (in_extent) "start \<noteq> ?a" "?p \<noteq> 0" by blast
    then have "\<exists>d'. dleaf2_chop version start dleaf sb =
        (case free_all sb fs of None \<Rightarrow> None | Some sb' \<Rightarrow> Some (True, d', sb')) \<and>
      wf_leaf epl d' \<and> (\<forall>l. lmap (exts d') l = (if l < start then lmap ?E l else 0))"
    proof cases
      case hole_before
      then have i0: "0 < i" "physical_at dleaf (i - 1) = 0" by (simp_all add: prev_hole_def)
      let ?d = "dleaf\<lparr>dl_count := i\<rparr>"
      have f: "frees ?a ?p (drop i ?E) = fs" using hole_before by (simp add: d0 fs_def S_def B_def)
      have "chop_loop version ?n i ?a ?p False ?d sb = (case free_all sb fs of None \<Rightarrow> None | Some sb' \<Rightarrow> Some (?d, sb'))"
        using loop [of i ?d ?a ?p False] tab [of i] tl lt unfolding f by simp
      then have r: "dleaf2_chop version start dleaf sb = (case free_all sb fs of None \<Rightarrow> None | Some sb' \<Rightarrow> Some (True, ?d, sb'))"
        unfolding run using hole_before i0 by (auto split: option.splits)
      have x: "exts ?d = take i ?E" using lt by (simp add: exts_take)
      obtain b where b: "take i ?E = take (i - 1) ?E @ [(b, 0)]"
        using at [of "i - 1"] i0 lt i(3) take_Suc_conv_app_nth [of "i - 1" ?E] by auto
      have "?E = take (i - 1) ?E @ (b, 0) # (?a, ?p) # (?c, ?q) # ys" using E b by simp
      then have "sorted_exts (exts ?d) \<and> lmap (exts ?d) l = (if l < start then lmap ?E l else 0)" for l
        using cut_hole [of "take (i - 1) ?E" b ?a ?p "(?c, ?q) # ys" l] srt hole_before x b by metis
      then show ?thesis using r tl lt by (intro exI [of _ ?d]) (simp add: wf_leaf_def)
    next
      case at_entry
      let ?d = "put_at dleaf i version ?a 0\<lparr>dl_count := i + 1\<rparr>"
      have f: "frees ?a ?p (drop (Suc i) ?E) = fs" using at_entry by (simp add: d1 fs_def S_def B_def)
      have "map ext (drop (Suc i) (take ?n (dl_table ?d))) = drop (Suc i) ?E"
        using tab [of "Suc i"] by (simp add: put_at_def take_update_swap)
      then have "chop_loop version ?n (Suc i) ?a ?p False ?d sb = (case free_all sb fs of None \<Rightarrow> None | Some sb' \<Rightarrow> Some (?d, sb'))"
        using loop [of "Suc i" ?d ?a ?p False] tl True ac ca unfolding f by (simp add: put_at_def)
      then have r: "dleaf2_chop version start dleaf sb = (case free_all sb fs of None \<Rightarrow> None | Some sb' \<Rightarrow> Some (True, ?d, sb'))"
        unfolding run using at_entry by (auto split: option.splits)
      have "?a < 2 ^ 48" using ac small by simp
      then have x: "exts ?d = take i ?E @ [(?a, 0)]"
        using lt i(3) tl
        by (simp add: exts_def put_at_def take_update_swap map_update take_Suc_conv_app_nth list_update_append min_def)
          (simp add: take_map min_def)
      have "sorted_exts (exts ?d) \<and> lmap (exts ?d) l = (if l < start then lmap ?E l else 0)" for l
        using sorted_cut [of "take i ?E" ?a ?p] lmap_cut [OF srt', of l] lmap_sentinel [of "take i ?E" ?a l] srt' at_entry(1) E x
        by (metis not_less)
      then show ?thesis using r tl lt by (intro exI [of _ ?d]) (simp add: wf_leaf_def put_at_def)
    next
      case in_hole
      let ?d = "dleaf\<lparr>dl_count := i + 1\<rparr>"
      have f: "frees ?a 0 (drop (Suc i) ?E) = fs" using in_hole by (simp add: d1 fs_def S_def B_def)
      have "chop_loop version ?n (Suc i) ?a 0 False ?d sb = (case free_all sb fs of None \<Rightarrow> None | Some sb' \<Rightarrow> Some (?d, sb'))"
        using loop [of "Suc i" ?d ?a 0 False] tab [of "Suc i"] tl True ac ca unfolding f by simp
      then have r: "dleaf2_chop version start dleaf sb = (case free_all sb fs of None \<Rightarrow> None | Some sb' \<Rightarrow> Some (True, ?d, sb'))"
        unfolding run using in_hole by (auto split: option.splits)
      have x: "exts ?d = take i ?E @ [(?a, 0)]"
        using lt i(3) at [OF lt] in_hole by (simp add: exts_take take_Suc_conv_app_nth)
      have m: "sorted_exts (exts ?d) \<and> lmap (exts ?d) l = (if l < ?c then lmap ?E l else 0)" for l
        using cut_hole [of "take i ?E" ?a ?c ?q ys l] srt' in_hole E x by metis
      have hole: "start \<le> l \<Longrightarrow> l < ?c \<Longrightarrow> lmap ?E l = 0" for l
        using lmap_cut [OF srt', of l] E in_hole ac by auto
      have "lmap (exts ?d) l = (if l < start then lmap ?E l else 0)" for l
        using m [of l] hole [of l] ac by auto
      moreover have "wf_leaf epl ?d" using m tl lt by (simp add: wf_leaf_def)
      ultimately show ?thesis using r by blast
    next
      case in_extent
      let ?b = "?p + (start - ?a)"
      let ?dd = "dleaf\<lparr>dl_count := i + 2\<rparr>"
      let ?d = "put_at ?dd (Suc i) version start 0"
      have f: "frees start ?b (drop (Suc i) ?E) = fs" using in_extent by (simp add: d1 fs_def S_def B_def)
      have "chop_loop version ?n (Suc i) start ?b True ?dd sb = (case free_all sb fs of None \<Rightarrow> None | Some sb' \<Rightarrow> Some (?d, sb'))"
        using loop [of "Suc i" ?dd start ?b True] tab [of "Suc i"] tl True ac ca unfolding f by simp
      then have r: "dleaf2_chop version start dleaf sb = (case free_all sb fs of None \<Rightarrow> None | Some sb' \<Rightarrow> Some (True, ?d, sb'))"
        unfolding run using in_extent by (auto split: option.splits)
      have x: "exts ?d = take i ?E @ [(?a, ?p), (start, 0)]"
      proof -
        have "exts ?d = (take (Suc (Suc i)) ?E)[Suc i := (start, 0)]"
          using small True tl by (simp add: exts_def put_at_def take_update_swap map_update take_map min_def)
        also have "take (Suc (Suc i)) ?E = take i ?E @ [(?a, ?p), (?c, ?q)]"
          using True lt i(3) at [OF lt] at [OF True] by (simp add: take_Suc_conv_app_nth)
        finally show ?thesis using lt i(3) by (simp add: list_update_append min_def)
      qed
      have "sorted_exts (exts ?d) \<and> lmap (exts ?d) l = (if l < start then lmap ?E l else 0)" for l
        using cut_extent [OF srt', of start l] ac in_extent E x by (metis le_neq_implies_less)
      then show ?thesis using r tl True by (intro exI [of _ ?d]) (simp add: wf_leaf_def put_at_def)
    qed
    then show ?thesis using blocks unfolding if_not_P [OF nl] by blast
  qed
qed

text \<open>The frees are logged one by one, and logging never fails.\<close>

lemma free_all_logged:
  assumes "log_inv (fr_log sb) ess"
  shows "\<exists>sb' ess'. free_all sb fs = Some sb' \<and> log_inv (fr_log sb') ess' \<and>
    concat ess' = concat ess @ map (\<lambda>(blk, count). Bfree_rec (of_nat blk) (of_nat count)) fs"
  using assms
proof (induction fs arbitrary: sb ess)
  case (Cons f fs)
  obtain blk count where f: "f = (blk, count)" by (cases f)
  obtain log es where l: "log_bfree (fr_log sb) (of_nat blk) (of_nat count) = Some log" "log_inv log es"
      "concat es = concat ess @ [Bfree_rec (of_nat blk) (of_nat count)]"
    using log_write_inv [OF Cons.prems, of "Bfree_rec (of_nat blk) (of_nat count)"] by auto
  let ?sb = "sb\<lparr>fr_defree := snd (defer_bfree (fr_defree sb) (of_nat blk) count), fr_log := log\<rparr>"
  obtain sb' es' where "free_all ?sb fs = Some sb'" "log_inv (fr_log sb') es'"
      "concat es' = concat es @ map (\<lambda>(blk, count). Bfree_rec (of_nat blk) (of_nat count)) fs"
    using Cons.IH [of ?sb es] l(2) by auto
  then show ?case using l by (auto simp: f free_extent_def Let_def)
qed auto

section \<open>Read\<close>

text \<open>The segments \<open>new\<close> were added to a request.\<close>

definition advanced :: "dleaf_req \<Rightarrow> segment list \<Rightarrow> dleaf_req" where
  "advanced rq new = rq\<lparr>rq_seg := splice (seg_idx rq) new (rq_seg rq), rq_start := rq_start rq + seg_total_count new,
     rq_len := rq_len rq - seg_total_count new, seg_idx := seg_idx rq + length new\<rparr>"

text \<open>They describe the file from the start of the request on.\<close>

definition describes :: "(nat \<times> nat) list \<Rightarrow> nat \<Rightarrow> segment list \<Rightarrow> bool" where
  "describes E start new \<longleftrightarrow>
     (\<forall>s \<in> set new. 0 < seg_count s \<and> (seg_state s = (if seg_block s = 0 then BLOCK_SEG_HOLE else 0))) \<and>
     (\<forall>l. start \<le> l \<and> l < start + seg_total_count new \<longrightarrow> seg_map start new l = lmap E l)"

lemma take_seg_advanced: "seg_idx rq < length (rq_seg rq) \<Longrightarrow>
    take_seg rq n p = advanced rq [\<lparr>seg_block = p, seg_count = n, seg_state = (if p = 0 then BLOCK_SEG_HOLE else 0)\<rparr>]"
  by (simp add: take_seg_def advanced_def splice_Cons)

lemma advanced_append:
  assumes "seg_idx rq + length xs + length ys \<le> length (rq_seg rq)"
  shows "advanced (advanced rq xs) ys = advanced rq (xs @ ys)"
proof -
  have "splice (seg_idx rq + length xs) ys (splice (seg_idx rq) xs (rq_seg rq)) = splice (seg_idx rq) (xs @ ys) (rq_seg rq)"
    using assms by (simp add: splice_def min_def add.commute add.left_commute) (cases xs; simp)
  then show ?thesis by (simp add: advanced_def add.assoc)
qed

lemma seg_map_append_ge: "start + seg_total_count xs \<le> l \<Longrightarrow> seg_map start (xs @ ys) l = seg_map (start + seg_total_count xs) ys l"
  by (induction xs arbitrary: start) (auto simp: add.assoc)

lemma describes_append: "describes E start xs \<Longrightarrow> describes E (start + seg_total_count xs) ys \<Longrightarrow> describes E start (xs @ ys)"
  unfolding describes_def
  by (auto simp: add.assoc) (metis add.assoc not_less seg_map_append seg_map_append_ge)

text \<open>One segment inside an extent.\<close>

lemma describes_one:
  assumes "0 < n" and "\<And>l. start \<le> l \<Longrightarrow> l < start + n \<Longrightarrow> lmap E l = (if p = 0 then 0 else p + (l - start))"
  shows "describes E start [\<lparr>seg_block = p, seg_count = n, seg_state = (if p = 0 then BLOCK_SEG_HOLE else 0)\<rparr>]"
  using assms by (simp add: describes_def)

lemma read_extents_spec:
  assumes wf: "wf_leaf epl dleaf"
  shows "Suc d < dl_count dleaf \<Longrightarrow> dex = Suc d \<Longrightarrow> logical_at dleaf d \<le> rq_start rq \<Longrightarrow> rq_start rq < logical_at dleaf dex \<Longrightarrow>
    physical = lmap (exts dleaf) (rq_start rq) \<Longrightarrow> 0 < rq_len rq \<Longrightarrow> seg_idx rq < seg_max rq \<Longrightarrow> seg_max rq \<le> length (rq_seg rq) \<Longrightarrow>
    \<exists>new. read_extents dleaf dex physical rq = advanced rq new \<and> describes (exts dleaf) (rq_start rq) new \<and> new \<noteq> [] \<and>
      seg_idx rq + length new \<le> seg_max rq \<and> seg_total_count new \<le> rq_len rq \<and>
      (seg_total_count new < rq_len rq \<and> seg_idx rq + length new < seg_max rq \<longrightarrow>
         rq_start rq + seg_total_count new = fst (last (exts dleaf)))"
proof (induction "dl_count dleaf - dex" arbitrary: d dex physical rq rule: less_induct)
  case less
  let ?E = "exts dleaf" and ?S = "rq_start rq" and ?c = "logical_at dleaf dex" and ?n = "dl_count dleaf"
  have srt: "sorted_exts ?E" and tl: "length (dl_table dleaf) = epl" "?n \<le> epl" using wf by (simp_all add: wf_leaf_def)
  have len: "length ?E = ?n" using exts_length [OF wf] .
  have at: "?E ! j = (logical_at dleaf j, physical_at dleaf j)" if "j < ?n" for j
    using tl that by (intro exts_nth) simp_all
  have dex: "dex < ?n" "d < ?n" "dex = Suc d" using less.prems by simp_all
  have val: "lmap ?E l = (if physical_at dleaf d \<noteq> 0 then physical_at dleaf d + (l - logical_at dleaf d) else 0)"
    if "logical_at dleaf d \<le> l" "l < ?c" for l
    using lmap_nth [OF srt, of d l] that at [of d] at [of dex] dex len by simp
  have "?c < 2 ^ 48" using ext_small(1) [of "dl_table dleaf ! dex"] by (simp add: ext_def)
  then have sub: "sub64 ?c ?S = ?c - ?S" using less.prems(4) by simp
  define n where "n = min (rq_len rq) (?c - ?S)"
  define seg where "seg = \<lparr>seg_block = physical, seg_count = n, seg_state = (if physical = 0 then BLOCK_SEG_HOLE else 0)\<rparr>"
  have n: "0 < n" "n \<le> rq_len rq" "n \<le> ?c - ?S" using less.prems(4,6) by (auto simp: n_def)
  have one: "describes ?E ?S [seg]"
    unfolding seg_def
  proof (rule describes_one [OF n(1)])
    fix l assume "?S \<le> l" "l < ?S + n"
    then show "lmap ?E l = (if physical = 0 then 0 else physical + (l - ?S))"
      using less.prems(3-5) n val [of l] val [of ?S] by auto
  qed
  have t: "take_seg rq n physical = advanced rq [seg]"
    using less.prems(7,8) by (simp add: take_seg_advanced seg_def)
  let ?rq = "advanced rq [seg]"
  have rq: "rq_len ?rq = rq_len rq - n" "seg_idx ?rq = seg_idx rq + 1" "seg_max ?rq = seg_max rq"
      "length (rq_seg ?rq) = length (rq_seg rq)" "rq_start ?rq = ?S + n"
    using less.prems(7,8) by (simp_all add: advanced_def seg_def)
  have run: "read_extents dleaf dex physical rq =
      (if rq_len ?rq \<noteq> 0 \<and> seg_idx ?rq < seg_max ?rq \<and> dex + 1 < ?n
       then read_extents dleaf (dex + 1) (physical_at dleaf dex) ?rq else ?rq)"
    by (subst read_extents.simps) (simp only: Let_def sub n_def [symmetric] t)
  show ?case
  proof (cases "rq_len ?rq \<noteq> 0 \<and> seg_idx ?rq < seg_max ?rq \<and> dex + 1 < ?n")
    case True
    then have nc: "?S + n = ?c" using less.prems(4) rq(1) by (auto simp: n_def min_def split: if_splits)
    have "physical_at dleaf dex = lmap ?E ?c"
      using lmap_nth [OF srt, of dex ?c] sorted_exts_nth [OF srt, of dex "Suc dex"] at [of dex] at [of "Suc dex"] True len by simp
    moreover have "?c < logical_at dleaf (Suc dex)"
      using sorted_exts_nth [OF srt, of dex "Suc dex"] at [of dex] at [of "Suc dex"] True len by simp
    moreover have dec: "?n - (dex + 1) < ?n - dex" using dex by simp
    ultimately obtain new where new: "read_extents dleaf (dex + 1) (physical_at dleaf dex) ?rq = advanced ?rq new"
        "describes ?E ?c new" "seg_idx rq + 1 + length new \<le> seg_max rq" "seg_total_count new \<le> rq_len rq - n"
        "seg_total_count new < rq_len rq - n \<and> seg_idx rq + 1 + length new < seg_max rq \<longrightarrow>
           ?c + seg_total_count new = fst (last ?E)"
      using less.hyps [OF dec, of dex ?rq "physical_at dleaf dex"] True rq nc dex less.prems(8) by auto
    have "advanced ?rq new = advanced rq (seg # new)"
      using advanced_append [of rq "[seg]" new] new(3) less.prems(8) by simp
    moreover have "describes ?E ?S (seg # new)"
      using describes_append [OF one, of new] new(2) nc by (simp add: seg_def)
    moreover have "seg_total_count (seg # new) = n + seg_total_count new" by (simp add: seg_def)
    ultimately show ?thesis
      using run True new nc n by (intro exI [of _ "seg # new"]) (auto simp: add.assoc [symmetric])
  next
    case False
    then have "read_extents dleaf dex physical rq = advanced rq [seg]" unfolding run by (rule if_not_P)
    moreover have "?S + n = fst (last ?E)" if "n < rq_len rq" "seg_idx rq + 1 < seg_max rq"
    proof -
      have "\<not> dex + 1 < ?n" using False rq that by simp
      then have "dex = ?n - 1" using dex by simp
      then have "last ?E = ?E ! dex" using len dex by (metis last_conv_nth length_greater_0_conv less_nat_zero_code not_gr_zero)
      then show ?thesis using that at [of dex] dex less.prems(4) by (simp add: n_def min_def split: if_splits)
    qed
    ultimately show ?thesis
      using one n less.prems(7) by (intro exI [of _ "[seg]"]) (simp add: seg_def)
  qed
qed


lemma describes_Nil [simp]: "describes E start []"
  by (simp add: describes_def)

text \<open>The hole behind the sentinel.\<close>

lemma fill_seg_spec:
  assumes E: "sorted_exts E" and idx: "seg_max rq \<le> length (rq_seg rq)"
    and above: "rq_len rq \<noteq> 0 \<and> seg_idx rq < seg_max rq \<Longrightarrow> fst (last E) \<le> rq_start rq"
  shows "\<exists>new. fill_seg key_limit rq = advanced rq new \<and> describes E (rq_start rq) new \<and>
      seg_idx rq + length new \<le> max (seg_idx rq) (seg_max rq) \<and> seg_total_count new \<le> rq_len rq \<and>
      (seg_total_count new < rq_len rq \<and> seg_idx rq + length new < seg_max rq \<longrightarrow>
         key_limit \<le> rq_start rq + seg_total_count new)"
proof (cases "rq_start rq < key_limit \<and> rq_len rq \<noteq> 0 \<and> seg_idx rq < seg_max rq")
  case True
  define n where "n = min (rq_len rq) (key_limit - rq_start rq)"
  have n: "0 < n" "n \<le> rq_len rq" using True by (auto simp: n_def)
  let ?seg = "\<lparr>seg_block = 0, seg_count = n, seg_state = BLOCK_SEG_HOLE\<rparr>"
  have "describes E (rq_start rq) [?seg]"
    using describes_one [OF n(1), of "rq_start rq" E 0] lmap_above [OF E] above True by simp
  moreover have "fill_seg key_limit rq = advanced rq [?seg]"
    using True idx by (simp add: fill_seg_def n_def take_seg_advanced)
  moreover have "n < rq_len rq \<Longrightarrow> key_limit \<le> rq_start rq + n" by (simp add: n_def)
  ultimately show ?thesis using n True by (intro exI [of _ "[?seg]"]) simp
next
  case False
  then show ?thesis by (intro exI [of _ "[]"]) (auto simp: fill_seg_def advanced_def)
qed

lemma read_spec:
  assumes wf: "wf_leaf epl dleaf" and first: "fst (exts dleaf ! 0) \<le> rq_start rq"
    and rq: "seg_idx rq < seg_max rq" "seg_max rq \<le> length (rq_seg rq)" "0 < rq_len rq"
  shows "\<exists>new. dleaf2_read key_limit dleaf rq = Some (advanced rq new) \<and> describes (exts dleaf) (rq_start rq) new \<and>
      seg_idx rq + length new \<le> seg_max rq \<and> seg_total_count new \<le> rq_len rq \<and>
      (seg_total_count new < rq_len rq \<and> seg_idx rq + length new < seg_max rq \<longrightarrow>
         key_limit \<le> rq_start rq + seg_total_count new)"
proof -
  let ?E = "exts dleaf" and ?n = "dl_count dleaf"
  have srt: "sorted_exts ?E" and tl: "length (dl_table dleaf) = epl" "?n \<le> epl" using wf by (simp_all add: wf_leaf_def)
  obtain i where i: "dleaf2_lookup_index dleaf (rq_start rq) = Some i" "i \<le> length ?E" "length ?E = ?n"
      "i < length ?E \<longrightarrow> fst (?E ! i) \<le> rq_start rq \<and> (Suc i < length ?E \<longrightarrow> rq_start rq < fst (?E ! Suc i))"
      "i = length ?E \<longrightarrow> fst (last ?E) < rq_start rq"
    using lookup_exts [OF wf first] by blast
  have at: "?E ! j = (logical_at dleaf j, physical_at dleaf j)" if "j < ?n" for j
    using tl that by (intro exts_nth) simp_all
  have ne: "?E \<noteq> []" "snd (last ?E) = 0" using sorted_exts_last [OF srt] by simp_all
  then have n: "0 < ?n" using i(3) by (metis length_greater_0_conv)
  have lastE: "last ?E = ?E ! (?n - 1)" using ne i(3) by (simp add: last_conv_nth)
  then have p0: "physical_at dleaf (?n - 1) = 0" using ne at [of "?n - 1"] n by simp
  show ?thesis
  proof (cases "?n \<le> i + 1")
    case True
    then have "i \<noteq> length ?E \<Longrightarrow> ?n - 1 = i" using i(2,3) by simp
    then have "fst (last ?E) \<le> rq_start rq" using i(3-5) n lastE by (cases "i = length ?E") auto
    moreover have "dleaf2_read key_limit dleaf rq = Some (fill_seg key_limit rq)"
      using rq i(1) True p0 by (simp add: dleaf2_read_def)
    ultimately show ?thesis using fill_seg_spec [OF srt rq(2), of key_limit] rq by (auto simp: max_def)
  next
    case False
    then have lt: "Suc i < ?n" by simp
    let ?phys = "if physical_at dleaf i \<noteq> 0 then physical_at dleaf i + (rq_start rq - logical_at dleaf i) else physical_at dleaf i"
    have le: "logical_at dleaf i \<le> rq_start rq" "rq_start rq < logical_at dleaf (Suc i)"
      using i(3,4) lt at [of i] at [OF lt] by simp_all
    have "?phys = lmap ?E (rq_start rq)"
      using lmap_nth [OF srt, of i "rq_start rq"] at [of i] at [OF lt] le lt i(3) by simp
    then obtain new where new: "read_extents dleaf (Suc i) ?phys rq = advanced rq new" "describes ?E (rq_start rq) new"
        "seg_idx rq + length new \<le> seg_max rq" "seg_total_count new \<le> rq_len rq"
        "seg_total_count new < rq_len rq \<and> seg_idx rq + length new < seg_max rq \<longrightarrow>
           rq_start rq + seg_total_count new = fst (last ?E)"
      using read_extents_spec [OF wf lt refl le _ rq(3) rq(1,2)] by blast
    have run: "dleaf2_read key_limit dleaf rq = Some (fill_seg key_limit (advanced rq new))"
      using rq i(1) False new(1) by (simp add: dleaf2_read_def Let_def)
    let ?rq = "advanced rq new"
    have f: "rq_len ?rq = rq_len rq - seg_total_count new" "seg_idx ?rq = seg_idx rq + length new" "seg_max ?rq = seg_max rq"
        "rq_start ?rq = rq_start rq + seg_total_count new" "length (rq_seg ?rq) = length (rq_seg rq)"
      using new(3) rq(2) by (simp_all add: advanced_def)
    obtain more where more: "fill_seg key_limit ?rq = advanced ?rq more" "describes ?E (rq_start rq + seg_total_count new) more"
        "seg_idx rq + length new + length more \<le> seg_max rq" "seg_total_count more \<le> rq_len rq - seg_total_count new"
        "seg_total_count more < rq_len rq - seg_total_count new \<and> seg_idx rq + length new + length more < seg_max rq \<longrightarrow>
           key_limit \<le> rq_start rq + seg_total_count new + seg_total_count more"
      using fill_seg_spec [OF srt, of ?rq key_limit] new(3,5) rq(2) unfolding f by (auto simp: max_def)
    have "advanced ?rq more = advanced rq (new @ more)"
      using more(3) rq(2) by (intro advanced_append) simp
    then show ?thesis
      using run more new describes_append [OF new(2) more(2)]
      by (intro exI [of _ "new @ more"]) (auto simp: add.assoc)
  qed
qed

section \<open>Properties\<close>

text \<open>A leaf of eight entries that maps the blocks 0 to 3 of a file, and an empty one.\<close>

definition demo_leaf :: dleaf2 where
  "demo_leaf = \<lparr>dl_magic = TUX3_MAGIC_DLEAF2, dl_count = 2,
     dl_table = [put_extent 0 0 11, put_extent 0 4 0] @ replicate 6 (put_extent 0 0 0)\<rparr>"

lemma demo_leaf_exts: "exts demo_leaf = [(0, 11), (4, 0)]"
  by (simp add: demo_leaf_def exts_def)

lemma demo_leaf_wf: "wf_leaf 8 demo_leaf"
  by (simp add: wf_leaf_def demo_leaf_exts) (simp add: demo_leaf_def)

lemma demo_leaf_ok: "leaf_ok 8 0 n demo_leaf"
  using demo_leaf_wf by (simp add: leaf_ok_def demo_leaf_exts) (simp add: demo_leaf_def)

text \<open>The log and the deferred frees on an empty log.\<close>

definition demo_free :: free_sb where
  "demo_free = \<lparr>fr_defree = ([], stash_init), fr_log = empty_log 64\<rparr>"

text \<open>C29: a read fills segments of the request, in order and without gaps from its start on, which say
  for every block where the leaf maps it (a hole has state \<open>BLOCK_SEG_HOLE\<close> and address 0), not more than were asked for. It
  stops short of the length only at the end of \<open>seg[]\<close> or at the upper key limit of the leaf.\<close>

theorem dleaf2_read_exact:
  assumes "wf_leaf epl dleaf" and "fst (exts dleaf ! 0) \<le> rq_start rq"
    and "seg_idx rq < seg_max rq" "seg_max rq \<le> length (rq_seg rq)" "0 < rq_len rq"
  shows "\<exists>new. dleaf2_read key_limit dleaf rq = Some (advanced rq new) \<and> describes (exts dleaf) (rq_start rq) new \<and>
      seg_idx rq + length new \<le> seg_max rq \<and> seg_total_count new \<le> rq_len rq \<and>
      (seg_total_count new < rq_len rq \<and> seg_idx rq + length new < seg_max rq \<longrightarrow>
         key_limit \<le> rq_start rq + seg_total_count new)"
  by (rule read_spec [OF assms])

lemma dleaf2_read_exact_witness:
  "\<exists>rq'. dleaf2_read 100 demo_leaf
     \<lparr>rq_start = 2, rq_len = 5, seg_idx = 0, seg_cnt = 0, seg_max = 4, rq_seg = replicate 4 \<lparr>seg_block = 0, seg_count = 0, seg_state = 0\<rparr>\<rparr> = Some rq' \<and>
     seg_idx rq' \<le> 4"
  (is "\<exists>rq'. dleaf2_read 100 demo_leaf ?rq = Some rq' \<and> _")
proof -
  have "fst (exts demo_leaf ! 0) \<le> rq_start ?rq" by (simp add: demo_leaf_exts)
  from dleaf2_read_exact [OF demo_leaf_wf this, of 100] show ?thesis by (auto simp: advanced_def)
qed

text \<open>C14: chopping a leaf at \<open>start\<close> leaves the blocks below \<open>start\<close> mapped as they were and nothing mapped from
  there on. It never fails, and every block that was mapped from \<open>start\<close> on is logged as free exactly once
  and nothing else is; it reports no change only when there was nothing to do.\<close>

theorem dleaf2_chop_exact:
  assumes "wf_leaf epl dleaf" and "fst (exts dleaf ! 0) \<le> start" and "short_exts (exts dleaf)" and "log_inv (fr_log sb) ess"
  shows "\<exists>changed d' sb' ess' fs. dleaf2_chop version start dleaf sb = Some (changed, d', sb') \<and> wf_leaf epl d' \<and>
      (\<forall>l. lmap (exts d') l = (if l < start then lmap (exts dleaf) l else 0)) \<and>
      log_inv (fr_log sb') ess' \<and> concat ess' = concat ess @ map (\<lambda>(blk, count). Bfree_rec (of_nat blk) (of_nat count)) fs \<and>
      extent_blocks fs = filter (\<lambda>b. b \<noteq> 0) (map (lmap (exts dleaf)) [start..<fst (last (exts dleaf))]) \<and>
      (\<not> changed \<longrightarrow> d' = dleaf \<and> sb' = sb \<and> fst (last (exts dleaf)) \<le> start)"
proof (cases "fst (last (exts dleaf)) \<le> start")
  case True
  have "sorted_exts (exts dleaf)" using assms(1) by (simp add: wf_leaf_def)
  then have "\<forall>l. lmap (exts dleaf) l = (if l < start then lmap (exts dleaf) l else 0)"
    using lmap_above True by (meson le_trans not_less)
  moreover have "dleaf2_chop version start dleaf sb = Some (False, dleaf, sb)"
    using chop_spec [OF assms(1-3)] True by simp
  ultimately show ?thesis
    using assms True by (intro exI [of _ False] exI [of _ dleaf] exI [of _ sb] exI [of _ ess] exI [of _ "[]"])
      (simp add: extent_blocks_def)
next
  case False
  then obtain fs d' where c: "dleaf2_chop version start dleaf sb =
        (case free_all sb fs of None \<Rightarrow> None | Some sb' \<Rightarrow> Some (True, d', sb'))" "wf_leaf epl d'"
      "\<forall>l. lmap (exts d') l = (if l < start then lmap (exts dleaf) l else 0)"
      "extent_blocks fs = filter (\<lambda>b. b \<noteq> 0) (map (lmap (exts dleaf)) [start..<fst (last (exts dleaf))])"
    using chop_spec [OF assms(1-3)] by meson
  obtain sb' ess' where "free_all sb fs = Some sb'" "log_inv (fr_log sb') ess'"
      "concat ess' = concat ess @ map (\<lambda>(blk, count). Bfree_rec (of_nat blk) (of_nat count)) fs"
    using free_all_logged [OF assms(4)] by blast
  with c show ?thesis
    by (intro exI [of _ True] exI [of _ d'] exI [of _ sb'] exI [of _ ess'] exI [of _ fs]) simp
qed

lemma dleaf2_chop_exact_witness:
  "\<exists>changed d' sb'. dleaf2_chop 0 1 demo_leaf demo_free = Some (changed, d', sb') \<and> lmap (exts d') 0 = 11 \<and> lmap (exts d') 1 = 0"
proof -
  have "fst (exts demo_leaf ! 0) \<le> 1" "short_exts (exts demo_leaf)" "log_inv (fr_log demo_free) []"
    using empty_log_inv [of 64] by (simp_all add: demo_leaf_exts demo_free_def)
  from dleaf2_chop_exact [OF demo_leaf_wf this, of 0] show ?thesis by (force simp: demo_leaf_exts)
qed

text \<open>C30: a split divides the extents at the returned key: below it the old leaf, from it on the new
  leaf maps what the leaf mapped, and the new leaf starts at the key unless it stays empty.\<close>

theorem dleaf2_split_exact:
  assumes "wf_leaf epl from" and "fst (exts from ! 0) \<le> hint" and "3 \<le> dl_count from"
    and "length (dl_table into) = epl" and "dl_count into = 0"
  shows "\<exists>key f i. dleaf2_split hint from into = Some (key, f, i) \<and>
    wf_leaf epl f \<and> (dl_count i = 0 \<or> wf_leaf epl i \<and> fst (exts i ! 0) = key) \<and>
    (\<forall>l. lmap (exts from) l = (if l < key then lmap (exts f) l else lmap (exts i) l))"
  using split_spec [OF assms] by blast

definition demo_leaf3 :: dleaf2 where
  "demo_leaf3 = \<lparr>dl_magic = TUX3_MAGIC_DLEAF2, dl_count = 3,
     dl_table = [put_extent 0 0 11, put_extent 0 4 30, put_extent 0 6 0] @ replicate 5 (put_extent 0 0 0)\<rparr>"

lemma dleaf2_split_exact_witness:
  "\<exists>key f i. dleaf2_split 4 demo_leaf3 (demo_leaf\<lparr>dl_count := 0\<rparr>) = Some (key, f, i) \<and>
     30 = (if 4 < key then lmap (exts f) 4 else lmap (exts i) 4)"
proof -
  have e: "exts demo_leaf3 = [(0, 11), (4, 30), (6, 0)]" by (simp add: demo_leaf3_def exts_def)
  have w: "wf_leaf 8 demo_leaf3" by (simp add: wf_leaf_def e) (simp add: demo_leaf3_def)
  have "fst (exts demo_leaf3 ! 0) \<le> 4" "3 \<le> dl_count demo_leaf3" "length (dl_table (demo_leaf\<lparr>dl_count := 0\<rparr>)) = 8"
      "dl_count (demo_leaf\<lparr>dl_count := 0\<rparr>) = 0"
    by (simp add: e) (simp_all add: demo_leaf_def demo_leaf3_def)
  note split = dleaf2_split_exact [OF w this]
  have "lmap (exts demo_leaf3) 4 = 30" by (simp add: e)
  with split show ?thesis by metis
qed

text \<open>A merge of a leaf into its left neighbour succeeds or changes nothing. When it succeeds, the left
  leaf is well formed and maps the blocks of both.\<close>

theorem dleaf2_merge_exact:
  assumes "wf_leaf epl into" and "wf_leaf epl frm" and "fst (last (exts into)) \<le> fst (exts frm ! 0)"
  shows "\<exists>b i f. dleaf2_merge epl into frm = Some (b, i, f) \<and> wf_leaf epl i \<and>
    (if b then (\<forall>l. lmap (exts i) l = joined (exts into) (exts frm) l) else i = into \<and> f = frm)"
  by (rule merge_spec [OF assms])

lemma dleaf2_merge_exact_witness:
  "\<exists>b i f. dleaf2_merge 8 demo_leaf (demo_leaf\<lparr>dl_count := 1, dl_table := replicate 8 (put_extent 0 9 0)\<rparr>) = Some (b, i, f) \<and> wf_leaf 8 i"
proof -
  let ?f = "demo_leaf\<lparr>dl_count := 1, dl_table := replicate 8 (put_extent 0 9 0)\<rparr>"
  have e: "exts ?f = [(9, 0)]" by (simp add: exts_def)
  have "sorted_exts (exts ?f)" unfolding e by simp
  then have "wf_leaf 8 ?f" unfolding wf_leaf_def by (simp add: demo_leaf_def)
  moreover have "fst (last (exts demo_leaf)) \<le> fst (exts ?f ! 0)" unfolding e demo_leaf_exts by simp
  ultimately show ?thesis using dleaf2_merge_exact [OF demo_leaf_wf, of ?f] by blast
qed

text \<open>The addresses of an extent come back from the table, but of the version only the upper 16 bits
  do: \<open>VER_MASK\<close> is \<open>1 << VER_BITS\<close> and not \<open>(1 << VER_BITS) - 1\<close>, so the lower half is lost.\<close>

theorem extent_roundtrip:
  assumes "logical < 2 ^ 48" and "physical < 2 ^ 48"
  shows "get_extent (put_extent version logical physical) =
    \<lparr>ex_version = push_bit 16 (drop_bit 16 version), ex_logical = logical, ex_physical = physical\<rparr>"
proof -
  have l: "n < 2 ^ 48 \<Longrightarrow> bit n k \<Longrightarrow> k < 48" for n k :: nat
    by (metis bit_take_bit_iff take_bit_nat_eq_self)
  have v: "bit VER_MASK k \<longleftrightarrow> k = 16" for k
    unfolding VER_MASK_def bit_push_bit_iff by (auto simp: bit_1_iff)
  have "ex_version (get_extent (put_extent version logical physical)) = push_bit 16 (drop_bit 16 version)"
    by (intro bit_word_eqI) (auto simp: get_extent_def put_extent_def Let_def bit_simps v dest!: l [OF assms(1)] l [OF assms(2)])
  then show ?thesis using assms by (simp add: extent.equality)
qed

lemma extent_roundtrip_witness: "get_extent (put_extent 7 1 2) = \<lparr>ex_version = 0, ex_logical = 1, ex_physical = 2\<rparr>"
  by (simp add: extent_roundtrip)

end
