(* ===== verification/Filemap.thy ===== *)
theory Filemap
  imports Dleafmap
begin

text \<open>
  Physical blocks for file data, the part of \<open>src/kernel/filemap.c\<close> under a write to a leaf of
  dleaf2: \<open>seg_alloc\<close> gives blocks to the holes among the segments of a request, splits a
  segment when \<open>balloc_partial\<close> finds less than it needs, and logs what it took;
  \<open>map_bfree\<close> frees what a redirected write replaces. The state is the allocator and the log
  of \<open>struct sb\<close>. A store behind the end of \<open>seg[]\<close> is undefined in C; there the model stops
  like a failed assertion.
\<close>

section \<open>State and operations\<close>

record map_state =
  fm_bal :: bsb
  fm_log :: logsb

text \<open>The segments behind \<open>i\<close> move up by one to separate the rest of segment \<open>i\<close>, which keeps
  all but its first \<open>n\<close> blocks.\<close>

definition make_room :: "nat \<Rightarrow> nat \<Rightarrow> dleaf_req \<Rightarrow> dleaf_req" where
  "make_room i n rq =
     (let size = (if seg_cnt rq = seg_max rq then seg_cnt rq - i - 1 else seg_cnt rq - i);
          segs = vecmove (i + 1) i size (rq_seg rq)
      in rq\<lparr>seg_cnt := (if seg_cnt rq = seg_max rq then seg_cnt rq else seg_cnt rq + 1),
            rq_seg := segs[i + 1 := (segs ! (i + 1))\<lparr>seg_count := seg_count (segs ! i) - n\<rparr>]\<rparr>)"

function seg_alloc_loop ::
  "nat \<Rightarrow> nat \<Rightarrow> nat \<Rightarrow> bool \<Rightarrow> dleaf_req \<Rightarrow> map_state \<Rightarrow> alloc_ret \<times> dleaf_req \<times> map_state" where
  "seg_alloc_loop state i write_segs partial rq s =
     (if i < seg_idx rq + write_segs
      then let seg = rq_seg rq ! i in
        if seg_state seg \<noteq> BLOCK_SEG_HOLE then seg_alloc_loop state (i + 1) write_segs partial rq s
        else case balloc_partial (fm_bal s) (seg_count seg) of
               (Some e, _, bal) \<Rightarrow> (Alloc_error e, rq, s\<lparr>fm_bal := bal\<rparr>)
             | (None, tmp, bal) \<Rightarrow>
                 let split = (seg_count tmp \<noteq> seg_count seg); room = (seg_cnt rq < seg_max rq) in
                 if split \<and> length (rq_seg rq) \<le> i + 1 then (Alloc_error ASSERT, rq, s\<lparr>fm_bal := bal\<rparr>)
                 else let rq' = (if split then make_room i (seg_count tmp) rq else rq) in
                   case log_balloc (fm_log s) (of_nat (seg_block tmp)) (of_nat (seg_count tmp)) of
                     None \<Rightarrow> (Alloc_error ASSERT, rq, s\<lparr>fm_bal := bal\<rparr>)
                   | Some log \<Rightarrow>
                       seg_alloc_loop state (i + 1) (if split \<and> room then write_segs + 1 else write_segs) (partial \<or> split)
                         (rq'\<lparr>rq_seg := (rq_seg rq')[i := \<lparr>seg_block = seg_block tmp, seg_count = seg_count tmp,
                                                     seg_state = state\<rparr>]\<rparr>)
                         (s\<lparr>fm_bal := bal, fm_log := log\<rparr>)
      else (if partial then Alloc_partial else Alloc_ok, rq, s))"
  by pat_completeness auto
termination
  by (relation "measure (\<lambda>(state, i, write_segs, partial, rq, s).
        2 * (seg_max rq - seg_cnt rq) + (seg_idx rq + write_segs - i))")
    (auto simp: make_room_def Let_def)

declare seg_alloc_loop.simps [simp del]

definition seg_alloc :: "nat \<Rightarrow> nat \<Rightarrow> dleaf_req \<Rightarrow> map_state \<Rightarrow> alloc_ret \<times> dleaf_req \<times> map_state" where
  "seg_alloc state write_segs rq s =
     (if seg_max rq < seg_idx rq + write_segs then (Alloc_error ASSERT, rq, s)
      else seg_alloc_loop state (seg_idx rq) write_segs False rq s)"

definition overwrite_seg_alloc :: "nat \<Rightarrow> dleaf_req \<Rightarrow> map_state \<Rightarrow> alloc_ret \<times> dleaf_req \<times> map_state" where
  "overwrite_seg_alloc write_segs rq s = seg_alloc BLOCK_SEG_NEW write_segs rq s"

definition redirect_seg_alloc :: "nat \<Rightarrow> dleaf_req \<Rightarrow> map_state \<Rightarrow> alloc_ret \<times> dleaf_req \<times> map_state" where
  "redirect_seg_alloc write_segs rq s = seg_alloc 0 write_segs rq s"

text \<open>The two queues of deferred frees of \<open>struct sb\<close> and the log.\<close>

record bfree_sb =
  mb_defree :: "pool \<times> stash"
  mb_deunify :: "pool \<times> stash"
  mb_log :: logsb

definition map_bfree :: "bool \<Rightarrow> bfree_sb \<Rightarrow> nat \<Rightarrow> nat \<Rightarrow> bfree_sb option" where
  "map_bfree is_bitmap sb blk count =
     (if is_bitmap
      then map_option (\<lambda>log. sb\<lparr>mb_log := log, mb_deunify := snd (defer_bfree (mb_deunify sb) (of_nat blk) count)\<rparr>)
             (log_bfree_on_unify (mb_log sb) (of_nat blk) (of_nat count))
      else map_option (\<lambda>log. sb\<lparr>mb_log := log, mb_defree := snd (defer_bfree (mb_defree sb) (of_nat blk) count)\<rparr>)
             (log_bfree (mb_log sb) (of_nat blk) (of_nat count)))"

section \<open>The pending segments\<close>

lemma pending_nth: "j < seg_cnt rq - seg_idx rq \<Longrightarrow> seg_cnt rq \<le> length (rq_seg rq) \<Longrightarrow>
    pending rq ! j = rq_seg rq ! (seg_idx rq + j)"
  by (simp add: pending_def)

lemma pending_replace: "seg_idx rq \<le> i \<Longrightarrow> seg_cnt rq \<le> length (rq_seg rq) \<Longrightarrow>
    pending (rq\<lparr>rq_seg := (rq_seg rq)[i := seg]\<rparr>) = (pending rq)[i - seg_idx rq := seg]"
  by (simp add: pending_def drop_update_swap take_update_swap)

text \<open>The segment at \<open>k\<close> replaced by an allocated part and a rest.\<close>

definition split_at :: "nat \<Rightarrow> segment \<Rightarrow> nat \<Rightarrow> segment list \<Rightarrow> segment list" where
  "split_at k new n segs = take k segs @ new # (segs ! k)\<lparr>seg_count := seg_count (segs ! k) - n\<rparr> # drop (Suc k) segs"

lemma nth_split_at: "k < length segs \<Longrightarrow> j \<le> length segs \<Longrightarrow> split_at k new n segs ! j =
    (if j < k then segs ! j else if j = k then new
     else if j = Suc k then (segs ! k)\<lparr>seg_count := seg_count (segs ! k) - n\<rparr> else segs ! (j - 1))"
  by (cases "Suc k < j")
    (auto simp: split_at_def nth_append nth_Cons' min_def intro!: arg_cong [where f = "nth segs"])

lemma pending_split:
  fixes n
  assumes "seg_idx rq \<le> i" and "i < seg_cnt rq" and "seg_cnt rq \<le> seg_max rq" "seg_max rq \<le> length (rq_seg rq)"
    and "i + 1 < length (rq_seg rq)"
  defines "rq' \<equiv> make_room i n rq"
  shows "pending (rq'\<lparr>rq_seg := (rq_seg rq')[i := new]\<rparr>) =
    take (seg_cnt rq' - seg_idx rq) (split_at (i - seg_idx rq) new n (pending rq))"
proof -
  have len: "length (pending rq) = seg_cnt rq - seg_idx rq" using assms(1-4) by (simp add: pending_def)
  let ?m = "seg_cnt rq' - seg_idx rq"
  have m: "?m = (if seg_cnt rq = seg_max rq then seg_cnt rq - seg_idx rq else Suc (seg_cnt rq - seg_idx rq))"
    using assms(1,2) by (simp add: rq'_def make_room_def Let_def Suc_diff_le)
  define size where "size = (if seg_cnt rq = seg_max rq then seg_cnt rq - i - 1 else seg_cnt rq - i)"
  have size: "i + 1 + size \<le> length (rq_seg rq)" using assms(2-5) by (auto simp: size_def)
  have l': "length (rq_seg rq') = length (rq_seg rq)"
    using size by (simp add: rq'_def make_room_def Let_def size_def [symmetric])
  show ?thesis
  proof (rule nth_equalityI)
    show "length (pending (rq'\<lparr>rq_seg := (rq_seg rq')[i := new]\<rparr>)) =
        length (take ?m (split_at (i - seg_idx rq) new n (pending rq)))"
      using assms(1-4) m len l' by (auto simp: pending_def split_at_def rq'_def make_room_def Let_def)
  next
    fix j assume "j < length (pending (rq'\<lparr>rq_seg := (rq_seg rq')[i := new]\<rparr>))"
    then have j: "j < ?m" by (simp add: pending_def rq'_def make_room_def Let_def)
    have jl: "seg_idx rq + j < length (rq_seg rq)" using j m assms(1-5) by (auto split: if_splits)
    have lhs: "pending (rq'\<lparr>rq_seg := (rq_seg rq')[i := new]\<rparr>) ! j = (rq_seg rq')[i := new] ! (seg_idx rq + j)"
      using j l' jl by (simp add: pending_def rq'_def make_room_def Let_def)
    have p: "j < length (pending rq) \<Longrightarrow> pending rq ! j = rq_seg rq ! (seg_idx rq + j)"
      "j - 1 < length (pending rq) \<Longrightarrow> pending rq ! (j - 1) = rq_seg rq ! (seg_idx rq + (j - 1))"
      using assms(3,4) len by (auto simp: pending_nth)
    have k: "i - seg_idx rq < length (pending rq)" "pending rq ! (i - seg_idx rq) = rq_seg rq ! i"
      using assms(1-4) len pending_nth [of "i - seg_idx rq" rq] by auto
    have moved: "i < q \<Longrightarrow> q < i + 1 + size \<Longrightarrow> vecmove (i + 1) i size (rq_seg rq) ! q = rq_seg rq ! (q - 1)"
      "q \<le> i \<Longrightarrow> q < length (rq_seg rq) \<Longrightarrow> vecmove (i + 1) i size (rq_seg rq) ! q = rq_seg rq ! q" for q
      using size by (simp_all add: nth_vecmove)
    have at: "rq_seg rq' ! q = (if q = i + 1
        then (vecmove (i + 1) i size (rq_seg rq) ! q)\<lparr>seg_count := seg_count (vecmove (i + 1) i size (rq_seg rq) ! i) - n\<rparr>
        else vecmove (i + 1) i size (rq_seg rq) ! q)" if "q < length (rq_seg rq)" for q
      using that size by (simp add: rq'_def make_room_def Let_def size_def [symmetric])
    have rest: "seg_idx rq + j = q \<Longrightarrow> i < q \<Longrightarrow> q < i + 1 + size" for q
      using j m assms(1,2) by (auto simp: size_def split: if_splits)
    have il: "i < length (rq_seg rq)" using assms(2-4) by simp
    have jp: "j \<le> length (pending rq)" using j m len by (auto split: if_splits)
    have rhs: "take ?m (split_at (i - seg_idx rq) new n (pending rq)) ! j = split_at (i - seg_idx rq) new n (pending rq) ! j"
      using j by simp
    have p': "seg_idx rq + j = Suc q \<Longrightarrow> i < q \<Longrightarrow> pending rq ! (j - 1) = rq_seg rq ! q" for q
      using p(2) jp assms(1) by auto
    consider "seg_idx rq + j < i" | "seg_idx rq + j = i" | "seg_idx rq + j = Suc i" |
      q where "seg_idx rq + j = Suc q" "i < q" by (metis Suc_lessI less_imp_Suc_add linorder_neqE_nat not_less_eq)
    then have "(rq_seg rq')[i := new] ! (seg_idx rq + j) = (if j < i - seg_idx rq then pending rq ! j
        else if j = i - seg_idx rq then new else if j = Suc (i - seg_idx rq)
        then (pending rq ! (i - seg_idx rq))\<lparr>seg_count := seg_count (pending rq ! (i - seg_idx rq)) - n\<rparr>
        else pending rq ! (j - 1))"
    proof cases
      case 1
      then show ?thesis using at [OF jl] moved jl p k by auto
    next
      case 2
      then show ?thesis using jl l' by auto
    next
      case 3
      then show ?thesis
        using at [OF jl] moved(1) [of "Suc i"] moved(2) [of i] rest [OF 3] il k assms(1) by auto
    next
      case 4
      then show ?thesis
        using at [OF jl] moved(1) [of "Suc q"] rest [of "Suc q"] p' [OF 4] assms(1) by auto
    qed
    then show "pending (rq'\<lparr>rq_seg := (rq_seg rq')[i := new]\<rparr>) ! j =
        take ?m (split_at (i - seg_idx rq) new n (pending rq)) ! j"
      unfolding lhs rhs nth_split_at [OF k(1) jp] .
  qed
qed

text \<open>What a split does to the number of blocks, all of them and those of the holes.\<close>

abbreviation hole_count :: "segment list \<Rightarrow> nat" where
  "hole_count segs \<equiv> seg_total_count (filter (\<lambda>s. seg_state s = BLOCK_SEG_HOLE) segs)"

lemma seg_total_take: "seg_total_count (take m segs) \<le> seg_total_count segs"
  by (metis append_take_drop_id le_add1 seg_total_simps(3))

lemma hole_count_take: "hole_count (take m segs) \<le> hole_count segs"
  by (metis append_take_drop_id filter_append le_add1 seg_total_simps(3))

lemma split_at_total:
  assumes "k < length segs" and "n \<le> seg_count (segs ! k)" and "seg_count new = n"
  shows "seg_total_count (split_at k new n segs) = seg_total_count segs"
proof -
  have "seg_total_count segs = seg_total_count (take k segs @ segs ! k # drop (Suc k) segs)"
    using assms(1) by (simp add: id_take_nth_drop [symmetric])
  then show ?thesis using assms by (simp add: split_at_def)
qed

lemma split_at_holes:
  assumes "k < length segs" and "n \<le> seg_count (segs ! k)" and "seg_state new \<noteq> BLOCK_SEG_HOLE"
    and "seg_state (segs ! k) = BLOCK_SEG_HOLE"
  shows "hole_count (split_at k new n segs) + n = hole_count segs"
    and "hole_count (segs[k := new]) + seg_count (segs ! k) = hole_count segs"
proof -
  have "hole_count segs = hole_count (take k segs @ segs ! k # drop (Suc k) segs)"
    using assms(1) by (simp add: id_take_nth_drop [symmetric])
  then show "hole_count (split_at k new n segs) + n = hole_count segs"
    and "hole_count (segs[k := new]) + seg_count (segs ! k) = hole_count segs"
    using assms by (simp_all add: split_at_def upd_conv_take_nth_drop)
qed

section \<open>The invariant of allocator and log\<close>

definition map_inv :: "map_state \<Rightarrow> bool" where
  "map_inv s \<longleftrightarrow> balloc_inv (fm_bal s) \<and> allocated (fm_bal s) 0 \<and> volblocks (fm_bal s) \<le> 2 ^ 48 \<and>
     (\<exists>ess. log_inv (fm_log s) ess)"

lemma balloc_partial_ok:
  assumes inv: "balloc_inv sb" "allocated sb 0" and n: "0 < n" and r: "balloc_partial sb n = (e, tmp, sb')"
  shows "balloc_inv sb'" and "allocated sb x \<Longrightarrow> allocated sb' x" and "volblocks sb' = volblocks sb"
    and "good_io sb' = good_io sb"
    and "e = None \<Longrightarrow> 0 < seg_count tmp \<and> seg_count tmp \<le> n \<and> 0 < seg_block tmp \<and>
      seg_block tmp + seg_count tmp \<le> volblocks sb \<and>
      free_run sb (seg_block tmp) (seg_count tmp) \<and>
      (\<forall>x. allocated sb' x \<longleftrightarrow> allocated sb x \<or> seg_block tmp \<le> x \<and> x < seg_block tmp + seg_count tmp)"
    and "good_io sb \<Longrightarrow> e \<noteq> None \<Longrightarrow> sb' = sb"
proof -
  have g: "balloc_goal sb n True = (e, tmp, sb')" using r by (simp add: balloc_partial_def)
  have w: "wf_bsb sb" "nextblock sb \<le> volblocks sb" using inv(1) by (simp_all add: balloc_inv_def)
  note c = balloc_from_range_cases [OF w(1) n w(2) order_refl g [unfolded balloc_goal_def]]
  show "balloc_inv sb'" by (rule balloc_goal_inv [OF inv(1) g])
  note spec = conjunct1 [OF c] and fail = conjunct1 [OF conjunct2 [OF c]] and full = conjunct2 [OF conjunct2 [OF c]]
  obtain b m where "marks sb (sb'\<lparr>nextblock := nextblock sb\<rparr>) b m True"
  proof (cases e)
    case None
    then show ?thesis using spec by (intro that [of "seg_block tmp" "seg_count tmp"]) (simp add: alloc_spec_def)
  next
    case (Some _)
    then show ?thesis using that fail by (elim disjE exE conjE) simp_all
  qed
  then show "allocated sb x \<Longrightarrow> allocated sb' x" and "volblocks sb' = volblocks sb" and "good_io sb' = good_io sb"
    by (auto simp: marks_def good_io_def)
  show "good_io sb \<Longrightarrow> e \<noteq> None \<Longrightarrow> sb' = sb" using full by (elim impE) simp_all
  assume "e = None"
  then have a: "0 < seg_count tmp" "seg_count tmp \<le> n" "free_run sb (seg_block tmp) (seg_count tmp)"
    "seg_block tmp + seg_count tmp \<le> volblocks sb"
    and m: "marks sb (sb'\<lparr>nextblock := nextblock sb\<rparr>) (seg_block tmp) (seg_count tmp) True"
    using spec by (simp_all add: alloc_spec_def)
  have "seg_block tmp \<noteq> 0" using a(1,3) inv(2) by (auto simp: free_run_def)
  then show "0 < seg_count tmp \<and> seg_count tmp \<le> n \<and> 0 < seg_block tmp \<and>
      seg_block tmp + seg_count tmp \<le> volblocks sb \<and>
      free_run sb (seg_block tmp) (seg_count tmp) \<and>
      (\<forall>x. allocated sb' x \<longleftrightarrow> allocated sb x \<or> seg_block tmp \<le> x \<and> x < seg_block tmp + seg_count tmp)"
    using a m by (auto simp: marks_def)
qed

text \<open>
  Between two states the log has got a record for every range that was allocated, and nothing
  else.
\<close>

definition alloc_recs :: "(nat \<times> nat) list \<Rightarrow> log_rec list" where
  "alloc_recs rs = map (\<lambda>(blk, n). Balloc_rec (of_nat blk) (of_nat n)) rs"

definition logged_allocs :: "map_state \<Rightarrow> map_state \<Rightarrow> (nat \<times> nat) list \<Rightarrow> bool" where
  "logged_allocs s s' rs \<longleftrightarrow>
     (\<forall>ess. log_inv (fm_log s) ess \<longrightarrow>
        (\<exists>ess'. log_inv (fm_log s') ess' \<and> concat ess' = concat ess @ alloc_recs rs)) \<and>
     distinct (extent_blocks rs) \<and>
     (\<forall>x \<in> set (extent_blocks rs). \<not> allocated (fm_bal s) x \<and> x < volblocks (fm_bal s)) \<and>
     (\<forall>x. allocated (fm_bal s') x \<longleftrightarrow> allocated (fm_bal s) x \<or> x \<in> set (extent_blocks rs)) \<and>
     volblocks (fm_bal s') = volblocks (fm_bal s)"

text \<open>
  What happens to the allocator: blocks are only taken, and when the bitmap I/O works every
  one is logged.
\<close>

definition map_later :: "map_state \<Rightarrow> map_state \<Rightarrow> bool" where
  "map_later s s' \<longleftrightarrow> good_io (fm_bal s') = good_io (fm_bal s) \<and>
     (good_io (fm_bal s) \<longrightarrow> (\<exists>rs. logged_allocs s s' rs))"

definition seg_owned :: "map_state \<Rightarrow> segment \<Rightarrow> bool" where
  "seg_owned s seg \<longleftrightarrow> (\<forall>x. seg_block seg \<le> x \<and> x < seg_block seg + seg_count seg \<longrightarrow> allocated (fm_bal s) x)"

lemma logged_allocs_refl: "logged_allocs s s []"
  by (auto simp: logged_allocs_def alloc_recs_def extent_blocks_def)

lemma logged_allocs_trans:
  assumes "logged_allocs s s1 rs" and "logged_allocs s1 s' ts"
  shows "logged_allocs s s' (rs @ ts)"
proof -
  have l: "\<forall>ess. log_inv (fm_log s) ess \<longrightarrow>
        (\<exists>es1. log_inv (fm_log s1) es1 \<and> concat es1 = concat ess @ alloc_recs rs)"
      "\<forall>ess. log_inv (fm_log s1) ess \<longrightarrow>
        (\<exists>es2. log_inv (fm_log s') es2 \<and> concat es2 = concat ess @ alloc_recs ts)"
    using assms by (simp_all add: logged_allocs_def)
  have "\<exists>ess'. log_inv (fm_log s') ess' \<and> concat ess' = concat ess @ alloc_recs (rs @ ts)"
    if e0: "log_inv (fm_log s) ess" for ess
  proof -
    obtain es1 where e1: "log_inv (fm_log s1) es1" "concat es1 = concat ess @ alloc_recs rs"
      using l(1) e0 by blast
    then obtain es2 where "log_inv (fm_log s') es2" "concat es2 = concat es1 @ alloc_recs ts"
      using l(2) by blast
    with e1 show ?thesis by (auto simp: alloc_recs_def)
  qed
  moreover have "extent_blocks (rs @ ts) = extent_blocks rs @ extent_blocks ts" by (simp add: extent_blocks_def)
  ultimately show ?thesis using assms by (auto simp: logged_allocs_def)
qed

lemma map_later_refl: "map_later s s"
  using logged_allocs_refl by (auto simp: map_later_def)

lemma map_later_trans: "map_later s s1 \<Longrightarrow> map_later s1 s2 \<Longrightarrow> map_later s s2"
  using logged_allocs_trans by (fastforce simp: map_later_def)

lemma logged_allocs_one:
  assumes inv: "map_inv s" and n: "0 < n" and r: "balloc_partial (fm_bal s) n = (None, tmp, bal)"
  shows "\<exists>log. log_balloc (fm_log s) (of_nat (seg_block tmp)) (of_nat (seg_count tmp)) = Some log \<and>
    map_later s (s\<lparr>fm_bal := bal, fm_log := log\<rparr>) \<and> map_inv (s\<lparr>fm_bal := bal, fm_log := log\<rparr>)"
proof -
  let ?r = "Balloc_rec (of_nat (seg_block tmp)) (of_nat (seg_count tmp))"
  have w: "\<exists>log ess'. log_balloc (fm_log s) (of_nat (seg_block tmp)) (of_nat (seg_count tmp)) = Some log \<and>
      log_inv log ess' \<and> concat ess' = concat ess @ [?r]" if "log_inv (fm_log s) ess" for ess
    using log_write_inv [OF that, of ?r] by simp
  obtain ess where ess: "log_inv (fm_log s) ess" using inv by (auto simp: map_inv_def)
  obtain log ess' where log: "log_balloc (fm_log s) (of_nat (seg_block tmp)) (of_nat (seg_count tmp)) = Some log"
      "log_inv log ess'" using w [OF ess] by blast
  have i: "balloc_inv (fm_bal s)" "allocated (fm_bal s) 0" "volblocks (fm_bal s) \<le> 2 ^ 48"
    using inv by (simp_all add: map_inv_def)
  note b = balloc_partial_ok [OF i(1,2) n r]
  have "map_inv (s\<lparr>fm_bal := bal, fm_log := log\<rparr>)" using b(1-3) i log(2) by (auto simp: map_inv_def)
  moreover have "logged_allocs s (s\<lparr>fm_bal := bal, fm_log := log\<rparr>) [(seg_block tmp, seg_count tmp)]"
    using b(3,5) w log(1) by (fastforce simp: logged_allocs_def alloc_recs_def extent_blocks_def free_run_def)
  ultimately show ?thesis using log(1) b(4) by (auto simp: map_later_def)
qed

section \<open>One allocation\<close>

lemma alloc_step:
  fixes n new
  assumes ok: "req_ok rq" and i: "seg_idx rq \<le> i" "i < seg_cnt rq"
    and hole: "seg_state (rq_seg rq ! i) = BLOCK_SEG_HOLE"
    and new: "seg_count new = n" "0 < n" "n \<le> seg_count (rq_seg rq ! i)" "0 < seg_block new" "seg_state new \<noteq> BLOCK_SEG_HOLE"
      "seg_block new + n \<le> 2 ^ 48"
    and bound: "n \<noteq> seg_count (rq_seg rq ! i) \<Longrightarrow> i + 1 < length (rq_seg rq)"
    and prefix: "\<forall>j < i - seg_idx rq. seg_state (pending rq ! j) \<noteq> BLOCK_SEG_HOLE"
  defines "split \<equiv> n \<noteq> seg_count (rq_seg rq ! i)"
  defines "rq1 \<equiv> (if split then make_room i n rq else rq)"
  defines "rq2 \<equiv> rq1\<lparr>rq_seg := (rq_seg rq1)[i := new]\<rparr>"
  shows "req_ok rq2" and "seg_idx rq2 = seg_idx rq" and "rq_start rq2 = rq_start rq" and "rq_len rq2 = rq_len rq"
    and "seg_max rq2 = seg_max rq"
    and "seg_cnt rq2 = (if split \<and> seg_cnt rq < seg_max rq then seg_cnt rq + 1 else seg_cnt rq)"
    and "seg_total_count (pending rq2) \<le> seg_total_count (pending rq)" and "hole_blocks rq2 < hole_blocks rq"
    and "\<not> split \<Longrightarrow> map seg_count (pending rq2) = map seg_count (pending rq)"
    and "\<forall>j < Suc i - seg_idx rq2. seg_state (pending rq2 ! j) \<noteq> BLOCK_SEG_HOLE"
    and "owns owned rq \<Longrightarrow> owned new \<Longrightarrow> owns owned rq2"
proof -
  let ?k = "i - seg_idx rq" and ?P = "pending rq"
  let ?rest = "(?P ! ?k)\<lparr>seg_count := seg_count (?P ! ?k) - n\<rparr>"
  have b: "seg_idx rq < seg_cnt rq" "seg_cnt rq \<le> seg_max rq" "seg_max rq \<le> length (rq_seg rq)"
    and P: "\<And>s. s \<in> set ?P \<Longrightarrow> segm_ok s \<and> (seg_state s \<noteq> BLOCK_SEG_HOLE \<longrightarrow> seg_block s \<noteq> 0)"
    using ok by (auto simp: req_ok_def)
  have len: "length ?P = seg_cnt rq - seg_idx rq" by (rule pending_length [OF ok])
  have k: "?k < length ?P" "?P ! ?k = rq_seg rq ! i" using i b len pending_nth [of ?k rq] by auto
  have fields: "seg_idx rq2 = seg_idx rq" "rq_start rq2 = rq_start rq" "rq_len rq2 = rq_len rq" "seg_max rq2 = seg_max rq"
    "seg_cnt rq2 = (if split \<and> seg_cnt rq < seg_max rq then seg_cnt rq + 1 else seg_cnt rq)"
    using b by (auto simp: rq2_def rq1_def make_room_def Let_def)
  have pend: "pending rq2 = (if split then take (seg_cnt rq2 - seg_idx rq) (split_at ?k new n ?P) else ?P[?k := new])"
  proof (cases split)
    case True
    then show ?thesis
      using pending_split [OF i b(2,3) bound, of n new] by (simp add: split_def rq2_def rq1_def)
  next
    case False
    have "seg_cnt rq \<le> length (rq_seg rq)" using b by simp
    with False show ?thesis using pending_replace [OF i(1)] by (simp add: rq2_def rq1_def)
  qed
  have len2: "length (rq_seg rq2) = length (rq_seg rq)"
    using b i bound by (auto simp: rq2_def rq1_def make_room_def Let_def split_def)
  have rest: "split \<Longrightarrow> segm_ok ?rest \<and> seg_state ?rest = BLOCK_SEG_HOLE"
    using P [OF nth_mem [OF k(1)]] new(3) hole by (auto simp: k(2) split_def segm_ok_def)
  have "set (pending rq2) \<subseteq> insert new (set ?P \<union> (if split then {?rest} else {}))"
  proof (cases split)
    case True
    have "set (split_at ?k new n ?P) \<subseteq> insert new (set ?P \<union> {?rest})"
      by (auto simp: split_at_def dest: in_set_takeD in_set_dropD)
    then show ?thesis using True pend set_take_subset by fastforce
  next
    case False
    then show ?thesis using set_update_subset_insert pend by fastforce
  qed
  then have set2: "s \<in> set (pending rq2) \<Longrightarrow> s = new \<or> s \<in> set ?P \<or> split \<and> s = ?rest" for s
    by (auto split: if_splits)
  show "owns owned rq \<Longrightarrow> owned new \<Longrightarrow> owns owned rq2"
    unfolding owns_def by (intro ballI impI) (metis set2 rest)
  have fine: "segm_ok s \<and> (seg_state s \<noteq> BLOCK_SEG_HOLE \<longrightarrow> seg_block s \<noteq> 0)" if "s \<in> set (pending rq2)" for s
    using set2 [OF that] P rest new by (auto simp: segm_ok_def)
  show "req_ok rq2" using b fields fine len2 by (auto simp: req_ok_def)
  show "seg_idx rq2 = seg_idx rq" "rq_start rq2 = rq_start rq" "rq_len rq2 = rq_len rq" "seg_max rq2 = seg_max rq"
    "seg_cnt rq2 = (if split \<and> seg_cnt rq < seg_max rq then seg_cnt rq + 1 else seg_cnt rq)" by (fact fields)+
  have c: "n \<le> seg_count (?P ! ?k)" "seg_state (?P ! ?k) = BLOCK_SEG_HOLE" using new(3) hole by (simp_all add: k(2))
  show counts: "map seg_count (pending rq2) = map seg_count (pending rq)" if "\<not> split"
  proof -
    have "map seg_count (?P[?k := new]) = map seg_count ?P"
      using that k new(1) by (simp add: split_def map_update) (metis k(1) length_map list_update_id nth_map)
    then show ?thesis using that pend by simp
  qed
  show "seg_total_count (pending rq2) \<le> seg_total_count ?P"
  proof (cases split)
    case True
    then show ?thesis using seg_total_take [of _ "split_at ?k new n ?P"] split_at_total [OF k(1) c(1) new(1)]
      by (simp add: pend)
  next
    case False
    then show ?thesis using counts by (simp add: seg_total_count_def)
  qed
  show "hole_blocks rq2 < hole_blocks rq"
  proof (cases split)
    case True
    have "hole_count (pending rq2) \<le> hole_count (split_at ?k new n ?P)" using True hole_count_take by (simp add: pend)
    then show ?thesis using split_at_holes(1) [OF k(1) c(1) new(5) c(2)] new(2) by (simp add: hole_blocks_def)
  next
    case False
    then show ?thesis using split_at_holes(2) [OF k(1) c(1) new(5) c(2)] new(2,3) k(2) by (simp add: hole_blocks_def pend)
  qed
  show "\<forall>j < Suc i - seg_idx rq2. seg_state (pending rq2 ! j) \<noteq> BLOCK_SEG_HOLE"
  proof (intro allI impI)
    fix j assume "j < Suc i - seg_idx rq2"
    then have j: "j \<le> ?k" using fields(1) i(1) by simp
    have jc: "j < seg_cnt rq2 - seg_idx rq" using j i fields(5) by auto
    have "pending rq2 ! j = (if j = ?k then new else ?P ! j)"
    proof (cases split)
      case True
      then show ?thesis using j jc k by (simp add: pend nth_split_at)
    next
      case False
      then show ?thesis using j k by (simp add: pend nth_list_update)
    qed
    then show "seg_state (pending rq2 ! j) \<noteq> BLOCK_SEG_HOLE" using prefix new(5) j by simp
  qed
qed

section \<open>The loop\<close>

definition alloc_result :: "nat \<Rightarrow> bool \<Rightarrow> dleaf_req \<Rightarrow> map_state \<Rightarrow> alloc_ret \<Rightarrow> dleaf_req \<Rightarrow> map_state \<Rightarrow> bool" where
  "alloc_result w partial rq s ret rq' s' \<longleftrightarrow>
     map_inv s' \<and> req_ok rq' \<and> seg_idx rq' = seg_idx rq \<and> rq_start rq' = rq_start rq \<and> rq_len rq' = rq_len rq \<and>
     seg_total_count (pending rq') \<le> seg_total_count (pending rq) \<and> hole_blocks rq' \<le> hole_blocks rq \<and>
     (ret = Alloc_ok \<longrightarrow> \<not> partial \<and> seg_cnt rq' = seg_cnt rq \<and> map seg_count (pending rq') = map seg_count (pending rq) \<and>
        (\<forall>seg \<in> set (take w (pending rq')). seg_state seg \<noteq> BLOCK_SEG_HOLE)) \<and>
     (ret = Alloc_partial \<longrightarrow> partial \<or> hole_blocks rq' < hole_blocks rq) \<and>
     (owns (seg_owned s) rq \<longrightarrow> owns (seg_owned s') rq') \<and>
     (ret \<noteq> Alloc_error ASSERT \<longrightarrow> map_later s s')"

lemma map_inv_bal:
  assumes "map_inv s" and "0 < n" and "balloc_partial (fm_bal s) n = (e, tmp, bal)"
  shows "map_inv (s\<lparr>fm_bal := bal\<rparr>)" and "owns (seg_owned s) rq \<Longrightarrow> owns (seg_owned (s\<lparr>fm_bal := bal\<rparr>)) rq"
  using balloc_partial_ok(1-3) [OF _ _ assms(2,3)] assms(1) by (auto simp: map_inv_def owns_def seg_owned_def)

lemma seg_alloc_loop_ok:
  assumes "map_inv s" and "req_ok rq" and "seg_idx rq \<le> i" and "seg_idx rq + w \<le> seg_cnt rq"
    and "state \<noteq> BLOCK_SEG_HOLE" and "\<forall>j < i - seg_idx rq. seg_state (pending rq ! j) \<noteq> BLOCK_SEG_HOLE"
    and "seg_alloc_loop state i w partial rq s = (ret, rq', s')"
  shows "alloc_result w partial rq s ret rq' s'"
  using assms
proof (induction "2 * (seg_max rq - seg_cnt rq) + (seg_idx rq + w - i)" arbitrary: i w partial rq s rule: less_induct)
  case less
  note inv = less.prems(1) and ok = less.prems(2)
  let ?seg = "rq_seg rq ! i"
  have len: "length (pending rq) = seg_cnt rq - seg_idx rq" by (rule pending_length [OF ok])
  show ?case
  proof (cases "i < seg_idx rq + w")
    case False
    then have r: "ret = (if partial then Alloc_partial else Alloc_ok)" "rq' = rq" "s' = s"
      using less.prems(7) by (auto simp: seg_alloc_loop.simps [of state i])
    have "\<forall>seg \<in> set (take w (pending rq)). seg_state seg \<noteq> BLOCK_SEG_HOLE"
      using less.prems(4,6) False len by (auto simp: in_set_conv_nth)
    then show ?thesis using inv ok r map_later_refl by (auto simp: alloc_result_def)
  next
    case True
    have i: "i < seg_cnt rq" using True less.prems(4) by simp
    have k: "i - seg_idx rq < length (pending rq)" "pending rq ! (i - seg_idx rq) = ?seg"
      using i less.prems(3) len ok pending_nth [of "i - seg_idx rq" rq] by (auto simp: req_ok_def)
    have fine: "segm_ok ?seg"
      using ok nth_mem [OF k(1)] by (auto simp: req_ok_def k(2))
    show ?thesis
    proof (cases "seg_state ?seg = BLOCK_SEG_HOLE")
      case False
      have "seg_alloc_loop state (i + 1) w partial rq s = (ret, rq', s')"
        using less.prems(7) True False by (simp add: seg_alloc_loop.simps [of state i])
      moreover have "\<forall>j < i + 1 - seg_idx rq. seg_state (pending rq ! j) \<noteq> BLOCK_SEG_HOLE"
        using less.prems(6) False k(2) less.prems(3) by (auto simp: Suc_diff_le less_Suc_eq)
      ultimately show ?thesis
        using less.prems True by (intro less.hyps [of rq w "i + 1"]) auto
    next
      case hole: True
      obtain e tmp bal where b: "balloc_partial (fm_bal s) (seg_count ?seg) = (e, tmp, bal)" by (metis prod_cases3)
      have pos: "0 < seg_count ?seg" using fine(1) by (simp add: segm_ok_def)
      have invs: "balloc_inv (fm_bal s)" "allocated (fm_bal s) 0" "volblocks (fm_bal s) \<le> 2 ^ 48"
        using inv by (simp_all add: map_inv_def)
      note B = balloc_partial_ok [OF invs(1,2) pos b]
      note step = less.prems(7) [unfolded seg_alloc_loop.simps [of state i], simplified True hole b if_True Let_def]
      have stop: "alloc_result w partial rq s (Alloc_error e') rq (s\<lparr>fm_bal := bal\<rparr>)"
        if "good_io (fm_bal s) \<Longrightarrow> e' \<noteq> ASSERT \<Longrightarrow> bal = fm_bal s" for e'
      proof -
        have "e' \<noteq> ASSERT \<Longrightarrow> map_later s (s\<lparr>fm_bal := bal\<rparr>)"
          using that B(4) logged_allocs_refl [of s] by (auto simp: map_later_def)
        then show ?thesis using map_inv_bal [OF inv pos b] ok by (simp add: alloc_result_def)
      qed
      show ?thesis
      proof (cases e)
        case (Some e')
        then show ?thesis using step stop [of e'] B(6) by simp
      next
        case None
        note b = b [unfolded None]
        let ?split = "seg_count tmp \<noteq> seg_count ?seg"
        show ?thesis
        proof (cases "?split \<and> length (rq_seg rq) \<le> i + 1")
          case True
          then show ?thesis using step stop [of ASSERT] by (simp add: None)
        next
          case False
          then have nf: "(?split \<and> length (rq_seg rq) \<le> i + 1) = False" by simp
          define rq1 where "rq1 = (if ?split then make_room i (seg_count tmp) rq else rq)"
          define new where "new = \<lparr>seg_block = seg_block tmp, seg_count = seg_count tmp, seg_state = state\<rparr>"
          define rq2 where "rq2 = rq1\<lparr>rq_seg := (rq_seg rq1)[i := new]\<rparr>"
          define w2 where "w2 = (if ?split \<and> seg_cnt rq < seg_max rq then w + 1 else w)"
          obtain log where log: "log_balloc (fm_log s) (of_nat (seg_block tmp)) (of_nat (seg_count tmp)) = Some log"
              and one: "map_later s (s\<lparr>fm_bal := bal, fm_log := log\<rparr>)"
              and inv2: "map_inv (s\<lparr>fm_bal := bal, fm_log := log\<rparr>)"
            using logged_allocs_one [OF inv pos b] by blast
          have run: "seg_alloc_loop state (i + 1) w2 (partial \<or> ?split) rq2 (s\<lparr>fm_bal := bal, fm_log := log\<rparr>) = (ret, rq', s')"
            using step nf by (simp only: None option.case prod.case simp_thms log if_False Suc_eq_plus1 rq2_def rq1_def w2_def new_def)
          have n: "seg_count new = seg_count tmp" "0 < seg_count tmp" "seg_count tmp \<le> seg_count ?seg" "0 < seg_block new"
              "seg_state new \<noteq> BLOCK_SEG_HOLE" "seg_block new + seg_count tmp \<le> 2 ^ 48"
            using B(5) [OF None] invs(3) less.prems(5) by (simp_all add: new_def)
          have room: "seg_count tmp \<noteq> seg_count ?seg \<Longrightarrow> i + 1 < length (rq_seg rq)" using False by simp
          note A = alloc_step [OF ok less.prems(3) i hole n room less.prems(6), folded rq1_def, folded rq2_def]
          have "alloc_result w2 (partial \<or> ?split) rq2 (s\<lparr>fm_bal := bal, fm_log := log\<rparr>) ret rq' s'"
          proof (rule less.hyps [OF _ inv2 A(1) _ _ less.prems(5) _ run])
            show "2 * (seg_max rq2 - seg_cnt rq2) + (seg_idx rq2 + w2 - (i + 1))
                < 2 * (seg_max rq - seg_cnt rq) + (seg_idx rq + w - i)"
              using True \<open>i < seg_idx rq + w\<close> A(2,5,6) by (auto simp: w2_def)
            show "seg_idx rq2 \<le> i + 1" using A(2) less.prems(3) by simp
            show "seg_idx rq2 + w2 \<le> seg_cnt rq2" using A(2,6) less.prems(4) by (auto simp: w2_def)
            show "\<forall>j < i + 1 - seg_idx rq2. seg_state (pending rq2 ! j) \<noteq> BLOCK_SEG_HOLE" using A(10) by simp
          qed
          then have R: "map_inv s'" "req_ok rq'" "seg_idx rq' = seg_idx rq2" "rq_start rq' = rq_start rq2"
              "rq_len rq' = rq_len rq2" "seg_total_count (pending rq') \<le> seg_total_count (pending rq2)"
              "hole_blocks rq' \<le> hole_blocks rq2"
              "ret = Alloc_ok \<Longrightarrow> \<not> partial \<and> \<not> ?split \<and> seg_cnt rq' = seg_cnt rq2 \<and>
                 map seg_count (pending rq') = map seg_count (pending rq2) \<and>
                 (\<forall>seg \<in> set (take w2 (pending rq')). seg_state seg \<noteq> BLOCK_SEG_HOLE)"
              "owns (seg_owned (s\<lparr>fm_bal := bal, fm_log := log\<rparr>)) rq2 \<Longrightarrow> owns (seg_owned s') rq'"
              "ret \<noteq> Alloc_error ASSERT \<Longrightarrow> map_later (s\<lparr>fm_bal := bal, fm_log := log\<rparr>) s'"
            by (simp_all add: alloc_result_def)
          have "owns (seg_owned (s\<lparr>fm_bal := bal, fm_log := log\<rparr>)) rq2" if "owns (seg_owned s) rq"
          proof (rule A(11))
            show "owns (seg_owned (s\<lparr>fm_bal := bal, fm_log := log\<rparr>)) rq"
              using that B(2) by (auto simp: owns_def seg_owned_def)
            show "seg_owned (s\<lparr>fm_bal := bal, fm_log := log\<rparr>) new"
              using B(5) [OF None] by (simp add: new_def seg_owned_def)
          qed
          then have own: "owns (seg_owned s) rq \<Longrightarrow> owns (seg_owned s') rq'" using R(9) by blast
          have ok: "ret = Alloc_ok \<Longrightarrow> seg_cnt rq' = seg_cnt rq \<and> map seg_count (pending rq') = map seg_count (pending rq) \<and>
                 (\<forall>seg \<in> set (take w (pending rq')). seg_state seg \<noteq> BLOCK_SEG_HOLE)"
            using R(8) A(6,9) by (auto simp: w2_def)
          have later: "ret \<noteq> Alloc_error ASSERT \<Longrightarrow> map_later s s'" using map_later_trans [OF one] R(10) by blast
          show ?thesis unfolding alloc_result_def using R(1-8) A(2-4,7,8) own ok later by auto
        qed
      qed
    qed
  qed
qed

section \<open>The contract of the write path\<close>

lemma seg_alloc_ok:
  assumes "map_inv s" and "req_ok rq" and "seg_idx rq + w \<le> seg_cnt rq" and "state \<noteq> BLOCK_SEG_HOLE"
    and "seg_alloc state w rq s = (ret, rq', s')"
  shows "alloc_result w False rq s ret rq' s'"
  using assms seg_alloc_loop_ok [OF assms(1,2) order_refl assms(3,4)] by (auto simp: seg_alloc_def req_ok_def)

lemma seg_alloc_contract:
  assumes "state \<noteq> BLOCK_SEG_HOLE"
  shows "seg_allocator (seg_alloc state) map_inv seg_owned map_later"
proof (rule seg_allocator.intro, goal_cases)
  case (1 s rq w ret rq' s')
  then show ?case using seg_alloc_ok [of s rq w state ret rq' s'] assms by (simp add: alloc_result_def)
next
  case (2 s rq w rq' s')
  then show ?case using seg_alloc_ok [of s rq w state Alloc_ok rq' s'] assms by (simp add: alloc_result_def)
next
  case (3 s rq w rq' s')
  then show ?case using seg_alloc_ok [of s rq w state Alloc_partial rq' s'] assms by (simp add: alloc_result_def)
qed (fact map_later_refl map_later_trans)+

interpretation overwrite_alloc: seg_allocator overwrite_seg_alloc map_inv seg_owned map_later
  unfolding overwrite_seg_alloc_def [abs_def]
  by (rule seg_alloc_contract) (simp add: BLOCK_SEG_NEW_def BLOCK_SEG_HOLE_def)

interpretation redirect_alloc: seg_allocator redirect_seg_alloc map_inv seg_owned map_later
  unfolding redirect_seg_alloc_def [abs_def]
  by (rule seg_alloc_contract) (simp add: BLOCK_SEG_HOLE_def)

section \<open>Properties\<close>

text \<open>A request to write three blocks of a file from block 2 on.\<close>

definition demo_rq :: "nat \<Rightarrow> dleaf_req" where
  "demo_rq n = \<lparr>rq_start = 2, rq_len = 3, seg_idx = 0, seg_cnt = 1, seg_max = n,
     rq_seg = replicate n \<lparr>seg_block = 0, seg_count = 3, seg_state = BLOCK_SEG_HOLE\<rparr>\<rparr>"

definition demo_state :: "u8 \<Rightarrow> u8 \<Rightarrow> map_state" where
  "demo_state x y = \<lparr>fm_bal = small_vol x y 3, fm_log = empty_log 64\<rparr>"

lemma demo_rq_ok: "0 < n \<Longrightarrow> req_ok (demo_rq n)" "0 < n \<Longrightarrow> pending (demo_rq n) = [\<lparr>seg_block = 0, seg_count = 3, seg_state = BLOCK_SEG_HOLE\<rparr>]"
proof -
  assume "0 < n"
  then show p: "pending (demo_rq n) = [\<lparr>seg_block = 0, seg_count = 3, seg_state = BLOCK_SEG_HOLE\<rparr>]"
    by (cases n) (simp_all add: pending_def demo_rq_def)
  show "req_ok (demo_rq n)" unfolding req_ok_def p using \<open>0 < n\<close> by (simp add: demo_rq_def segm_ok_def)
qed

lemma demo_state_inv: "count_inv (small_vol x y 3) \<Longrightarrow> allocated (small_vol x y 3) 0 \<Longrightarrow> map_inv (demo_state x y)"
  using empty_log_inv [of 64] by (auto simp: map_inv_def demo_state_def balloc_inv_def)

lemma demo_state_7: "map_inv (demo_state 7 1)"
proof (rule demo_state_inv)
  show "count_inv (small_vol 7 1 3)" unfolding count_inv_code by code_simp
  show "allocated (small_vol 7 1 3) 0" by code_simp
qed



text \<open>C13: \<open>seg_alloc\<close>. When it succeeds, the segments it was asked for have blocks and the
  lengths of the segments are unchanged; when it reports a partial allocation, fewer blocks are left to allocate.
  The blocks of the segments that are no holes are allocated. When the bitmap I/O works,
  the blocks it has taken, also when it stops with an error, were free, are pairwise different, and
  each is covered by an allocation record that was appended to the log.\<close>

theorem seg_alloc_exact:
  assumes "map_inv s" and "req_ok rq" and "seg_idx rq + w \<le> seg_cnt rq" and "state \<noteq> BLOCK_SEG_HOLE"
    and "owns (seg_owned s) rq" and "good_io (fm_bal s)" and "seg_alloc state w rq s = (ret, rq', s')"
  shows "map_inv s' \<and> req_ok rq' \<and> owns (seg_owned s') rq' \<and>
    (ret = Alloc_ok \<longrightarrow> map seg_count (pending rq') = map seg_count (pending rq) \<and>
       (\<forall>seg \<in> set (take w (pending rq')). seg_block seg \<noteq> 0 \<and> seg_owned s' seg)) \<and>
    (ret = Alloc_partial \<longrightarrow> hole_blocks rq' < hole_blocks rq) \<and>
    (ret \<noteq> Alloc_error ASSERT \<longrightarrow> (\<exists>rs. logged_allocs s s' rs))"
proof -
  have R: "alloc_result w False rq s ret rq' s'" by (rule seg_alloc_ok [OF assms(1-4,7)])
  then have "owns (seg_owned s') rq'" "req_ok rq'" using assms(5) by (simp_all add: alloc_result_def)
  then have "seg_state seg \<noteq> BLOCK_SEG_HOLE \<Longrightarrow> seg_block seg \<noteq> 0 \<and> seg_owned s' seg" if "seg \<in> set (take w (pending rq'))" for seg
    using that by (auto simp: owns_def req_ok_def dest: in_set_takeD)
  then show ?thesis using R assms(5,6) by (auto simp: alloc_result_def map_later_def)
qed

lemma seg_alloc_exact_witness:
  "\<exists>rq' s' rs. seg_alloc 2 1 (demo_rq 2) (demo_state 7 1) = (Alloc_ok, rq', s') \<and> map_inv s' \<and>
     logged_allocs (demo_state 7 1) s' rs"
proof -
  obtain ret rq' s' where e: "seg_alloc 2 1 (demo_rq 2) (demo_state 7 1) = (ret, rq', s')" by (rule prod_cases3)
  have "fst (seg_alloc 2 1 (demo_rq 2) (demo_state 7 1)) = Alloc_ok" by code_simp
  then have r: "ret = Alloc_ok" unfolding e by simp
  have "seg_idx (demo_rq 2) + 1 \<le> seg_cnt (demo_rq 2)" "owns (seg_owned (demo_state 7 1)) (demo_rq 2)"
      "(2::nat) \<noteq> BLOCK_SEG_HOLE" "good_io (fm_bal (demo_state 7 1))"
    by (simp_all add: demo_rq_ok(2) owns_def BLOCK_SEG_HOLE_def) (simp_all add: demo_rq_def demo_state_def)
  from seg_alloc_exact [OF demo_state_7 demo_rq_ok(1) this(1,3,2,4) e] e r show ?thesis by auto
qed

text \<open>When \<open>seg[]\<close> is full and the last segment is allocated only in part, \<open>seg_alloc\<close>
  stores the length of the rest behind the end of the array. The request has room for one segment, as the
  one of \<open>tux3_get_block\<close>, and the largest free range of the volume has two blocks.\<close>

theorem seg_alloc_overruns:
  "fst (balloc_partial (fm_bal (demo_state 0xE7 0xFF)) 3) = None \<and>
   fst (snd (balloc_partial (fm_bal (demo_state 0xE7 0xFF)) 3)) = \<lparr>seg_block = 3, seg_count = 2\<rparr> \<and>
   length (rq_seg (demo_rq 1)) \<le> 0 + 1 \<and>
   fst (seg_alloc BLOCK_SEG_NEW 1 (demo_rq 1) (demo_state 0xE7 0xFF)) = Alloc_error ASSERT"
  by code_simp

text \<open>A full volume makes \<open>seg_alloc\<close> return \<open>ENOSPC\<close>, which \<open>dleaf2_write\<close> excludes by an
  assertion: the write stops the process instead of returning the error.\<close>

theorem dleaf2_write_enospc:
  "fst (overwrite_seg_alloc 1 (demo_rq 2) (demo_state 0xFF 0xFF)) = Alloc_error ENOSPC \<and>
   dleaf2_write 4 overwrite_seg_alloc 0 8 0 demo_leaf (demo_rq 2) (demo_state 0xFF 0xFF) = None"
  by code_simp

end
