(* ===== verification/Xcache.thy ===== *)
theory Xcache
  imports Endian "HOL-Library.Monad_Syntax"
begin

text \<open>
  Extended attributes of an inode in memory and in the inode table: the cache \<open>struct xcache\<close>
  and the conversion of its entries to and from the inode table, \<open>src/kernel/xattr.c\<close>, with the head of an
  attribute and the table of attribute sizes from \<open>src/kernel/iattr.c\<close>. The cache is the
  list of its entries with the size that was allocated; its \<open>size\<close> field is the size of the entries. The
  flag \<open>nomem\<close> is what \<open>malloc\<close> answers. \<open>None\<close> is a failed
  assertion, a NULL pointer or a read behind the end of the attributes.
\<close>

section \<open>The head of an attribute\<close>

definition RDEV_ATTR :: nat where "RDEV_ATTR = 0"
definition MODE_OWNER_ATTR :: nat where "MODE_OWNER_ATTR = 1"
definition DATA_BTREE_ATTR :: nat where "DATA_BTREE_ATTR = 2"
definition CTIME_SIZE_ATTR :: nat where "CTIME_SIZE_ATTR = 3"
definition LINK_COUNT_ATTR :: nat where "LINK_COUNT_ATTR = 4"
definition MTIME_ATTR :: nat where "MTIME_ATTR = 5"
definition VAR_ATTRS :: nat where "VAR_ATTRS = 11"
definition IDATA_ATTR :: nat where "IDATA_ATTR = 11"
definition XATTR_ATTR :: nat where "XATTR_ATTR = 12"
definition MAX_ATTRS :: nat where "MAX_ATTRS = 16"

lemmas attr_kinds = RDEV_ATTR_def MODE_OWNER_ATTR_def DATA_BTREE_ATTR_def CTIME_SIZE_ATTR_def LINK_COUNT_ATTR_def
  MTIME_ATTR_def VAR_ATTRS_def IDATA_ATTR_def XATTR_ATTR_def MAX_ATTRS_def

definition atsize_table :: "nat list" where
  "atsize_table = [8, 12, 8, 16, 4, 8, 0, 0, 0, 0, 0, 2, 4, 0, 0, 0]"

definition atsize :: "nat \<Rightarrow> nat" where "atsize kind = atsize_table ! kind"

definition encode_kind :: "nat \<Rightarrow> u32 \<Rightarrow> u8 list" where
  "encode_kind kind version = encode16 (push_bit 12 (of_nat kind) OR version)"

definition decode_kind :: "u8 list \<Rightarrow> (nat \<times> u32 \<times> u8 list) option" where
  "decode_kind attrs =
     (case decode16 attrs of
        None \<Rightarrow> None
      | Some (head, attrs) \<Rightarrow> Some (unat (drop_bit 12 head), head AND 0xfff, attrs))"

section \<open>The cache\<close>

record xcache_entry =
  xa_atom :: u16
  xa_body :: "u8 list"

record xcache =
  xc_maxsize :: nat
  xc_entries :: "xcache_entry list"

text \<open>\<open>sizeof(struct xcache_entry)\<close> is 4.\<close>

definition entry_size :: "xcache_entry \<Rightarrow> nat" where
  "entry_size xattr = 4 + length (xa_body xattr)"

definition xc_size :: "xcache \<Rightarrow> nat" where
  "xc_size xc = sum_list (map entry_size (xc_entries xc))"

definition new_xcache :: "bool \<Rightarrow> nat \<Rightarrow> errno + xcache" where
  "new_xcache nomem siz = (if nomem then Inl ENOMEM else Inr \<lparr>xc_maxsize = siz mod 2 ^ 16, xc_entries = []\<rparr>)"

definition expand_xcache :: "bool \<Rightarrow> xcache option \<Rightarrow> nat \<Rightarrow> (errno + xcache) option" where
  "expand_xcache nomem old siz =
     (if \<not> (case old of None \<Rightarrow> True | Some xc \<Rightarrow> xc_maxsize xc < siz) then None
      else let siz = (case old of Some xc \<Rightarrow> max (xc_maxsize xc * 2) siz | None \<Rightarrow> (siz + 127) div 128 * 128) in
        if siz = 0 \<or> 2 ^ 16 - 1 < siz then None
        else if nomem then Some (Inl ENOMEM)
        else Some (Inr \<lparr>xc_maxsize = siz, xc_entries = (case old of None \<Rightarrow> [] | Some xc \<Rightarrow> xc_entries xc)\<rparr>))"

text \<open>The index of the entry; \<open>None\<close> is \<open>-ENOATTR\<close>.\<close>

fun lookup_entry :: "xcache_entry list \<Rightarrow> nat \<Rightarrow> nat option" where
  "lookup_entry [] atom = None"
| "lookup_entry (xattr # xattrs) atom =
     (if unat (xa_atom xattr) = atom then Some 0 else map_option Suc (lookup_entry xattrs atom))"

definition xcache_lookup :: "xcache option \<Rightarrow> nat \<Rightarrow> nat option" where
  "xcache_lookup xc atom = (case xc of None \<Rightarrow> None | Some xc \<Rightarrow> lookup_entry (xc_entries xc) atom)"

definition remove_old :: "xcache \<Rightarrow> nat \<Rightarrow> xcache" where
  "remove_old xc i = xc\<lparr>xc_entries := take i (xc_entries xc) @ drop (Suc i) (xc_entries xc)\<rparr>"

section \<open>The inode table\<close>

definition encode_xsize :: "xcache option \<Rightarrow> nat" where
  "encode_xsize xc =
     (case xc of None \<Rightarrow> 0
      | Some xc \<Rightarrow> sum_list (map (\<lambda>xattr. 2 + atsize XATTR_ATTR + length (xa_body xattr)) (xc_entries xc)))"

text \<open>\<open>acc\<close> are the bytes stored so far; the loop stops three bytes before \<open>siz\<close>.\<close>

fun encode_xattr_loop :: "u32 \<Rightarrow> nat \<Rightarrow> xcache_entry list \<Rightarrow> u8 list \<Rightarrow> u8 list" where
  "encode_xattr_loop version siz [] acc = acc"
| "encode_xattr_loop version siz (xattr # xattrs) acc =
     (if siz \<le> length acc + 3 then acc
      else encode_xattr_loop version siz xattrs
             (acc @ encode_kind XATTR_ATTR version @ encode16 (of_nat (length (xa_body xattr)) + 2) @
              encode16 (ucast (xa_atom xattr)) @ xa_body xattr))"

definition encode_xattrs :: "u32 \<Rightarrow> xcache option \<Rightarrow> nat \<Rightarrow> u8 list" where
  "encode_xattrs version xc siz = (case xc of None \<Rightarrow> [] | Some xc \<Rightarrow> encode_xattr_loop version siz (xc_entries xc) [])"

lemma decode_kind_len: "decode_kind attrs = Some (kind, v, rest) \<Longrightarrow> length rest + 2 = length attrs"
  by (auto simp: decode_kind_def dest!: decode_len split: option.splits)

function decode_xsize :: "u32 \<Rightarrow> u8 list \<Rightarrow> nat \<Rightarrow> nat option" where
  "decode_xsize version attrs tot =
     (if 1 < length attrs
      then case decode_kind attrs of
             None \<Rightarrow> None
           | Some (kind, v, attrs) \<Rightarrow>
               if kind = XATTR_ATTR \<or> kind = IDATA_ATTR
               then (case decode16 attrs of
                       None \<Rightarrow> None
                     | Some (bytes, attrs) \<Rightarrow>
                         decode_xsize version (drop (unat bytes) attrs)
                           (if v = version then tot + 4 + unat bytes - 2 else tot))
               else decode_xsize version (drop (atsize kind) attrs) tot
      else Some tot)"
  by pat_completeness auto
termination
  by (relation "measure (\<lambda>(version, attrs, tot). length attrs)")
    (auto dest!: decode_kind_len decode_len)

declare decode_xsize.simps [simp del]

text \<open>The store into the cache is bounded by assertions.\<close>

definition decode_xattr :: "xcache option \<Rightarrow> u8 list \<Rightarrow> (xcache \<times> u8 list) option" where
  "decode_xattr xc attrs =
     (case xc of
        None \<Rightarrow> None
      | Some xc \<Rightarrow>
          decode16 attrs \<bind> (\<lambda>(bytes, attrs). decode16 attrs \<bind> (\<lambda>(atom, attrs).
            let n = unat (ucast (bytes - 2) :: u16) in
            if xc_maxsize xc < xc_size xc + 4 + n \<or> length attrs < n then None
            else Some (xc\<lparr>xc_entries := xc_entries xc @ [\<lparr>xa_atom = ucast atom, xa_body = take n attrs\<rparr>]\<rparr>, drop n attrs))))"

section \<open>Encoded attributes\<close>

lemma small_bits: "n < 2 ^ k \<Longrightarrow> bit n j \<Longrightarrow> j < k" for n j :: nat
  by (metis bit_take_bit_iff take_bit_nat_eq_self)

lemma decode_encode_kind [simp]:
  assumes "kind < 16" and "unat version < 4096"
  shows "decode_kind (encode_kind kind version @ rest) = Some (kind, version, rest)"
proof -
  have v: "j < 12" if "bit version j" for j
    using small_bits [of "unat version" 12 j] assms(2) that by (simp add: bit_unsigned_iff)
  have k: "j < 4" if "bit kind j" for j using small_bits [of kind 4 j] assms(1) that by simp
  define head where "head = take_bit 16 (push_bit 12 (of_nat kind) OR version :: u32)"
  have "drop_bit 12 head = of_nat kind"
    by (rule bit_word_eqI) (auto simp: head_def bit_simps dest: v k)
  then have "unat (drop_bit 12 head) = kind" using assms(1) by (simp add: unat_of_nat take_bit_nat_eq_self)
  moreover have "head AND 0xfff = version"
  proof -
    have "head AND mask 12 = version" by (rule bit_word_eqI) (auto simp: head_def bit_simps dest: v k)
    then show ?thesis by (simp add: mask_eq_exp_minus_1)
  qed
  ultimately show ?thesis by (simp add: decode_kind_def encode_kind_def head_def)
qed

lemma length_encode_kind [simp]: "length (encode_kind kind version) = 2"
  by (simp add: encode_kind_def)

text \<open>The bytes of an entry, and the caches whose entries fit.\<close>

definition xattr_bytes :: "u32 \<Rightarrow> xcache_entry \<Rightarrow> u8 list" where
  "xattr_bytes version xattr = encode_kind XATTR_ATTR version @ encode16 (of_nat (length (xa_body xattr)) + 2) @
     encode16 (ucast (xa_atom xattr)) @ xa_body xattr"

definition xattrs_of :: "xcache option \<Rightarrow> xcache_entry list" where
  "xattrs_of xc = (case xc of None \<Rightarrow> [] | Some xc \<Rightarrow> xc_entries xc)"

definition xattrs_ok :: "xcache_entry list \<Rightarrow> bool" where
  "xattrs_ok xattrs \<longleftrightarrow> sum_list (map entry_size xattrs) < 2 ^ 16"

lemma length_xattr_bytes [simp]: "length (xattr_bytes version xattr) = 6 + length (xa_body xattr)"
  by (simp add: xattr_bytes_def)

lemma atsize_simps [simp]:
  "atsize RDEV_ATTR = 8" "atsize MODE_OWNER_ATTR = 12" "atsize DATA_BTREE_ATTR = 8" "atsize CTIME_SIZE_ATTR = 16"
  "atsize LINK_COUNT_ATTR = 4" "atsize MTIME_ATTR = 8" "atsize IDATA_ATTR = 2" "atsize XATTR_ATTR = 4"
  by (simp_all add: atsize_def atsize_table_def attr_kinds)

lemma encode_xsize_of: "encode_xsize xc = length (concat (map (xattr_bytes version) (xattrs_of xc)))"
  by (auto simp: encode_xsize_def xattrs_of_def length_concat comp_def split: option.splits)

lemma encode_xattr_loop_all:
  "siz = length acc + length (concat (map (xattr_bytes version) xattrs)) \<Longrightarrow>
   encode_xattr_loop version siz xattrs acc = acc @ concat (map (xattr_bytes version) xattrs)"
proof (induction xattrs arbitrary: acc)
  case (Cons xattr xattrs)
  from Cons.prems have "\<not> siz \<le> length acc + 3" by simp
  then have "encode_xattr_loop version siz (xattr # xattrs) acc =
      encode_xattr_loop version siz xattrs (acc @ xattr_bytes version xattr)"
    by (simp add: xattr_bytes_def)
  with Cons show ?case by simp
qed simp

lemma encode_xattrs_all:
  "encode_xattrs version xc (encode_xsize xc) = concat (map (xattr_bytes version) (xattrs_of xc))"
  using encode_xattr_loop_all [of "encode_xsize xc" "[]" version "xattrs_of xc"] encode_xsize_of [of xc version]
  by (auto simp: encode_xattrs_def xattrs_of_def split: option.splits)

lemma take_bit_size:
  assumes "n < 65534"
  shows "take_bit 16 (of_nat n + 2 :: u32) = of_nat n + 2" and "unat (of_nat n + 2 :: u32) = n + 2"
    and "unat (ucast (of_nat n + 2 - 2 :: u32) :: u16) = n"
proof -
  have e: "of_nat n + 2 = (of_nat (n + 2) :: u32)" by simp
  show "unat (of_nat n + 2 :: u32) = n + 2" unfolding e unat_of_nat using assms by (simp add: take_bit_nat_eq_self)
  show "take_bit 16 (of_nat n + 2 :: u32) = of_nat n + 2"
    unfolding e take_bit_of_nat using assms by (simp add: take_bit_nat_eq_self)
  show "unat (ucast (of_nat n + 2 - 2 :: u32) :: u16) = n"
    using assms by (simp add: unsigned_ucast_eq unat_of_nat take_bit_nat_eq_self take_bit_eq_mod)
qed

lemma decode_xsize_xattr:
  assumes "unat version < 4096" and "length (xa_body xattr) < 65534"
  shows "decode_xsize version (xattr_bytes version xattr @ rest) tot = decode_xsize version rest (tot + entry_size xattr)"
  using assms take_bit_size [OF assms(2)]
  by (subst decode_xsize.simps)
    (simp add: xattr_bytes_def entry_size_def attr_kinds, rule arg_cong [where f = "decode_xsize version rest"], simp)

lemma decode_xsize_xattrs:
  assumes "unat version < 4096" and "xattrs_ok xattrs"
  shows "decode_xsize version (concat (map (xattr_bytes version) xattrs)) tot = Some (tot + sum_list (map entry_size xattrs))"
  using assms(2)
proof (induction xattrs arbitrary: tot)
  case (Cons xattr xattrs)
  then have "length (xa_body xattr) < 65534" "xattrs_ok xattrs" by (auto simp: xattrs_ok_def entry_size_def)
  with Cons.IH show ?case using decode_xsize_xattr [OF assms(1)] by (simp add: add.assoc)
qed (simp add: decode_xsize.simps)

lemma decode_xattr_bytes:
  assumes "length (xa_body xattr) < 65534" and "xc_size xc + entry_size xattr \<le> xc_maxsize xc"
  shows "decode_xattr (Some xc) (encode16 (of_nat (length (xa_body xattr)) + 2) @ encode16 (ucast (xa_atom xattr)) @ xa_body xattr @ rest) =
    Some (xc\<lparr>xc_entries := xc_entries xc @ [xattr]\<rparr>, rest)"
proof -
  have "ucast (take_bit 16 (ucast (xa_atom xattr) :: u32)) = xa_atom xattr"
    by (rule bit_word_eqI) (auto simp: bit_simps)
  then show ?thesis
    using assms take_bit_size [OF assms(1)] by (simp add: decode_xattr_def Let_def entry_size_def)
qed

end
