(* ===== verification/Iattr.thy ===== *)
theory Iattr
  imports Xcache Ileaf
begin

text \<open>
  Inode attributes, \<open>src/kernel/iattr.c\<close>: the 32.32 fixed point times, the encoding of the
  attributes of an inode into its part of an inode leaf and back, and the two tables of attribute
  functions that the inode leaves work with, \<open>iattr_ops\<close> and (from \<open>src/kernel/orphan.c\<close>) \<open>oattr_ops\<close>. What
  the encoder and the decoder point to (\<open>struct iattr_req_data\<close>, \<open>struct inode\<close>) is one
  record: the attributes, the root of the data btree and the xattr cache. Device
  numbers are converted as in \<open>src/libklib/kdev_t.h\<close>.
\<close>

section \<open>Times and device numbers\<close>

record timespec =
  tv_sec :: u64
  tv_nsec :: u64

definition high32 :: "u64 \<Rightarrow> u32" where "high32 val = ucast (drop_bit 32 val)"

definition billionths :: "u64 \<Rightarrow> u32" where
  "billionths val = ucast (drop_bit 32 ((val AND 0xffffffff) * 1000000000 + 0x80000000))"

definition spectime :: "u64 \<Rightarrow> timespec" where
  "spectime time = \<lparr>tv_sec = ucast (high32 time), tv_nsec = ucast (billionths time)\<rparr>"

text \<open>\<open>mult\<close> is \<open>(1 << 63) / 1000000000\<close>.\<close>

definition tuxtime :: "timespec \<Rightarrow> u64" where
  "tuxtime ts = push_bit 32 (tv_sec ts) + drop_bit 31 (tv_nsec ts * 9223372036 + push_bit 29 3)"

definition MAJOR :: "u64 \<Rightarrow> u32" where "MAJOR dev = ucast (drop_bit 20 dev)"
definition MINOR :: "u64 \<Rightarrow> u32" where "MINOR dev = ucast (dev AND 0xfffff)"
definition MKDEV :: "u32 \<Rightarrow> u32 \<Rightarrow> u32" where "MKDEV ma mi = push_bit 20 ma OR mi"

definition new_encode_dev :: "u64 \<Rightarrow> u32" where
  "new_encode_dev dev =
     (let major = MAJOR dev; minor = MINOR dev
      in (minor AND 0xff) OR push_bit 8 major OR push_bit 12 (minor AND NOT 0xff))"

definition new_decode_dev :: "u32 \<Rightarrow> u64" where
  "new_decode_dev dev =
     (let major = drop_bit 8 (dev AND 0xfff00); minor = (dev AND 0xff) OR (drop_bit 12 dev AND 0xfff00)
      in ucast (MKDEV major minor))"

definition huge_encode_dev :: "u64 \<Rightarrow> u64" where "huge_encode_dev dev = ucast (new_encode_dev dev)"
definition huge_decode_dev :: "u64 \<Rightarrow> u64" where "huge_decode_dev dev = new_decode_dev (ucast dev)"

lemma nsec_roundtrip:
  assumes "n < 1000000000"
  shows "(n * 9223372036 + 1610612736) div 2 ^ 31 < (2 ^ 32 :: nat)"
    and "((n * 9223372036 + 1610612736) div 2 ^ 31 * 1000000000 + 2147483648) div 2 ^ 32 = (n :: nat)"
proof -
  define x where "x = (n * 9223372036 + 1610612736) div 2 ^ 31"
  have x: "x * 2147483648 \<le> n * 9223372036 + 1610612736" "n * 9223372036 + 1610612736 < (x + 1) * 2147483648"
    by (simp_all add: x_def)
  then have "x < 4294967296" using assms by linarith
  then show "(n * 9223372036 + 1610612736) div 2 ^ 31 < (2 ^ 32 :: nat)" by (simp add: x_def)
  have "n * 4294967296 \<le> x * 1000000000 + 2147483648"
  proof (rule ccontr)
    assume "\<not> ?thesis"
    then have "(x * 1000000000 + 2147483648) * 2147483648 < n * 4294967296 * 2147483648" by simp
    moreover have "(n * 9223372036 + 1610612736) * 1000000000 < (x + 1) * 2147483648 * 1000000000" using x by simp
    ultimately show False using assms by (simp add: algebra_simps)
  qed
  moreover have "x * 1000000000 + 2147483648 < (n + 1) * 4294967296"
  proof (rule ccontr)
    assume "\<not> ?thesis"
    then have "(n + 1) * 4294967296 * 2147483648 \<le> (x * 1000000000 + 2147483648) * 2147483648" by simp
    moreover have "x * 2147483648 * 1000000000 \<le> (n * 9223372036 + 1610612736) * 1000000000" using x by simp
    ultimately show False by (simp add: algebra_simps)
  qed
  ultimately have "(x * 1000000000 + 2147483648) div 4294967296 = n" by (intro div_nat_eqI) simp_all
  then show "((n * 9223372036 + 1610612736) div 2 ^ 31 * 1000000000 + 2147483648) div 2 ^ 32 = n" by (simp add: x_def)
qed

definition time_ok :: "timespec \<Rightarrow> bool" where
  "time_ok ts \<longleftrightarrow> unat (tv_sec ts) < 2 ^ 32 \<and> unat (tv_nsec ts) < 1000000000"

lemma spectime_tuxtime:
  assumes "time_ok ts"
  shows "spectime (tuxtime ts) = ts"
proof -
  define n where "n = unat (tv_nsec ts)"
  define x where "x = (n * 9223372036 + 1610612736) div 2 ^ 31"
  have n: "n < 1000000000" using assms by (simp add: time_ok_def n_def)
  note N = nsec_roundtrip [OF n, folded x_def]
  have nw: "tv_nsec ts = of_nat n" by (simp add: n_def)
  have "unat (tv_nsec ts * 9223372036 + push_bit 29 3) = n * 9223372036 + 1610612736"
  proof -
    have "tv_nsec ts * 9223372036 + push_bit 29 3 = of_nat (n * 9223372036 + 1610612736)" by (simp add: nw)
    then show ?thesis using n by (simp only: unat_of_nat) (simp add: take_bit_nat_eq_self)
  qed
  then have lo: "unat (drop_bit 31 (tv_nsec ts * 9223372036 + push_bit 29 3)) = x"
    by (simp add: unsigned_drop_bit_eq drop_bit_eq_div unat_div x_def)
  define w :: u64 where "w = of_nat x"
  have w: "drop_bit 31 (tv_nsec ts * 9223372036 + push_bit 29 3) = w" unfolding w_def lo [symmetric] by simp
  have wb: "j < 32" if "bit w j" for j
    using that N(1) small_bits [of x 32 j] by (auto simp: w_def bit_simps)
  have sb: "j < 32" if "bit (tv_sec ts) j" for j
    using that assms small_bits [of "unat (tv_sec ts)" 32 j] by (simp add: time_ok_def bit_unsigned_iff)
  have t: "tuxtime ts = push_bit 32 (tv_sec ts) OR w"
    unfolding tuxtime_def w by (rule disjunctive_add) (auto simp: bit_simps dest: wb)
  have "ucast (high32 (tuxtime ts)) = tv_sec ts"
    unfolding t high32_def by (rule bit_word_eqI) (auto simp: bit_simps dest: wb sb)
  moreover have "tuxtime ts AND 0xffffffff = w"
  proof -
    have "tuxtime ts AND mask 32 = w" unfolding t by (rule bit_word_eqI) (auto simp: bit_simps dest: wb)
    then show ?thesis by (simp add: mask_eq_exp_minus_1)
  qed
  moreover have "ucast (ucast (drop_bit 32 (w * 1000000000 + 0x80000000)) :: u32) = tv_nsec ts"
  proof -
    have "w * 1000000000 + 0x80000000 = of_nat (x * 1000000000 + 2147483648)" by (simp add: w_def)
    then have "unat (w * 1000000000 + 0x80000000) = x * 1000000000 + 2147483648"
      using N(1) by (simp only: unat_of_nat) (simp add: take_bit_nat_eq_self)
    then have "unat (drop_bit 32 (w * 1000000000 + 0x80000000)) = n"
      using N(2) by (simp add: unsigned_drop_bit_eq drop_bit_eq_div unat_div)
    then have "drop_bit 32 (w * 1000000000 + 0x80000000) = of_nat n" by (metis of_nat_unat ucast_id)
    then show ?thesis using n unfolding nw
      by (simp add: take_bit_eq_ucast take_bit_of_nat take_bit_nat_eq_self)
  qed
  ultimately show ?thesis by (simp add: spectime_def billionths_def)
qed

lemma dev_masks: "0xfffff = (mask 20 :: u64)" "0xff = (mask 8 :: u32)" "0xfff00 = (push_bit 8 (mask 12) :: u32)"
  by (simp_all add: mask_eq_exp_minus_1)

lemma bit_new_encode_dev:
  assumes "\<And>k. bit dev k \<Longrightarrow> k < 32"
  shows "bit (new_encode_dev dev) j \<longleftrightarrow>
    (if j < 8 then bit dev j else if j < 20 then bit dev (12 + j) else j < 32 \<and> bit dev (j - 12))"
proof -
  consider "j < 8" | "8 \<le> j" "j < 20" | "20 \<le> j" "j < 32" | "32 \<le> j" by linarith
  then show ?thesis
    unfolding new_encode_dev_def MAJOR_def MINOR_def Let_def dev_masks
    by cases (auto simp: bit_simps dest: assms)
qed

lemma bit_new_decode_dev:
  "bit (new_decode_dev dev) j \<longleftrightarrow>
    (if j < 8 then bit dev j else if j < 20 then bit dev (12 + j) else j < 32 \<and> bit dev (j - 12))"
proof -
  consider "j < 8" | "8 \<le> j" "j < 20" | "20 \<le> j" "j < 32" | "32 \<le> j" by linarith
  then show ?thesis
    unfolding new_decode_dev_def MKDEV_def Let_def dev_masks
    by cases (auto simp: bit_simps)
qed

lemma dev_roundtrip:
  assumes "unat dev < 2 ^ 32"
  shows "huge_decode_dev (huge_encode_dev dev) = dev"
proof -
  have d: "j < 32" if "bit dev j" for j
    using that assms small_bits [of "unat dev" 32 j] by (simp add: bit_unsigned_iff)
  have "ucast (ucast (new_encode_dev dev) :: u64) = new_encode_dev dev" by (rule bit_word_eqI) (simp add: bit_simps)
  then show ?thesis
    unfolding huge_decode_dev_def huge_encode_dev_def
    by (intro bit_word_eqI) (auto simp: bit_new_decode_dev bit_new_encode_dev [OF d] dest: d)
qed

section \<open>The attributes of an inode\<close>

record iattr =
  ia_present :: u32
  ia_mode :: u16
  ia_uid :: u32
  ia_gid :: u32
  ia_nlink :: u32
  ia_rdev :: u64
  ia_size :: u64
  ia_mtime :: timespec
  ia_ctime :: timespec
  ia_root :: root
  ia_xcache :: "xcache option"
  ia_nomem :: bool

definition encode_asize :: "u32 \<Rightarrow> nat" where
  "encode_asize bits = sum_list (map (\<lambda>kind. if bit bits kind then atsize kind + 2 else 0) [0..<VAR_ATTRS])"

function attr_check :: "u8 list \<Rightarrow> bool option" where
  "attr_check attrs =
     (if 1 < length attrs
      then case decode16 attrs of
             None \<Rightarrow> None
           | Some (head, attrs) \<Rightarrow>
               let kind = unat (drop_bit 12 head) in
               if MAX_ATTRS \<le> kind then Some False
               else if length attrs < atsize kind then Some False
               else attr_check (drop (atsize kind) attrs)
      else Some True)"
  by pat_completeness auto
termination
  by (relation "measure length") (auto dest!: decode_len)

declare attr_check.simps [simp del]

text \<open>The data of one attribute; the reserved kinds have none.\<close>

definition attr_data :: "iattr \<Rightarrow> nat \<Rightarrow> u8 list" where
  "attr_data d kind =
     (if kind = RDEV_ATTR then encode64 (huge_encode_dev (ia_rdev d))
      else if kind = MODE_OWNER_ATTR then encode32 (ucast (ia_mode d)) @ encode32 (ia_uid d) @ encode32 (ia_gid d)
      else if kind = CTIME_SIZE_ATTR then encode64 (tuxtime (ia_ctime d)) @ encode64 (ia_size d)
      else if kind = DATA_BTREE_ATTR then encode64 (pack_root (ia_root d))
      else if kind = LINK_COUNT_ATTR then encode32 (ia_nlink d)
      else if kind = MTIME_ATTR then encode64 (tuxtime (ia_mtime d))
      else [])"

text \<open>\<open>acc\<close> are the bytes stored so far; the loop stops three bytes before \<open>siz\<close>.\<close>

fun encode_attr_loop :: "u32 \<Rightarrow> iattr \<Rightarrow> nat \<Rightarrow> nat list \<Rightarrow> u8 list \<Rightarrow> u8 list" where
  "encode_attr_loop version d siz [] acc = acc"
| "encode_attr_loop version d siz (kind # kinds) acc =
     (if \<not> bit (ia_present d) kind then encode_attr_loop version d siz kinds acc
      else if siz \<le> length acc + 3 then acc
      else encode_attr_loop version d siz kinds (acc @ encode_kind kind version @ attr_data d kind))"

definition encode_attrs :: "u32 \<Rightarrow> iattr \<Rightarrow> nat \<Rightarrow> u8 list" where
  "encode_attrs version d siz = encode_attr_loop version d siz [0..<VAR_ATTRS] []"

text \<open>
  One attribute of the current version: the inode and the root of the data btree read so far, and the
  bytes behind it. \<open>Some None\<close> is the return for an unknown kind.
\<close>

definition decode_attr ::
  "nat \<Rightarrow> u8 list \<Rightarrow> iattr \<Rightarrow> root \<Rightarrow> (iattr \<times> root \<times> u8 list) option option" where
  "decode_attr kind attrs d r =
     (let seen = (\<lambda>d. d\<lparr>ia_present := ia_present d OR push_bit kind 1\<rparr>) in
      if kind = RDEV_ATTR
      then decode64 attrs \<bind> (\<lambda>(v, attrs). Some (Some (seen (d\<lparr>ia_rdev := huge_decode_dev v\<rparr>), r, attrs)))
      else if kind = MODE_OWNER_ATTR
      then decode32 attrs \<bind> (\<lambda>(mode, attrs). decode32 attrs \<bind> (\<lambda>(uid, attrs). decode32 attrs \<bind> (\<lambda>(gid, attrs).
             Some (Some (seen (d\<lparr>ia_mode := ucast mode, ia_uid := uid, ia_gid := gid\<rparr>), r, attrs)))))
      else if kind = CTIME_SIZE_ATTR
      then decode64 attrs \<bind> (\<lambda>(ctime, attrs). decode64 attrs \<bind> (\<lambda>(siz, attrs).
             Some (Some (seen (d\<lparr>ia_ctime := spectime ctime, ia_size := siz\<rparr>), r, attrs))))
      else if kind = DATA_BTREE_ATTR
      then decode64 attrs \<bind> (\<lambda>(v, attrs). Some (Some (d, unpack_root v, attrs)))
      else if kind = LINK_COUNT_ATTR
      then decode32 attrs \<bind> (\<lambda>(nlink, attrs). Some (Some (seen (d\<lparr>ia_nlink := nlink\<rparr>), r, attrs)))
      else if kind = MTIME_ATTR
      then decode64 attrs \<bind> (\<lambda>(v, attrs). Some (Some (seen (d\<lparr>ia_mtime := spectime v\<rparr>), r, attrs)))
      else if kind = XATTR_ATTR
      then decode_xattr (ia_xcache d) attrs \<bind> (\<lambda>(xc, attrs). Some (Some (seen (d\<lparr>ia_xcache := Some xc\<rparr>), r, attrs)))
      else Some None)"

lemma decode64_len: "decode64 bs = Some (v, r) \<Longrightarrow> length r + 8 = length bs"
  by (auto simp: decode64_def split: if_splits)

lemma decode_xattr_len: "decode_xattr xc bs = Some (xc', r) \<Longrightarrow> length r \<le> length bs"
  by (auto simp: decode_xattr_def Let_def bind_eq_Some_conv dest!: decode_len split: option.splits if_splits)

lemma decode_attr_len: "decode_attr kind attrs d r = Some (Some (d', r', rest)) \<Longrightarrow> length rest \<le> length attrs"
  by (auto simp: decode_attr_def Let_def bind_eq_Some_conv dest!: decode_len decode64_len decode_xattr_len split: if_splits)

function decode_attr_loop :: "u32 \<Rightarrow> u8 list \<Rightarrow> iattr \<Rightarrow> root \<Rightarrow> (iattr \<times> root option) option" where
  "decode_attr_loop version attrs d r =
     (if 1 < length attrs
      then case decode_kind attrs of
             None \<Rightarrow> None
           | Some (kind, v, attrs) \<Rightarrow>
               if v \<noteq> version then decode_attr_loop version (drop (atsize kind) attrs) d r
               else (case decode_attr kind attrs d r of
                       None \<Rightarrow> None
                     | Some None \<Rightarrow> Some (d, None)
                     | Some (Some (d, r, attrs)) \<Rightarrow> decode_attr_loop version attrs d r)
      else Some (d, Some r))"
  by pat_completeness auto
termination
  by (relation "measure (\<lambda>(version, attrs, d, r). length attrs)")
    (auto dest!: decode_kind_len decode_attr_len)

declare decode_attr_loop.simps [simp del]

definition no_root :: root where "no_root = \<lparr>depth = 0, block = 0\<rparr>"

text \<open>Without an unknown attribute the data btree is initialised.\<close>

definition decode_attrs :: "u32 \<Rightarrow> u8 list \<Rightarrow> iattr \<Rightarrow> iattr option" where
  "decode_attrs version attrs d =
     (case decode_attr_loop version attrs d no_root of
        None \<Rightarrow> None
      | Some (d, None) \<Rightarrow> Some d
      | Some (d, Some r) \<Rightarrow> Some (d\<lparr>ia_root := r\<rparr>))"

section \<open>The attribute functions of the inode leaves\<close>

definition iattr_encoded_size :: "iattr \<Rightarrow> nat" where
  "iattr_encoded_size d = encode_asize (ia_present d) + encode_xsize (ia_xcache d)"

text \<open>That the encoder stores exactly \<open>size\<close> bytes is asserted in the code; it is the law
  \<open>encoded_length\<close> of the interpretation below.\<close>

definition iattr_encode :: "u32 \<Rightarrow> iattr \<Rightarrow> u8 list" where
  "iattr_encode version d =
     (let siz = iattr_encoded_size d; attr = encode_attrs version d siz
      in attr @ encode_xattrs version (ia_xcache d) (siz - length attr))"

definition iattr_decode :: "u32 \<Rightarrow> iattr \<Rightarrow> u8 list \<Rightarrow> err \<times> iattr" where
  "iattr_decode version d attrs =
     (case decode_xsize version attrs 0 of
        None \<Rightarrow> (Some ASSERT, d)
      | Some xsize \<Rightarrow>
          (case (if xsize \<noteq> 0 then map_sum id Some (new_xcache (ia_nomem d) xsize) else Inr (ia_xcache d)) of
             Inl e \<Rightarrow> (Some e, d)
           | Inr xc \<Rightarrow>
               (case decode_attrs version attrs (d\<lparr>ia_xcache := xc\<rparr>) of
                  None \<Rightarrow> (Some ASSERT, d)
                | Some d \<Rightarrow> (None, d))))"

definition iattr_ops :: "u32 \<Rightarrow> iattr attr_ops" where
  "iattr_ops version = \<lparr>op_magic = 0x90de, encoded_size = iattr_encoded_size, encode = iattr_encode version,
     decode = iattr_decode version\<rparr>"

text \<open>Orphan inodes have one attribute without data, and no decoder.\<close>

definition ORPHAN_ATTR :: nat where "ORPHAN_ATTR = 0"

definition oattr_encoded_size :: "unit \<Rightarrow> nat" where "oattr_encoded_size data = 0 + 2"

definition oattr_encode :: "u32 \<Rightarrow> unit \<Rightarrow> u8 list" where
  "oattr_encode version data = encode_kind ORPHAN_ATTR version"

definition oattr_ops :: "u32 \<Rightarrow> unit attr_ops" where
  "oattr_ops version = \<lparr>op_magic = 0x6eaf, encoded_size = oattr_encoded_size, encode = oattr_encode version,
     decode = (\<lambda>data attrs. (Some ASSERT, data))\<rparr>"

interpretation oattr: attr_encoder "oattr_ops version" "\<lambda>_. True" for version
  by unfold_locales (simp_all add: oattr_ops_def oattr_encoded_size_def oattr_encode_def)

section \<open>Decoding what was encoded\<close>

text \<open>The inodes whose attributes fit in their encoding.\<close>

definition attrs_ok :: "iattr \<Rightarrow> bool" where
  "attrs_ok d \<longleftrightarrow>
     (\<forall>k. bit (ia_present d) k \<longrightarrow> k \<le> MTIME_ATTR) \<and>
     (bit (ia_present d) RDEV_ATTR \<longrightarrow> unat (ia_rdev d) < 2 ^ 32) \<and>
     (bit (ia_present d) CTIME_SIZE_ATTR \<longrightarrow> time_ok (ia_ctime d)) \<and>
     (bit (ia_present d) MTIME_ATTR \<longrightarrow> time_ok (ia_mtime d)) \<and>
     (bit (ia_present d) DATA_BTREE_ATTR \<longrightarrow>
        take_bit 48 (block (ia_root d)) = block (ia_root d) \<and> take_bit 16 (depth (ia_root d)) = depth (ia_root d)) \<and>
     xattrs_ok (xattrs_of (ia_xcache d)) \<and>
     (ia_present d \<noteq> 0 \<or> xattrs_of (ia_xcache d) \<noteq> [])"

text \<open>The inode \<open>x\<close> with the attribute \<open>kind\<close> of \<open>d\<close>.\<close>

definition see_attr :: "iattr \<Rightarrow> nat \<Rightarrow> iattr \<Rightarrow> iattr" where
  "see_attr d kind x =
     (let seen = (\<lambda>x. x\<lparr>ia_present := ia_present x OR push_bit kind 1\<rparr>) in
      if kind = RDEV_ATTR then seen (x\<lparr>ia_rdev := ia_rdev d\<rparr>)
      else if kind = MODE_OWNER_ATTR then seen (x\<lparr>ia_mode := ia_mode d, ia_uid := ia_uid d, ia_gid := ia_gid d\<rparr>)
      else if kind = CTIME_SIZE_ATTR then seen (x\<lparr>ia_ctime := ia_ctime d, ia_size := ia_size d\<rparr>)
      else if kind = LINK_COUNT_ATTR then seen (x\<lparr>ia_nlink := ia_nlink d\<rparr>)
      else if kind = MTIME_ATTR then seen (x\<lparr>ia_mtime := ia_mtime d\<rparr>)
      else x)"

lemma length_attr_data:
  "kind \<le> MTIME_ATTR \<Longrightarrow> length (attr_data d kind) = atsize kind"
proof -
  assume "kind \<le> MTIME_ATTR"
  then consider "kind = RDEV_ATTR" | "kind = MODE_OWNER_ATTR" | "kind = DATA_BTREE_ATTR" | "kind = CTIME_SIZE_ATTR"
    | "kind = LINK_COUNT_ATTR" | "kind = MTIME_ATTR" unfolding attr_kinds by linarith
  then show ?thesis by cases (simp_all add: attr_data_def, simp_all add: attr_kinds)
qed

lemma ucast_mode: "ucast (ucast (m :: u16) :: u32) = m"
  by (rule bit_word_eqI) (auto simp: bit_simps)

lemma decode_attr_data:
  assumes ok: "attrs_ok d" and kind: "bit (ia_present d) kind"
  shows "decode_attr kind (attr_data d kind @ rest) x r =
    Some (Some (see_attr d kind x, if kind = DATA_BTREE_ATTR then ia_root d else r, rest))"
proof -
  have "kind \<le> MTIME_ATTR" using assms by (simp add: attrs_ok_def)
  then consider "kind = RDEV_ATTR" | "kind = MODE_OWNER_ATTR" | "kind = DATA_BTREE_ATTR" | "kind = CTIME_SIZE_ATTR"
    | "kind = LINK_COUNT_ATTR" | "kind = MTIME_ATTR" unfolding attr_kinds by linarith
  then show ?thesis
  proof cases
    case 1
    then have "unat (ia_rdev d) < 2 ^ 32" using ok kind by (simp add: attrs_ok_def)
    then show ?thesis
      unfolding decode_attr_def see_attr_def attr_data_def Let_def 1 attr_kinds by (simp add: dev_roundtrip)
  next
    case 2
    show ?thesis
      unfolding decode_attr_def see_attr_def attr_data_def Let_def 2 attr_kinds by (simp add: ucast_mode)
  next
    case 3
    then have "unpack_root (pack_root (ia_root d)) = ia_root d"
      using ok kind by (simp add: attrs_ok_def unpack_pack_root_fields)
    then show ?thesis
      unfolding decode_attr_def see_attr_def attr_data_def Let_def 3 attr_kinds by simp
  next
    case 4
    then have "spectime (tuxtime (ia_ctime d)) = ia_ctime d" using ok kind by (simp add: attrs_ok_def spectime_tuxtime)
    then show ?thesis
      unfolding decode_attr_def see_attr_def attr_data_def Let_def 4 attr_kinds by simp
  next
    case 5
    show ?thesis unfolding decode_attr_def see_attr_def attr_data_def Let_def 5 attr_kinds by simp
  next
    case 6
    then have "spectime (tuxtime (ia_mtime d)) = ia_mtime d" using ok kind by (simp add: attrs_ok_def spectime_tuxtime)
    then show ?thesis
      unfolding decode_attr_def see_attr_def attr_data_def Let_def 6 attr_kinds by simp
  qed
qed

lemma decode_one_attr:
  assumes ok: "attrs_ok d" and v: "unat version < 4096" and kind: "bit (ia_present d) kind"
  shows "decode_attr_loop version (encode_kind kind version @ attr_data d kind @ rest) x r =
    decode_attr_loop version rest (see_attr d kind x) (if kind = DATA_BTREE_ATTR then ia_root d else r)"
proof -
  have "kind \<le> MTIME_ATTR" using assms by (simp add: attrs_ok_def)
  then have k: "kind < 16" by (simp add: attr_kinds)
  show ?thesis
    by (subst decode_attr_loop.simps) (simp add: decode_attr_data [OF ok kind] k v)
qed

definition attr_bytes :: "u32 \<Rightarrow> iattr \<Rightarrow> nat \<Rightarrow> u8 list" where
  "attr_bytes version d kind =
     (if bit (ia_present d) kind then encode_kind kind version @ attr_data d kind else [])"

lemma decode_attrs_bytes:
  assumes ok: "attrs_ok d" and v: "unat version < 4096"
  shows "decode_attr_loop version (concat (map (attr_bytes version d) kinds) @ rest) x r =
    decode_attr_loop version rest (fold (\<lambda>kind x. if bit (ia_present d) kind then see_attr d kind x else x) kinds x)
      (if DATA_BTREE_ATTR \<in> set kinds \<and> bit (ia_present d) DATA_BTREE_ATTR then ia_root d else r)"
  by (induction kinds arbitrary: x r) (auto simp: attr_bytes_def decode_one_attr [OF ok v])

lemma decode_xattr_loop:
  assumes v: "unat version < 4096"
  shows "xattrs_ok (xc_entries xc @ xattrs) \<Longrightarrow> sum_list (map entry_size (xc_entries xc @ xattrs)) \<le> xc_maxsize xc \<Longrightarrow>
    ia_xcache x = Some xc \<Longrightarrow>
    decode_attr_loop version (concat (map (xattr_bytes version) xattrs)) x r =
      Some (x\<lparr>ia_present := ia_present x OR (if xattrs \<noteq> [] then push_bit XATTR_ATTR 1 else 0),
              ia_xcache := Some (xc\<lparr>xc_entries := xc_entries xc @ xattrs\<rparr>)\<rparr>, Some r)"
proof (induction xattrs arbitrary: x xc)
  case Nil
  then show ?case by (simp add: decode_attr_loop.simps)
next
  case (Cons xattr xattrs)
  let ?xc = "xc\<lparr>xc_entries := xc_entries xc @ [xattr]\<rparr>"
  let ?x = "x\<lparr>ia_xcache := Some ?xc, ia_present := ia_present x OR push_bit XATTR_ATTR 1\<rparr>"
  have l: "length (xa_body xattr) < 65534" "xc_size xc + entry_size xattr \<le> xc_maxsize xc"
    using Cons.prems(1,2) by (simp_all add: xattrs_ok_def xc_size_def) (simp add: entry_size_def)
  have d: "decode_attr XATTR_ATTR (encode16 (of_nat (length (xa_body xattr)) + 2) @ encode16 (ucast (xa_atom xattr)) @
      xa_body xattr @ rest) x r = Some (Some (?x, r, rest))" for rest
    using decode_xattr_bytes [OF l] Cons.prems(3) unfolding decode_attr_def Let_def by (simp add: attr_kinds)
  have k: "XATTR_ATTR < 16" by (simp add: attr_kinds)
  have "decode_attr_loop version (concat (map (xattr_bytes version) (xattr # xattrs))) x r =
      decode_attr_loop version (concat (map (xattr_bytes version) xattrs)) ?x r"
    using d by (subst decode_attr_loop.simps) (simp add: xattr_bytes_def k v)
  moreover have "decode_attr_loop version (concat (map (xattr_bytes version) xattrs)) ?x r =
      Some (?x\<lparr>ia_present := ia_present ?x OR (if xattrs \<noteq> [] then push_bit XATTR_ATTR 1 else 0),
              ia_xcache := Some (?xc\<lparr>xc_entries := xc_entries ?xc @ xattrs\<rparr>)\<rparr>, Some r)"
    using Cons.prems by (intro Cons.IH) simp_all
  ultimately show ?case by simp
qed

lemma attr_bytes_length:
  assumes "attrs_ok d"
  shows "length (attr_bytes version d kind) = (if bit (ia_present d) kind then atsize kind + 2 else 0)"
    and "bit (ia_present d) kind \<Longrightarrow> 4 \<le> atsize kind"
proof -
  have k: "kind \<le> MTIME_ATTR" if "bit (ia_present d) kind" using assms that by (simp add: attrs_ok_def)
  then show "length (attr_bytes version d kind) = (if bit (ia_present d) kind then atsize kind + 2 else 0)"
    by (simp add: attr_bytes_def length_attr_data)
  assume "bit (ia_present d) kind"
  then consider "kind = RDEV_ATTR" | "kind = MODE_OWNER_ATTR" | "kind = DATA_BTREE_ATTR" | "kind = CTIME_SIZE_ATTR"
    | "kind = LINK_COUNT_ATTR" | "kind = MTIME_ATTR" using k unfolding attr_kinds by fastforce
  then show "4 \<le> atsize kind" by cases simp_all
qed

lemma encode_asize_bytes:
  assumes "attrs_ok d"
  shows "encode_asize (ia_present d) = length (concat (map (attr_bytes version d) [0..<VAR_ATTRS]))"
  by (simp add: encode_asize_def length_concat comp_def attr_bytes_length(1) [OF assms])

lemma encode_attr_loop_all:
  assumes "attrs_ok d"
  shows "length acc + length (concat (map (attr_bytes version d) kinds)) \<le> siz \<Longrightarrow>
    encode_attr_loop version d siz kinds acc = acc @ concat (map (attr_bytes version d) kinds)"
proof (induction kinds arbitrary: acc)
  case (Cons kind kinds)
  show ?case
  proof (cases "bit (ia_present d) kind")
    case True
    then have "6 \<le> length (attr_bytes version d kind)" using attr_bytes_length(1) [OF assms, of version kind] attr_bytes_length(2) [OF assms True] by simp
    then have "\<not> siz \<le> length acc + 3" using Cons.prems by simp
    with True have "encode_attr_loop version d siz (kind # kinds) acc =
        encode_attr_loop version d siz kinds (acc @ attr_bytes version d kind)"
      by (simp add: attr_bytes_def)
    with Cons show ?thesis by simp
  next
    case False
    then have "attr_bytes version d kind = []" by (simp add: attr_bytes_def)
    with False Cons show ?thesis by simp
  qed
qed simp

lemma iattr_encode_bytes:
  assumes "attrs_ok d"
  shows "iattr_encode version d = concat (map (attr_bytes version d) [0..<VAR_ATTRS]) @
      concat (map (xattr_bytes version) (xattrs_of (ia_xcache d)))"
proof -
  have "encode_attrs version d (iattr_encoded_size d) = concat (map (attr_bytes version d) [0..<VAR_ATTRS])"
    unfolding encode_attrs_def iattr_encoded_size_def encode_asize_bytes [OF assms, of version]
    by (subst encode_attr_loop_all [OF assms]) simp_all
  then show ?thesis
    by (simp add: iattr_encode_def Let_def iattr_encoded_size_def encode_asize_bytes [OF assms, of version] encode_xattrs_all)
qed

lemma decode_xsize_attrs:
  assumes ok: "attrs_ok d" and v: "unat version < 4096"
  shows "decode_xsize version (concat (map (attr_bytes version d) kinds) @ rest) tot = decode_xsize version rest tot"
proof (induction kinds)
  case (Cons kind kinds)
  show ?case
  proof (cases "bit (ia_present d) kind")
    case True
    then have k: "kind \<le> MTIME_ATTR" using ok by (simp add: attrs_ok_def)
    then have "kind < 16" "kind \<noteq> XATTR_ATTR" "kind \<noteq> IDATA_ATTR" by (simp_all add: attr_kinds)
    then have "decode_xsize version (attr_bytes version d kind @ more) tot = decode_xsize version more tot" for more
      using True v length_attr_data [OF k, of d] by (subst decode_xsize.simps) (simp add: attr_bytes_def)
    then show ?thesis using Cons by simp
  next
    case False
    then show ?thesis using Cons by (simp add: attr_bytes_def)
  qed
qed simp

text \<open>What an inode is after it was decoded: the root of the data btree is always set and has no bit
  in \<open>present\<close>, the other attributes are those of the encoded inode where it had them.\<close>

definition attrs_seen :: "iattr \<Rightarrow> iattr \<Rightarrow> iattr" where
  "attrs_seen d x = (let has = bit (ia_present d); xattrs = xattrs_of (ia_xcache d) in
     x\<lparr>ia_present := ia_present x OR (ia_present d AND NOT (push_bit DATA_BTREE_ATTR 1)) OR
         (if xattrs \<noteq> [] then push_bit XATTR_ATTR 1 else 0),
       ia_mode := (if has MODE_OWNER_ATTR then ia_mode d else ia_mode x),
       ia_uid := (if has MODE_OWNER_ATTR then ia_uid d else ia_uid x),
       ia_gid := (if has MODE_OWNER_ATTR then ia_gid d else ia_gid x),
       ia_nlink := (if has LINK_COUNT_ATTR then ia_nlink d else ia_nlink x),
       ia_rdev := (if has RDEV_ATTR then ia_rdev d else ia_rdev x),
       ia_size := (if has CTIME_SIZE_ATTR then ia_size d else ia_size x),
       ia_mtime := (if has MTIME_ATTR then ia_mtime d else ia_mtime x),
       ia_ctime := (if has CTIME_SIZE_ATTR then ia_ctime d else ia_ctime x),
       ia_root := (if has DATA_BTREE_ATTR then ia_root d else no_root),
       ia_xcache := (if xattrs \<noteq> [] then Some \<lparr>xc_maxsize = sum_list (map entry_size xattrs), xc_entries = xattrs\<rparr>
                     else ia_xcache x)\<rparr>)"

definition see_all :: "iattr \<Rightarrow> iattr \<Rightarrow> iattr" where
  "see_all d x = fold (\<lambda>kind x. if bit (ia_present d) kind then see_attr d kind x else x) [0..<VAR_ATTRS] x"

lemma upt_kinds: "[0..<VAR_ATTRS] = [RDEV_ATTR, MODE_OWNER_ATTR, DATA_BTREE_ATTR, CTIME_SIZE_ATTR, LINK_COUNT_ATTR,
    MTIME_ATTR] @ [6..<VAR_ATTRS]"
  by (simp add: attr_kinds upt_conv_Cons)

lemma fold_none: "\<forall>k \<in> set ks. \<not> P k \<Longrightarrow> fold (\<lambda>k x. if P k then f k x else x) ks x = x"
  by (induction ks) simp_all

lemma see_attr_fields:
  "ia_present (if b then see_attr d k x else x) =
     (if b \<and> k \<le> MTIME_ATTR \<and> k \<noteq> DATA_BTREE_ATTR then ia_present x OR push_bit k 1 else ia_present x)"
  "ia_mode (if b then see_attr d k x else x) = (if b \<and> k = MODE_OWNER_ATTR then ia_mode d else ia_mode x)"
  "ia_uid (if b then see_attr d k x else x) = (if b \<and> k = MODE_OWNER_ATTR then ia_uid d else ia_uid x)"
  "ia_gid (if b then see_attr d k x else x) = (if b \<and> k = MODE_OWNER_ATTR then ia_gid d else ia_gid x)"
  "ia_nlink (if b then see_attr d k x else x) = (if b \<and> k = LINK_COUNT_ATTR then ia_nlink d else ia_nlink x)"
  "ia_rdev (if b then see_attr d k x else x) = (if b \<and> k = RDEV_ATTR then ia_rdev d else ia_rdev x)"
  "ia_size (if b then see_attr d k x else x) = (if b \<and> k = CTIME_SIZE_ATTR then ia_size d else ia_size x)"
  "ia_mtime (if b then see_attr d k x else x) = (if b \<and> k = MTIME_ATTR then ia_mtime d else ia_mtime x)"
  "ia_ctime (if b then see_attr d k x else x) = (if b \<and> k = CTIME_SIZE_ATTR then ia_ctime d else ia_ctime x)"
  "ia_root (if b then see_attr d k x else x) = ia_root x"
  "ia_xcache (if b then see_attr d k x else x) = ia_xcache x"
  "ia_nomem (if b then see_attr d k x else x) = ia_nomem x"
  by (auto simp: see_attr_def Let_def attr_kinds)

lemma see_all_fields:
  assumes ok: "attrs_ok d"
  defines "has \<equiv> bit (ia_present d)"
  shows "ia_present (see_all d x) = ia_present x OR (ia_present d AND NOT (push_bit DATA_BTREE_ATTR 1))"
    and "ia_mode (see_all d x) = (if has MODE_OWNER_ATTR then ia_mode d else ia_mode x)"
    and "ia_uid (see_all d x) = (if has MODE_OWNER_ATTR then ia_uid d else ia_uid x)"
    and "ia_gid (see_all d x) = (if has MODE_OWNER_ATTR then ia_gid d else ia_gid x)"
    and "ia_nlink (see_all d x) = (if has LINK_COUNT_ATTR then ia_nlink d else ia_nlink x)"
    and "ia_rdev (see_all d x) = (if has RDEV_ATTR then ia_rdev d else ia_rdev x)"
    and "ia_size (see_all d x) = (if has CTIME_SIZE_ATTR then ia_size d else ia_size x)"
    and "ia_mtime (see_all d x) = (if has MTIME_ATTR then ia_mtime d else ia_mtime x)"
    and "ia_ctime (see_all d x) = (if has CTIME_SIZE_ATTR then ia_ctime d else ia_ctime x)"
    and "ia_root (see_all d x) = ia_root x" and "ia_xcache (see_all d x) = ia_xcache x" and "ia_nomem (see_all d x) = ia_nomem x"
proof -
  have "\<not> has kind" if "kind \<in> set [6..<VAR_ATTRS]" for kind
    using ok that unfolding has_def attrs_ok_def by (fastforce simp: attr_kinds)
  then have none: "fold (\<lambda>kind x. if has kind then see_attr d kind x else x) [6..<VAR_ATTRS] x = x" for x
    by (intro fold_none) blast
  note E = see_all_def upt_kinds fold_append comp_apply fold_simps none [unfolded has_def]
  show "ia_mode (see_all d x) = (if has MODE_OWNER_ATTR then ia_mode d else ia_mode x)"
    "ia_uid (see_all d x) = (if has MODE_OWNER_ATTR then ia_uid d else ia_uid x)"
    "ia_gid (see_all d x) = (if has MODE_OWNER_ATTR then ia_gid d else ia_gid x)"
    "ia_nlink (see_all d x) = (if has LINK_COUNT_ATTR then ia_nlink d else ia_nlink x)"
    "ia_rdev (see_all d x) = (if has RDEV_ATTR then ia_rdev d else ia_rdev x)"
    "ia_size (see_all d x) = (if has CTIME_SIZE_ATTR then ia_size d else ia_size x)"
    "ia_mtime (see_all d x) = (if has MTIME_ATTR then ia_mtime d else ia_mtime x)"
    "ia_ctime (see_all d x) = (if has CTIME_SIZE_ATTR then ia_ctime d else ia_ctime x)"
    "ia_root (see_all d x) = ia_root x" "ia_xcache (see_all d x) = ia_xcache x" "ia_nomem (see_all d x) = ia_nomem x"
    unfolding E see_attr_fields has_def by (simp_all add: attr_kinds)
  have up: "j \<le> 5" if "bit (ia_present d) j" for j using ok that by (simp add: attrs_ok_def attr_kinds)
  define g :: "nat \<Rightarrow> u32" where "g k = (if bit (ia_present d) k then push_bit k 1 else 0)" for k
  have or_if: "(if c then y OR push_bit k 1 else y) = y OR (if c then push_bit k 1 else (0 :: u32))" for c y k by simp
  have p: "ia_present (see_all d x) = ia_present x OR (g 0 OR g 1 OR g 3 OR g 4 OR g 5)"
    unfolding E see_attr_fields or_if g_def by (simp add: attr_kinds or.assoc)
  have bg: "bit (g k) j \<longleftrightarrow> j = k \<and> bit (ia_present d) k" for k j
    using up [of k] by (auto simp: g_def bit_simps)
  have "g 0 OR g 1 OR g 3 OR g 4 OR g 5 = ia_present d AND NOT (push_bit DATA_BTREE_ATTR 1)"
  proof (rule bit_word_eqI)
    fix j assume "j < LENGTH(32)"
    moreover have "j = 0 \<or> j = 1 \<or> j = 2 \<or> j = 3 \<or> j = 4 \<or> j = 5 \<or> 5 < j" by linarith
    ultimately show "bit (g 0 OR g 1 OR g 3 OR g 4 OR g 5) j = bit (ia_present d AND NOT (push_bit DATA_BTREE_ATTR 1)) j"
      using up [of j] unfolding bit_or_iff bit_and_iff bit_not_iff bit_push_bit_iff bg bit_1_iff attr_kinds by auto
  qed
  with p show "ia_present (see_all d x) = ia_present x OR (ia_present d AND NOT (push_bit DATA_BTREE_ATTR 1))" by simp
qed

lemma decode_encode:
  assumes ok: "attrs_ok d" and v: "unat version < 4096" and mem: "\<not> ia_nomem x"
  shows "iattr_decode version x (iattr_encode version d) = (None, attrs_seen d x)"
proof -
  let ?xattrs = "xattrs_of (ia_xcache d)" and ?size = "sum_list (map entry_size (xattrs_of (ia_xcache d)))"
  have x: "xattrs_ok ?xattrs" using ok by (simp add: attrs_ok_def)
  have xs: "decode_xsize version (iattr_encode version d) 0 = Some ?size"
    unfolding iattr_encode_bytes [OF ok] decode_xsize_attrs [OF ok v] decode_xsize_xattrs [OF v x] by simp
  have zero: "?size = 0 \<longleftrightarrow> ?xattrs = []" by (cases ?xattrs) (auto simp: entry_size_def)
  have max: "?size mod 2 ^ 16 = ?size" using x by (simp add: xattrs_ok_def)
  define xc where "xc = (if ?size \<noteq> 0 then Some \<lparr>xc_maxsize = ?size, xc_entries = []\<rparr> else ia_xcache x)"
  let ?x = "x\<lparr>ia_xcache := xc\<rparr>"
  have "decode_attr_loop version (iattr_encode version d) ?x no_root =
      Some ((see_all d ?x)\<lparr>ia_present := ia_present (see_all d ?x) OR (if ?xattrs \<noteq> [] then push_bit XATTR_ATTR 1 else 0),
              ia_xcache := if ?xattrs \<noteq> [] then Some \<lparr>xc_maxsize = ?size, xc_entries = ?xattrs\<rparr> else ia_xcache x\<rparr>,
            Some (if bit (ia_present d) DATA_BTREE_ATTR then ia_root d else no_root))"
  proof (cases "?xattrs = []")
    case True
    then have x0: "?x = x" by (simp add: xc_def)
    have same: "(see_all d x)\<lparr>ia_xcache := ia_xcache x\<rparr> = see_all d x"
      by (rule iattr.equality) (simp_all add: see_all_fields(11) [OF ok])
    have "DATA_BTREE_ATTR \<in> set [0..<VAR_ATTRS]" by (simp add: attr_kinds)
    then show ?thesis
      unfolding iattr_encode_bytes [OF ok] decode_attrs_bytes [OF ok v] see_all_def [symmetric] True
      using x0 same by (simp add: decode_attr_loop.simps)
  next
    case False
    have "DATA_BTREE_ATTR \<in> set [0..<VAR_ATTRS]" by (simp add: attr_kinds)
    moreover have "xc = Some \<lparr>xc_maxsize = ?size, xc_entries = []\<rparr>" using False zero by (simp add: xc_def)
    ultimately show ?thesis
      unfolding iattr_encode_bytes [OF ok] decode_attrs_bytes [OF ok v] see_all_def [symmetric]
      using decode_xattr_loop [OF v, of "\<lparr>xc_maxsize = ?size, xc_entries = []\<rparr>" ?xattrs "see_all d ?x"] x False
      by (simp add: see_all_fields(11) [OF ok])
  qed
  then have dec: "decode_attrs version (iattr_encode version d) ?x = Some (attrs_seen d x)"
    unfolding decode_attrs_def attrs_seen_def Let_def
    by (simp add: see_all_fields [OF ok] iattr.equality or.assoc)
  have "(if ?size \<noteq> 0 then map_sum id Some (new_xcache (ia_nomem x) ?size) else Inr (ia_xcache x)) = Inr xc"
    using mem max by (simp add: new_xcache_def xc_def)
  then show ?thesis using dec by (simp add: iattr_decode_def xs)
qed

interpretation iattr: attr_codec "iattr_ops version" "\<lambda>d. attrs_ok d \<and> unat version < 4096" "\<lambda>x. \<not> ia_nomem x" attrs_seen
  for version
proof (unfold_locales, goal_cases)
  case (1 d)
  then show ?case
    by (simp add: iattr_ops_def iattr_encode_bytes iattr_encoded_size_def encode_asize_bytes [of d version]
        encode_xsize_of [of _ version])
next
  case (2 d)
  then have d: "attrs_ok d" by simp
  show ?case
  proof (cases "xattrs_of (ia_xcache d) = []")
    case True
    then obtain k where k: "bit (ia_present d) k" using d by (auto simp: attrs_ok_def bit_eq_iff)
    moreover have "k \<in> set [0..<VAR_ATTRS]" using k d by (force simp: attrs_ok_def attr_kinds)
    ultimately have "atsize k + 2 \<le> encode_asize (ia_present d)"
      unfolding encode_asize_def by (intro member_le_sum_list) (auto intro!: image_eqI [of _ _ k])
    then show ?thesis by (simp add: iattr_ops_def iattr_encoded_size_def)
  next
    case False
    then have "encode_xsize (ia_xcache d) \<noteq> 0"
      by (simp add: encode_xsize_of [of _ 0]) (metis length_0_conv length_xattr_bytes list.set_intros(1) neq_Nil_conv add_is_0 zero_neq_numeral)
    then show ?thesis by (simp add: iattr_ops_def iattr_encoded_size_def)
  qed
next
  case (3 d x)
  then show ?case using decode_encode by (simp add: iattr_ops_def)
qed

section \<open>Properties\<close>

text \<open>C9: writing the attributes of an inode into an inode leaf never fails: it asks for a split exactly when the
  attributes do not fit, and otherwise the leaf then reads back, into any inode, the attributes that were written (the times
  with their nanoseconds, the device number, the root of the data btree, the extended attributes), while every
  other inode number of the leaf reads as before.\<close>

theorem inode_write_read:
  assumes "rep bs leaf segs" and "il_base leaf \<le> inum" and "attrs_ok d" and "unat version < 4096" and "\<not> ia_nomem d0"
  shows "case ileaf_write (iattr_ops version) bs epl leaf inum 1 d of
      Some (Written leaf' k l) \<Rightarrow> k = inum + 1 \<and> l = 0 \<and>
        rep bs leaf' (put_seg (inum - il_base leaf) (iattr_encode version d) segs) \<and>
        ileaf_read (iattr_ops version) leaf' inum d0 = Some (None, attrs_seen d d0) \<and>
        (\<forall>i. il_base leaf \<le> i \<and> i \<noteq> inum \<longrightarrow>
           ileaf_read (iattr_ops version) leaf' i d0 = ileaf_read (iattr_ops version) leaf i d0)
    | Some (Need_split hint) \<Rightarrow> \<not> fits bs (put_seg (inum - il_base leaf) (iattr_encode version d) segs)
    | None \<Rightarrow> False"
proof -
  have v: "attrs_ok d \<and> unat version < 4096" using assms(3,4) by simp
  have e: "encode (iattr_ops version) d = iattr_encode version d" by (simp add: iattr_ops_def)
  show ?thesis
  proof (cases "fits bs (put_seg (inum - il_base leaf) (iattr_encode version d) segs)")
    case True
    then obtain leaf' where w: "ileaf_write (iattr_ops version) bs epl leaf inum 1 d = Some (Written leaf' (inum + 1) 0)"
      using iattr.write_put [OF assms(1,2) v, of epl] by (auto simp: e)
    show ?thesis using iattr.write_read [OF assms(1,2) v w, of d0] assms(5) unfolding w by (simp add: e)
  next
    case False
    then show ?thesis using iattr.write_put [OF assms(1,2) v, of epl] by (simp add: e)
  qed
qed

definition demo_inode :: iattr where
  "demo_inode = \<lparr>ia_present = push_bit MTIME_ATTR 1 OR push_bit LINK_COUNT_ATTR 1, ia_mode = 0, ia_uid = 0, ia_gid = 0, ia_nlink = 2,
     ia_rdev = 0, ia_size = 0, ia_mtime = \<lparr>tv_sec = 5, tv_nsec = 999999999\<rparr>, ia_ctime = \<lparr>tv_sec = 0, tv_nsec = 0\<rparr>,
     ia_root = no_root, ia_xcache = Some \<lparr>xc_maxsize = 128, xc_entries = [\<lparr>xa_atom = 3, xa_body = [7, 8]\<rparr>]\<rparr>, ia_nomem = False\<rparr>"

lemma demo_inode_ok: "attrs_ok demo_inode"
proof -
  have "bit (ia_present demo_inode) k \<longleftrightarrow> k = MTIME_ATTR \<or> k = LINK_COUNT_ATTR" for k
    by (auto simp: demo_inode_def attr_kinds bit_or_iff bit_push_bit_iff bit_1_iff simp del: push_bit_of_1 push_bit_numeral)
  then show ?thesis
    by (auto simp: attrs_ok_def attr_kinds demo_inode_def time_ok_def xattrs_of_def xattrs_ok_def entry_size_def)
qed

lemma inode_write_read_witness:
  "\<exists>leaf' k l. ileaf_write (iattr_ops 0) 128 1 \<lparr>il_magic = 0x90de, il_base = 8, il_dict = [], il_table = replicate 112 0\<rparr> 9 1 demo_inode =
      Some (Written leaf' k l) \<and> ileaf_read (iattr_ops 0) leaf' 9 demo_inode = Some (None, attrs_seen demo_inode demo_inode)"
proof -
  let ?leaf = "\<lparr>il_magic = 0x90de, il_base = 8, il_dict = [], il_table = replicate 112 0\<rparr>"
  have r: "rep 128 ?leaf []" by (simp add: rep_def ileaf_hdr_def total_len_def)
  have n: "length (iattr_encode 0 demo_inode) = 24" by code_simp
  have "fits 128 (put_seg (9 - il_base ?leaf) (iattr_encode 0 demo_inode) [])"
    by (simp add: fits_def put_seg_def padded_def ileaf_hdr_def n total_len_def)
  moreover have "\<not> ia_nomem demo_inode" "unat (0 :: u32) < 4096" "il_base ?leaf \<le> 9" by (simp_all add: demo_inode_def)
  ultimately show ?thesis
    using inode_write_read [OF r _ demo_inode_ok, of 9 0 demo_inode 1] by (auto split: option.splits write_result.splits)
qed

text \<open>
  An extended attribute of another version is skipped without its body: here the decoder goes on
  reading in the body and takes a link count from it. (\<open>decode_xsize\<close> skips the body.)
\<close>

lemma foreign_xattr_body_decoded:
  "map_option ia_nlink (decode_attrs 0 (encode_kind XATTR_ATTR 1 @ encode16 8 @ encode16 3 @
      encode_kind LINK_COUNT_ATTR 0 @ encode32 9) d) = Some 9"
proof -
  have k: "XATTR_ATTR < 16" "LINK_COUNT_ATTR < 16" by (simp_all add: attr_kinds)
  have "drop (atsize XATTR_ATTR) (encode16 8 @ encode16 3 @ rest) = rest" for rest by simp
  then have "decode_attr_loop 0 (encode_kind XATTR_ATTR 1 @ encode16 8 @ encode16 3 @
      encode_kind LINK_COUNT_ATTR 0 @ encode32 9) d r = decode_attr_loop 0 (encode_kind LINK_COUNT_ATTR 0 @ encode32 9) d r" for r
    by (subst decode_attr_loop.simps) (simp add: k)
  moreover have "decode_attr_loop 0 (encode_kind LINK_COUNT_ATTR 0 @ encode32 9) d r =
      Some (d\<lparr>ia_nlink := 9, ia_present := ia_present d OR push_bit LINK_COUNT_ATTR 1\<rparr>, Some r)" for r
    using decode32_encode32 [of 9 "[]"]
    by (subst decode_attr_loop.simps) (simp add: k decode_attr_def attr_kinds decode_attr_loop.simps Let_def)
  ultimately show ?thesis by (simp add: decode_attrs_def)
qed

end
