(* ===== verification/Hole.thy ===== *)
theory Hole
  imports Dleafmap
begin

text \<open>
  Delayed truncation, \<open>src/kernel/filemap_hole.c\<close>: the hole extents of an inode, which hide the
  truncated part of a file from the frontend until the backend has chopped the btree. A hole
  extent is in two lists, the one of the inode and the one of the delta that made it dirty; here the
  lists hold the numbers of the extents in a store. The slab cache and the locks are left out, \<open>nomem\<close>
  is what the allocation answers. \<open>None\<close> is a failed assertion.
\<close>

section \<open>State and operations\<close>

definition MAX_BLOCKS :: nat where "MAX_BLOCKS = 2 ^ 48"

record hole_extent =
  h_start :: nat
  h_count :: nat

record holes =
  hole_of :: "nat \<Rightarrow> hole_extent"
  next_hole :: nat
  hole_extents :: "nat list"
  dirty_holes :: "nat \<Rightarrow> nat list"
  hole_nomem :: bool

text \<open>\<open>list_del_init\<close> from both lists and \<open>tux3_destroy_hole\<close>\<close>

definition drop_hole :: "nat \<Rightarrow> nat \<Rightarrow> holes \<Rightarrow> holes" where
  "drop_hole delta hole s =
     s\<lparr>hole_extents := removeAll hole (hole_extents s),
       dirty_holes := (dirty_holes s)(delta := removeAll hole (dirty_holes s delta))\<rparr>"

text \<open>The loop over the dirty holes of the delta; the result is the hole that took the new one over.\<close>

fun add_hole_loop :: "nat \<Rightarrow> nat \<Rightarrow> nat \<Rightarrow> nat option \<Rightarrow> nat list \<Rightarrow> holes \<Rightarrow> nat option \<times> holes" where
  "add_hole_loop delta start count merged [] s = (merged, s)"
| "add_hole_loop delta start count merged (hole # rest) s =
     (let end' = start + count; h = hole_of s hole in
      if end' < h_start h \<or> h_start h + h_count h < start then add_hole_loop delta start count merged rest s
      else let start = min start (h_start h);
               count = max end' (h_start h + h_count h) - start;
               s = (if merged = None then s else drop_hole delta hole s);
               m = (case merged of None \<Rightarrow> hole | Some m \<Rightarrow> m)
           in add_hole_loop delta start count (Some m) rest
                (s\<lparr>hole_of := (hole_of s)(m := \<lparr>h_start = start, h_count = count\<rparr>)\<rparr>))"

definition tux3_add_hole :: "nat \<Rightarrow> nat \<Rightarrow> nat \<Rightarrow> holes \<Rightarrow> (err \<times> holes) option" where
  "tux3_add_hole delta start count s =
     (if start + count \<noteq> MAX_BLOCKS then None
      else case add_hole_loop delta start count None (dirty_holes s delta) s of
             (Some _, s) \<Rightarrow> Some (None, s)
           | (None, s) \<Rightarrow>
               if hole_nomem s then Some (Some ENOMEM, s)
               else let hole = next_hole s in
                 Some (None, s\<lparr>hole_of := (hole_of s)(hole := \<lparr>h_start = start, h_count = count\<rparr>), next_hole := hole + 1,
                   dirty_holes := (dirty_holes s)(delta := hole # dirty_holes s delta),
                   hole_extents := hole # hole_extents s\<rparr>))"

definition tux3_add_truncate_hole :: "nat \<Rightarrow> nat \<Rightarrow> nat \<Rightarrow> holes \<Rightarrow> (err \<times> holes) option" where
  "tux3_add_truncate_hole bits delta newsize s =
     (let start = (newsize + (2 ^ bits - 1)) div 2 ^ bits
      in tux3_add_hole delta start (MAX_BLOCKS - start) s)"

text \<open>The backend chops the btree, on which \<open>chop\<close> works, at the start of each dirty hole.\<close>

fun flush_hole_loop :: "(nat \<Rightarrow> 't \<Rightarrow> err \<times> 't) \<Rightarrow> nat \<Rightarrow> nat list \<Rightarrow> err \<Rightarrow> holes \<Rightarrow> 't \<Rightarrow> (err \<times> holes \<times> 't) option" where
  "flush_hole_loop chop delta [] e s t = Some (e, s, t)"
| "flush_hole_loop chop delta (hole # rest) e s t =
     (if h_start (hole_of s hole) + h_count (hole_of s hole) \<noteq> MAX_BLOCKS then None
      else let (ret, t) = chop (h_start (hole_of s hole)) t
           in flush_hole_loop chop delta rest (if e = None then ret else e) (drop_hole delta hole s) t)"

definition tux3_flush_hole :: "(nat \<Rightarrow> 't \<Rightarrow> err \<times> 't) \<Rightarrow> nat \<Rightarrow> holes \<Rightarrow> 't \<Rightarrow> (err \<times> holes \<times> 't) option" where
  "tux3_flush_hole chop delta s t = flush_hole_loop chop delta (dirty_holes s delta) None s t"

definition tux3_clear_hole :: "nat \<Rightarrow> holes \<Rightarrow> bool \<times> holes" where
  "tux3_clear_hole delta s =
     (dirty_holes s delta \<noteq> [], fold (drop_hole delta) (dirty_holes s delta) s)"

fun is_hole_loop :: "holes \<Rightarrow> nat \<Rightarrow> nat list \<Rightarrow> bool option" where
  "is_hole_loop s start [] = Some False"
| "is_hole_loop s start (hole # rest) =
     (if h_start (hole_of s hole) + h_count (hole_of s hole) \<noteq> MAX_BLOCKS then None
      else if h_start (hole_of s hole) \<le> start then Some True
      else is_hole_loop s start rest)"

definition tux3_is_hole :: "holes \<Rightarrow> nat \<Rightarrow> bool option" where
  "tux3_is_hole s start = is_hole_loop s start (hole_extents s)"

fun hole_start_loop :: "holes \<Rightarrow> nat \<Rightarrow> nat list \<Rightarrow> nat option" where
  "hole_start_loop s hole_start [] = Some hole_start"
| "hole_start_loop s hole_start (hole # rest) =
     (if h_start (hole_of s hole) + h_count (hole_of s hole) \<noteq> MAX_BLOCKS then None
      else hole_start_loop s (min hole_start (h_start (hole_of s hole))) rest)"

text \<open>The update of the segments from number \<open>i\<close> on; the result ends where the code returns \<open>i\<close>.\<close>

fun map_hole_loop :: "nat \<Rightarrow> nat \<Rightarrow> nat \<Rightarrow> nat \<Rightarrow> nat \<Rightarrow> segment list \<Rightarrow> segment list" where
  "map_hole_loop hole_start max_segs start count i [] = []"
| "map_hole_loop hole_start max_segs start count i (seg # segs) =
     (if hole_start < start + seg_count seg
      then (if seg_state seg = BLOCK_SEG_HOLE then [seg\<lparr>seg_count := count\<rparr>]
            else seg\<lparr>seg_count := hole_start - start\<rparr> #
              (if i + 1 < max_segs then [\<lparr>seg_block = 0, seg_count = count, seg_state = BLOCK_SEG_HOLE\<rparr>] else []))
      else seg # map_hole_loop hole_start max_segs (start + seg_count seg) (count - seg_count seg) (i + 1) segs)"

definition tux3_map_hole :: "holes \<Rightarrow> nat \<Rightarrow> nat \<Rightarrow> segment list \<Rightarrow> nat \<Rightarrow> segment list option" where
  "tux3_map_hole s start count segs max_segs =
     map_option (\<lambda>hole_start. if start + count \<le> hole_start then segs
                              else map_hole_loop hole_start max_segs start count 0 segs)
       (hole_start_loop s MAX_BLOCKS (hole_extents s))"

section \<open>The hidden part of the file\<close>

abbreviation start_of :: "holes \<Rightarrow> nat \<Rightarrow> nat" where
  "start_of s hole \<equiv> h_start (hole_of s hole)"

text \<open>The first block that is hidden.\<close>

definition hidden :: "holes \<Rightarrow> nat" where
  "hidden s = Min (insert MAX_BLOCKS (start_of s ` set (hole_extents s)))"

text \<open>Only truncation makes holes: all end at \<open>MAX_BLOCKS\<close>, and a delta has one at most.\<close>

definition hole_inv :: "holes \<Rightarrow> bool" where
  "hole_inv s \<longleftrightarrow>
     distinct (hole_extents s) \<and> (\<forall>hole \<in> set (hole_extents s). hole < next_hole s) \<and>
     (\<forall>hole \<in> set (hole_extents s). start_of s hole + h_count (hole_of s hole) = MAX_BLOCKS) \<and>
     (\<forall>delta. set (dirty_holes s delta) \<subseteq> set (hole_extents s) \<and> length (dirty_holes s delta) \<le> 1) \<and>
     (\<forall>d d'. d \<noteq> d' \<longrightarrow> set (dirty_holes s d) \<inter> set (dirty_holes s d') = {})"

lemma hole_start_loop_min:
  "\<forall>hole \<in> set hs. start_of s hole + h_count (hole_of s hole) = MAX_BLOCKS \<Longrightarrow>
   hole_start_loop s m hs = Some (Min (insert m (start_of s ` set hs)))"
proof (induction hs arbitrary: m)
  case (Cons hole hs)
  then have "hole_start_loop s m (hole # hs) = Some (Min (insert (min m (start_of s hole)) (start_of s ` set hs)))" by simp
  also have "Min (insert (min m (start_of s hole)) (start_of s ` set hs)) = Min (insert m (start_of s ` set (hole # hs)))"
    by (cases "hs = []") (simp_all add: min.assoc)
  finally show ?case .
qed simp

lemma is_hole_loop_iff:
  "\<forall>hole \<in> set hs. start_of s hole + h_count (hole_of s hole) = MAX_BLOCKS \<Longrightarrow>
   is_hole_loop s start hs = Some (\<exists>hole \<in> set hs. start_of s hole \<le> start)"
  by (induction hs) auto

lemma is_hole_hidden: "hole_inv s \<Longrightarrow> start < MAX_BLOCKS \<Longrightarrow> tux3_is_hole s start = Some (hidden s \<le> start)"
  by (auto simp: tux3_is_hole_def hole_inv_def is_hole_loop_iff hidden_def Min_le_iff)

lemma hidden_cong: "hole_extents s' = hole_extents s \<Longrightarrow> \<forall>h \<in> set (hole_extents s). hole_of s' h = hole_of s h \<Longrightarrow> hidden s' = hidden s"
  by (simp add: hidden_def)

lemma Min_swap: "finite X \<Longrightarrow> min a (Min (insert b X)) = min b (Min (insert (a :: nat) X))"
  by (cases "X = {}") (simp_all add: min.commute min.left_commute)

text \<open>Adding a hole.\<close>

lemma add_hole_hidden:
  assumes inv: "hole_inv s" and start: "start \<le> MAX_BLOCKS"
  shows "\<exists>e s'. tux3_add_hole delta start (MAX_BLOCKS - start) s = Some (e, s') \<and> hole_inv s' \<and>
    (if e = None then hidden s' = min (hidden s) start
     else e = Some ENOMEM \<and> s' = s \<and> dirty_holes s delta = [] \<and> hole_nomem s)"
proof (cases "dirty_holes s delta")
  case Nil
  let ?h = "next_hole s"
  let ?s = "s\<lparr>hole_of := (hole_of s)(?h := \<lparr>h_start = start, h_count = MAX_BLOCKS - start\<rparr>), next_hole := ?h + 1,
      dirty_holes := (dirty_holes s)(delta := [?h]), hole_extents := ?h # hole_extents s\<rparr>"
  have new: "?h \<notin> set (hole_extents s)" "\<And>d. ?h \<notin> set (dirty_holes s d)" using inv by (auto simp: hole_inv_def)
  have "hole_inv ?s"
    using inv new start unfolding hole_inv_def by (auto simp: less_Suc_eq Nil)
  moreover have "hidden ?s = min (hidden s) start"
  proof -
    have "start_of ?s ` set (hole_extents s) = start_of s ` set (hole_extents s)" using new by (intro image_cong) auto
    then have "start_of ?s ` set (hole_extents ?s) = insert start (start_of s ` set (hole_extents s))" by simp
    then show ?thesis unfolding hidden_def by (simp add: Min_swap [of _ MAX_BLOCKS start] min.commute)
  qed
  ultimately show ?thesis using inv Nil start by (simp add: tux3_add_hole_def Let_def)
next
  case (Cons h rest)
  then have r: "rest = []" using inv by (auto simp: hole_inv_def) (metis Suc_le_mono length_0_conv le_zero_eq length_Cons One_nat_def list.size(4))
  have h: "h \<in> set (hole_extents s)" "start_of s h + h_count (hole_of s h) = MAX_BLOCKS"
    using inv Cons by (auto simp: hole_inv_def) (metis list.set_intros(1) subsetD)+
  let ?s = "s\<lparr>hole_of := (hole_of s)(h := \<lparr>h_start = min start (start_of s h), h_count = MAX_BLOCKS - min start (start_of s h)\<rparr>)\<rparr>"
  have run: "tux3_add_hole delta start (MAX_BLOCKS - start) s = Some (None, ?s)"
    using start h(2) by (simp add: tux3_add_hole_def Cons r Let_def)
  have "hole_inv ?s" using inv start unfolding hole_inv_def by auto
  moreover have "hidden ?s = min (hidden s) start"
  proof -
    have "start_of ?s ` set (hole_extents s) = insert (min start (start_of s h)) (start_of s ` (set (hole_extents s) - {h}))"
      using h(1) by auto
    moreover have "start_of s ` set (hole_extents s) = insert (start_of s h) (start_of s ` (set (hole_extents s) - {h}))"
      using h(1) by auto
    ultimately show ?thesis unfolding hidden_def
      by (cases "set (hole_extents s) - {h} = {}") (simp_all add: insert_commute [of MAX_BLOCKS] min.assoc min.commute min.left_commute)
  qed
  ultimately show ?thesis using run by simp
qed

text \<open>Flushing and clearing the holes of a delta.\<close>

definition without :: "nat \<Rightarrow> holes \<Rightarrow> holes" where
  "without delta s =
     s\<lparr>hole_extents := filter (\<lambda>h. h \<notin> set (dirty_holes s delta)) (hole_extents s), dirty_holes := (dirty_holes s)(delta := [])\<rparr>"

lemma dirty_cases:
  assumes "hole_inv s"
  obtains "dirty_holes s delta = []" | h where "dirty_holes s delta = [h]" "h \<in> set (hole_extents s)"
    "start_of s h + h_count (hole_of s h) = MAX_BLOCKS"
proof (cases "dirty_holes s delta")
  case (Cons h rest)
  moreover have "length (dirty_holes s delta) \<le> 1" "set (dirty_holes s delta) \<subseteq> set (hole_extents s)"
    using assms by (simp_all add: hole_inv_def)
  ultimately show ?thesis using that(2) assms by (auto simp: hole_inv_def)
qed (use that in simp)

lemma without_inv: "hole_inv s \<Longrightarrow> hole_inv (without delta s)"
proof -
  assume inv: "hole_inv s"
  have "set (dirty_holes s d) \<subseteq> set (hole_extents (without delta s))" if "d \<noteq> delta" for d
    using inv that unfolding hole_inv_def without_def by (auto 4 4)
  then show ?thesis using inv unfolding hole_inv_def by (auto simp: without_def)
qed

lemma drop_hole_without: "dirty_holes s delta = [h] \<Longrightarrow> drop_hole delta h s = without delta s"
  by (simp add: drop_hole_def without_def removeAll_filter_not_eq eq_commute [of h])

lemma without_none: "dirty_holes s delta = [] \<Longrightarrow> without delta s = s"
  by (simp add: without_def fun_upd_idem)

lemma flush_hole_spec:
  assumes inv: "hole_inv s"
  shows "tux3_flush_hole chop delta s t =
     Some (case map (start_of s) (dirty_holes s delta) of
             [] \<Rightarrow> (None, without delta s, t)
           | start # _ \<Rightarrow> (fst (chop start t), without delta s, snd (chop start t)))"
  using inv
proof (cases rule: dirty_cases [of s delta])
  case 1
  then show ?thesis by (simp add: tux3_flush_hole_def without_none)
next
  case (2 h)
  then show ?thesis by (simp add: tux3_flush_hole_def drop_hole_without split_beta)
qed

lemma clear_hole_spec:
  assumes inv: "hole_inv s"
  shows "tux3_clear_hole delta s = (dirty_holes s delta \<noteq> [], without delta s)"
  using inv
proof (cases rule: dirty_cases [of s delta])
  case 1
  then show ?thesis by (simp add: tux3_clear_hole_def without_none)
next
  case (2 h)
  then show ?thesis by (simp add: tux3_clear_hole_def drop_hole_without)
qed

lemma hidden_without:
  assumes inv: "hole_inv s"
  shows "min (hidden (without delta s)) (Min (insert MAX_BLOCKS (start_of s ` set (dirty_holes s delta)))) = hidden s"
proof -
  let ?A = "start_of s ` {h \<in> set (hole_extents s). h \<notin> set (dirty_holes s delta)}" and ?B = "start_of s ` set (dirty_holes s delta)"
  have "set (hole_extents s) = {h \<in> set (hole_extents s). h \<notin> set (dirty_holes s delta)} \<union> set (dirty_holes s delta)"
    using inv by (auto simp: hole_inv_def)
  then have "insert MAX_BLOCKS (start_of s ` set (hole_extents s)) = insert MAX_BLOCKS ?A \<union> insert MAX_BLOCKS ?B" by blast
  then show ?thesis unfolding hidden_def without_def by (simp add: Min_Un [symmetric])
qed

section \<open>The hidden part in the segments\<close>

lemma map_hole_loop_map:
  assumes "\<forall>seg \<in> set segs. seg_state seg = BLOCK_SEG_HOLE \<longrightarrow> seg_block seg = 0" and "start \<le> hs" and "start \<le> l"
  shows "seg_map start (map_hole_loop hs mx start count i segs) l = (if l < hs then seg_map start segs l else 0)"
  using assms
proof (induction segs arbitrary: start count i)
  case (Cons seg segs)
  show ?case
  proof (cases "hs < start + seg_count seg")
    case True
    then show ?thesis using Cons.prems by auto
  next
    case False
    then show ?thesis using Cons by auto
  qed
qed simp

lemma map_hole_loop_total:
  assumes "seg_total_count segs = count" and "start \<le> hs" and "hs < start + count" and "i + length segs < mx"
  shows "seg_total_count (map_hole_loop hs mx start count i segs) = count \<or>
    (\<exists>j < length segs. seg_state (segs ! j) \<noteq> BLOCK_SEG_HOLE \<and>
       seg_total_count (map_hole_loop hs mx start count i segs) = count + (hs - (start + seg_total_count (take j segs))))"
  using assms
proof (induction segs arbitrary: start count i)
  case (Cons seg segs)
  show ?case
  proof (cases "hs < start + seg_count seg")
    case True
    then show ?thesis using Cons.prems by (cases "seg_state seg = BLOCK_SEG_HOLE") auto
  next
    case False
    have "seg_total_count segs = count - seg_count seg" "seg_count seg \<le> count" using Cons.prems(1) by simp_all
    with Cons.IH [of "count - seg_count seg" "start + seg_count seg" "i + 1"] Cons.prems False show ?thesis
      by (auto simp: add.assoc intro: exI [of _ "Suc _"])
  qed
qed simp

lemma map_hole_loop_length: "i + length segs \<le> mx \<Longrightarrow> i + length (map_hole_loop hs mx start count i segs) \<le> mx"
proof (induction segs arbitrary: i start count)
  case (Cons seg segs)
  show ?case using Cons.IH [of "i + 1"] Cons.prems by auto
qed simp

lemma map_hole_spec:
  assumes inv: "hole_inv s" and hole: "\<forall>seg \<in> set segs. seg_state seg = BLOCK_SEG_HOLE \<longrightarrow> seg_block seg = 0"
    and start: "start \<le> hidden s" and len: "length segs \<le> max_segs" and total: "seg_total_count segs \<le> count"
  shows "\<exists>segs'. tux3_map_hole s start count segs max_segs = Some segs' \<and> length segs' \<le> max_segs \<and>
    (\<forall>l. start \<le> l \<longrightarrow> seg_map start segs' l = (if l < hidden s then seg_map start segs l else 0))"
proof -
  have m: "hole_start_loop s MAX_BLOCKS (hole_extents s) = Some (hidden s)"
    using inv by (simp add: hole_start_loop_min hidden_def hole_inv_def)
  have zero: "seg_map start segs l = 0" if "start + count \<le> l" for l
    using seg_map_append_ge [of start segs l "[]"] that total by simp
  show ?thesis
  proof (cases "start + count \<le> hidden s")
    case True
    then show ?thesis using len zero by (force simp: tux3_map_hole_def m)
  next
    case False
    then show ?thesis
      using map_hole_loop_map [OF hole start] map_hole_loop_length [of 0 segs max_segs] len
      by (simp add: tux3_map_hole_def m)
  qed
qed

lemma ceil_div_le: "((n :: nat) + (2 ^ bits - 1)) div 2 ^ bits \<le> l \<longleftrightarrow> n \<le> l * 2 ^ bits"
proof -
  have "(n + (2 ^ bits - 1)) div 2 ^ bits < Suc l \<longleftrightarrow> n + (2 ^ bits - 1) < Suc l * 2 ^ bits"
    by (rule div_less_iff_less_mult) simp
  moreover have "0 < (2 :: nat) ^ bits" by simp
  then have "n + (2 ^ bits - 1) < Suc l * 2 ^ bits \<longleftrightarrow> n \<le> l * 2 ^ bits"
    unfolding mult_Suc by linarith
  ultimately show ?thesis by (simp only: less_Suc_eq_le)
qed

section \<open>Properties\<close>

text \<open>C18: truncating a file to \<open>newsize\<close> never fails an assertion. When it succeeds, the blocks that begin at
  \<open>newsize\<close> or above are hidden from then on, together with what was hidden before; the only failure is
  \<open>ENOMEM\<close>, which changes nothing. The structure of the hole lists is kept.\<close>

theorem truncate_hole_exact:
  assumes "hole_inv s" and "newsize \<le> MAX_BLOCKS * 2 ^ bits"
  shows "\<exists>e s'. tux3_add_truncate_hole bits delta newsize s = Some (e, s') \<and> hole_inv s' \<and>
    (if e = None
     then \<forall>l < MAX_BLOCKS. tux3_is_hole s' l = Some (tux3_is_hole s l = Some True \<or> newsize \<le> l * 2 ^ bits)
     else e = Some ENOMEM \<and> s' = s)"
proof -
  let ?start = "(newsize + (2 ^ bits - 1)) div 2 ^ bits"
  have below: "?start \<le> l \<longleftrightarrow> newsize \<le> l * 2 ^ bits" for l
    by (rule ceil_div_le)
  have "?start \<le> MAX_BLOCKS" using assms(2) by (simp only: below)
  from add_hole_hidden [OF assms(1) this, of delta] obtain e s' where
    run: "tux3_add_hole delta ?start (MAX_BLOCKS - ?start) s = Some (e, s')" and inv: "hole_inv s'"
    and res: "if e = None then hidden s' = min (hidden s) ?start
         else e = Some ENOMEM \<and> s' = s \<and> dirty_holes s delta = [] \<and> hole_nomem s" by blast
  have "tux3_is_hole s' l = Some (tux3_is_hole s l = Some True \<or> newsize \<le> l * 2 ^ bits)"
    if "e = None" "l < MAX_BLOCKS" for l
  proof -
    have "hidden s' = min (hidden s) ?start" using that(1) res by (simp only: simp_thms if_True)
    then have "hidden s' \<le> l \<longleftrightarrow> hidden s \<le> l \<or> newsize \<le> l * 2 ^ bits"
      by (simp only: min_le_iff_disj below)
    then show ?thesis using that(2) by (simp add: is_hole_hidden [OF inv] is_hole_hidden [OF assms(1)])
  qed
  with run inv res show ?thesis by (auto simp: tux3_add_truncate_hole_def Let_def)
qed

text \<open>A file of 9 blocks on the disk, block 7 and the following being hidden by delta 0.\<close>

definition demo_holes :: holes where
  "demo_holes = \<lparr>hole_of = (\<lambda>_. \<lparr>h_start = 7, h_count = MAX_BLOCKS - 7\<rparr>), next_hole = 1, hole_extents = [0],
     dirty_holes = (\<lambda>delta. if delta = 0 then [0] else []), hole_nomem = False\<rparr>"

lemma demo_holes_inv: "hole_inv demo_holes"
  by (auto simp: hole_inv_def demo_holes_def MAX_BLOCKS_def)

lemma demo_hidden: "hidden demo_holes = 7"
  by (simp add: hidden_def demo_holes_def MAX_BLOCKS_def)

lemma truncate_hole_exact_witness:
  "\<exists>e s'. tux3_add_truncate_hole 12 1 5000 demo_holes = Some (e, s') \<and> hole_inv s' \<and> tux3_is_hole demo_holes 5 = Some False"
proof -
  have "(5000 :: nat) \<le> MAX_BLOCKS * 2 ^ 12" by (simp add: MAX_BLOCKS_def)
  from truncate_hole_exact [OF demo_holes_inv this, of 1] is_hole_hidden [OF demo_holes_inv, of 5]
  show ?thesis by (auto simp: demo_hidden MAX_BLOCKS_def)
qed

text \<open>C31: the backend's flush of the holes of a delta does not change the file as the frontend sees it. With
  a chop that empties the btree from the given block on and keeps it below, each block shows the same
  contents before and after, the holes of the delta are gone and those of the other deltas are kept.\<close>

theorem flush_hole_keeps_view:
  assumes "hole_inv s"
    and "\<forall>hole \<in> set (dirty_holes s delta). \<forall>l.
      blocks (snd (chop (h_start (hole_of s hole)) t)) l = (if l < h_start (hole_of s hole) then blocks t l else 0)"
  shows "\<exists>e s' t'. tux3_flush_hole chop delta s t = Some (e, s', t') \<and> hole_inv s' \<and>
    dirty_holes s' = (dirty_holes s)(delta := []) \<and>
    (\<forall>l < MAX_BLOCKS. (if tux3_is_hole s' l = Some True then 0 else blocks t' l) =
       (if tux3_is_hole s l = Some True then (0 :: nat) else blocks t l))"
  using assms(1)
proof (cases rule: dirty_cases [of s delta])
  case 1
  then show ?thesis
    using assms(1) by (simp add: flush_hole_spec without_none fun_upd_idem)
next
  case (2 h)
  let ?s = "without delta s" and ?t = "snd (chop (start_of s h) t)"
  have inv: "hole_inv ?s" using assms(1) by (rule without_inv)
  have "hidden s = min (hidden ?s) (min MAX_BLOCKS (start_of s h))"
    using hidden_without [OF assms(1), of delta] 2(1) by simp
  moreover have "blocks ?t l = (if l < start_of s h then blocks t l else 0)" for l using assms(2) 2(1) by simp
  ultimately have "(if tux3_is_hole ?s l = Some True then 0 else blocks ?t l) =
      (if tux3_is_hole s l = Some True then 0 else blocks t l)" if "l < MAX_BLOCKS" for l
    using that by (simp add: is_hole_hidden [OF inv] is_hole_hidden [OF assms(1)] min_le_iff_disj)
  then show ?thesis using 2(1) inv by (simp add: flush_hole_spec [OF assms(1)]) (simp add: without_def)
qed

text \<open>The chop of a file that has a single leaf.\<close>

definition chop_leaf :: "nat \<Rightarrow> dleaf2 \<Rightarrow> err \<times> dleaf2" where
  "chop_leaf start dleaf = (case dleaf2_chop 0 start dleaf demo_free of None \<Rightarrow> (Some EIO, dleaf) | Some (_, d, _) \<Rightarrow> (None, d))"

definition demo_holes1 :: holes where
  "demo_holes1 = demo_holes\<lparr>hole_of := (\<lambda>_. \<lparr>h_start = 1, h_count = MAX_BLOCKS - 1\<rparr>)\<rparr>"

lemma flush_hole_keeps_view_witness:
  "\<exists>e s' t'. tux3_flush_hole chop_leaf 0 demo_holes1 demo_leaf = Some (e, s', t') \<and> hole_inv s' \<and> dirty_holes s' 0 = []"
proof -
  have inv: "hole_inv demo_holes1" by (auto simp: hole_inv_def demo_holes1_def demo_holes_def MAX_BLOCKS_def)
  have "lmap (exts (snd (chop_leaf 1 demo_leaf))) l = (if l < 1 then lmap (exts demo_leaf) l else 0)" for l
  proof -
    obtain fs d where c: "dleaf2_chop 0 1 demo_leaf demo_free =
        (case free_all demo_free fs of None \<Rightarrow> None | Some sb' \<Rightarrow> Some (True, d, sb'))"
      "\<forall>l. lmap (exts d) l = (if l < 1 then lmap (exts demo_leaf) l else 0)"
      using chop_spec [OF demo_leaf_wf, of 1 0 demo_free] by (auto simp: demo_leaf_exts)
    obtain sb where "free_all demo_free fs = Some sb"
      using free_all_logged [of demo_free "[]" fs] empty_log_inv [of 64] by (auto simp: demo_free_def)
    with c show ?thesis by (simp add: chop_leaf_def)
  qed
  then have "\<forall>hole \<in> set (dirty_holes demo_holes1 0). \<forall>l.
      lmap (exts (snd (chop_leaf (h_start (hole_of demo_holes1 hole)) demo_leaf))) l =
      (if l < h_start (hole_of demo_holes1 hole) then lmap (exts demo_leaf) l else 0)"
    by (simp add: demo_holes1_def)
  from flush_hole_keeps_view [where blocks = "\<lambda>d. lmap (exts d)" and chop = chop_leaf, OF inv this] show ?thesis by force
qed

text \<open>C32: the update of the segments of a read range that begins before the holes hides exactly the blocks
  of the holes: each block below them is mapped as it was, the others are unmapped, and the segments stay
  within the array.\<close>

theorem map_hole_exact:
  assumes "hole_inv s" and "\<forall>seg \<in> set segs. seg_state seg = BLOCK_SEG_HOLE \<longrightarrow> seg_block seg = 0"
    and "tux3_is_hole s start = Some False" and "start < MAX_BLOCKS"
    and "length segs \<le> max_segs" and "seg_total_count segs \<le> count"
  shows "\<exists>segs'. tux3_map_hole s start count segs max_segs = Some segs' \<and> length segs' \<le> max_segs \<and>
    (\<forall>l. start \<le> l \<and> l < MAX_BLOCKS \<longrightarrow>
       seg_map start segs' l = (if tux3_is_hole s l = Some True then 0 else seg_map start segs l))"
proof -
  have "start \<le> hidden s" using assms(3,4) by (simp add: is_hole_hidden [OF assms(1)])
  from map_hole_spec [OF assms(1,2) this assms(5,6)] show ?thesis
    by (auto simp: is_hole_hidden [OF assms(1)])
qed

lemma map_hole_exact_witness:
  "\<exists>segs'. tux3_map_hole demo_holes 5 4 [\<lparr>seg_block = 40, seg_count = 4, seg_state = 0\<rparr>] 3 = Some segs' \<and>
     seg_map 5 segs' 6 = 41 \<and> seg_map 5 segs' 8 = 0"
proof -
  have h: "tux3_is_hole demo_holes l = Some (7 \<le> l)" if "l < MAX_BLOCKS" for l
    using is_hole_hidden [OF demo_holes_inv that] by (simp add: demo_hidden)
  let ?segs = "[\<lparr>seg_block = 40, seg_count = 4, seg_state = 0\<rparr>] :: segment list"
  have "\<forall>seg \<in> set ?segs. seg_state seg = BLOCK_SEG_HOLE \<longrightarrow> seg_block seg = 0"
      "tux3_is_hole demo_holes 5 = Some False" "(5 :: nat) < MAX_BLOCKS"
      "length ?segs \<le> 3" "seg_total_count ?segs \<le> 4"
    using h by (simp_all add: BLOCK_SEG_HOLE_def MAX_BLOCKS_def)
  from map_hole_exact [OF demo_holes_inv this] show ?thesis by (auto simp: h MAX_BLOCKS_def)
qed

text \<open>A segment that is cut by the hole is followed by a hole of the whole remaining count, so that the
  segments are longer than the range that was asked for.\<close>

lemma map_hole_overlong:
  "map_option seg_total_count (tux3_map_hole demo_holes 5 4 [\<lparr>seg_block = 40, seg_count = 4, seg_state = 0\<rparr>] 3) = Some 6"
  by (simp add: tux3_map_hole_def demo_holes_def MAX_BLOCKS_def BLOCK_SEG_HOLE_def)

end
