(* ===== verification/Dir.thy ===== *)
theory Dir
  imports Iattr
begin

text \<open>
  Directories, \<open>src/kernel/dir.c\<close>: blocks of variable length entries, each with the inode number,
  the length of the record, the length of the name (0 for a deleted entry), the type and the name. A
  block is the list of its bytes and an entry is its offset in the block, so that every load and
  store is one of bytes at an offset; \<open>None\<close> is a failed assertion or a store outside of the block. The
  page cache of the directory gives for each block its newest version, the one that \<open>blockdirty\<close>
  returns, with the same offsets (\<open>ptr_redirect\<close>).
\<close>

section \<open>Entries\<close>

definition TUX_DIR_HEAD :: nat where "TUX_DIR_HEAD = 12"

definition TUX_REC_LEN :: "nat \<Rightarrow> nat" where
  "TUX_REC_LEN name_len = (name_len + TUX_DIR_HEAD + 7) div 8 * 8"

definition TUX_MAX_REC_LEN :: nat where "TUX_MAX_REC_LEN = 2 ^ 16 - 1"

definition tux_rec_len_from_disk :: "nat \<Rightarrow> nat" where
  "tux_rec_len_from_disk len = (if len = TUX_MAX_REC_LEN then 2 ^ 16 else len)"

definition tux_rec_len_to_disk :: "nat \<Rightarrow> nat option" where
  "tux_rec_len_to_disk len =
     (if \<not> len \<le> 2 ^ 16 then None else if len = 2 ^ 16 then Some TUX_MAX_REC_LEN else Some len)"

text \<open>The fields of \<open>tux_dirent\<close> at an offset of the block.\<close>

definition ent_inum :: "u8 list \<Rightarrow> nat \<Rightarrow> u64" where
  "ent_inum blk entry = be_get (take 8 (drop entry blk))"

definition ent_rec_len :: "u8 list \<Rightarrow> nat \<Rightarrow> nat" where
  "ent_rec_len blk entry = unat (be_get (take 2 (drop (entry + 8) blk)))"

definition ent_name_len :: "u8 list \<Rightarrow> nat \<Rightarrow> nat" where
  "ent_name_len blk entry = unat (blk ! (entry + 10))"

definition ent_type :: "u8 list \<Rightarrow> nat \<Rightarrow> u8" where
  "ent_type blk entry = blk ! (entry + 11)"

definition ent_name :: "u8 list \<Rightarrow> nat \<Rightarrow> nat \<Rightarrow> u8 list" where
  "ent_name blk entry len = take len (drop (entry + TUX_DIR_HEAD) blk)"

definition store_at :: "nat \<Rightarrow> u8 list \<Rightarrow> u8 list \<Rightarrow> u8 list option" where
  "store_at off bs blk = (if off + length bs \<le> length blk then Some (splice off bs blk) else None)"

definition store_rec_len :: "nat \<Rightarrow> nat \<Rightarrow> u8 list \<Rightarrow> u8 list option" where
  "store_rec_len entry len blk =
     (case tux_rec_len_to_disk len of None \<Rightarrow> None | Some dlen \<Rightarrow> store_at (entry + 8) (be_put 2 (of_nat dlen :: u64)) blk)"

definition is_deleted :: "u8 list \<Rightarrow> nat \<Rightarrow> bool" where
  "is_deleted blk entry = (ent_name_len blk entry = 0)"

definition tux_match :: "u8 list \<Rightarrow> nat \<Rightarrow> u8 list \<Rightarrow> bool" where
  "tux_match blk entry name =
     (length name = ent_name_len blk entry \<and> \<not> is_deleted blk entry \<and> name = ent_name blk entry (length name))"

definition next_entry :: "u8 list \<Rightarrow> nat \<Rightarrow> nat" where
  "next_entry blk entry = entry + tux_rec_len_from_disk (ent_rec_len blk entry)"

lemma next_entry_gt: "0 < ent_rec_len blk entry \<Longrightarrow> entry < next_entry blk entry"
  by (simp add: next_entry_def tux_rec_len_from_disk_def)

text \<open>\<open>tux_type_by_mode\<close> has \<open>S_IFMT >> STAT_SHIFT\<close> = 15 elements; \<open>None\<close> is a read behind its end.\<close>

definition tux_type_by_mode :: "u8 list" where
  "tux_type_by_mode = [0, 5, 3, 0, 2, 0, 4, 0, 1, 0, 7, 0, 6, 0, 0]"

definition tux_update_entry :: "u8 list \<Rightarrow> nat \<Rightarrow> u64 \<Rightarrow> u16 \<Rightarrow> u8 list option" where
  "tux_update_entry blk entry inum mode =
     (let i = unat (drop_bit 12 mode) in
      if i < length tux_type_by_mode
      then do { blk \<leftarrow> store_at entry (be_put 8 inum) blk; store_at (entry + 11) [tux_type_by_mode ! i] blk }
      else None)"

section \<open>The directory and its operations\<close>

text \<open>The page cache of the directory: the bytes of each block and whether it is dirty, the blocks that
  cannot be read, and the errors of \<open>blockdirty\<close> (which never is \<open>-EAGAIN\<close> here, as the directory is locked).\<close>

record dir =
  d_bits :: nat
  d_page :: "nat \<Rightarrow> u8 list"
  d_dirty :: "nat \<Rightarrow> bool"
  d_readerr :: "nat \<Rightarrow> bool"
  d_dirtyerr :: "nat \<Rightarrow> err"
  d_size :: nat
  d_inum :: u64
  d_mtime :: timespec
  d_ctime :: timespec
  d_version :: nat

abbreviation blksize :: "dir \<Rightarrow> nat" where
  "blksize d \<equiv> 2 ^ d_bits d"

definition blockdirty :: "dir \<Rightarrow> nat \<Rightarrow> errno + dir" where
  "blockdirty d b = (case d_dirtyerr d b of Some e \<Rightarrow> Inl e | None \<Rightarrow> Inr (d\<lparr>d_dirty := (d_dirty d)(b := True)\<rparr>))"

definition set_page :: "nat \<Rightarrow> u8 list \<Rightarrow> dir \<Rightarrow> dir" where
  "set_page b blk d = d\<lparr>d_page := (d_page d)(b := blk)\<rparr>"

definition touch :: "timespec \<Rightarrow> dir \<Rightarrow> dir" where
  "touch now d = d\<lparr>d_mtime := now, d_ctime := now\<rparr>"

text \<open>The search of a place for a record of \<open>reclen\<close> bytes, in a block and in the directory.\<close>

datatype scan = Scan_zero | Scan_none | Scan_at nat

function create_scan :: "u8 list \<Rightarrow> nat \<Rightarrow> nat \<Rightarrow> scan" where
  "create_scan blk reclen entry =
     (if entry + reclen \<le> length blk
      then if ent_rec_len blk entry = 0 then Scan_zero
           else let name_len = TUX_REC_LEN (ent_name_len blk entry);
                    rec_len = tux_rec_len_from_disk (ent_rec_len blk entry)
                in if is_deleted blk entry \<and> reclen \<le> rec_len then Scan_at entry
                   else if name_len + reclen \<le> rec_len then Scan_at entry
                   else create_scan blk reclen (entry + rec_len)
      else Scan_none)"
  by pat_completeness auto
termination
  by (relation "measure (\<lambda>(blk, reclen, entry). Suc (length blk) - entry)")
    (auto simp: tux_rec_len_from_disk_def split: if_splits)

fun create_find :: "dir \<Rightarrow> nat \<Rightarrow> nat list \<Rightarrow> errno + (nat \<times> nat) option" where
  "create_find d reclen [] = Inr None"
| "create_find d reclen (b # bs) =
     (if d_readerr d b then Inl EIO
      else case create_scan (d_page d b) reclen 0 of
             Scan_zero \<Rightarrow> Inl EIO
           | Scan_at entry \<Rightarrow> Inr (Some (b, entry))
           | Scan_none \<Rightarrow> create_find d reclen bs)"

text \<open>The block with the place for the new entry, and the place: a fresh block, or an entry of which the unused
  part is cut off unless it is deleted.\<close>

definition fresh_block :: "nat \<Rightarrow> u8 list option" where
  "fresh_block bs = store_rec_len 0 bs (replicate bs 0)"

definition cut_entry :: "u8 list \<Rightarrow> nat \<Rightarrow> (u8 list \<times> nat) option" where
  "cut_entry blk entry =
     (if is_deleted blk entry then Some (blk, entry)
      else let name_len = TUX_REC_LEN (ent_name_len blk entry);
               rec_len = tux_rec_len_from_disk (ent_rec_len blk entry)
           in do { blk \<leftarrow> store_rec_len (entry + name_len) (rec_len - name_len) blk;
                   blk \<leftarrow> store_rec_len entry name_len blk;
                   Some (blk, entry + name_len) })"

definition fill_entry :: "u8 list \<Rightarrow> nat \<Rightarrow> u8 list \<Rightarrow> u64 \<Rightarrow> u16 \<Rightarrow> u8 list option" where
  "fill_entry blk entry name inum mode = do {
     blk \<leftarrow> store_at (entry + 10) [of_nat (length name)] blk;
     blk \<leftarrow> store_at (entry + TUX_DIR_HEAD) name blk;
     tux_update_entry blk entry inum mode }"

definition tux_create_entry ::
  "dir \<Rightarrow> u8 list \<Rightarrow> u64 \<Rightarrow> u16 \<Rightarrow> nat \<Rightarrow> ((errno + nat) \<times> nat \<times> dir) option" where
  "tux_create_entry d name inum mode sz =
     (let reclen = TUX_REC_LEN (length name); blocks = sz div blksize d in
      case create_find d reclen [0..<blocks] of
        Inl e \<Rightarrow> Some (Inl e, sz, d)
      | Inr found \<Rightarrow>
          let b = (case found of None \<Rightarrow> blocks | Some (b, _) \<Rightarrow> b) in
          if found = None \<and> d_dirty d b then None
          else case blockdirty d b of
                 Inl e \<Rightarrow> Some (Inl e, sz, d)
               | Inr d \<Rightarrow> do {
                   (blk, entry) \<leftarrow> (case found of None \<Rightarrow> map_option (\<lambda>blk. (blk, 0)) (fresh_block (blksize d))
                                     | Some (_, entry) \<Rightarrow> cut_entry (d_page d b) entry);
                   blk \<leftarrow> fill_entry blk entry name inum mode;
                   Some (Inr (b * blksize d + entry), if found = None then sz + blksize d else sz, set_page b blk d) })"

definition tux_create_dirent :: "timespec \<Rightarrow> dir \<Rightarrow> u8 list \<Rightarrow> u64 \<Rightarrow> u16 \<Rightarrow> (err \<times> dir) option" where
  "tux_create_dirent now d name inum mode =
     (case tux_create_entry d name inum mode (d_size d) of
        None \<Rightarrow> None
      | Some (Inl e, sz, d) \<Rightarrow> Some (Some e, d\<lparr>d_size := sz\<rparr>)
      | Some (Inr _, sz, d) \<Rightarrow> Some (None, touch now (d\<lparr>d_size := sz\<rparr>)))"

function find_scan :: "u8 list \<Rightarrow> u8 list \<Rightarrow> nat \<Rightarrow> scan" where
  "find_scan blk name entry =
     (if entry + TUX_REC_LEN (length name) \<le> length blk
      then if ent_rec_len blk entry = 0 then Scan_zero
           else if tux_match blk entry name then Scan_at entry
           else find_scan blk name (next_entry blk entry)
      else Scan_none)"
  by pat_completeness auto
termination
  by (relation "measure (\<lambda>(blk, name, entry). Suc (length blk) - entry)")
    (auto simp: next_entry_gt intro!: diff_less_mono2)

fun find_blocks :: "dir \<Rightarrow> u8 list \<Rightarrow> nat list \<Rightarrow> errno + (nat \<times> nat)" where
  "find_blocks d name [] = Inl ENOENT"
| "find_blocks d name (b # bs) =
     (if d_readerr d b then Inl EIO
      else case find_scan (d_page d b) name 0 of
             Scan_zero \<Rightarrow> Inl EIO
           | Scan_at entry \<Rightarrow> Inr (b, entry)
           | Scan_none \<Rightarrow> find_blocks d name bs)"

definition tux_find_entry :: "dir \<Rightarrow> u8 list \<Rightarrow> nat \<Rightarrow> errno + (nat \<times> nat)" where
  "tux_find_entry d name sz = find_blocks d name [0..<sz div blksize d]"

definition tux_find_dirent :: "dir \<Rightarrow> u8 list \<Rightarrow> errno + (nat \<times> nat)" where
  "tux_find_dirent d name = tux_find_entry d name (d_size d)"

definition tux_update_dirent :: "timespec \<Rightarrow> dir \<Rightarrow> nat \<times> nat \<Rightarrow> u64 \<Rightarrow> u16 \<Rightarrow> dir option" where
  "tux_update_dirent now d at new_inum new_mode =
     map_option (\<lambda>blk. touch now (set_page (fst at) blk d)) (tux_update_entry (d_page d (fst at)) (snd at) new_inum new_mode)"

text \<open>The search of the entry before \<open>entry\<close>.\<close>

function delete_scan :: "u8 list \<Rightarrow> nat \<Rightarrow> nat \<Rightarrow> nat option \<Rightarrow> errno + nat option" where
  "delete_scan blk entry this prev =
     (if this < entry
      then if ent_rec_len blk this = 0 then Inl EIO else delete_scan blk entry (next_entry blk this) (Some this)
      else Inr prev)"
  by pat_completeness auto
termination
  by (relation "measure (\<lambda>(blk, entry, this, prev). entry - this)") (auto simp: next_entry_gt intro!: diff_less_mono2)

definition clear_entry :: "u8 list \<Rightarrow> nat \<Rightarrow> nat option \<Rightarrow> u8 list option" where
  "clear_entry blk entry prev = do {
     blk \<leftarrow> (case prev of None \<Rightarrow> Some blk | Some p \<Rightarrow> store_rec_len p (next_entry blk entry - p) blk);
     blk \<leftarrow> store_at (entry + TUX_DIR_HEAD) (replicate (ent_name_len blk entry) 0) blk;
     blk \<leftarrow> store_at (entry + 10) [0, 0] blk;
     store_at entry (replicate 8 0) blk }"

definition tux_delete_entry :: "dir \<Rightarrow> nat \<times> nat \<Rightarrow> (err \<times> dir) option" where
  "tux_delete_entry d at =
     (case delete_scan (d_page d (fst at)) (snd at) 0 None of
        Inl e \<Rightarrow> Some (Some e, d)
      | Inr prev \<Rightarrow>
          (case blockdirty d (fst at) of
             Inl e \<Rightarrow> Some (Some e, d)
           | Inr d \<Rightarrow> map_option (\<lambda>blk. (None, set_page (fst at) blk d)) (clear_entry (d_page d (fst at)) (snd at) prev)))"

definition tux_delete_dirent :: "timespec \<Rightarrow> dir \<Rightarrow> nat \<times> nat \<Rightarrow> (err \<times> dir) option" where
  "tux_delete_dirent now d at =
     map_option (\<lambda>(e, d). (e, if e = None then touch now d else d)) (tux_delete_entry d at)"

text \<open>Reading the directory: \<open>filldir\<close> is the caller's callback on its state and tells whether it is
  \<open>lame\<close>, which ends the reading. A \<open>dfile\<close> has its position and the version of the directory it belongs to.\<close>

record dfile =
  f_pos :: nat
  f_version :: nat

definition TUX_TYPES :: nat where "TUX_TYPES = 8"

definition filetype :: "nat list" where
  "filetype = [0, 8, 4, 2, 6, 1, 12, 10]"

datatype rd_end = Rd_done | Rd_error | Rd_next

function readdir_block ::
  "('s \<Rightarrow> u8 list \<Rightarrow> nat \<Rightarrow> u64 \<Rightarrow> nat \<Rightarrow> bool \<times> 's) \<Rightarrow> nat \<Rightarrow> nat \<Rightarrow> u8 list \<Rightarrow> nat \<Rightarrow> nat \<Rightarrow> 's \<Rightarrow> rd_end \<times> nat \<times> 's" where
  "readdir_block filldir bits b blk entry pos s =
     (if entry + TUX_REC_LEN 1 \<le> length blk
      then if ent_rec_len blk entry = 0 then (Rd_error, pos, s)
           else let (lame, s) =
                  (if is_deleted blk entry then (False, s)
                   else let t = unat (ent_type blk entry) in
                     filldir s (ent_name blk entry (ent_name_len blk entry)) (push_bit bits b OR entry)
                       (ent_inum blk entry) (if t < TUX_TYPES then filetype ! t else 0))
                in if lame then (Rd_done, pos, s)
                   else readdir_block filldir bits b blk (next_entry blk entry)
                          (pos + tux_rec_len_from_disk (ent_rec_len blk entry)) s
      else (Rd_next, pos, s))"
  by pat_completeness auto
termination
  by (relation "measure (\<lambda>(filldir, bits, b, blk, entry, pos, s). Suc (length blk) - entry)")
    (auto simp: next_entry_gt intro!: diff_less_mono2)

text \<open>The check of a position that was stored before the directory changed.\<close>

function revalidate_scan :: "u8 list \<Rightarrow> nat \<Rightarrow> nat \<Rightarrow> nat" where
  "revalidate_scan blk entry p =
     (if p < entry \<and> ent_rec_len blk p \<noteq> 0 then revalidate_scan blk entry (next_entry blk p) else p)"
  by pat_completeness auto
termination
  by (relation "measure (\<lambda>(blk, entry, p). entry - p)") (auto simp: next_entry_gt intro!: diff_less_mono2)

definition revalidate_pos :: "dir \<Rightarrow> nat \<Rightarrow> nat \<Rightarrow> dfile \<Rightarrow> nat \<times> dfile" where
  "revalidate_pos d b offset f =
     (if offset \<noteq> 0
      then let p = revalidate_scan (d_page d b) offset (offset AND (blksize d - 1))
           in (p, f\<lparr>f_pos := b * blksize d + p, f_version := d_version d\<rparr>)
      else (offset, f\<lparr>f_version := d_version d\<rparr>))"

fun readdir_blocks ::
  "('s \<Rightarrow> u8 list \<Rightarrow> nat \<Rightarrow> u64 \<Rightarrow> nat \<Rightarrow> bool \<times> 's) \<Rightarrow> dir \<Rightarrow> bool \<Rightarrow> nat list \<Rightarrow> nat \<Rightarrow> dfile \<Rightarrow> 's \<Rightarrow> err \<times> dfile \<times> 's" where
  "readdir_blocks filldir d revalidate [] offset f s = (None, f, s)"
| "readdir_blocks filldir d revalidate (b # bs) offset f s =
     (if d_readerr d b then (Some EIO, f, s)
      else case (if revalidate then revalidate_pos d b offset f else (offset, f)) of
        (offset, f) \<Rightarrow>
          (case readdir_block filldir (d_bits d) b (d_page d b) offset (f_pos f) s of
             (Rd_error, pos, s) \<Rightarrow> (Some EIO, f\<lparr>f_pos := pos\<rparr>, s)
           | (Rd_done, pos, s) \<Rightarrow> (None, f\<lparr>f_pos := pos\<rparr>, s)
           | (Rd_next, pos, s) \<Rightarrow> readdir_blocks filldir d False bs 0 (f\<lparr>f_pos := pos\<rparr>) s))"

definition tux_readdir ::
  "('s \<Rightarrow> u8 list \<Rightarrow> nat \<Rightarrow> u64 \<Rightarrow> nat \<Rightarrow> bool \<times> 's) \<Rightarrow> dir \<Rightarrow> dfile \<Rightarrow> 's \<Rightarrow> (err \<times> dfile \<times> 's) option" where
  "tux_readdir filldir d f s =
     (if d_size d AND (blksize d - 1) \<noteq> 0 then None
      else Some (readdir_blocks filldir d (f_version f \<noteq> d_version d)
                   [f_pos f div blksize d..<d_size d div blksize d] (f_pos f AND (blksize d - 1)) f s))"

text \<open>An empty directory has at most the entries \<open>.\<close> and \<open>..\<close>.\<close>

definition not_dots :: "u8 list \<Rightarrow> nat \<Rightarrow> u64 \<Rightarrow> bool" where
  "not_dots blk entry self =
     (if blk ! (entry + TUX_DIR_HEAD) \<noteq> 46 then True
      else if 2 < ent_name_len blk entry then True
      else if ent_name_len blk entry < 2 then ent_inum blk entry \<noteq> self
      else blk ! (entry + TUX_DIR_HEAD + 1) \<noteq> 46)"

function empty_scan :: "u8 list \<Rightarrow> u64 \<Rightarrow> nat \<Rightarrow> scan" where
  "empty_scan blk self entry =
     (if entry + TUX_REC_LEN 1 \<le> length blk
      then if ent_rec_len blk entry = 0 then Scan_zero
           else if \<not> is_deleted blk entry \<and> not_dots blk entry self then Scan_at entry
           else empty_scan blk self (next_entry blk entry)
      else Scan_none)"
  by pat_completeness auto
termination
  by (relation "measure (\<lambda>(blk, self, entry). Suc (length blk) - entry)")
    (auto simp: next_entry_gt intro!: diff_less_mono2)

fun empty_blocks :: "dir \<Rightarrow> nat list \<Rightarrow> err" where
  "empty_blocks d [] = None"
| "empty_blocks d (b # bs) =
     (if d_readerr d b then Some EIO
      else case empty_scan (d_page d b) (d_inum d) 0 of
             Scan_zero \<Rightarrow> Some EIO
           | Scan_at _ \<Rightarrow> Some ENOTEMPTY
           | Scan_none \<Rightarrow> empty_blocks d bs)"

definition tux_dir_is_empty :: "dir \<Rightarrow> err" where
  "tux_dir_is_empty d = empty_blocks d [0..<d_size d div blksize d]"

declare create_scan.simps [simp del] find_scan.simps [simp del] delete_scan.simps [simp del]
  readdir_block.simps [simp del] revalidate_scan.simps [simp del] empty_scan.simps [simp del]

section \<open>Blocks as sequences of entries\<close>

record dent =
  de_inum :: u64
  de_type :: u8
  de_name :: "u8 list"
  de_pad :: "u8 list"

definition de_rec :: "dent \<Rightarrow> nat" where
  "de_rec e = TUX_DIR_HEAD + length (de_name e) + length (de_pad e)"

definition disk_rec :: "nat \<Rightarrow> nat" where
  "disk_rec n = (if n = 2 ^ 16 then TUX_MAX_REC_LEN else n)"

definition ent_bytes :: "dent \<Rightarrow> u8 list" where
  "ent_bytes e = be_put 8 (de_inum e) @ be_put 2 (of_nat (disk_rec (de_rec e)) :: u64) @
     [of_nat (length (de_name e)), de_type e] @ de_name e @ de_pad e"

definition dent_ok :: "dent \<Rightarrow> bool" where
  "dent_ok e \<longleftrightarrow> length (de_name e) \<le> 255 \<and> de_rec e mod 8 = 0 \<and> TUX_REC_LEN (length (de_name e)) \<le> de_rec e \<and> de_rec e \<le> 2 ^ 16"

abbreviation ents_bytes :: "dent list \<Rightarrow> u8 list" where
  "ents_bytes es \<equiv> concat (map ent_bytes es)"

lemma ent_bytes_length [simp]: "length (ent_bytes e) = de_rec e"
  by (simp add: ent_bytes_def de_rec_def TUX_DIR_HEAD_def)

lemma rec_len_bounds: "n + 12 \<le> TUX_REC_LEN n" "TUX_REC_LEN n < n + 20" "TUX_REC_LEN n mod 8 = 0" "16 \<le> TUX_REC_LEN n"
proof -
  have "8 * ((n + 19) div 8) + (n + 19) mod 8 = n + 19" "(n + 19) mod 8 < 8" by simp_all
  then show "n + 12 \<le> TUX_REC_LEN n" "TUX_REC_LEN n < n + 20" unfolding TUX_REC_LEN_def TUX_DIR_HEAD_def by simp_all
  show "TUX_REC_LEN n mod 8 = 0" by (simp add: TUX_REC_LEN_def)
  show "16 \<le> TUX_REC_LEN n" unfolding TUX_REC_LEN_def TUX_DIR_HEAD_def by simp
qed

lemma rec_len_mono: "m \<le> n \<Longrightarrow> TUX_REC_LEN m \<le> TUX_REC_LEN n"
  by (simp add: TUX_REC_LEN_def div_le_mono)

lemma dent_rec: "dent_ok e \<Longrightarrow> 16 \<le> de_rec e"
  using rec_len_bounds(4) le_trans unfolding dent_ok_def by blast

lemma from_disk_rec: "n mod 8 = 0 \<Longrightarrow> n \<le> 2 ^ 16 \<Longrightarrow> tux_rec_len_from_disk (disk_rec n) = n"
  by (auto simp: tux_rec_len_from_disk_def disk_rec_def TUX_MAX_REC_LEN_def)

lemma be_get_put2: "n < 2 ^ 16 \<Longrightarrow> unat (be_get (be_put 2 (of_nat n :: u64))) = n"
  by (simp add: be_get_put unsigned_take_bit_eq unat_of_nat) (simp add: take_bit_nat_def)

text \<open>The fields of the entry behind \<open>pre\<close>.\<close>

lemma fields:
  fixes post :: "u8 list"
  assumes "dent_ok e" and "off = length pre"
  defines "blk \<equiv> pre @ ent_bytes e @ post"
  shows "ent_inum blk off = de_inum e" and "ent_rec_len blk off = disk_rec (de_rec e)"
    and "ent_name_len blk off = length (de_name e)" and "ent_type blk off = de_type e"
    and "ent_name blk off (length (de_name e)) = de_name e"
    and "next_entry blk off = off + de_rec e" and "ent_rec_len blk off \<noteq> 0"
proof -
  have d: "disk_rec (de_rec e) < 2 ^ 16" "disk_rec (de_rec e) \<noteq> 0"
    using assms(1) dent_rec [OF assms(1)] by (auto simp: dent_ok_def disk_rec_def TUX_MAX_REC_LEN_def)
  show "ent_inum blk off = de_inum e"
    by (simp add: ent_inum_def blk_def assms(2) ent_bytes_def be_get_put take_bit_word_eq_self)
  show r: "ent_rec_len blk off = disk_rec (de_rec e)"
    using be_get_put2 [OF d(1)] by (simp add: ent_rec_len_def blk_def assms(2) ent_bytes_def)
  show "ent_name_len blk off = length (de_name e)" "ent_type blk off = de_type e"
    "ent_name blk off (length (de_name e)) = de_name e"
    using assms(1) by (simp_all add: ent_name_len_def ent_type_def ent_name_def TUX_DIR_HEAD_def blk_def assms(2) ent_bytes_def
        nth_append dent_ok_def unat_of_nat)
  show "next_entry blk off = off + de_rec e" "ent_rec_len blk off \<noteq> 0"
    using assms(1) d by (simp_all add: next_entry_def r from_disk_rec dent_ok_def)
qed

text \<open>Well-formed blocks, and the parts of one at the offset of an entry.\<close>

definition block_is :: "nat \<Rightarrow> dent list \<Rightarrow> u8 list \<Rightarrow> bool" where
  "block_is bs es blk \<longleftrightarrow> blk = ents_bytes es \<and> length blk = bs \<and> (\<forall>e \<in> set es. dent_ok e)"

definition binds :: "dent list \<Rightarrow> (u8 list \<times> u64) list" where
  "binds es = map (\<lambda>e. (de_name e, de_inum e)) (filter (\<lambda>e. de_name e \<noteq> []) es)"

lemma binds_simps [simp]:
  "binds [] = []" "binds (e # es) = (if de_name e = [] then binds es else (de_name e, de_inum e) # binds es)"
  "binds (xs @ ys) = binds xs @ binds ys"
  by (simp_all add: binds_def)

lemma binds_names: "name \<in> fst ` set (binds es) \<longleftrightarrow> name \<noteq> [] \<and> name \<in> de_name ` set es"
  by (force simp: binds_def)

lemma entry_fields:
  assumes "block_is bs es blk" and "es = pre @ e # post"
  shows "ent_inum blk (length (ents_bytes pre)) = de_inum e"
    and "ent_rec_len blk (length (ents_bytes pre)) \<noteq> 0"
    and "tux_rec_len_from_disk (ent_rec_len blk (length (ents_bytes pre))) = de_rec e"
    and "ent_name_len blk (length (ents_bytes pre)) = length (de_name e)"
    and "ent_type blk (length (ents_bytes pre)) = de_type e"
    and "ent_name blk (length (ents_bytes pre)) (length (de_name e)) = de_name e"
    and "next_entry blk (length (ents_bytes pre)) = length (ents_bytes (pre @ [e]))"
    and "is_deleted blk (length (ents_bytes pre)) \<longleftrightarrow> de_name e = []"
    and "length (ents_bytes pre) + de_rec e \<le> length blk"
proof -
  have e: "dent_ok e" and b: "blk = ents_bytes pre @ ent_bytes e @ ents_bytes post" using assms by (simp_all add: block_is_def)
  note f = fields [OF e refl, of "ents_bytes pre" "ents_bytes post", folded b]
  show "ent_inum blk (length (ents_bytes pre)) = de_inum e" "ent_rec_len blk (length (ents_bytes pre)) \<noteq> 0"
    "ent_name_len blk (length (ents_bytes pre)) = length (de_name e)" "ent_type blk (length (ents_bytes pre)) = de_type e"
    "ent_name blk (length (ents_bytes pre)) (length (de_name e)) = de_name e"
    by (rule f(1,7,3,4,5))+
  show "next_entry blk (length (ents_bytes pre)) = length (ents_bytes (pre @ [e]))" using f(6) by simp
  show "tux_rec_len_from_disk (ent_rec_len blk (length (ents_bytes pre))) = de_rec e"
    using f(6) by (simp only: next_entry_def)
  show "is_deleted blk (length (ents_bytes pre)) \<longleftrightarrow> de_name e = []" by (simp add: is_deleted_def f(3))
  show "length (ents_bytes pre) + de_rec e \<le> length blk" by (simp add: b)
qed

text \<open>The offset behind the last entry is the length of the block, and only there can a scan stop early
  without missing an entry that needs \<open>TUX_REC_LEN n\<close> bytes.\<close>

lemma past_limit:
  assumes "block_is bs es blk" and "es = pre @ post" and "\<not> length (ents_bytes pre) + TUX_REC_LEN n \<le> length blk"
  shows "\<forall>e \<in> set post. length (de_name e) < n"
proof
  fix e assume "e \<in> set post"
  then obtain p q where "es = (pre @ p) @ e # q" using assms(2) by (auto simp: in_set_conv_decomp)
  note f = entry_fields(9) [OF assms(1) this]
  have "dent_ok e" using assms(1) \<open>es = (pre @ p) @ e # q\<close> by (simp add: block_is_def)
  then have "TUX_REC_LEN (length (de_name e)) \<le> de_rec e" by (simp add: dent_ok_def)
  then have "TUX_REC_LEN (length (de_name e)) < TUX_REC_LEN n" using f assms(3) by simp
  then show "length (de_name e) < n" using rec_len_mono not_le by blast
qed

lemma find_scan_spec:
  assumes "block_is bs es blk" and "es = pre @ post" and "name \<noteq> []"
  shows "(\<exists>p e q. find_scan blk name (length (ents_bytes pre)) = Scan_at (length (ents_bytes (pre @ p))) \<and>
        post = p @ e # q \<and> de_name e = name \<and> name \<notin> de_name ` set p) \<or>
      find_scan blk name (length (ents_bytes pre)) = Scan_none \<and> name \<notin> de_name ` set post"
  using assms(2)
proof (induction post arbitrary: pre)
  case Nil
  then have "length (ents_bytes pre) = length blk" using assms(1) by (simp add: block_is_def)
  then show ?case using rec_len_bounds(4) [of "length name"] by (simp add: find_scan.simps)
next
  case (Cons e post)
  note f = entry_fields [OF assms(1) Cons.prems]
  have match: "tux_match blk (length (ents_bytes pre)) name \<longleftrightarrow> de_name e = name"
    using f(6) assms(3) by (auto simp: tux_match_def f(4,8))
  show ?case
  proof (cases "length (ents_bytes pre) + TUX_REC_LEN (length name) \<le> length blk")
    case False
    then show ?thesis using past_limit [OF assms(1) Cons.prems] by (force simp: find_scan.simps)
  next
    case le: True
    show ?thesis
    proof (cases "de_name e = name")
      case True
      then show ?thesis using le f(2) match by (subst find_scan.simps) (force intro: exI [of _ "[]"])
    next
      case False
      have "find_scan blk name (length (ents_bytes pre)) = find_scan blk name (length (ents_bytes (pre @ [e])))"
        using le f(2) match False f(7) by (subst find_scan.simps) simp
      moreover have "es = (pre @ [e]) @ post" using Cons.prems by simp
      note Cons.IH [OF this]
      ultimately show ?thesis
        using False by (elim disjE exE conjE; simp only: append_assoc append_Cons append_Nil)
          (metis Un_iff append_Cons image_insert insert_iff list.set(2), auto)
    qed
  qed
qed

text \<open>The scan for a place finds an entry that is deleted and large enough or has enough unused bytes.\<close>

lemma create_scan_spec:
  assumes "block_is bs es blk" and "es = pre @ post" and "0 < n"
  shows "(\<exists>p e q. create_scan blk (TUX_REC_LEN n) (length (ents_bytes pre)) = Scan_at (length (ents_bytes (pre @ p))) \<and>
        post = p @ e # q \<and>
        (if de_name e = [] then TUX_REC_LEN n \<le> de_rec e else TUX_REC_LEN (length (de_name e)) + TUX_REC_LEN n \<le> de_rec e)) \<or>
      create_scan blk (TUX_REC_LEN n) (length (ents_bytes pre)) = Scan_none"
  using assms(2)
proof (induction post arbitrary: pre)
  case Nil
  then have "length (ents_bytes pre) = length blk" using assms(1) by (simp add: block_is_def)
  then show ?case using rec_len_bounds(4) [of n] by (simp add: create_scan.simps)
next
  case (Cons e post)
  note f = entry_fields [OF assms(1) Cons.prems]
  let ?fit = "de_name e = [] \<and> TUX_REC_LEN n \<le> de_rec e \<or> TUX_REC_LEN (length (de_name e)) + TUX_REC_LEN n \<le> de_rec e"
  show ?case
  proof (cases "length (ents_bytes pre) + TUX_REC_LEN n \<le> length blk")
    case False
    then show ?thesis by (simp add: create_scan.simps)
  next
    case le: True
    have step: "create_scan blk (TUX_REC_LEN n) (length (ents_bytes pre)) =
        (if ?fit then Scan_at (length (ents_bytes pre)) else create_scan blk (TUX_REC_LEN n) (length (ents_bytes (pre @ [e]))))"
      using le f(2) by (subst create_scan.simps) (simp add: f(3,4,8) Let_def)
    show ?thesis
    proof (cases ?fit)
      case True
      then have "if de_name e = [] then TUX_REC_LEN n \<le> de_rec e else TUX_REC_LEN (length (de_name e)) + TUX_REC_LEN n \<le> de_rec e"
        by auto
      moreover have "create_scan blk (TUX_REC_LEN n) (length (ents_bytes pre)) = Scan_at (length (ents_bytes (pre @ [])))"
        using step True by simp
      ultimately show ?thesis by (metis append_Nil)
    next
      case False
      have "es = (pre @ [e]) @ post" using Cons.prems by simp
      from Cons.IH [OF this] show ?thesis unfolding step using False by (metis append_Cons append_assoc append_Nil)
    qed
  qed
qed

lemma delete_scan_spec:
  assumes "block_is bs es blk" and "es = pre @ p @ post"
  shows "delete_scan blk (length (ents_bytes (pre @ p))) (length (ents_bytes pre)) prev =
    Inr (if p = [] then prev else Some (length (ents_bytes (pre @ butlast p))))"
  using assms(2)
proof (induction p arbitrary: pre prev)
  case Nil
  then show ?case by (simp add: delete_scan.simps)
next
  case (Cons e p)
  have dec: "es = pre @ e # (p @ post)" "es = (pre @ [e]) @ p @ post" using Cons.prems by simp_all
  note f = entry_fields [OF assms(1) dec(1)]
  have "dent_ok e" using assms(1) dec(1) by (simp add: block_is_def)
  then have "length (ents_bytes pre) < length (ents_bytes (pre @ e # p))" using dent_rec by fastforce
  then have "delete_scan blk (length (ents_bytes (pre @ e # p))) (length (ents_bytes pre)) prev =
      delete_scan blk (length (ents_bytes ((pre @ [e]) @ p))) (length (ents_bytes (pre @ [e]))) (Some (length (ents_bytes pre)))"
    using f(2,7) by (subst delete_scan.simps) simp
  also have "\<dots> = Inr (if p = [] then Some (length (ents_bytes pre)) else Some (length (ents_bytes ((pre @ [e]) @ butlast p))))"
    by (rule Cons.IH [OF dec(2)])
  finally show ?case by (cases p) simp_all
qed

section \<open>The directory as a map\<close>

definition dir_ok :: "dir \<Rightarrow> nat \<Rightarrow> dent list list \<Rightarrow> bool" where
  "dir_ok d sz ess \<longleftrightarrow>
     9 \<le> d_bits d \<and> d_bits d \<le> 16 \<and> sz = length ess * blksize d \<and>
     (\<forall>b < length ess. block_is (blksize d) (ess ! b) (d_page d b)) \<and> (\<forall>b \<ge> length ess. \<not> d_dirty d b) \<and>
     distinct (map fst (binds (concat ess)))"

definition dir_map :: "dent list list \<Rightarrow> u8 list \<Rightarrow> u64 option" where
  "dir_map ess = map_of (binds (concat ess))"

text \<open>What the directory means: the map from the names to the inode numbers.\<close>

definition dir_is :: "dir \<Rightarrow> nat \<Rightarrow> (u8 list \<Rightarrow> u64 option) \<Rightarrow> bool" where
  "dir_is d sz m \<longleftrightarrow> (\<exists>ess. dir_ok d sz ess \<and> m = dir_map ess)"

lemma dir_ok_blocks: "dir_ok d sz ess \<Longrightarrow> sz div blksize d = length ess"
  by (simp add: dir_ok_def)

lemma dir_map_at:
  assumes "dir_ok d sz ess" and "b < length ess" and "ess ! b = p @ e # q" and "de_name e \<noteq> []"
  shows "dir_map ess (de_name e) = Some (de_inum e)"
proof -
  have "ess ! b \<in> set ess" using assms(2) by simp
  then have "(de_name e, de_inum e) \<in> set (binds (concat ess))" using assms(3,4) by (force simp: binds_def)
  moreover have "distinct (map fst (binds (concat ess)))" using assms(1) by (simp add: dir_ok_def)
  ultimately show ?thesis unfolding dir_map_def by (intro map_of_is_SomeI)
qed

lemma dir_map_none: "dir_map ess name = None \<longleftrightarrow> name \<notin> fst ` set (binds (concat ess))"
  by (simp add: dir_map_def map_of_eq_None_iff)

lemma find_blocks_spec:
  assumes "\<forall>b \<in> set bl. \<not> d_readerr d b \<and> block_is (blksize d) (ess ! b) (d_page d b)" and "name \<noteq> []"
  shows "(\<exists>b \<in> set bl. \<exists>p e q. find_blocks d name bl = Inr (b, length (ents_bytes p)) \<and> ess ! b = p @ e # q \<and> de_name e = name) \<or>
     find_blocks d name bl = Inl ENOENT \<and> (\<forall>b \<in> set bl. name \<notin> de_name ` set (ess ! b))"
  using assms(1)
proof (induction bl)
  case (Cons b bl)
  have "block_is (blksize d) (ess ! b) (d_page d b)" using Cons.prems by simp
  from find_scan_spec [OF this, of "[]" "ess ! b" name] assms(2)
  consider p e q where "find_scan (d_page d b) name 0 = Scan_at (length (ents_bytes p))" "ess ! b = p @ e # q" "de_name e = name"
    | "find_scan (d_page d b) name 0 = Scan_none" "name \<notin> de_name ` set (ess ! b)" by force
  then show ?case
  proof cases
    case 1
    then have "find_blocks d name (b # bl) = Inr (b, length (ents_bytes p))" using Cons.prems by simp
    then show ?thesis using 1 by auto
  next
    case 2
    moreover have "\<forall>b \<in> set bl. \<not> d_readerr d b \<and> block_is (blksize d) (ess ! b) (d_page d b)" using Cons.prems by simp
    note Cons.IH [OF this]
    moreover have "find_blocks d name (b # bl) = find_blocks d name bl" using Cons.prems 2 by simp
    ultimately show ?thesis by (metis (no_types, lifting) list.set_intros(2) set_ConsD)
  qed
qed simp

lemma find_entry_spec:
  assumes "dir_ok d sz ess" and "\<forall>b. \<not> d_readerr d b" and "name \<noteq> []"
  shows "case dir_map ess name of
      None \<Rightarrow> tux_find_entry d name sz = Inl ENOENT
    | Some inum \<Rightarrow> \<exists>b p e q. tux_find_entry d name sz = Inr (b, length (ents_bytes p)) \<and> b < length ess \<and>
        ess ! b = p @ e # q \<and> de_name e = name \<and> de_inum e = inum"
proof -
  have "\<forall>b \<in> set [0..<length ess]. \<not> d_readerr d b \<and> block_is (blksize d) (ess ! b) (d_page d b)"
    using assms(1,2) by (simp add: dir_ok_def)
  from find_blocks_spec [OF this assms(3)]
  consider b p e q where "b < length ess" "tux_find_entry d name sz = Inr (b, length (ents_bytes p))" "ess ! b = p @ e # q" "de_name e = name"
    | "tux_find_entry d name sz = Inl ENOENT" "\<forall>b < length ess. name \<notin> de_name ` set (ess ! b)"
    unfolding tux_find_entry_def dir_ok_blocks [OF assms(1)] by auto
  then show ?thesis
  proof cases
    case 1
    then have "dir_map ess name = Some (de_inum e)" using dir_map_at [OF assms(1)] assms(3) by blast
    then show ?thesis using 1 by auto
  next
    case 2
    have "\<forall>es \<in> set ess. name \<notin> de_name ` set es" using 2(2) by (metis in_set_conv_nth)
    then have "dir_map ess name = None" unfolding dir_map_none binds_names by auto
    then show ?thesis using 2 by simp
  qed
qed

section \<open>Storing an entry\<close>

lemma splice_mid: "k + length bs \<le> length X \<Longrightarrow> splice (length A + k) bs (A @ X @ B) = A @ splice k bs X @ B"
  by (simp add: splice_def)

lemma store_mid:
  "k + length bs \<le> length X \<Longrightarrow> store_at (length A + k) bs (A @ X @ B) = Some (A @ splice k bs X @ B)"
  by (simp add: store_at_def splice_mid)

lemma to_disk_rec: "n \<le> 2 ^ 16 \<Longrightarrow> tux_rec_len_to_disk n = Some (disk_rec n)"
  by (simp add: tux_rec_len_to_disk_def disk_rec_def)

lemma store_rec_mid:
  "n \<le> 2 ^ 16 \<Longrightarrow> k + 10 \<le> length X \<Longrightarrow> store_rec_len (length A + k) n (A @ X @ B) =
     Some (A @ splice (k + 8) (be_put 2 (of_nat (disk_rec n) :: u64)) X @ B)"
  using store_mid [of "k + 8" "be_put 2 (of_nat (disk_rec n) :: u64)" X A B]
  by (simp add: store_rec_len_def to_disk_rec add.assoc)

text \<open>Bytes that are an entry up to the fields that \<open>fill_entry\<close> stores.\<close>

definition raw_ent :: "u8 list \<Rightarrow> bool" where
  "raw_ent X \<longleftrightarrow> 16 \<le> length X \<and> length X mod 8 = 0 \<and> length X \<le> 2 ^ 16 \<and>
     take 2 (drop 8 X) = be_put 2 (of_nat (disk_rec (length X)) :: u64)"

lemma raw_parts:
  assumes "12 + n \<le> length X"
  obtains a c x y u v where "X = a @ c @ [x, y] @ u @ v" "length a = 8" "length c = 2" "length u = n" "c = take 2 (drop 8 X)" "v = drop (12 + n) X"
proof -
  have 1: "drop 12 X = take n (drop 12 X) @ drop (12 + n) X"
    using append_take_drop_id [of n "drop 12 X", symmetric] by (simp add: add.commute)
  have 2: "drop 10 X = [X ! 10, X ! 11] @ drop 12 X"
    using assms drop_Cons_nth [of 10 X] drop_Cons_nth [of 11 X] by simp
  have 3: "drop 8 X = take 2 (drop 8 X) @ drop 10 X"
    using append_take_drop_id [of 2 "drop 8 X", symmetric] by simp
  have "X = take 8 X @ take 2 (drop 8 X) @ [X ! 10, X ! 11] @ take n (drop 12 X) @ drop (12 + n) X"
    unfolding 1 [symmetric] 2 [symmetric] 3 [symmetric] by simp
  then show ?thesis using assms by (intro that) auto
qed

lemma fill_raw:
  assumes "raw_ent X" and "TUX_REC_LEN (length name) \<le> length X" and "unat (drop_bit 12 mode) < 15"
  shows "fill_entry (A @ X @ B) (length A) name inum mode =
    Some (A @ ent_bytes \<lparr>de_inum = inum, de_type = tux_type_by_mode ! unat (drop_bit 12 mode), de_name = name,
                         de_pad = drop (12 + length name) X\<rparr> @ B)"
proof -
  have l: "12 + length name \<le> length X" using assms(2) rec_len_bounds(1) [of "length name"] by linarith
  obtain a c x y u v where X: "X = a @ c @ [x, y] @ u @ v" "length a = 8" "length c = 2" "length u = length name"
    and c: "c = take 2 (drop 8 X)" and v: "v = drop (12 + length name) X" using raw_parts [OF l] .
  let ?t = "tux_type_by_mode ! unat (drop_bit 12 mode)"
  have c2: "c = be_put 2 (of_nat (disk_rec (length X)) :: u64)" using c assms(1) by (simp add: raw_ent_def)
  have 1: "store_at (length A + 10) [of_nat (length name)] (A @ X @ B) = Some (A @ (a @ c @ [of_nat (length name), y] @ u @ v) @ B)"
    using l by (subst store_mid) (simp_all add: X splice_def)
  have 2: "store_at (length A + 12) name (A @ (a @ c @ [of_nat (length name), y] @ u @ v) @ B) =
      Some (A @ (a @ c @ [of_nat (length name), y] @ name @ v) @ B)"
    by (subst store_mid) (simp_all add: X splice_def)
  have 3: "store_at (length A + 0) (be_put 8 inum) (A @ (a @ c @ [of_nat (length name), y] @ name @ v) @ B) =
      Some (A @ (be_put 8 inum @ c @ [of_nat (length name), y] @ name @ v) @ B)"
    by (subst store_mid) (simp_all add: X splice_def)
  have 4: "store_at (length A + 11) [?t] (A @ (be_put 8 inum @ c @ [of_nat (length name), y] @ name @ v) @ B) =
      Some (A @ (be_put 8 inum @ c @ [of_nat (length name), ?t] @ name @ v) @ B)"
    by (subst store_mid) (simp_all add: X splice_def)
  have run: "fill_entry (A @ X @ B) (length A) name inum mode =
      Some (A @ (be_put 8 inum @ c @ [of_nat (length name), ?t] @ name @ v) @ B)"
    using assms(3) 3 unfolding fill_entry_def tux_update_entry_def TUX_DIR_HEAD_def 1 bind.bind_lunit 2 Let_def add_0_right
    by (simp only: bind.bind_lunit 4) (simp add: tux_type_by_mode_def)
  have "be_put 8 inum @ c @ [of_nat (length name), ?t] @ name @ v =
      ent_bytes \<lparr>de_inum = inum, de_type = ?t, de_name = name, de_pad = drop (12 + length name) X\<rparr>"
    using l unfolding c2 v ent_bytes_def by (simp add: de_rec_def TUX_DIR_HEAD_def)
  then show ?thesis using run by simp
qed

lemma ent_raw: "dent_ok e \<Longrightarrow> raw_ent (ent_bytes e)"
  using dent_rec [of e] by (simp add: raw_ent_def dent_ok_def) (simp add: ent_bytes_def)

lemma fill_ok:
  assumes "raw_ent X" and "TUX_REC_LEN (length name) \<le> length X" and "length name \<le> 255"
  shows "dent_ok \<lparr>de_inum = inum, de_type = t, de_name = name, de_pad = drop (12 + length name) X\<rparr>"
    and "de_rec \<lparr>de_inum = inum, de_type = t, de_name = name, de_pad = drop (12 + length name) X\<rparr> = length X"
proof -
  show "de_rec \<lparr>de_inum = inum, de_type = t, de_name = name, de_pad = drop (12 + length name) X\<rparr> = length X"
    using assms(2) rec_len_bounds(1) [of "length name"] by (simp add: de_rec_def TUX_DIR_HEAD_def)
  then show "dent_ok \<lparr>de_inum = inum, de_type = t, de_name = name, de_pad = drop (12 + length name) X\<rparr>"
    using assms by (simp add: dent_ok_def raw_ent_def)
qed

text \<open>Cutting off the unused bytes of a live entry.\<close>

lemma cut_live:
  assumes "dent_ok e" and "de_name e \<noteq> []" and "TUX_REC_LEN (length (de_name e)) + TUX_REC_LEN n \<le> de_rec e"
  shows "\<exists>e' X. cut_entry (A @ ent_bytes e @ B) (length A) = Some (A @ (ent_bytes e' @ X) @ B, length (A @ ent_bytes e')) \<and>
    dent_ok e' \<and> de_name e' = de_name e \<and> de_inum e' = de_inum e \<and> raw_ent X \<and> TUX_REC_LEN n \<le> length X \<and>
    de_rec e' + length X = de_rec e"
proof -
  let ?l = "length (de_name e)" let ?N = "TUX_REC_LEN ?l" let ?k = "?N - 12 - ?l"
  let ?e = "e\<lparr>de_pad := take ?k (de_pad e)\<rparr>" and ?Y = "drop ?k (de_pad e)"
  let ?X = "splice 8 (be_put 2 (of_nat (disk_rec (length ?Y)) :: u64)) ?Y"
  note b = rec_len_bounds(1,3) [of ?l] rec_len_bounds(3,4) [of n]
  note f = fields [OF assms(1) refl, of A B]
  have rec: "de_rec e = 12 + ?l + length (de_pad e)" by (simp add: de_rec_def TUX_DIR_HEAD_def)
  have y: "length ?Y = de_rec e - ?N" "TUX_REC_LEN n \<le> length ?Y" using assms(3) b rec by simp_all
  have er: "de_rec ?e = ?N" using assms(3) b rec by (simp add: de_rec_def TUX_DIR_HEAD_def)
  have y16: "16 \<le> length ?Y" using y b by linarith
  have small: "de_rec e \<le> 2 ^ 16" "de_rec e mod 8 = 0" using assms(1) by (simp_all add: dent_ok_def)
  have e': "dent_ok ?e" using assms(1) b(2) er small(1) assms(3) by (simp add: dent_ok_def)
  have "8 dvd de_rec e" "8 dvd ?N" using small(2) b(2) by (simp_all add: mod_eq_0_iff_dvd)
  then have y8: "length ?Y mod 8 = 0" unfolding y(1) by (metis dvd_diff_nat mod_eq_0_iff_dvd)
  have X: "raw_ent ?X" using y16 y8 y(1) small(1) by (simp add: raw_ent_def) (simp add: splice_def)
  let ?h = "\<lambda>r. be_put 8 (de_inum e) @ be_put 2 (of_nat (disk_rec r) :: u64) @ [of_nat ?l, de_type e] @ de_name e @ take ?k (de_pad e)"
  have hl: "length (?h r) = ?N" for r using b(1) assms(3) rec by simp
  have eb: "ent_bytes e = ?h (de_rec e) @ ?Y" by (simp add: ent_bytes_def)
  have 1: "store_rec_len (length A + ?N) (length ?Y) (A @ (?h (de_rec e) @ ?Y) @ B) = Some (A @ (?h (de_rec e) @ ?X) @ B)"
  proof -
    have "splice (?N + 8) (be_put 2 (of_nat (disk_rec (length ?Y)) :: u64)) (?h (de_rec e) @ ?Y) = ?h (de_rec e) @ ?X"
      using splice_mid [of 8 "be_put 2 (of_nat (disk_rec (length ?Y)) :: u64)" ?Y "?h (de_rec e)" "[]"] y16
      unfolding hl append_Nil2 length_be_put by linarith
    moreover have "length ?Y \<le> 2 ^ 16" "?N + 10 \<le> length (?h (de_rec e) @ ?Y)"
      using y16 y(1) small(1) hl [of "de_rec e"] unfolding length_append by linarith+
    note store_rec_mid [OF this, of A B]
    ultimately show ?thesis by (simp only:)
  qed
  have 2: "store_rec_len (length A + 0) ?N (A @ (?h (de_rec e) @ ?X) @ B) = Some (A @ (?h ?N @ ?X) @ B)"
  proof -
    have "store_rec_len (length A + 0) ?N (A @ (?h (de_rec e) @ ?X) @ B) =
        Some (A @ splice (0 + 8) (be_put 2 (of_nat (disk_rec ?N) :: u64)) (?h (de_rec e) @ ?X) @ B)"
      by (rule store_rec_mid) (use small(1) assms(3) in simp_all)
    then show ?thesis by (simp add: splice_def)
  qed
  have "?h ?N = ent_bytes ?e" using er by (simp add: ent_bytes_def)
  moreover have "cut_entry (A @ ent_bytes e @ B) (length A) = Some (A @ (?h ?N @ ?X) @ B, length A + ?N)"
    unfolding cut_entry_def is_deleted_def f(3) next_entry_def [symmetric] Let_def
    using assms(2) 1 2 f(6) unfolding next_entry_def y(1) eb [symmetric] by simp
  ultimately show ?thesis
    using e' X y(2) y16 er y(1) assms(3) by (intro exI [of _ ?e] exI [of _ ?X]) simp
qed

lemma map_of_insert: "k \<notin> fst ` set (xs @ ys) \<Longrightarrow> map_of (xs @ (k, v) # ys) = (map_of (xs @ ys))(k \<mapsto> v)"
  by (induction xs) (auto simp: fun_upd_twist)

lemma map_of_remove:
  assumes "distinct (map fst (xs @ (k, v) # ys))"
  shows "map_of (xs @ ys) = (map_of (xs @ (k, v) # ys))(k := None)"
proof -
  have k: "k \<notin> fst ` set (xs @ ys)" using assms by auto
  then have "map_of (xs @ ys) k = None" by (simp only: map_of_eq_None_iff) simp
  then show ?thesis by (simp only: map_of_insert [OF k] fun_upd_upd) (simp add: fun_upd_idem)
qed

text \<open>A change of one block that inserts or removes one live entry.\<close>

lemma binds_concat_update:
  assumes "b < length ess"
  shows "binds (concat (ess[b := es])) = binds (concat (take b ess)) @ binds es @ binds (concat (drop (Suc b) ess))"
    and "binds (concat ess) = binds (concat (take b ess)) @ binds (ess ! b) @ binds (concat (drop (Suc b) ess))"
proof -
  show "binds (concat (ess[b := es])) = binds (concat (take b ess)) @ binds es @ binds (concat (drop (Suc b) ess))"
    using assms by (simp add: upd_conv_take_nth_drop)
  have "ess = take b ess @ (ess ! b) # drop (Suc b) ess" using assms by (simp add: id_take_nth_drop)
  then show "binds (concat ess) = binds (concat (take b ess)) @ binds (ess ! b) @ binds (concat (drop (Suc b) ess))"
    by (metis concat.simps(2) concat_append binds_simps(3))
qed

definition with_page :: "nat \<Rightarrow> u8 list \<Rightarrow> dir \<Rightarrow> dir" where
  "with_page b blk d = set_page b blk (d\<lparr>d_dirty := (d_dirty d)(b := True)\<rparr>)"

lemma dir_change:
  assumes "dir_ok d sz ess" and "b < length ess" and "block_is (blksize d) es blk"
    and "distinct (map fst (binds (concat (ess[b := es]))))"
  shows "dir_ok (with_page b blk d) sz (ess[b := es])"
  using assms by (auto simp: dir_ok_def with_page_def set_page_def nth_list_update)

lemma dir_insert:
  assumes "dir_ok d sz ess" and "b < length ess" and "block_is (blksize d) es blk"
    and "binds (ess ! b) = xs @ ys" and "binds es = xs @ (name, inum) # ys" and "dir_map ess name = None"
  shows "dir_ok (with_page b blk d) sz (ess[b := es])" and "dir_map (ess[b := es]) = (dir_map ess)(name \<mapsto> inum)"
proof -
  let ?A = "binds (concat (take b ess))" and ?B = "binds (concat (drop (Suc b) ess))"
  have old: "binds (concat ess) = (?A @ xs) @ ys @ ?B" and new: "binds (concat (ess[b := es])) = (?A @ xs) @ (name, inum) # ys @ ?B"
    using binds_concat_update [OF assms(2)] assms(4,5) by simp_all
  have fresh: "name \<notin> fst ` set ((?A @ xs) @ ys @ ?B)" using assms(6) by (simp only: dir_map_none old) simp
  have "distinct (map fst (binds (concat ess)))" using assms(1) by (simp add: dir_ok_def)
  then have "distinct (map fst (binds (concat (ess[b := es]))))" using fresh unfolding old new by auto
  then show "dir_ok (with_page b blk d) sz (ess[b := es])" by (rule dir_change [OF assms(1-3)])
  show "dir_map (ess[b := es]) = (dir_map ess)(name \<mapsto> inum)"
    unfolding dir_map_def old new by (rule map_of_insert [OF fresh])
qed

lemma dir_remove:
  assumes "dir_ok d sz ess" and "b < length ess" and "block_is (blksize d) es blk"
    and "binds es = xs @ ys" and "binds (ess ! b) = xs @ (name, inum) # ys"
  shows "dir_ok (with_page b blk d) sz (ess[b := es])" and "dir_map (ess[b := es]) = (dir_map ess)(name := None)"
proof -
  let ?A = "binds (concat (take b ess))" and ?B = "binds (concat (drop (Suc b) ess))"
  have new: "binds (concat (ess[b := es])) = (?A @ xs) @ ys @ ?B" and old: "binds (concat ess) = (?A @ xs) @ (name, inum) # ys @ ?B"
    using binds_concat_update [OF assms(2)] assms(4,5) by simp_all
  have dist: "distinct (map fst ((?A @ xs) @ (name, inum) # ys @ ?B))" using assms(1) by (simp only: dir_ok_def old)
  then have "distinct (map fst (binds (concat (ess[b := es]))))" unfolding new by auto
  then show "dir_ok (with_page b blk d) sz (ess[b := es])" by (rule dir_change [OF assms(1-3)])
  show "dir_map (ess[b := es]) = (dir_map ess)(name := None)"
    unfolding dir_map_def old new by (rule map_of_remove [OF dist])
qed

lemma dir_append:
  assumes "dir_ok d sz ess" and "block_is (blksize d) [e] blk" and "de_name e \<noteq> []" and "dir_map ess (de_name e) = None"
  shows "dir_ok (with_page (length ess) blk d) (sz + blksize d) (ess @ [[e]])"
    and "dir_map (ess @ [[e]]) = (dir_map ess)(de_name e \<mapsto> de_inum e)"
proof -
  have new: "binds (concat (ess @ [[e]])) = binds (concat ess) @ [(de_name e, de_inum e)]" using assms(3) by simp
  have fresh: "de_name e \<notin> fst ` set (binds (concat ess) @ [])" using assms(4) by (simp only: dir_map_none) simp
  have "distinct (map fst (binds (concat ess)))" using assms(1) by (simp add: dir_ok_def)
  then have "distinct (map fst (binds (concat (ess @ [[e]]))))" using fresh unfolding new by auto
  then show "dir_ok (with_page (length ess) blk d) (sz + blksize d) (ess @ [[e]])"
    using assms(1,2) by (auto simp: dir_ok_def with_page_def set_page_def nth_append not_less less_Suc_eq)
  show "dir_map (ess @ [[e]]) = (dir_map ess)(de_name e \<mapsto> de_inum e)"
    unfolding dir_map_def new using map_of_insert [OF fresh, of "de_inum e"] by simp
qed

lemma create_find_spec:
  assumes "\<forall>b \<in> set bl. block_is (blksize d) (ess ! b) (d_page d b)" and "0 < n"
  shows "(\<exists>b. d_readerr d b) \<and> create_find d (TUX_REC_LEN n) bl = Inl EIO \<or>
     create_find d (TUX_REC_LEN n) bl = Inr None \<or>
     (\<exists>b \<in> set bl. \<exists>p e q. create_find d (TUX_REC_LEN n) bl = Inr (Some (b, length (ents_bytes p))) \<and> ess ! b = p @ e # q \<and>
       (if de_name e = [] then TUX_REC_LEN n \<le> de_rec e else TUX_REC_LEN (length (de_name e)) + TUX_REC_LEN n \<le> de_rec e))"
  using assms(1)
proof (induction bl)
  case (Cons b bl)
  have "block_is (blksize d) (ess ! b) (d_page d b)" using Cons.prems by simp
  note scan = create_scan_spec [OF this, of "[]" "ess ! b" n]
  have IH: "\<forall>b \<in> set bl. block_is (blksize d) (ess ! b) (d_page d b)" using Cons.prems by simp
  show ?case
  proof (cases "d_readerr d b")
    case True
    then show ?thesis by auto
  next
    case False
    from scan assms(2) consider p e q where "create_scan (d_page d b) (TUX_REC_LEN n) 0 = Scan_at (length (ents_bytes p))"
        "ess ! b = p @ e # q"
        "if de_name e = [] then TUX_REC_LEN n \<le> de_rec e else TUX_REC_LEN (length (de_name e)) + TUX_REC_LEN n \<le> de_rec e"
      | "create_scan (d_page d b) (TUX_REC_LEN n) 0 = Scan_none" by force
    then show ?thesis
    proof cases
      case 1
      then have "create_find d (TUX_REC_LEN n) (b # bl) = Inr (Some (b, length (ents_bytes p)))" using False by simp
      then show ?thesis using 1(2,3) by (metis list.set_intros(1))
    next
      case 2
      then have "create_find d (TUX_REC_LEN n) (b # bl) = create_find d (TUX_REC_LEN n) bl" using False by simp
      then show ?thesis using Cons.IH [OF IH] by (metis list.set_intros(2))
    qed
  qed
qed simp

text \<open>The new entry in the place that was found.\<close>

lemma place_entry:
  assumes "block_is bs (p @ e # q) blk" and "name \<noteq> []" and "length name \<le> 255" and "unat (drop_bit 12 mode) < 15"
    and "if de_name e = [] then TUX_REC_LEN (length name) \<le> de_rec e
         else TUX_REC_LEN (length (de_name e)) + TUX_REC_LEN (length name) \<le> de_rec e"
  shows "\<exists>blk1 entry new xs. cut_entry blk (length (ents_bytes p)) = Some (blk1, entry) \<and>
    (\<exists>blk'. fill_entry blk1 entry name inum mode = Some blk' \<and> block_is bs (p @ xs @ new # q) blk') \<and>
    de_name new = name \<and> de_inum new = inum \<and> binds xs = binds [e] \<and> entry = length (ents_bytes (p @ xs))"
proof -
  let ?A = "ents_bytes p" and ?B = "ents_bytes q"
  have blk: "blk = ?A @ ent_bytes e @ ?B" and e: "dent_ok e" using assms(1) by (simp_all add: block_is_def)
  let ?new = "\<lambda>X. \<lparr>de_inum = inum, de_type = tux_type_by_mode ! unat (drop_bit 12 mode), de_name = name, de_pad = drop (12 + length name) X\<rparr>"
  show ?thesis
  proof (cases "de_name e = []")
    case True
    have r: "raw_ent (ent_bytes e)" "TUX_REC_LEN (length name) \<le> length (ent_bytes e)" using ent_raw [OF e] assms(5) True by simp_all
    have "cut_entry blk (length ?A) = Some (?A @ ent_bytes e @ ?B, length ?A)"
      unfolding cut_entry_def blk is_deleted_def fields(3) [OF e refl] using True by simp
    moreover have "block_is bs (p @ [] @ ?new (ent_bytes e) # q) (?A @ ent_bytes (?new (ent_bytes e)) @ ?B)"
      using assms(1) fill_ok(1) [OF r assms(3)] fill_ok(2) [OF r assms(3), unfolded ent_bytes_length]
      unfolding block_is_def by (auto simp: blk)
    moreover note fill_raw [OF r assms(4), of ?A ?B inum]
    ultimately show ?thesis using True
      by (intro exI [of _ "?A @ ent_bytes e @ ?B"] exI [of _ "length ?A"] exI [of _ "?new (ent_bytes e)"] exI [of _ "[]"]) auto
  next
    case False
    then obtain e' X where c: "cut_entry blk (length ?A) = Some (?A @ (ent_bytes e' @ X) @ ?B, length (?A @ ent_bytes e'))"
      "dent_ok e'" "de_name e' = de_name e" "de_inum e' = de_inum e" "raw_ent X" "TUX_REC_LEN (length name) \<le> length X"
      "de_rec e' + length X = de_rec e"
      using cut_live [OF e False, of "length name" ?A ?B] assms(5) unfolding blk by auto
    have fill: "fill_entry (?A @ (ent_bytes e' @ X) @ ?B) (length (?A @ ent_bytes e')) name inum mode =
        Some ((?A @ ent_bytes e') @ ent_bytes (?new X) @ ?B)"
      using fill_raw [OF c(5,6) assms(4), of "?A @ ent_bytes e'" ?B inum] by simp
    moreover have "block_is bs (p @ [e'] @ ?new X # q) ((?A @ ent_bytes e') @ ent_bytes (?new X) @ ?B)"
      using assms(1) c(2,7) fill_ok [OF c(5,6) assms(3)] unfolding block_is_def by (auto simp: blk)
    ultimately show ?thesis using c(1,3,4) False
      by (intro exI [of _ "?A @ (ent_bytes e' @ X) @ ?B"] exI [of _ "length (?A @ ent_bytes e')"] exI [of _ "?new X"] exI [of _ "[e']"])
        simp
  qed
qed

lemma blksize_bounds: "9 \<le> d_bits d \<Longrightarrow> d_bits d \<le> 16 \<Longrightarrow> 512 \<le> blksize d \<and> blksize d \<le> 2 ^ 16 \<and> blksize d mod 8 = 0"
proof -
  assume b: "9 \<le> d_bits d" "d_bits d \<le> 16"
  have "(2 :: nat) ^ 9 \<le> 2 ^ d_bits d" "(2 :: nat) ^ d_bits d \<le> 2 ^ 16" by (rule power_increasing; use b in simp)+
  moreover have "(2 :: nat) ^ 3 dvd 2 ^ d_bits d" by (rule le_imp_power_dvd) (use b in simp)
  ultimately show ?thesis by (simp add: dvd_eq_mod_eq_0)
qed

lemma fresh_raw:
  assumes "512 \<le> bs" and "bs \<le> 2 ^ 16" and "bs mod 8 = 0"
  shows "\<exists>X. fresh_block bs = Some X \<and> raw_ent X \<and> length X = bs"
proof -
  let ?X = "splice 8 (be_put 2 (of_nat (disk_rec bs) :: u64)) (replicate bs 0)"
  have "fresh_block bs = Some ?X"
    using store_rec_mid [of bs 0 "replicate bs 0" "[]" "[]"] assms by (simp add: fresh_block_def)
  moreover have "raw_ent ?X" using assms by (simp add: raw_ent_def) (simp add: splice_def)
  ultimately show ?thesis using assms by simp
qed

text \<open>The state after a successful creation.\<close>

definition created :: "dir \<Rightarrow> nat \<Rightarrow> dent list list \<Rightarrow> u8 list \<Rightarrow> u64 \<Rightarrow> nat \<Rightarrow> nat \<Rightarrow> dir \<Rightarrow> bool" where
  "created d sz ess name inum pos sz' d' \<longleftrightarrow> (\<exists>ess' b p e q blk. dir_ok d' sz' ess' \<and> dir_map ess' = (dir_map ess)(name \<mapsto> inum) \<and>
     (sz' = sz \<or> sz' = sz + blksize d) \<and> d' = with_page b blk d \<and> b < length ess' \<and>
     ess' ! b = p @ e # q \<and> de_name e = name \<and> pos = b * blksize d + length (ents_bytes p))"

lemma createdI:
  "dir_ok d' sz' ess' \<Longrightarrow> dir_map ess' = (dir_map ess)(name \<mapsto> inum) \<Longrightarrow> sz' = sz \<or> sz' = sz + blksize d \<Longrightarrow>
   d' = with_page b blk d \<Longrightarrow> b < length ess' \<Longrightarrow> ess' ! b = p @ e # q \<Longrightarrow> de_name e = name \<Longrightarrow>
   pos = b * blksize d + length (ents_bytes p) \<Longrightarrow> created d sz ess name inum pos sz' d'"
  unfolding created_def by (intro exI conjI)

lemma create_entry_spec:
  assumes ok: "dir_ok d sz ess" and name: "name \<noteq> []" "length name \<le> 255" and mode: "unat (drop_bit 12 mode) < 15"
    and new: "dir_map ess name = None"
  shows "\<exists>r sz' d'. tux_create_entry d name inum mode sz = Some (r, sz', d') \<and>
    (case r of
       Inl e \<Rightarrow> sz' = sz \<and> d' = d \<and> (e = EIO \<and> (\<exists>b. d_readerr d b) \<or> (\<exists>b. d_dirtyerr d b = Some e))
     | Inr pos \<Rightarrow> created d sz ess name inum pos sz' d')"
proof -
  let ?n = "TUX_REC_LEN (length name)"
  have bits: "9 \<le> d_bits d" "d_bits d \<le> 16" using ok by (simp_all add: dir_ok_def)
  note bs = blksize_bounds [OF bits]
  have blocks: "sz div blksize d = length ess" by (rule dir_ok_blocks [OF ok])
  have n: "?n \<le> blksize d" using rec_len_bounds(2) [of "length name"] name(2) bs by linarith
  have "\<forall>b \<in> set [0..<length ess]. block_is (blksize d) (ess ! b) (d_page d b)" "0 < length name"
    using ok name(1) by (simp_all add: dir_ok_def)
  note find = create_find_spec [OF this]
  note run = tux_create_entry_def [of d name inum mode sz, unfolded blocks Let_def]
  from find consider "\<exists>b. d_readerr d b" "create_find d ?n [0..<length ess] = Inl EIO"
    | "create_find d ?n [0..<length ess] = Inr None"
    | b p e q where "b < length ess" "create_find d ?n [0..<length ess] = Inr (Some (b, length (ents_bytes p)))" "ess ! b = p @ e # q"
       "if de_name e = [] then ?n \<le> de_rec e else TUX_REC_LEN (length (de_name e)) + ?n \<le> de_rec e"
    by auto
  then show ?thesis
  proof cases
    case 1
    then show ?thesis by (simp add: run)
  next
    case 2
    show ?thesis
    proof (cases "d_dirtyerr d (length ess)")
      case (Some e)
      have "\<not> d_dirty d (length ess)" using ok by (simp add: dir_ok_def)
      then show ?thesis using 2 Some by (auto simp: run blockdirty_def)
    next
      case None
      obtain X where X: "fresh_block (blksize d) = Some X" "raw_ent X" "length X = blksize d"
        using fresh_raw [OF bs [THEN conjunct1] bs [THEN conjunct2, THEN conjunct1] bs [THEN conjunct2, THEN conjunct2]] by blast
      let ?e = "\<lparr>de_inum = inum, de_type = tux_type_by_mode ! unat (drop_bit 12 mode), de_name = name, de_pad = drop (12 + length name) X\<rparr>"
      have fill: "fill_entry X 0 name inum mode = Some (ent_bytes ?e)"
        using fill_raw [OF X(2) _ mode, of name "[]" "[]" inum] n X(3) by simp
      have e: "block_is (blksize d) [?e] (ent_bytes ?e)"
        using fill_ok [OF X(2) _ name(2)] n X(3) by (simp add: block_is_def)
      have "\<not> d_dirty d (length ess)" using ok by (simp add: dir_ok_def)
      then have "tux_create_entry d name inum mode sz =
          Some (Inr (length ess * blksize d), sz + blksize d, with_page (length ess) (ent_bytes ?e) d)"
        using 2 None X(1) fill by (simp add: run blockdirty_def with_page_def set_page_def)
      moreover have "dir_ok (with_page (length ess) (ent_bytes ?e) d) (sz + blksize d) (ess @ [[?e]])"
        "dir_map (ess @ [[?e]]) = (dir_map ess)(name \<mapsto> inum)"
        using dir_append [OF ok e] name(1) new by simp_all
      then have "created d sz ess name inum (length ess * blksize d) (sz + blksize d) (with_page (length ess) (ent_bytes ?e) d)"
        by (rule createdI [where p = "[]" and e = ?e and q = "[]"]) simp_all
      ultimately show ?thesis by simp
    qed
  next
    case (3 b p e q)
    show ?thesis
    proof (cases "d_dirtyerr d b")
      case (Some e)
      then show ?thesis using 3 by (auto simp: run blockdirty_def)
    next
      case None
      have "block_is (blksize d) (ess ! b) (d_page d b)" using ok 3(1) by (simp add: dir_ok_def)
      then have "block_is (blksize d) (p @ e # q) (d_page d b)" by (simp only: 3(3))
      from place_entry [OF this name mode 3(4), of inum] obtain blk1 entry new xs blk' where
        cut: "cut_entry (d_page d b) (length (ents_bytes p)) = Some (blk1, entry)" and
        fill: "fill_entry blk1 entry name inum mode = Some blk'" "block_is (blksize d) (p @ xs @ new # q) blk'" and
        nw: "de_name new = name" "de_inum new = inum" "binds xs = binds [e]" "entry = length (ents_bytes (p @ xs))" by blast
      have "tux_create_entry d name inum mode sz = Some (Inr (b * blksize d + entry), sz, with_page b blk' d)"
        using 3(2) None cut fill(1) by (simp add: run blockdirty_def with_page_def set_page_def)
      moreover have b1: "binds (ess ! b) = (binds p @ binds [e]) @ binds q" by (simp add: 3(3))
      have b2: "binds (p @ xs @ new # q) = (binds p @ binds [e]) @ (name, inum) # binds q" using nw name(1) by simp
      note dir_insert [OF ok 3(1) fill(2) b1 b2 assms(5)]
      then have "created d sz ess name inum (b * blksize d + entry) sz (with_page b blk' d)"
        by (rule createdI [where p = "p @ xs" and e = new and q = q]) (use nw(1,4) 3(1) in simp_all)
      ultimately show ?thesis by simp
    qed
  qed
qed

section \<open>Removing an entry\<close>

lemma clear_none:
  assumes e: "dent_ok e"
  shows "\<exists>e'. clear_entry (A @ ent_bytes e @ B) (length A) None = Some (A @ ent_bytes e' @ B) \<and> dent_ok e' \<and>
    de_name e' = [] \<and> de_rec e' = de_rec e"
proof -
  let ?l = "length (de_name e)"
  let ?e = "\<lparr>de_inum = 0, de_type = 0, de_name = [], de_pad = replicate ?l 0 @ de_pad e\<rparr>"
  note f = fields [OF e refl, of A B]
  let ?r = "be_put 2 (of_nat (disk_rec (de_rec e)) :: u64)"
  have 1: "store_at (length A + 12) (replicate ?l 0) (A @ (be_put 8 (de_inum e) @ ?r @ [of_nat ?l, de_type e] @ de_name e @ de_pad e) @ B) =
      Some (A @ (be_put 8 (de_inum e) @ ?r @ [of_nat ?l, de_type e] @ replicate ?l 0 @ de_pad e) @ B)"
    by (subst store_mid) (simp_all add: splice_def)
  have 2: "store_at (length A + 10) [0, 0] (A @ (be_put 8 (de_inum e) @ ?r @ [of_nat ?l, de_type e] @ replicate ?l 0 @ de_pad e) @ B) =
      Some (A @ (be_put 8 (de_inum e) @ ?r @ [0, 0] @ replicate ?l 0 @ de_pad e) @ B)"
    by (subst store_mid) (simp_all add: splice_def)
  have 3: "store_at (length A + 0) (replicate 8 0) (A @ (be_put 8 (de_inum e) @ ?r @ [0, 0] @ replicate ?l 0 @ de_pad e) @ B) =
      Some (A @ (replicate 8 0 @ ?r @ [0, 0] @ replicate ?l 0 @ de_pad e) @ B)"
    by (subst store_mid) (simp_all add: splice_def)
  have rec: "de_rec ?e = de_rec e" by (simp add: de_rec_def)
  have z: "be_put 8 (0 :: u64) = replicate 8 0" by (simp add: numeral_eq_Suc)
  have eb: "ent_bytes ?e = replicate 8 0 @ ?r @ [0, 0] @ replicate ?l 0 @ de_pad e"
    unfolding ent_bytes_def rec by (simp add: z)
  have "clear_entry (A @ ent_bytes e @ B) (length A) None = Some (A @ ent_bytes ?e @ B)"
    unfolding clear_entry_def option.case bind.bind_lunit f(3) TUX_DIR_HEAD_def unfolding ent_bytes_def [of e] 1 bind.bind_lunit 2 eb
    using 3 by simp
  moreover have "16 \<le> de_rec ?e" using dent_rec [OF e] rec by simp
  then have "dent_ok ?e" using e rec unfolding dent_ok_def by (simp add: TUX_REC_LEN_def TUX_DIR_HEAD_def)
  ultimately show ?thesis using rec by (intro exI [of _ ?e]) simp
qed

lemma clear_some: "clear_entry blk entry (Some p) =
    (case store_rec_len p (next_entry blk entry - p) blk of None \<Rightarrow> None | Some blk \<Rightarrow> clear_entry blk entry None)"
  by (simp add: clear_entry_def split: option.split)

text \<open>The entry before takes over the bytes of the removed one.\<close>

lemma clear_prev:
  assumes e: "dent_ok e" and e0: "dent_ok e0" and rec: "de_rec e0 + de_rec e \<le> 2 ^ 16"
  shows "\<exists>e'. clear_entry (A @ ent_bytes e0 @ ent_bytes e @ B) (length (A @ ent_bytes e0)) (Some (length A)) = Some (A @ ent_bytes e' @ B) \<and>
    dent_ok e' \<and> de_name e' = de_name e0 \<and> de_inum e' = de_inum e0 \<and> de_rec e' = de_rec e0 + de_rec e"
proof -
  let ?n = "de_rec e0 + de_rec e"
  let ?X = "be_put 8 (de_inum e0) @ be_put 2 (of_nat (disk_rec ?n) :: u64) @ [of_nat (length (de_name e0)), de_type e0] @ de_name e0 @ de_pad e0"
  note f = fields [OF e refl, of "A @ ent_bytes e0" B]
  have nx: "next_entry (A @ ent_bytes e0 @ ent_bytes e @ B) (length (A @ ent_bytes e0)) - length A = ?n"
    using f(6) by simp
  have "store_rec_len (length A + 0) ?n (A @ ent_bytes e0 @ (ent_bytes e @ B)) =
      Some (A @ splice (0 + 8) (be_put 2 (of_nat (disk_rec ?n) :: u64)) (ent_bytes e0) @ (ent_bytes e @ B))"
    using dent_rec [OF e0] rec by (intro store_rec_mid) simp_all
  moreover have "splice (0 + 8) (be_put 2 (of_nat (disk_rec ?n) :: u64)) (ent_bytes e0) = ?X"
    by (simp add: ent_bytes_def splice_def)
  ultimately have 1: "store_rec_len (length A) ?n (A @ ent_bytes e0 @ ent_bytes e @ B) = Some ((A @ ?X) @ ent_bytes e @ B)"
    by simp
  obtain e1 where e1: "clear_entry ((A @ ?X) @ ent_bytes e @ B) (length (A @ ?X)) None = Some ((A @ ?X) @ ent_bytes e1 @ B)"
    "dent_ok e1" "de_rec e1 = de_rec e" using clear_none [OF e] by blast
  have lX: "length (A @ ?X) = length (A @ ent_bytes e0)" by (simp add: de_rec_def TUX_DIR_HEAD_def)
  let ?e = "e0\<lparr>de_pad := de_pad e0 @ ent_bytes e1\<rparr>"
  have r: "de_rec ?e = ?n" using e1(3) by (simp add: de_rec_def)
  have "?X @ ent_bytes e1 = ent_bytes ?e" unfolding ent_bytes_def [of ?e] r by simp
  then have "clear_entry (A @ ent_bytes e0 @ ent_bytes e @ B) (length (A @ ent_bytes e0)) (Some (length A)) = Some (A @ ent_bytes ?e @ B)"
    unfolding clear_some nx 1 option.case using e1(1) lX by simp
  moreover have "dent_ok ?e" using e e0 rec r unfolding dent_ok_def by (simp add: mod_eq_0_iff_dvd)
  ultimately show ?thesis using r by (intro exI [of _ ?e]) simp
qed

text \<open>The removal of the entry that a search has found.\<close>

lemma delete_block:
  assumes blk: "block_is bs (p @ e # q) blk" and bs: "bs \<le> 2 ^ 16"
  shows "\<exists>prev blk' es. delete_scan blk (length (ents_bytes p)) 0 None = Inr prev \<and>
    clear_entry blk (length (ents_bytes p)) prev = Some blk' \<and> block_is bs es blk' \<and> binds es = binds p @ binds q"
proof -
  have b: "blk = ents_bytes p @ ent_bytes e @ ents_bytes q" and e: "dent_ok e" using blk by (simp_all add: block_is_def)
  have scan: "delete_scan blk (length (ents_bytes p)) 0 None = Inr (if p = [] then None else Some (length (ents_bytes (butlast p))))"
    using delete_scan_spec [OF blk, of "[]" p "e # q" None] by simp
  show ?thesis
  proof (cases p rule: rev_cases)
    case Nil
    obtain e' where c: "clear_entry (ent_bytes e @ ents_bytes q) 0 None = Some (ent_bytes e' @ ents_bytes q)"
      "dent_ok e'" "de_name e' = []" "de_rec e' = de_rec e" using clear_none [OF e, of "[]" "ents_bytes q"] by auto
    have "block_is bs (e' # q) (ent_bytes e' @ ents_bytes q)" using blk c(2,4) Nil by (auto simp: block_is_def)
    then show ?thesis using scan c(1,3) Nil b by (intro exI [of _ None] exI [of _ "ent_bytes e' @ ents_bytes q"] exI [of _ "e' # q"]) simp
  next
    case (snoc p0 e0)
    have e0: "dent_ok e0" and len: "length (ents_bytes p0) + de_rec e0 + de_rec e + length (ents_bytes q) = bs"
      using blk snoc by (auto simp: block_is_def)
    have "de_rec e0 + de_rec e \<le> 2 ^ 16" using len bs by linarith
    from clear_prev [OF e e0 this, of "ents_bytes p0" "ents_bytes q"] obtain e' where
      c: "clear_entry (ents_bytes p0 @ ent_bytes e0 @ ent_bytes e @ ents_bytes q) (length (ents_bytes p0 @ ent_bytes e0))
            (Some (length (ents_bytes p0))) = Some (ents_bytes p0 @ ent_bytes e' @ ents_bytes q)"
      "dent_ok e'" "de_name e' = de_name e0" "de_inum e' = de_inum e0" "de_rec e' = de_rec e0 + de_rec e" by blast
    have "block_is bs (p0 @ e' # q) (ents_bytes p0 @ ent_bytes e' @ ents_bytes q)"
      using blk c(2,5) snoc by (auto simp: block_is_def)
    then show ?thesis using scan c(1,3,4) snoc b
      by (intro exI [of _ "Some (length (ents_bytes p0))"] exI [of _ "ents_bytes p0 @ ent_bytes e' @ ents_bytes q"]
          exI [of _ "p0 @ e' # q"]) simp
  qed
qed

lemma delete_entry_spec:
  assumes ok: "dir_ok d sz ess" and b: "b < length ess" and at: "ess ! b = p @ e # q" and live: "de_name e \<noteq> []"
  shows "\<exists>er d'. tux_delete_entry d (b, length (ents_bytes p)) = Some (er, d') \<and>
    (case er of Some er \<Rightarrow> d' = d \<and> d_dirtyerr d b = Some er
     | None \<Rightarrow> \<exists>ess' blk. d' = with_page b blk d \<and> dir_ok d' sz ess' \<and> dir_map ess' = (dir_map ess)(de_name e := None))"
proof -
  have "block_is (blksize d) (ess ! b) (d_page d b)" using ok b by (simp add: dir_ok_def)
  then have blk: "block_is (blksize d) (p @ e # q) (d_page d b)" by (simp only: at)
  have bits: "9 \<le> d_bits d" "d_bits d \<le> 16" using ok by (simp_all add: dir_ok_def)
  from delete_block [OF blk blksize_bounds [OF bits, THEN conjunct2, THEN conjunct1]] obtain prev blk' es where
    del: "delete_scan (d_page d b) (length (ents_bytes p)) 0 None = Inr prev"
      "clear_entry (d_page d b) (length (ents_bytes p)) prev = Some blk'"
    and es: "block_is (blksize d) es blk'" "binds es = binds p @ binds q" by blast
  show ?thesis
  proof (cases "d_dirtyerr d b")
    case (Some er)
    then show ?thesis using del by (simp add: tux_delete_entry_def blockdirty_def)
  next
    case None
    have "tux_delete_entry d (b, length (ents_bytes p)) = Some (None, with_page b blk' d)"
      using del None by (simp add: tux_delete_entry_def blockdirty_def with_page_def set_page_def)
    moreover have "binds (ess ! b) = binds p @ (de_name e, de_inum e) # binds q" using live by (simp add: at)
    note dir_remove [OF ok b es this]
    ultimately show ?thesis by auto
  qed
qed

section \<open>Listing and emptiness\<close>

lemma and_low: "n AND (2 ^ k - 1) = (n :: nat) mod 2 ^ k"
  unfolding mask_eq_exp_minus_1 [symmetric] take_bit_eq_mask [symmetric] take_bit_eq_mod ..

text \<open>A caller that takes at most the given number of entries.\<close>

fun collect :: "nat \<times> (u8 list \<times> u64) list \<Rightarrow> u8 list \<Rightarrow> nat \<Rightarrow> u64 \<Rightarrow> nat \<Rightarrow> bool \<times> nat \<times> (u8 list \<times> u64) list" where
  "collect (0, acc) name pos inum t = (True, 0, acc)"
| "collect (Suc n, acc) name pos inum t = (False, n, acc @ [(name, inum)])"

lemma at_limit: "block_is bs es blk \<Longrightarrow> es = pre @ e # post \<Longrightarrow> length (ents_bytes pre) + TUX_REC_LEN 1 \<le> length blk"
proof -
  assume b: "block_is bs es blk" "es = pre @ e # post"
  have "dent_ok e" using b by (simp add: block_is_def)
  then have "16 \<le> de_rec e" by (rule dent_rec)
  moreover have "TUX_REC_LEN 1 = 16" by (simp add: TUX_REC_LEN_def TUX_DIR_HEAD_def)
  ultimately show ?thesis using entry_fields(9) [OF b] by simp
qed

lemma readdir_block_collect:
  assumes "block_is bs es blk" and "es = pre @ post"
  shows "if length (binds post) \<le> n
    then readdir_block collect bits b blk (length (ents_bytes pre)) pos (n, acc) =
           (Rd_next, pos + length (ents_bytes post), n - length (binds post), acc @ binds post)
    else \<exists>p e q. post = p @ e # q \<and> length (binds p) = n \<and> de_name e \<noteq> [] \<and>
           readdir_block collect bits b blk (length (ents_bytes pre)) pos (n, acc) = (Rd_done, pos + length (ents_bytes p), 0, acc @ binds p)"
  using assms(2)
proof (induction post arbitrary: pre n pos acc)
  case Nil
  then have "length (ents_bytes pre) = length blk" using assms(1) by (simp add: block_is_def)
  then show ?case using rec_len_bounds(4) [of 1] by (simp add: readdir_block.simps)
next
  case (Cons e post)
  note f = entry_fields [OF assms(1) Cons.prems]
  have es: "es = (pre @ [e]) @ post" using Cons.prems by simp
  note lim = at_limit [OF assms(1) Cons.prems]
  have skip: "pos + length (ents_bytes (e # post)) = pos + de_rec e + length (ents_bytes post)" by simp
  show ?case
  proof (cases "de_name e = []")
    case True
    have step: "readdir_block collect bits b blk (length (ents_bytes pre)) pos (n, acc) =
        readdir_block collect bits b blk (length (ents_bytes (pre @ [e]))) (pos + de_rec e) (n, acc)"
      using lim f(2,3,7,8) True by (subst readdir_block.simps) simp
    show ?thesis
    proof (cases "length (binds post) \<le> n")
      case le: True
      then show ?thesis using Cons.IH [OF es, of n "pos + de_rec e" acc] True step by simp
    next
      case False
      then obtain p e' q where "post = p @ e' # q" "length (binds p) = n" "de_name e' \<noteq> []"
        "readdir_block collect bits b blk (length (ents_bytes (pre @ [e]))) (pos + de_rec e) (n, acc) =
           (Rd_done, pos + de_rec e + length (ents_bytes p), 0, acc @ binds p)"
        using Cons.IH [OF es, of n "pos + de_rec e" acc] by auto
      then show ?thesis using True False step
        by (simp del: split_paired_Ex) (intro exI [of _ "e # p"] exI [of _ e'] exI [of _ q], simp)
    qed
  next
    case live: False
    show ?thesis
    proof (cases n)
      case 0
      have "readdir_block collect bits b blk (length (ents_bytes pre)) pos (n, acc) = (Rd_done, pos, 0, acc)"
        using lim f(2,8) live 0 by (subst readdir_block.simps) simp
      then show ?thesis using live 0 by (simp del: split_paired_Ex) (intro exI [of _ "[]"], simp)
    next
      case (Suc k)
      have step: "readdir_block collect bits b blk (length (ents_bytes pre)) pos (n, acc) =
          readdir_block collect bits b blk (length (ents_bytes (pre @ [e]))) (pos + de_rec e) (k, acc @ [(de_name e, de_inum e)])"
        using lim f live Suc by (subst readdir_block.simps) simp
      show ?thesis
      proof (cases "length (binds post) \<le> k")
        case True
        then show ?thesis using Cons.IH [OF es, of k "pos + de_rec e" "acc @ [(de_name e, de_inum e)]"] live step Suc by simp
      next
        case False
        then obtain p e' q where "post = p @ e' # q" "length (binds p) = k" "de_name e' \<noteq> []"
          "readdir_block collect bits b blk (length (ents_bytes (pre @ [e]))) (pos + de_rec e) (k, acc @ [(de_name e, de_inum e)]) =
             (Rd_done, pos + de_rec e + length (ents_bytes p), 0, acc @ [(de_name e, de_inum e)] @ binds p)"
          using Cons.IH [OF es, of k "pos + de_rec e" "acc @ [(de_name e, de_inum e)]"] by auto
        then show ?thesis using live False step Suc
          by (simp del: split_paired_Ex) (intro exI [of _ "e # p"] exI [of _ e'] exI [of _ q], simp)
      qed
    qed
  qed
qed

text \<open>The entries at a position of the directory and behind it.\<close>

definition at_pos :: "nat \<Rightarrow> dent list list \<Rightarrow> nat \<Rightarrow> (u8 list \<times> u64) list \<Rightarrow> bool" where
  "at_pos bs ess pos L \<longleftrightarrow>
     (\<exists>b pre post. b < length ess \<and> pos = b * bs + length (ents_bytes pre) \<and> length (ents_bytes pre) < bs \<and>
        ess ! b = pre @ post \<and> L = binds post @ binds (concat (drop (Suc b) ess))) \<or>
     pos = length ess * bs \<and> L = []"

lemma revalidate_scan_same [simp]: "revalidate_scan blk p p = p"
  by (subst revalidate_scan.simps) simp

lemma revalidate_pos_same: "offset < blksize d \<Longrightarrow> f_pos f = b * blksize d + offset \<Longrightarrow>
    fst (revalidate_pos d b offset f) = offset \<and> f_pos (snd (revalidate_pos d b offset f)) = f_pos f"
  unfolding revalidate_pos_def and_low Let_def by simp

lemma readdir_blocks_collect:
  assumes ok: "dir_ok d sz ess" and rd: "\<forall>b. \<not> d_readerr d b"
  shows "b \<le> length ess \<Longrightarrow> f_pos f = b * blksize d + length (ents_bytes pre) \<Longrightarrow>
    (if b < length ess then ess ! b = pre @ post \<and> length (ents_bytes pre) < blksize d else pre = [] \<and> post = []) \<Longrightarrow>
    L = binds post @ binds (concat (drop (Suc b) ess)) \<Longrightarrow>
    \<exists>f'. readdir_blocks collect d rv [b..<length ess] (length (ents_bytes pre)) f (n, acc) =
        (None, f', n - length L, acc @ take n L) \<and> at_pos (blksize d) ess (f_pos f') (drop n L)"
proof (induction "length ess - b" arbitrary: b f pre post rv n acc L)
  case 0
  then have "b = length ess" by simp
  then show ?case using 0 by (auto simp: at_pos_def)
next
  case (Suc k)
  then have b: "b < length ess" by simp
  have es: "ess ! b = pre @ post" and pre: "length (ents_bytes pre) < blksize d" using Suc.prems(3) b by simp_all
  have blk: "block_is (blksize d) (ess ! b) (d_page d b)" using ok b by (simp add: dir_ok_def)
  have up: "[b..<length ess] = b # [Suc b..<length ess]" using b by (simp add: upt_conv_Cons)
  obtain f1 where f1: "(if rv then revalidate_pos d b (length (ents_bytes pre)) f else (length (ents_bytes pre), f)) = (length (ents_bytes pre), f1)"
    "f_pos f1 = f_pos f"
    using revalidate_pos_same [OF pre Suc.prems(2)] by (metis prod.collapse)
  note run = readdir_blocks.simps(2) [of collect d rv b "[Suc b..<length ess]" "length (ents_bytes pre)" f "(n, acc)"]
  note block = readdir_block_collect [OF blk es, of n "d_bits d" b "f_pos f" acc]
  show ?case
  proof (cases "length (binds post) \<le> n")
    case True
    let ?f = "f1\<lparr>f_pos := f_pos f + length (ents_bytes post)\<rparr>"
    let ?L = "binds (concat (drop (Suc b) ess))" and ?post = "if Suc b < length ess then ess ! Suc b else []"
    have step: "readdir_blocks collect d rv [b..<length ess] (length (ents_bytes pre)) f (n, acc) =
        readdir_blocks collect d False [Suc b..<length ess] (length (ents_bytes [])) ?f (n - length (binds post), acc @ binds post)"
      unfolding up run f1(1) using rd block True f1(2) by simp
    have len: "length (ents_bytes (pre @ post)) = blksize d" using blk es by (auto simp: block_is_def)
    then have pos: "f_pos ?f = Suc b * blksize d + length (ents_bytes [])" using Suc.prems(2) by simp
    have cond: "if Suc b < length ess then ess ! Suc b = [] @ ?post \<and> length (ents_bytes []) < blksize d
        else ([] :: dent list) = [] \<and> ?post = []" by simp
    have L: "?L = binds ?post @ binds (concat (drop (Suc (Suc b)) ess))"
      by (cases "Suc b < length ess") (simp_all add: drop_Cons_nth)
    have k: "k = length ess - Suc b" "Suc b \<le> length ess" using Suc.hyps(2) b by simp_all
    obtain f' where f': "readdir_blocks collect d False [Suc b..<length ess] (length (ents_bytes [])) ?f (n - length (binds post), acc @ binds post) =
        (None, f', n - length (binds post) - length ?L, (acc @ binds post) @ take (n - length (binds post)) ?L)"
      "at_pos (blksize d) ess (f_pos f') (drop (n - length (binds post)) ?L)"
      using Suc.hyps(1) [OF k pos cond L] by blast
    show ?thesis unfolding step f'(1) Suc.prems(4) using f'(2) True by (intro exI [of _ f']) simp
  next
    case False
    then obtain p e q where p: "post = p @ e # q" "length (binds p) = n" "de_name e \<noteq> []"
      "readdir_block collect (d_bits d) b (d_page d b) (length (ents_bytes pre)) (f_pos f) (n, acc) =
         (Rd_done, f_pos f + length (ents_bytes p), 0, acc @ binds p)" using block by auto
    let ?f = "f1\<lparr>f_pos := f_pos f + length (ents_bytes p)\<rparr>"
    have "readdir_blocks collect d rv [b..<length ess] (length (ents_bytes pre)) f (n, acc) = (None, ?f, 0, acc @ binds p)"
      unfolding up run f1(1) using rd p(4) f1(2) by simp
    moreover have take: "take n L = binds p" "drop n L = binds (e # q) @ binds (concat (drop (Suc b) ess))" "n \<le> length L"
      unfolding Suc.prems(4) p(1) using p(2) by simp_all
    moreover have "at_pos (blksize d) ess (f_pos ?f) (drop n L)"
    proof -
      have "dent_ok e" using blk es p(1) by (simp add: block_is_def)
      then have "length (ents_bytes (pre @ p)) < blksize d" using dent_rec [of e] blk es p(1) by (auto simp: block_is_def)
      then show ?thesis unfolding at_pos_def take(2) using b es p(1) Suc.prems(2)
        by (intro disjI1 exI [of _ b] exI [of _ "pre @ p"] exI [of _ "e # q"]) simp
    qed
    ultimately show ?thesis by (intro exI [of _ ?f]) simp
  qed
qed

lemma readdir_collect:
  assumes ok: "dir_ok d (d_size d) ess" and rd: "\<forall>b. \<not> d_readerr d b" and at: "at_pos (blksize d) ess (f_pos f) L"
  shows "\<exists>f'. tux_readdir collect d f (n, acc) = Some (None, f', n - length L, acc @ take n L) \<and> at_pos (blksize d) ess (f_pos f') (drop n L)"
proof -
  have sz: "d_size d = length ess * blksize d" using ok by (simp add: dir_ok_def)
  note run = tux_readdir_def [of collect d f "(n, acc)", unfolded and_low sz]
  from at consider b pre post where "b < length ess" "f_pos f = b * blksize d + length (ents_bytes pre)" "length (ents_bytes pre) < blksize d"
        "ess ! b = pre @ post" "L = binds post @ binds (concat (drop (Suc b) ess))"
    | "f_pos f = length ess * blksize d" "L = []" unfolding at_pos_def by blast
  then show ?thesis
  proof cases
    case 1
    have "f_pos f div blksize d = b" "f_pos f mod blksize d = length (ents_bytes pre)" using 1(2,3) by simp_all
    then show ?thesis using readdir_blocks_collect [OF ok rd _ 1(2) _ 1(5), of "f_version f \<noteq> d_version d" n acc] 1(1,3,4)
      by (simp add: run)
  next
    case 2
    then show ?thesis by (simp add: run at_pos_def)
  qed
qed

text \<open>What \<open>tux_dir_is_empty\<close> accepts: the entries \<open>.\<close> of the directory itself and \<open>..\<close>.\<close>

definition dots :: "u64 \<Rightarrow> u8 list \<times> u64 \<Rightarrow> bool" where
  "dots self x \<longleftrightarrow> fst x = [46] \<and> snd x = self \<or> fst x = [46, 46]"

lemma list_nth_1: "length xs = Suc 0 \<Longrightarrow> xs = [xs ! 0]"
  by (cases xs) simp_all

lemma list_nth_2: "length xs = 2 \<Longrightarrow> xs = [xs ! 0, xs ! 1]"
  by (cases xs; cases "tl xs") (auto simp: numeral_2_eq_2)

lemma not_dots_spec:
  assumes "block_is bs es blk" and "es = pre @ e # post" and live: "de_name e \<noteq> []"
  shows "not_dots blk (length (ents_bytes pre)) self \<longleftrightarrow> \<not> dots self (de_name e, de_inum e)"
proof -
  note f = entry_fields [OF assms(1,2)]
  have at: "blk ! (length (ents_bytes pre) + TUX_DIR_HEAD + i) = de_name e ! i" if "i < length (de_name e)" for i
  proof -
    have "de_name e ! i = ent_name blk (length (ents_bytes pre)) (length (de_name e)) ! i" by (simp only: f(6))
    also have "\<dots> = blk ! (length (ents_bytes pre) + TUX_DIR_HEAD + i)"
      unfolding ent_name_def using that f(9) by (simp add: de_rec_def TUX_DIR_HEAD_def)
    finally show ?thesis by simp
  qed
  have l: "0 < length (de_name e)" using live by simp
  consider "length (de_name e) = Suc 0" | "length (de_name e) = 2" | "2 < length (de_name e)" using l by linarith
  then show ?thesis
  proof cases
    case 1
    then show ?thesis using at [of 0] list_nth_1 [OF 1] by (auto simp: not_dots_def dots_def f(1,4))
  next
    case 2
    then show ?thesis using at [of 0] at [of 1] list_nth_2 [OF 2] by (auto simp: not_dots_def dots_def f(1,4))
  next
    case 3
    then show ?thesis by (auto simp: not_dots_def dots_def f(4))
  qed
qed

lemma empty_scan_spec:
  assumes "block_is bs es blk" and "es = pre @ post"
  shows "empty_scan blk self (length (ents_bytes pre)) \<noteq> Scan_zero \<and>
    (empty_scan blk self (length (ents_bytes pre)) = Scan_none \<longleftrightarrow> (\<forall>x \<in> set (binds post). dots self x))"
  using assms(2)
proof (induction post arbitrary: pre)
  case Nil
  then have "length (ents_bytes pre) = length blk" using assms(1) by (simp add: block_is_def)
  then show ?case using rec_len_bounds(4) [of 1] by (simp add: empty_scan.simps)
next
  case (Cons e post)
  note f = entry_fields [OF assms(1) Cons.prems]
  have es: "es = (pre @ [e]) @ post" using Cons.prems by simp
  have "empty_scan blk self (length (ents_bytes pre)) =
      (if de_name e \<noteq> [] \<and> \<not> dots self (de_name e, de_inum e) then Scan_at (length (ents_bytes pre))
       else empty_scan blk self (length (ents_bytes (pre @ [e]))))"
    using at_limit [OF assms(1) Cons.prems] f(2,7,8) not_dots_spec [OF assms(1) Cons.prems, of self]
    by (cases "de_name e = []"; subst empty_scan.simps; simp)
  then show ?case using Cons.IH [OF es] by simp
qed

lemma empty_blocks_spec:
  assumes "\<forall>b \<in> set bl. \<not> d_readerr d b \<and> block_is (blksize d) (ess ! b) (d_page d b)"
  shows "empty_blocks d bl = (if \<forall>b \<in> set bl. \<forall>x \<in> set (binds (ess ! b)). dots (d_inum d) x then None else Some ENOTEMPTY)"
  using assms
proof (induction bl)
  case (Cons b bl)
  have "block_is (blksize d) (ess ! b) (d_page d b)" using Cons.prems by simp
  from empty_scan_spec [OF this, of "[]" "ess ! b" "d_inum d"]
  have "empty_scan (d_page d b) (d_inum d) 0 \<noteq> Scan_zero"
    "empty_scan (d_page d b) (d_inum d) 0 = Scan_none \<longleftrightarrow> (\<forall>x \<in> set (binds (ess ! b)). dots (d_inum d) x)" by simp_all
  with Cons show ?case by (cases "empty_scan (d_page d b) (d_inum d) 0") auto
qed simp

lemma set_binds_concat: "set (binds (concat ess)) = (\<Union>b < length ess. set (binds (ess ! b)))"
proof -
  have "set (binds (concat ess)) = (\<Union>es \<in> set ess. set (binds es))" by (induction ess) auto
  then show ?thesis by (simp add: set_conv_nth) blast
qed

section \<open>Properties\<close>

text \<open>C34: looking up a name returns the entry of that name with its inode number, or \<open>ENOENT\<close> exactly when the
  directory has no such entry.\<close>

theorem find_entry_exact:
  assumes "dir_is d sz m" and "\<forall>b. \<not> d_readerr d b" and "name \<noteq> []"
  shows "case m name of
      None \<Rightarrow> tux_find_entry d name sz = Inl ENOENT
    | Some inum \<Rightarrow> \<exists>b entry. tux_find_entry d name sz = Inr (b, entry) \<and>
        tux_match (d_page d b) entry name \<and> ent_inum (d_page d b) entry = inum"
proof -
  from assms(1) obtain ess where ok: "dir_ok d sz ess" and m: "m = dir_map ess" by (auto simp: dir_is_def)
  show ?thesis
  proof (cases "m name")
    case None
    then show ?thesis using find_entry_spec [OF ok assms(2,3)] m by simp
  next
    case (Some inum)
    then obtain b p e q where at: "tux_find_entry d name sz = Inr (b, length (ents_bytes p))" "b < length ess"
      "ess ! b = p @ e # q" "de_name e = name" "de_inum e = inum"
      using find_entry_spec [OF ok assms(2,3)] m by auto
    have blk: "block_is (blksize d) (ess ! b) (d_page d b)" using ok at(2) by (simp add: dir_ok_def)
    have "tux_match (d_page d b) (length (ents_bytes p)) name"
      using entry_fields(4,6,8) [OF blk at(3)] at(4) assms(3) by (auto simp: tux_match_def)
    then show ?thesis using entry_fields(1) [OF blk at(3)] at(1,5) Some by auto
  qed
qed

text \<open>A directory with the entry \<open>a\<close>, made from an empty one.\<close>

definition demo_dir :: dir where
  "demo_dir = \<lparr>d_bits = 9, d_page = (\<lambda>_. replicate 512 0), d_dirty = (\<lambda>_. False), d_readerr = (\<lambda>_. False),
     d_dirtyerr = (\<lambda>_. None), d_size = 0, d_inum = 7, d_mtime = spectime 0, d_ctime = spectime 0, d_version = 0\<rparr>"

lemma demo_dir_empty: "dir_ok demo_dir 0 []"
  by (simp add: dir_ok_def demo_dir_def)

lemma demo_dir_one:
  obtains pos d where "tux_create_entry demo_dir [97] 20 0x8000 0 = Some (Inr pos, 512, d)" "dir_is d 512 [[97] \<mapsto> 20]"
    "\<forall>b. \<not> d_readerr d b" "d_inum d = 7" "\<forall>b. d_dirtyerr d b = None"
proof -
  have m: "dir_map [] = (Map.empty :: u8 list \<Rightarrow> u64 option)" by (simp add: dir_map_def)
  have mode: "unat (drop_bit 12 (0x8000 :: u16)) < 15" by simp
  from create_entry_spec [OF demo_dir_empty, of "[97]" "0x8000" 20] obtain r sz' d where
    run: "tux_create_entry demo_dir [97] 20 0x8000 0 = Some (r, sz', d)" and
    post: "case r of Inl e \<Rightarrow> sz' = 0 \<and> d = demo_dir \<and> (e = EIO \<and> (\<exists>b. d_readerr demo_dir b) \<or> (\<exists>b. d_dirtyerr demo_dir b = Some e))
       | Inr pos \<Rightarrow> created demo_dir 0 [] [97] 20 pos sz' d" using mode by (auto simp: m)
  then obtain pos where r: "r = Inr pos" and c: "created demo_dir 0 [] [97] 20 pos sz' d"
    by (cases r) (auto simp: demo_dir_def)
  from c obtain ess b blk where e: "dir_ok d sz' ess" "dir_map ess = [[97] \<mapsto> 20]" "sz' = 0 \<or> sz' = blksize demo_dir"
    "d = with_page b blk demo_dir" "b < length ess" by (auto simp: created_def m)
  have "sz' \<noteq> 0" using e(1,5) by (auto simp: dir_ok_def)
  then have "sz' = 512" using e(3) by (simp add: demo_dir_def)
  then show ?thesis using e(1,2) run r by (intro that [of pos d]) (auto simp: dir_is_def e(4) with_page_def set_page_def demo_dir_def)
qed

lemma find_entry_exact_witness:
  "\<exists>d b entry. tux_find_entry d [97] 512 = Inr (b, entry) \<and> ent_inum (d_page d b) entry = 20 \<and>
     tux_find_entry d [98] 512 = Inl ENOENT"
proof -
  obtain d where d: "dir_is d 512 [[97] \<mapsto> 20]" "\<forall>b. \<not> d_readerr d b" by (rule demo_dir_one)
  have "tux_find_entry d [98] 512 = Inl ENOENT" using find_entry_exact [OF d, of "[98]"] by simp
  moreover have "\<exists>b entry. tux_find_entry d [97] 512 = Inr (b, entry) \<and> ent_inum (d_page d b) entry = 20"
    using find_entry_exact [OF d, of "[97]"] by auto
  ultimately show ?thesis by blast
qed

text \<open>C33: creating an entry adds exactly the binding of the name and marks one block dirty; the
  directory grows by one block at most. The failures are an unreadable block and the error of \<open>blockdirty\<close>, and
  they change nothing.\<close>

theorem create_entry_exact:
  assumes "dir_is d sz m" and "name \<noteq> []" and "length name \<le> 255" and "unat (drop_bit 12 mode) < 15" and "m name = None"
  shows "\<exists>r sz' d'. tux_create_entry d name inum mode sz = Some (r, sz', d') \<and>
    (case r of
       Inl e \<Rightarrow> sz' = sz \<and> d' = d \<and> (e = EIO \<and> (\<exists>b. d_readerr d b) \<or> (\<exists>b. d_dirtyerr d b = Some e))
     | Inr pos \<Rightarrow> dir_is d' sz' (m(name \<mapsto> inum)) \<and> (sz' = sz \<or> sz' = sz + blksize d) \<and>
         d_dirty d' = (d_dirty d)(pos div blksize d := True) \<and>
         tux_match (d_page d' (pos div blksize d)) (pos mod blksize d) name)"
proof -
  from assms(1) obtain ess where ok: "dir_ok d sz ess" and m: "m = dir_map ess" by (auto simp: dir_is_def)
  have "dir_map ess name = None" using assms(5) m by simp
  from create_entry_spec [OF ok assms(2-4) this, of inum] obtain r sz' d' where
    run: "tux_create_entry d name inum mode sz = Some (r, sz', d')" and
    post: "case r of Inl e \<Rightarrow> sz' = sz \<and> d' = d \<and> (e = EIO \<and> (\<exists>b. d_readerr d b) \<or> (\<exists>b. d_dirtyerr d b = Some e))
       | Inr pos \<Rightarrow> created d sz ess name inum pos sz' d'" by blast
  show ?thesis
  proof (cases r)
    case (Inl e)
    then show ?thesis using run post by simp
  next
    case (Inr pos)
    with post obtain ess' b p e q blk where c: "dir_ok d' sz' ess'" "dir_map ess' = (dir_map ess)(name \<mapsto> inum)"
      "sz' = sz \<or> sz' = sz + blksize d" "d' = with_page b blk d" "b < length ess'" "ess' ! b = p @ e # q" "de_name e = name"
      "pos = b * blksize d + length (ents_bytes p)" by (auto simp: created_def)
    have bs: "blksize d' = blksize d" by (simp add: c(4) with_page_def set_page_def)
    have blk: "block_is (blksize d) (ess' ! b) (d_page d' b)" using c(1,5) bs by (simp add: dir_ok_def)
    note f = entry_fields [OF blk c(6)]
    have "dent_ok e" using blk c(6) by (simp add: block_is_def)
    then have "length (ents_bytes p) < blksize d" using f(9) dent_rec [of e] blk by (auto simp: block_is_def)
    then have pos: "pos div blksize d = b" "pos mod blksize d = length (ents_bytes p)" using c(8) by simp_all
    have "tux_match (d_page d' b) (length (ents_bytes p)) name" using f(4,6,8) c(7) assms(2) by (auto simp: tux_match_def)
    moreover have "d_dirty d' = (d_dirty d)(b := True)" by (simp add: c(4) with_page_def set_page_def)
    ultimately show ?thesis using run Inr c(1-3) m pos by (auto simp: dir_is_def)
  qed
qed

lemma create_entry_exact_witness:
  "\<exists>r sz' d'. tux_create_entry demo_dir [97] 20 0x8000 0 = Some (r, sz', d') \<and> r \<noteq> Inl EIO"
proof -
  have "dir_is demo_dir 0 Map.empty" using demo_dir_empty by (auto simp: dir_is_def dir_map_def intro!: exI [of _ "[]"])
  moreover have "unat (drop_bit 12 (0x8000 :: u16)) < 15" by simp
  ultimately show ?thesis using create_entry_exact [of demo_dir 0 Map.empty "[97]" "0x8000" 20] by (auto simp: demo_dir_def)
qed

text \<open>C35: deleting the entry that a lookup has found removes exactly the binding of the name, whatever the
  position of the entry in its block; the directory keeps its size. The only failure is the error of \<open>blockdirty\<close>,
  which changes nothing.\<close>

theorem delete_entry_exact:
  assumes "dir_is d sz m" and "\<forall>b. \<not> d_readerr d b" and "name \<noteq> []" and "tux_find_entry d name sz = Inr at"
  shows "\<exists>er d'. tux_delete_entry d at = Some (er, d') \<and>
    (case er of None \<Rightarrow> dir_is d' sz (m(name := None)) \<and> d_dirty d' = (d_dirty d)(fst at := True)
     | Some er \<Rightarrow> d' = d \<and> d_dirtyerr d (fst at) = Some er)"
proof -
  from assms(1) obtain ess where ok: "dir_ok d sz ess" and m: "m = dir_map ess" by (auto simp: dir_is_def)
  from find_entry_spec [OF ok assms(2,3)] assms(4) obtain b p e q where at: "at = (b, length (ents_bytes p))" "b < length ess"
    "ess ! b = p @ e # q" "de_name e = name" by (auto split: option.splits)
  have "de_name e \<noteq> []" using at(4) assms(3) by simp
  from delete_entry_spec [OF ok at(2,3) this] obtain er d' where run: "tux_delete_entry d at = Some (er, d')" and
    post: "case er of Some er \<Rightarrow> d' = d \<and> d_dirtyerr d b = Some er
     | None \<Rightarrow> \<exists>ess' blk. d' = with_page b blk d \<and> dir_ok d' sz ess' \<and> dir_map ess' = (dir_map ess)(de_name e := None)"
    unfolding at(1) by blast
  show ?thesis
  proof (cases er)
    case None
    then show ?thesis using run post m at(1,4) by (auto simp: dir_is_def with_page_def set_page_def)
  next
    case (Some er')
    then show ?thesis using run post at(1) by simp
  qed
qed

lemma delete_entry_exact_witness:
  "\<exists>d at d'. tux_find_entry d [97] 512 = Inr at \<and> tux_delete_entry d at = Some (None, d') \<and> dir_is d' 512 Map.empty"
proof -
  obtain d where d: "dir_is d 512 [[97] \<mapsto> 20]" "\<forall>b. \<not> d_readerr d b" "\<forall>b. d_dirtyerr d b = None" by (rule demo_dir_one)
  from d(1) obtain ess where "dir_ok d 512 ess" "dir_map ess [97] = Some 20" by (auto simp: dir_is_def) (metis fun_upd_same)
  from find_entry_spec [OF this(1) d(2), of "[97]"] this(2) obtain at where at: "tux_find_entry d [97] 512 = Inr at" by auto
  from delete_entry_exact [OF d(1,2) _ at] obtain er d' where "tux_delete_entry d at = Some (er, d')"
    "case er of None \<Rightarrow> dir_is d' 512 ([[97] \<mapsto> 20]([97] := None)) \<and> d_dirty d' = (d_dirty d)(fst at := True)
     | Some er \<Rightarrow> d' = d \<and> d_dirtyerr d (fst at) = Some er" by auto
  then have "tux_find_entry d [97] 512 = Inr at \<and> tux_delete_entry d at = Some (None, d') \<and> dir_is d' 512 Map.empty"
    using d(3) at by (cases er) simp_all
  then show ?thesis by (intro exI)
qed

text \<open>C36: the directory can be listed in portions: from the start, with a caller that takes \<open>k\<close> entries, and then from
  the position that was left, with a caller that takes \<open>k'\<close> entries, each entry of the directory is given exactly
  once and in the same order, with its inode number.\<close>

theorem readdir_exact:
  assumes "dir_is d (d_size d) m" and "\<forall>b. \<not> d_readerr d b"
  shows "\<exists>l f f' n n'. distinct (map fst l) \<and> map_of l = m \<and>
    tux_readdir collect d \<lparr>f_pos = 0, f_version = v\<rparr> (k, []) = Some (None, f, n, take k l) \<and>
    tux_readdir collect d f (k', take k l) = Some (None, f', n', take (k + k') l)"
proof -
  from assms(1) obtain ess where ok: "dir_ok d (d_size d) ess" and m: "m = dir_map ess" by (auto simp: dir_is_def)
  let ?l = "binds (concat ess)"
  have bs: "0 < blksize d" by simp
  have "at_pos (blksize d) ess (f_pos \<lparr>f_pos = 0, f_version = v\<rparr>) ?l"
  proof (cases ess)
    case (Cons es rest)
    then show ?thesis unfolding at_pos_def by (intro disjI1 exI [of _ 0] exI [of _ "[]"] exI [of _ es]) simp
  qed (simp add: at_pos_def)
  from readdir_collect [OF ok assms(2) this, of k "[]"] obtain f where
    1: "tux_readdir collect d \<lparr>f_pos = 0, f_version = v\<rparr> (k, []) = Some (None, f, k - length ?l, take k ?l)"
    and at: "at_pos (blksize d) ess (f_pos f) (drop k ?l)" by auto
  from readdir_collect [OF ok assms(2) at, of k' "take k ?l"] obtain f' where
    2: "tux_readdir collect d f (k', take k ?l) = Some (None, f', k' - length (drop k ?l), take k ?l @ take k' (drop k ?l))" by auto
  have "take k ?l @ take k' (drop k ?l) = take (k + k') ?l" by (simp add: take_add)
  then show ?thesis using 1 2 m ok by (intro exI [of _ ?l]) (auto simp: dir_map_def dir_ok_def)
qed

lemma readdir_exact_witness:
  "\<exists>d l f f' n n'. dir_is d 512 [[97] \<mapsto> 20] \<and> map_of l = [[97 :: u8] \<mapsto> (20 :: u64)] \<and>
    tux_readdir collect d \<lparr>f_pos = 0, f_version = 0\<rparr> (0, []) = Some (None, f, n, []) \<and>
    tux_readdir collect d f (1, []) = Some (None, f', n', take 1 l)"
proof -
  obtain d where d: "dir_is d 512 [[97] \<mapsto> 20]" "\<forall>b. \<not> d_readerr d b" by (rule demo_dir_one)
  let ?d = "d\<lparr>d_size := 512\<rparr>"
  have "dir_is ?d (d_size ?d) [[97] \<mapsto> 20]" "\<forall>b. \<not> d_readerr ?d b" using d by (simp_all add: dir_is_def dir_ok_def)
  from readdir_exact [OF this, of 0 0 1] this(1) show ?thesis by (intro exI [of _ ?d]) auto
qed

text \<open>C37: a directory counts as empty exactly when it has no entries but \<open>.\<close>, which then is its own, and \<open>..\<close>.\<close>

theorem dir_is_empty_exact:
  assumes "dir_is d (d_size d) m" and "\<forall>b. \<not> d_readerr d b"
  shows "tux_dir_is_empty d =
    (if \<forall>name inum. m name = Some inum \<longrightarrow> name = [46] \<and> inum = d_inum d \<or> name = [46, 46] then None else Some ENOTEMPTY)"
proof -
  from assms(1) obtain ess where ok: "dir_ok d (d_size d) ess" and m: "m = dir_map ess" by (auto simp: dir_is_def)
  have "\<forall>b \<in> set [0..<length ess]. \<not> d_readerr d b \<and> block_is (blksize d) (ess ! b) (d_page d b)"
    using ok assms(2) by (simp add: dir_ok_def)
  from empty_blocks_spec [OF this] have e: "tux_dir_is_empty d =
      (if \<forall>x \<in> set (binds (concat ess)). dots (d_inum d) x then None else Some ENOTEMPTY)"
    unfolding tux_dir_is_empty_def dir_ok_blocks [OF ok] set_binds_concat by auto
  have "distinct (map fst (binds (concat ess)))" using ok by (simp add: dir_ok_def)
  then have "m name = Some inum \<longleftrightarrow> (name, inum) \<in> set (binds (concat ess))" for name inum by (simp add: m dir_map_def)
  then have "(\<forall>x \<in> set (binds (concat ess)). dots (d_inum d) x) \<longleftrightarrow>
      (\<forall>name inum. m name = Some inum \<longrightarrow> name = [46] \<and> inum = d_inum d \<or> name = [46, 46])"
    by (simp only: split_paired_All Ball_def dots_def fst_conv snd_conv)
  then show ?thesis by (simp only: e)
qed

lemma dir_is_empty_exact_witness: "tux_dir_is_empty demo_dir = None"
proof -
  have "dir_is demo_dir (d_size demo_dir) Map.empty" "\<forall>b. \<not> d_readerr demo_dir b"
    using demo_dir_empty by (auto simp: dir_is_def dir_map_def demo_dir_def intro!: exI [of _ "[]"])
  from dir_is_empty_exact [OF this] show ?thesis by simp
qed

text \<open>The check of a stored position scans from the position itself instead of the start of the block, so that it
  finds nothing.\<close>

definition seen_by :: "err \<times> dfile \<times> 's \<Rightarrow> err \<times> nat \<times> 's" where
  "seen_by r = (case r of (e, f, s) \<Rightarrow> (e, f_pos f, s))"

lemma readdir_blocks_pos: "f_pos f = f_pos g \<Longrightarrow>
    seen_by (readdir_blocks filldir d False bl offset f s) = seen_by (readdir_blocks filldir d False bl offset g s)"
proof (induction bl arbitrary: offset f g s)
  case (Cons b bl)
  obtain r pos s' where r: "readdir_block filldir (d_bits d) b (d_page d b) offset (f_pos g) s = (r, pos, s')"
    by (metis prod.collapse)
  show ?case using Cons.IH [of "f\<lparr>f_pos := pos\<rparr>" "g\<lparr>f_pos := pos\<rparr>" 0 s'] Cons.prems
    by (cases r) (simp_all add: r seen_by_def)
qed (simp add: seen_by_def)

lemma readdir_blocks_unchecked:
  assumes "offset < blksize d" and "bl \<noteq> [] \<Longrightarrow> f_pos f = hd bl * blksize d + offset"
  shows "seen_by (readdir_blocks filldir d rv bl offset f s) = seen_by (readdir_blocks filldir d False bl offset f s)"
proof (cases "bl = [] \<or> \<not> rv")
  case False
  then obtain b bs where bl: "bl = b # bs" by (cases bl) auto
  obtain f1 where f1: "revalidate_pos d b offset f = (offset, f1)" "f_pos f1 = f_pos f"
    using revalidate_pos_same [OF assms(1), of f b] assms(2) by (metis bl list.distinct(1) list.sel(1) prod.collapse)
  have "seen_by (readdir_blocks filldir d rv bl offset f s) = seen_by (readdir_blocks filldir d False bl offset f1 s)"
    using False f1(2) by (simp add: bl f1(1)) (simp add: seen_by_def)
  then show ?thesis by (simp add: readdir_blocks_pos [OF f1(2)])
qed auto

text \<open>The version of the directory that is kept with a position has no effect on reading. A stored position
  is used as it is, also after the entries around it have been removed and replaced, when it may lie inside of an entry.\<close>

theorem readdir_position_unchecked:
  "map_option seen_by (tux_readdir filldir d f s) = map_option seen_by (tux_readdir filldir d (f\<lparr>f_version := v\<rparr>) s)"
proof -
  let ?bl = "[f_pos f div blksize d..<d_size d div blksize d]" and ?off = "f_pos f mod blksize d"
  have off: "?off < blksize d" by simp
  have "hd ?bl = f_pos f div blksize d" if "?bl \<noteq> []" using that by simp
  then have pos: "?bl \<noteq> [] \<Longrightarrow> f_pos f = hd ?bl * blksize d + ?off" using div_mult_mod_eq by metis
  have "seen_by (readdir_blocks filldir d rv ?bl ?off f s) = seen_by (readdir_blocks filldir d rv' ?bl ?off (f\<lparr>f_version := v\<rparr>) s)" for rv rv'
    using readdir_blocks_unchecked [OF off pos, of filldir rv s] readdir_blocks_unchecked [of ?off d ?bl "f\<lparr>f_version := v\<rparr>" filldir rv' s] off pos
      readdir_blocks_pos [of f "f\<lparr>f_version := v\<rparr>" filldir d ?bl ?off s] by simp
  then show ?thesis by (simp add: tux_readdir_def and_low [unfolded One_nat_def])
qed

end
