(* ===== verification/Btree.thy ===== *)
theory Btree
  imports Bnode Log
begin

text \<open>
  Btrees over a volume, \<open>src/kernel/btree.c\<close>: the cursor, probing, walking from leaf to leaf and
  traversal of a key range. The nodes are those of theory \<open>Bnode\<close>; the leaves are of any type, with the
  operations of \<open>struct btree_ops\<close>. \<open>None\<close> is a failed assertion, or the use of a leaf as an index node.
  A cursor is the list of its levels with the innermost one first (\<open>cursor->level\<close> is its length less one),
  each the block and the index of the entry \<open>next\<close> (0 for the leaf, which has none).
\<close>

section \<open>State\<close>

definition TUXKEY_LIMIT :: u64 where "TUXKEY_LIMIT = 2 ^ 48"

datatype 'l vblock = Node bnode | Leaf 'l

text \<open>The volume as the tree sees it: what each block holds in its buffer or on the disk, the blocks that cannot be
  read and those that get no buffer, the buffers that are dirty for this delta (leaves) and for this unify cycle (index nodes), and the
  effects on the superblock: the records that are logged and the blocks that are handed to \<open>defer_bfree\<close>.\<close>

record 'l tree =
  t_root :: u64
  t_depth :: nat
  t_vol :: "u64 \<Rightarrow> 'l vblock"
  t_readerr :: "u64 \<Rightarrow> bool"
  t_nomem :: "u64 \<Rightarrow> bool"
  t_epn :: nat
  t_dirty :: "u64 \<Rightarrow> bool"
  t_unify :: "u64 \<Rightarrow> bool"
  t_log :: "log_rec list"
  t_defree :: "u64 list"
  t_deunify :: "u64 list"

type_synonym cursor = "(u64 \<times> nat) list"

definition has_root :: "'l tree \<Rightarrow> bool" where
  "has_root t = (t_root t \<noteq> 0 \<or> t_depth t \<noteq> 0)"

definition node_of :: "'l tree \<Rightarrow> u64 \<Rightarrow> bnode option" where
  "node_of t b = (case t_vol t b of Node n \<Rightarrow> Some n | Leaf _ \<Rightarrow> None)"

definition leaf_of :: "'l tree \<Rightarrow> u64 \<Rightarrow> 'l option" where
  "leaf_of t b = (case t_vol t b of Node _ \<Rightarrow> None | Leaf l \<Rightarrow> Some l)"

section \<open>The cursor\<close>

text \<open>\<open>cursor_check\<close> walks from the root down.\<close>

fun check_from :: "'l tree \<Rightarrow> u64 \<Rightarrow> u64 \<Rightarrow> cursor \<Rightarrow> bool" where
  "check_from t blk key [] = True"
| "check_from t blk key [(b, i)] = (b = blk)"
| "check_from t blk key ((b, i) # p) =
     (b = blk \<and>
      (case node_of t b of
         None \<Rightarrow> False
       | Some n \<Rightarrow> 1 \<le> i \<and> i - 1 < bcount n \<and>
           (let e = entries n ! (i - 1) in
              (if i - 1 = 0 then ekey e = key else key < ekey e) \<and> check_from t (eblock e) (ekey e) p)))"

definition cursor_check :: "'l tree \<Rightarrow> cursor \<Rightarrow> bool" where
  "cursor_check t p = check_from t (t_root t) 0 (rev p)"

definition cursor_leafbuf :: "'l tree \<Rightarrow> cursor \<Rightarrow> u64 option" where
  "cursor_leafbuf t p = (if length p = Suc (t_depth t) then Some (fst (hd p)) else None)"

text \<open>The climb of \<open>cursor_next_key\<close> and \<open>cursor_level_next_key\<close>.\<close>

fun next_key :: "'l tree \<Rightarrow> cursor \<Rightarrow> u64 option" where
  "next_key t [] = Some TUXKEY_LIMIT"
| "next_key t ((b, i) # p) =
     (case node_of t b of
        None \<Rightarrow> None
      | Some n \<Rightarrow> if i = bcount n then next_key t p
                  else if i < length (entries n) then Some (ekey (entries n ! i)) else None)"

definition cursor_next_key :: "'l tree \<Rightarrow> cursor \<Rightarrow> u64 option" where
  "cursor_next_key t p = (if length p = Suc (t_depth t) then next_key t (tl p) else None)"

definition this_key :: "'l tree \<Rightarrow> u64 \<times> nat \<Rightarrow> u64 option" where
  "this_key t l =
     (case node_of t (fst l) of
        None \<Rightarrow> None
      | Some n \<Rightarrow> if 1 \<le> snd l \<and> snd l - 1 < length (entries n) then Some (ekey (entries n ! (snd l - 1))) else None)"

definition cursor_this_key :: "'l tree \<Rightarrow> cursor \<Rightarrow> u64 option" where
  "cursor_this_key t p = (case p of _ # l # _ \<Rightarrow> if length p = Suc (t_depth t) then this_key t l else None | _ \<Rightarrow> None)"

definition cursor_read_root :: "'l tree \<Rightarrow> ((errno + unit) \<times> cursor) option" where
  "cursor_read_root t =
     (if \<not> has_root t then None
      else if t_readerr t (t_root t) then Some (Inl EIO, [])
      else case node_of t (t_root t) of
             None \<Rightarrow> None
           | Some n \<Rightarrow> if bnode_sniff n then Some (Inr (), [(t_root t, 0)]) else None)"

text \<open>Down to the child of the entry \<open>next\<close>; \<open>Inr True\<close> when that is an index node, \<open>Inr False\<close> when it is a leaf.\<close>

definition cursor_advance_down :: "('l \<Rightarrow> bool) \<Rightarrow> 'l tree \<Rightarrow> cursor \<Rightarrow> ((errno + bool) \<times> cursor) option" where
  "cursor_advance_down leaf_sniff t p =
     (case p of
        [] \<Rightarrow> None
      | (b, i) # outer \<Rightarrow>
          (case node_of t b of
             None \<Rightarrow> None
           | Some n \<Rightarrow>
               if \<not> length p \<le> t_depth t \<or> \<not> i < length (entries n) then None
               else let child = eblock (entries n ! i); p' = (child, 0) # (b, i + 1) # outer; inner = (length p < t_depth t) in
                 if t_readerr t child then Some (Inl EIO, p)
                 else if (case t_vol t child of Node m \<Rightarrow> inner \<and> bnode_sniff m | Leaf l \<Rightarrow> \<not> inner \<and> leaf_sniff l) \<and> cursor_check t p'
                 then Some (Inr inner, p') else None))"

lemma advance_down_length: "cursor_advance_down sniff t p = Some (Inr r, p') \<Longrightarrow> length p' = Suc (length p) \<and> length p \<le> t_depth t"
  by (auto simp: cursor_advance_down_def Let_def split: list.splits option.splits if_splits)

function cursor_descend :: "('l \<Rightarrow> bool) \<Rightarrow> 'l tree \<Rightarrow> cursor \<Rightarrow> ((errno + unit) \<times> cursor) option" where
  "cursor_descend leaf_sniff t p =
     (case cursor_advance_down leaf_sniff t p of
        None \<Rightarrow> None
      | Some (Inl e, p) \<Rightarrow> Some (Inl e, p)
      | Some (Inr True, p) \<Rightarrow> cursor_descend leaf_sniff t p
      | Some (Inr False, p) \<Rightarrow> Some (Inr (), p))"
  by pat_completeness auto
termination
  by (relation "measure (\<lambda>(leaf_sniff, t, p). Suc (t_depth t) - length p)") (auto dest: advance_down_length)

text \<open>Up to the first level with an entry left.\<close>

fun cursor_climb :: "'l tree \<Rightarrow> cursor \<Rightarrow> cursor option" where
  "cursor_climb t [] = Some []"
| "cursor_climb t ((b, i) # p) =
     (if \<not> length ((b, i) # p) \<le> t_depth t then None
      else case node_of t b of
             None \<Rightarrow> None
           | Some n \<Rightarrow> if i = bcount n then cursor_climb t p else Some ((b, i) # p))"

definition cursor_advance :: "('l \<Rightarrow> bool) \<Rightarrow> 'l tree \<Rightarrow> cursor \<Rightarrow> ((errno + bool) \<times> cursor) option" where
  "cursor_advance leaf_sniff t p =
     (case p of
        [] \<Rightarrow> None
      | _ # outer \<Rightarrow>
          (case cursor_climb t outer of
             None \<Rightarrow> None
           | Some [] \<Rightarrow> Some (Inr False, [])
           | Some up \<Rightarrow> map_option (\<lambda>(r, p). (map_sum id (\<lambda>_. True) r, p)) (cursor_descend leaf_sniff t up)))"

function probe_down :: "('l \<Rightarrow> bool) \<Rightarrow> 'l tree \<Rightarrow> u64 \<Rightarrow> cursor \<Rightarrow> ((errno + unit) \<times> cursor) option" where
  "probe_down leaf_sniff t key p =
     (case p of
        [] \<Rightarrow> None
      | (b, i) # outer \<Rightarrow>
          (case Option.bind (node_of t b) (\<lambda>n. bnode_lookup n key) of
             None \<Rightarrow> None
           | Some i \<Rightarrow>
               (case cursor_advance_down leaf_sniff t ((b, i) # outer) of
                  None \<Rightarrow> None
                | Some (Inl e, _) \<Rightarrow> Some (Inl e, [])
                | Some (Inr True, p) \<Rightarrow> probe_down leaf_sniff t key p
                | Some (Inr False, p) \<Rightarrow> Some (Inr (), p))))"
  by pat_completeness auto
termination
  by (relation "measure (\<lambda>(leaf_sniff, t, key, p). Suc (t_depth t) - length p)") (auto dest!: advance_down_length)

definition btree_probe :: "('l \<Rightarrow> bool) \<Rightarrow> 'l tree \<Rightarrow> u64 \<Rightarrow> ((errno + unit) \<times> cursor) option" where
  "btree_probe leaf_sniff t key =
     (case cursor_read_root t of
        None \<Rightarrow> None
      | Some (Inl e, p) \<Rightarrow> Some (Inl e, p)
      | Some (Inr _, p) \<Rightarrow> probe_down leaf_sniff t key p)"

declare cursor_descend.simps [simp del] probe_down.simps [simp del]

text \<open>The traversal of the range of \<open>len\<close> keys from \<open>key\<close> on by the caller's function; \<open>None\<close> would also be a
  traversal that never ends.\<close>

record 'd walk =
  w_ret :: "errno + int"
  w_more :: bool
  w_path :: cursor
  w_key :: u64
  w_len :: u64
  w_data :: 'd

definition walk_end :: "errno + int \<Rightarrow> cursor \<Rightarrow> 'd \<Rightarrow> 'd walk" where
  "walk_end ret p d = \<lparr>w_ret = ret, w_more = False, w_path = p, w_key = 0, w_len = 0, w_data = d\<rparr>"

definition traverse_step ::
  "('l \<Rightarrow> bool) \<Rightarrow> 'l tree \<Rightarrow> (u64 \<Rightarrow> u64 \<Rightarrow> 'l \<Rightarrow> u64 \<Rightarrow> u64 \<Rightarrow> 'd \<Rightarrow> int \<times> 'd) \<Rightarrow> cursor \<Rightarrow> u64 \<Rightarrow> u64 \<Rightarrow> 'd \<Rightarrow> 'd walk option" where
  "traverse_step leaf_sniff t func p key len d =
     Option.bind (cursor_this_key t p) (\<lambda>bottom.
     Option.bind (cursor_next_key t p) (\<lambda>limit.
     Option.bind (Option.bind (cursor_leafbuf t p) (leaf_of t)) (\<lambda>leaf.
       if \<not> leaf_sniff leaf then None
       else let len' = (if key < bottom then len - min len (bottom - key) else len);
                key' = (if key < bottom then bottom else key)
            in if key < bottom \<and> len' = 0 then Some (walk_end (Inr 0) p d)
               else let (ret, d) = func bottom limit leaf key' len' d in
                 if ret \<noteq> 0 then Some (walk_end (Inr ret) p d)
                 else if key' + len' \<le> limit then Some (walk_end (Inr 0) p d)
                 else Option.bind (cursor_advance leaf_sniff t p) (\<lambda>(r, p).
                   Some (case r of
                           Inl e \<Rightarrow> walk_end (Inl e) p d
                         | Inr False \<Rightarrow> walk_end (Inr 0) p d
                         | Inr True \<Rightarrow> \<lparr>w_ret = Inr 0, w_more = True, w_path = p, w_key = key', w_len = len', w_data = d\<rparr>)))))"

partial_function (option) btree_traverse ::
  "('l \<Rightarrow> bool) \<Rightarrow> 'l tree \<Rightarrow> (u64 \<Rightarrow> u64 \<Rightarrow> 'l \<Rightarrow> u64 \<Rightarrow> u64 \<Rightarrow> 'd \<Rightarrow> int \<times> 'd) \<Rightarrow> cursor \<Rightarrow> u64 \<Rightarrow> u64 \<Rightarrow> 'd \<Rightarrow> 'd walk option" where
  "btree_traverse leaf_sniff t func p key len d =
     Option.bind (traverse_step leaf_sniff t func p key len d) (\<lambda>w.
       if w_more w then btree_traverse leaf_sniff t func (w_path w) (w_key w) (w_len w) (w_data w) else Some w)"

definition btree_read ::
  "('l \<Rightarrow> bool) \<Rightarrow> (u64 \<Rightarrow> u64 \<Rightarrow> 'l \<Rightarrow> u64 \<Rightarrow> 'r) \<Rightarrow> 'l tree \<Rightarrow> cursor \<Rightarrow> u64 \<Rightarrow> 'r option" where
  "btree_read leaf_sniff leaf_read t p start =
     Option.bind (Option.bind (cursor_leafbuf t p) (leaf_of t)) (\<lambda>leaf.
     Option.bind (cursor_this_key t p) (\<lambda>bottom.
     Option.bind (cursor_next_key t p) (\<lambda>limit.
       if \<not> (bottom \<le> start \<and> start < limit) \<or> \<not> leaf_sniff leaf then None
       else Some (leaf_read bottom limit leaf start))))"

section \<open>Well-formed trees\<close>

text \<open>The entries of a node cut the key range \<open>lo..hi\<close> of the node into those of the children.\<close>

fun kids_ok :: "(u64 \<Rightarrow> u64 \<Rightarrow> u64 \<Rightarrow> bool) \<Rightarrow> u64 \<Rightarrow> u64 \<Rightarrow> index_entry list \<Rightarrow> bool" where
  "kids_ok P lo hi [] = False"
| "kids_ok P lo hi [e] = (ekey e = lo \<and> lo < hi \<and> P (eblock e) lo hi)"
| "kids_ok P lo hi (e # f # es) = (ekey e = lo \<and> lo < ekey f \<and> P (eblock e) lo (ekey f) \<and> kids_ok P (ekey f) hi (f # es))"

primrec tree_ok :: "('l \<Rightarrow> bool) \<Rightarrow> 'l tree \<Rightarrow> nat \<Rightarrow> u64 \<Rightarrow> u64 \<Rightarrow> u64 \<Rightarrow> bool" where
  "tree_ok sniff t 0 b lo hi = (\<exists>l. t_vol t b = Leaf l \<and> sniff l)"
| "tree_ok sniff t (Suc d) b lo hi =
     (\<exists>n. t_vol t b = Node n \<and> bnode_sniff n \<and> node_ok (t_epn t) n \<and> kids_ok (tree_ok sniff t d) lo hi (live n))"

definition btree_ok :: "('l \<Rightarrow> bool) \<Rightarrow> 'l tree \<Rightarrow> bool" where
  "btree_ok sniff t \<longleftrightarrow> 0 < t_depth t \<and> tree_ok sniff t (t_depth t) (t_root t) 0 TUXKEY_LIMIT"

text \<open>The leaves in order, each with the first key of its range.\<close>

primrec leaves :: "'l tree \<Rightarrow> nat \<Rightarrow> u64 \<Rightarrow> u64 \<Rightarrow> (u64 \<times> u64) list" where
  "leaves t 0 b k = [(k, b)]"
| "leaves t (Suc d) b k = (case t_vol t b of Node n \<Rightarrow> concat (map (\<lambda>e. leaves t d (eblock e) (ekey e)) (live n)) | Leaf _ \<Rightarrow> [])"

abbreviation kids :: "'l tree \<Rightarrow> nat \<Rightarrow> index_entry list \<Rightarrow> (u64 \<times> u64) list" where
  "kids t d es \<equiv> concat (map (\<lambda>e. leaves t d (eblock e) (ekey e)) es)"

definition tree_leaves :: "'l tree \<Rightarrow> (u64 \<times> u64) list" where
  "tree_leaves t = leaves t (t_depth t) (t_root t) 0"

lemma kids_ok_lt: "kids_ok P lo hi es \<Longrightarrow> lo < hi"
  by (induction P lo hi es rule: kids_ok.induct) (auto intro: less_trans)

lemma kids_ok_nonempty: "kids_ok P lo hi es \<Longrightarrow> es \<noteq> []"
  by (cases es) auto

lemma kids_ok_hd: "kids_ok P lo hi (e # es) \<Longrightarrow> ekey e = lo"
  by (cases es) auto

lemma kids_ok_append:
  "xs \<noteq> [] \<Longrightarrow> kids_ok P lo hi (xs @ y # ys) \<longleftrightarrow> kids_ok P lo (ekey y) xs \<and> kids_ok P (ekey y) hi (y # ys)"
proof (induction xs arbitrary: lo)
  case (Cons x xs)
  show ?case
  proof (cases xs)
    case (Cons z zs)
    then show ?thesis using Cons.IH [of "ekey z"] by auto
  qed auto
qed simp

text \<open>The child of the entry \<open>i\<close> and its key range.\<close>

definition key_after :: "index_entry list \<Rightarrow> u64 \<Rightarrow> nat \<Rightarrow> u64" where
  "key_after es hi i = (if Suc i < length es then ekey (es ! Suc i) else hi)"

lemma kids_ok_nth:
  assumes "kids_ok P lo hi es" and "i < length es"
  shows "P (eblock (es ! i)) (ekey (es ! i)) (key_after es hi i) \<and> ekey (es ! i) < key_after es hi i \<and>
    (if i = 0 then ekey (es ! i) = lo else lo < ekey (es ! i)) \<and> ekey (es ! i) < hi"
  using assms
proof (induction es arbitrary: i lo)
  case (Cons e es)
  show ?case
  proof (cases es)
    case Nil
    then show ?thesis using Cons.prems by (auto simp: key_after_def)
  next
    case (Cons f fs)
    have k: "ekey e = lo" "lo < ekey f" "P (eblock e) lo (ekey f)" "kids_ok P (ekey f) hi es"
      using Cons.prems(1) Cons by auto
    show ?thesis
    proof (cases i)
      case 0
      then show ?thesis using k Cons kids_ok_lt [OF k(4)] by (auto simp: key_after_def)
    next
      case (Suc j)
      then have "j < length es" using Cons.prems(2) by simp
      from Cons.IH [OF k(4) this] k(2) show ?thesis
        using Suc Cons by (auto simp: key_after_def intro: less_trans split: if_splits)
    qed
  qed
qed simp

text \<open>Where a cursor is: the block \<open>blk\<close> at height \<open>d\<close> with the key range \<open>lo..hi\<close> is the child that the
  cursor's outer levels lead to.\<close>

fun spine :: "'l tree \<Rightarrow> nat \<Rightarrow> cursor \<Rightarrow> u64 \<Rightarrow> u64 \<Rightarrow> u64 \<Rightarrow> bool" where
  "spine t d [] blk lo hi = (blk = t_root t \<and> d = t_depth t \<and> lo = 0 \<and> hi = TUXKEY_LIMIT)"
| "spine t d ((b, i) # p) blk lo hi =
     (\<exists>n blo bhi. t_vol t b = Node n \<and> 0 < i \<and> i \<le> length (live n) \<and> blk = eblock (live n ! (i - 1)) \<and>
        lo = ekey (live n ! (i - 1)) \<and> hi = key_after (live n) bhi (i - 1) \<and> spine t (Suc d) p b blo bhi)"

text \<open>The leaves behind and ahead of the cursor.\<close>

fun behind :: "'l tree \<Rightarrow> nat \<Rightarrow> cursor \<Rightarrow> (u64 \<times> u64) list" where
  "behind t d [] = []"
| "behind t d ((b, i) # p) = behind t (Suc d) p @ (case t_vol t b of Node n \<Rightarrow> kids t d (take (i - 1) (live n)) | Leaf _ \<Rightarrow> [])"

fun ahead :: "'l tree \<Rightarrow> nat \<Rightarrow> cursor \<Rightarrow> (u64 \<times> u64) list" where
  "ahead t d [] = []"
| "ahead t d ((b, i) # p) = (case t_vol t b of Node n \<Rightarrow> kids t d (drop i (live n)) | Leaf _ \<Rightarrow> []) @ ahead t (Suc d) p"

lemma spine_length: "spine t d p blk lo hi \<Longrightarrow> length p + d = t_depth t"
  by (induction p arbitrary: d blk lo hi) (auto, fastforce)

lemma spine_ok: "btree_ok sniff t \<Longrightarrow> spine t d p blk lo hi \<Longrightarrow> tree_ok sniff t d blk lo hi"
proof (induction p arbitrary: d blk lo hi)
  case (Cons l p)
  obtain b i where l: "l = (b, i)" by (cases l)
  from Cons.prems(2) obtain n blo bhi where n: "t_vol t b = Node n" "0 < i" "i \<le> length (live n)" "blk = eblock (live n ! (i - 1))"
    "lo = ekey (live n ! (i - 1))" "hi = key_after (live n) bhi (i - 1)" "spine t (Suc d) p b blo bhi" by (auto simp: l)
  from Cons.IH [OF Cons.prems(1) n(7)] n(1) have "kids_ok (tree_ok sniff t d) blo bhi (live n)" by simp
  from kids_ok_nth [OF this, of "i - 1"] n show ?case by simp
qed (auto simp: btree_ok_def)

lemma spine_range: "btree_ok sniff t \<Longrightarrow> spine t d p blk lo hi \<Longrightarrow> lo < hi"
proof (cases p)
  case (Cons l p')
  obtain b i where l: "l = (b, i)" by (cases l)
  assume a: "btree_ok sniff t" "spine t d p blk lo hi"
  then obtain n blo bhi where n: "t_vol t b = Node n" "0 < i" "i \<le> length (live n)"
    "lo = ekey (live n ! (i - 1))" "hi = key_after (live n) bhi (i - 1)" "spine t (Suc d) p' b blo bhi" by (auto simp: l Cons)
  from spine_ok [OF a(1) n(6)] n(1) have "kids_ok (tree_ok sniff t d) blo bhi (live n)" by simp
  from kids_ok_nth [OF this, of "i - 1"] n show ?thesis by simp
qed (auto simp: TUXKEY_LIMIT_def)

lemma spine_node:
  assumes "btree_ok sniff t" and "spine t (Suc d) p b blo bhi"
  obtains n where "t_vol t b = Node n" "bnode_sniff n" "node_ok (t_epn t) n" "kids_ok (tree_ok sniff t d) blo bhi (live n)"
    "length (live n) = bcount n" "0 < bcount n" "\<And>i. i < bcount n \<Longrightarrow> entries n ! i = live n ! i" "bcount n \<le> length (entries n)"
proof -
  from spine_ok [OF assms] obtain n where n: "t_vol t b = Node n" "bnode_sniff n" "node_ok (t_epn t) n" "kids_ok (tree_ok sniff t d) blo bhi (live n)"
    by auto
  have l: "length (live n) = bcount n" by (rule length_live [OF n(3)])
  moreover have "0 < bcount n" using kids_ok_nonempty [OF n(4)] l by (metis length_greater_0_conv)
  moreover have "entries n ! i = live n ! i" if "i < bcount n" for i using live_nth [OF n(3) that] by simp
  moreover have "bcount n \<le> length (entries n)" using n(3) by (simp add: node_ok_def)
  ultimately show ?thesis using n that by blast
qed

text \<open>The leaves of the tree are those behind the cursor, at it and ahead of it.\<close>

lemma spine_leaves: "spine t d p blk lo hi \<Longrightarrow> tree_leaves t = behind t d p @ leaves t d blk lo @ ahead t d p"
proof (induction p arbitrary: d blk lo hi)
  case (Cons l p)
  obtain b i where l: "l = (b, i)" by (cases l)
  from Cons.prems obtain n blo bhi where n: "t_vol t b = Node n" "0 < i" "i \<le> length (live n)" "blk = eblock (live n ! (i - 1))"
    "lo = ekey (live n ! (i - 1))" "spine t (Suc d) p b blo bhi" by (auto simp: l)
  have "live n = take (i - 1) (live n) @ live n ! (i - 1) # drop (Suc (i - 1)) (live n)"
    using n(2,3) by (intro id_take_nth_drop) simp
  then have "live n = take (i - 1) (live n) @ live n ! (i - 1) # drop i (live n)" using n(2) by simp
  then have "kids t d (live n) = kids t d (take (i - 1) (live n) @ live n ! (i - 1) # drop i (live n))"
    by (rule arg_cong)
  then have "kids t d (live n) = kids t d (take (i - 1) (live n)) @ leaves t d blk lo @ kids t d (drop i (live n))"
    by (simp only: map_append list.map concat_append concat.simps n(4,5))
  then show ?case using Cons.IH [OF n(6)] n(1) by (simp add: l)
qed (auto simp: tree_leaves_def)

lemma next_key_spine: "btree_ok sniff t \<Longrightarrow> spine t d p blk lo hi \<Longrightarrow> next_key t p = Some hi"
proof (induction p arbitrary: d blk lo hi)
  case (Cons l p)
  obtain b i where l: "l = (b, i)" by (cases l)
  from Cons.prems(2) obtain n blo bhi where n: "t_vol t b = Node n" "0 < i" "i \<le> length (live n)"
    "hi = key_after (live n) bhi (i - 1)" "spine t (Suc d) p b blo bhi" by (auto simp: l)
  obtain m where m: "t_vol t b = Node m" "length (live m) = bcount m" "\<And>i. i < bcount m \<Longrightarrow> entries m ! i = live m ! i"
    "bcount m \<le> length (entries m)" by (rule spine_node [OF Cons.prems(1) n(5)]) blast
  have "m = n" using m(1) n(1) by simp
  then show ?case using Cons.IH [OF Cons.prems(1) n(5)] n m by (auto simp: l node_of_def key_after_def)
qed (simp add: next_key.simps)

lemma check_from_snoc:
  "btree_ok sniff t \<Longrightarrow> spine t d p blk lo hi \<Longrightarrow> q \<noteq> [] \<Longrightarrow> check_from t (t_root t) 0 (rev p @ q) = check_from t blk lo q"
proof (induction p arbitrary: d blk lo hi q)
  case (Cons l p)
  obtain b i where l: "l = (b, i)" by (cases l)
  from Cons.prems(2) obtain n blo bhi where n: "t_vol t b = Node n" "0 < i" "i \<le> length (live n)" "blk = eblock (live n ! (i - 1))"
    "lo = ekey (live n ! (i - 1))" "spine t (Suc d) p b blo bhi" by (auto simp: l)
  obtain m where m: "t_vol t b = Node m" "kids_ok (tree_ok sniff t d) blo bhi (live m)" "length (live m) = bcount m"
    "\<And>i. i < bcount m \<Longrightarrow> entries m ! i = live m ! i" by (rule spine_node [OF Cons.prems(1) n(6)]) blast
  have mn: "m = n" using m(1) n(1) by simp
  obtain x q' where q: "q = x # q'" using Cons.prems(3) by (cases q) auto
  have "check_from t (t_root t) 0 (rev (l # p) @ q) = check_from t b blo ((b, i) # x # q')"
    using Cons.IH [OF Cons.prems(1) n(6), of "(b, i) # q"] by (simp add: l q)
  also have "\<dots> = check_from t blk lo q"
    using kids_ok_nth [OF m(2), of "i - 1"] n m(3,4) by (auto simp: node_of_def mn q Let_def)
  finally show ?case .
qed auto

lemma cursor_check_spine: "btree_ok sniff t \<Longrightarrow> spine t d p blk lo hi \<Longrightarrow> cursor_check t ((blk, i) # p)"
  using check_from_snoc [of sniff t d p blk lo hi "[(blk, i)]"] by (simp add: cursor_check_def)

section \<open>Moving the cursor\<close>

lemma advance_down_spec:
  assumes ok: "btree_ok sniff t" and sp: "spine t (Suc d) outer b blo bhi" and n: "t_vol t b = Node n" and i: "i < bcount n"
  shows "spine t d ((b, i + 1) # outer) (eblock (live n ! i)) (ekey (live n ! i)) (key_after (live n) bhi i)" (is ?sp)
    and "cursor_advance_down sniff t ((b, i) # outer) =
      Some (if t_readerr t (eblock (live n ! i)) then (Inl EIO, (b, i) # outer)
            else (Inr (d \<noteq> 0), (eblock (live n ! i), 0) # (b, i + 1) # outer))"
proof -
  obtain m where m: "t_vol t b = Node m" "length (live m) = bcount m" "\<And>i. i < bcount m \<Longrightarrow> entries m ! i = live m ! i"
    "bcount m \<le> length (entries m)" by (rule spine_node [OF ok sp]) blast
  have mn: "m = n" using m(1) n by simp
  note m = m [unfolded mn]
  show s: ?sp using n sp i m(2) by auto
  have child: "tree_ok sniff t d (eblock (live n ! i)) (ekey (live n ! i)) (key_after (live n) bhi i)" by (rule spine_ok [OF ok s])
  have len: "length outer + Suc d = t_depth t" by (rule spine_length [OF sp])
  have "case t_vol t (eblock (live n ! i)) of Node m \<Rightarrow> 0 < d \<and> bnode_sniff m | Leaf l \<Rightarrow> d = 0 \<and> sniff l"
    using child by (cases d) auto
  moreover have "cursor_check t ((eblock (live n ! i), 0) # (b, i + 1) # outer)" by (rule cursor_check_spine [OF ok s])
  ultimately show "cursor_advance_down sniff t ((b, i) # outer) =
      Some (if t_readerr t (eblock (live n ! i)) then (Inl EIO, (b, i) # outer)
            else (Inr (d \<noteq> 0), (eblock (live n ! i), 0) # (b, i + 1) # outer))"
    using n i m(3,4) len by (auto simp: cursor_advance_down_def node_of_def Let_def split: vblock.splits)
qed

lemma leaves_node: "t_vol t b = Node n \<Longrightarrow> leaves t (Suc d) b k = kids t d (live n)"
  by simp

lemma kids_drop: "i < length es \<Longrightarrow> kids t d (drop i es) = leaves t d (eblock (es ! i)) (ekey (es ! i)) @ kids t d (drop (Suc i) es)"
  by (simp add: drop_Cons_nth)

lemma kids_take: "i < length es \<Longrightarrow> kids t d (take (Suc i) es) = kids t d (take i es) @ leaves t d (eblock (es ! i)) (ekey (es ! i))"
  by (simp add: take_Suc_conv_app_nth)

lemma descend_spec:
  assumes ok: "btree_ok sniff t"
  shows "spine t (Suc d) outer b blo bhi \<Longrightarrow> t_vol t b = Node n \<Longrightarrow> i < bcount n \<Longrightarrow>
    (\<exists>p'. cursor_descend sniff t ((b, i) # outer) = Some (Inl EIO, p') \<and> (\<exists>b. t_readerr t b)) \<or>
    (\<exists>p blk k hi. cursor_descend sniff t ((b, i) # outer) = Some (Inr (), (blk, 0) # p) \<and> spine t 0 p blk k hi \<and>
       (k, blk) # ahead t 0 p = kids t d (drop i (live n)) @ ahead t (Suc d) outer \<and>
       behind t 0 p = behind t (Suc d) outer @ kids t d (take i (live n)))"
proof (induction d arbitrary: outer b blo bhi n i)
  case 0
  note a = advance_down_spec [OF ok 0]
  have l: "i < length (live n)"
    using 0 by (metis ok spine_node vblock.inject(1))
  show ?case
  proof (cases "t_readerr t (eblock (live n ! i))")
    case True
    then show ?thesis using a(2) by (subst cursor_descend.simps) auto
  next
    case False
    then have "cursor_descend sniff t ((b, i) # outer) = Some (Inr (), (eblock (live n ! i), 0) # (b, i + 1) # outer)"
      using a(2) by (subst cursor_descend.simps) simp
    moreover have "(ekey (live n ! i), eblock (live n ! i)) # ahead t 0 ((b, i + 1) # outer) = kids t 0 (drop i (live n)) @ ahead t (Suc 0) outer"
      using "0.prems"(2) l by (simp add: drop_Cons_nth [OF l])
    moreover have "behind t 0 ((b, i + 1) # outer) = behind t (Suc 0) outer @ kids t 0 (take i (live n))"
      using "0.prems"(2) by simp
    ultimately show ?thesis using a(1) by blast
  qed
next
  case (Suc d)
  note a = advance_down_spec [OF ok Suc.prems]
  have l: "i < length (live n)"
    using Suc.prems by (metis ok spine_node vblock.inject(1))
  show ?case
  proof (cases "t_readerr t (eblock (live n ! i))")
    case True
    then show ?thesis using a(2) by (subst cursor_descend.simps) auto
  next
    case False
    let ?c = "eblock (live n ! i)" and ?p = "(b, i + 1) # outer"
    have step: "cursor_descend sniff t ((b, i) # outer) = cursor_descend sniff t ((?c, 0) # ?p)"
      using a(2) False by (subst cursor_descend.simps) simp
    obtain m where m: "t_vol t ?c = Node m" "0 < bcount m" by (rule spine_node [OF ok a(1)]) blast
    have ah: "kids t d (drop 0 (live m)) @ ahead t (Suc d) ?p = kids t (Suc d) (drop i (live n)) @ ahead t (Suc (Suc d)) outer"
      unfolding kids_drop [OF l, of t "Suc d"] leaves_node [OF m(1)] using Suc.prems(2) by simp
    have bh: "behind t (Suc d) ?p @ kids t d (take 0 (live m)) = behind t (Suc (Suc d)) outer @ kids t (Suc d) (take i (live n))"
      using Suc.prems(2) by simp
    show ?thesis using Suc.IH [OF a(1) m] unfolding step ah bh .
  qed
qed

lemma climb_spec:
  assumes ok: "btree_ok sniff t"
  shows "spine t d p blk lo hi \<Longrightarrow>
    (cursor_climb t p = Some [] \<and> ahead t d p = []) \<or>
    (\<exists>b i outer d' n blo bhi. cursor_climb t p = Some ((b, i) # outer) \<and> spine t (Suc d') outer b blo bhi \<and> t_vol t b = Node n \<and>
       i < bcount n \<and> ahead t d p = kids t d' (drop i (live n)) @ ahead t (Suc d') outer \<and>
       behind t d p @ leaves t d blk lo = behind t (Suc d') outer @ kids t d' (take i (live n)))"
proof (induction p arbitrary: d blk lo hi)
  case (Cons l p)
  obtain b i where l: "l = (b, i)" by (cases l)
  from Cons.prems obtain n blo bhi where n: "t_vol t b = Node n" "0 < i" "i \<le> length (live n)" "blk = eblock (live n ! (i - 1))"
    "lo = ekey (live n ! (i - 1))" "spine t (Suc d) p b blo bhi" by (auto simp: l)
  obtain m where m: "t_vol t b = Node m" "length (live m) = bcount m" by (rule spine_node [OF ok n(6)]) blast
  have len: "length (live n) = bcount n" using m n(1) by simp
  have short: "length ((b, i) # p) \<le> t_depth t" using spine_length [OF n(6)] by simp
  have bh: "behind t d (l # p) @ leaves t d blk lo = behind t (Suc d) p @ kids t d (take i (live n))"
    using kids_take [of "i - 1" "live n" t d] n by (simp add: l)
  show ?case
  proof (cases "i = bcount n")
    case True
    have "behind t d (l # p) @ leaves t d blk lo = behind t (Suc d) p @ leaves t (Suc d) b blo"
      unfolding bh using n(1) True len by simp
    moreover have "ahead t d (l # p) = ahead t (Suc d) p" using n(1) True len by (simp add: l)
    moreover have "cursor_climb t (l # p) = cursor_climb t p" using n(1) True short by (simp add: l node_of_def)
    ultimately show ?thesis using Cons.IH [OF n(6)] by simp
  next
    case False
    then have "cursor_climb t (l # p) = Some ((b, i) # p)" using n(1) short by (simp add: l node_of_def)
    moreover have "ahead t d (l # p) = kids t d (drop i (live n)) @ ahead t (Suc d) p" using n(1) by (simp add: l)
    moreover have "i < bcount n" using False n(3) len by simp
    ultimately show ?thesis using n(1,6) bh by blast
  qed
qed simp

lemma leaves_hd: "tree_ok sniff t d b lo hi \<Longrightarrow> \<exists>x xs. leaves t d b lo = (lo, x) # xs"
proof (induction d arbitrary: b lo hi)
  case (Suc d)
  then obtain n where n: "t_vol t b = Node n" "kids_ok (tree_ok sniff t d) lo hi (live n)" by auto
  then obtain e es where e: "live n = e # es" by (cases "live n") auto
  have "ekey e = lo" using n(2) kids_ok_hd by (metis e)
  moreover obtain h where "tree_ok sniff t d (eblock e) lo h" using n(2) e by (cases es) auto
  then obtain x xs where "leaves t d (eblock e) lo = (lo, x) # xs" using Suc.IH by blast
  ultimately show ?case unfolding leaves_node [OF n(1)] by (simp add: e)
qed simp

lemma advance_spec:
  assumes ok: "btree_ok sniff t" and sp: "spine t 0 p blk lo hi"
  shows "(cursor_advance sniff t ((blk, x) # p) = Some (Inr False, []) \<and> ahead t 0 p = []) \<or>
    (\<exists>p'. cursor_advance sniff t ((blk, x) # p) = Some (Inl EIO, p') \<and> (\<exists>b. t_readerr t b) \<and> ahead t 0 p \<noteq> []) \<or>
    (\<exists>p' b k hi'. cursor_advance sniff t ((blk, x) # p) = Some (Inr True, (b, 0) # p') \<and> spine t 0 p' b k hi' \<and>
       ahead t 0 p = (k, b) # ahead t 0 p' \<and> behind t 0 p' = behind t 0 p @ [(lo, blk)])"
proof -
  from climb_spec [OF ok sp] consider "cursor_climb t p = Some []" "ahead t 0 p = []"
    | b i outer d n blo bhi where "cursor_climb t p = Some ((b, i) # outer)" "spine t (Suc d) outer b blo bhi" "t_vol t b = Node n"
       "i < bcount n" "ahead t 0 p = kids t d (drop i (live n)) @ ahead t (Suc d) outer"
       "behind t 0 p @ [(lo, blk)] = behind t (Suc d) outer @ kids t d (take i (live n))" by auto
  then show ?thesis
  proof cases
    case 1
    then show ?thesis by (simp add: cursor_advance_def)
  next
    case 2
    have step: "cursor_advance sniff t ((blk, x) # p) =
        map_option (\<lambda>(r, p). (map_sum id (\<lambda>_. True) r, p)) (cursor_descend sniff t ((b, i) # outer))"
      by (simp add: cursor_advance_def 2(1))
    from descend_spec [OF ok 2(2-4)] consider p' where "cursor_descend sniff t ((b, i) # outer) = Some (Inl EIO, p')" "\<exists>b. t_readerr t b"
      | p' b' k hi' where "cursor_descend sniff t ((b, i) # outer) = Some (Inr (), (b', 0) # p')" "spine t 0 p' b' k hi'"
        "(k, b') # ahead t 0 p' = kids t d (drop i (live n)) @ ahead t (Suc d) outer"
        "behind t 0 p' = behind t (Suc d) outer @ kids t d (take i (live n))" by blast
    then show ?thesis
    proof cases
      case 1
      obtain m where m: "t_vol t b = Node m" "length (live m) = bcount m" "kids_ok (tree_ok sniff t d) blo bhi (live m)"
        by (rule spine_node [OF ok 2(2)]) blast
      have "m = n" using m(1) 2(3) by simp
      then have l: "i < length (live n)" and kid: "tree_ok sniff t d (eblock (live n ! i)) (ekey (live n ! i)) (key_after (live n) bhi i)"
        using m 2(4) kids_ok_nth [OF m(3), of i] by simp_all
      have "ahead t 0 p \<noteq> []" using leaves_hd [OF kid] unfolding 2(5) kids_drop [OF l] by auto
      then show ?thesis unfolding step using 1 by (intro disjI2 disjI1) simp
    next
      case d: 2
      have "ahead t 0 p = (k, b') # ahead t 0 p'" "behind t 0 p' = behind t 0 p @ [(lo, blk)]" using d(3,4) 2(5,6) by simp_all
      then show ?thesis unfolding step d(1) using d(2) by (intro disjI2) auto
    qed
  qed
qed

text \<open>Probing.\<close>

lemma probe_down_spec:
  assumes ok: "btree_ok sniff t"
  shows "spine t (Suc d) outer b blo bhi \<Longrightarrow> blo \<le> key \<Longrightarrow> key < bhi \<Longrightarrow>
    (probe_down sniff t key ((b, i) # outer) = Some (Inl EIO, []) \<and> (\<exists>b. t_readerr t b)) \<or>
    (\<exists>p blk lo hi. probe_down sniff t key ((b, i) # outer) = Some (Inr (), (blk, 0) # p) \<and> spine t 0 p blk lo hi \<and> lo \<le> key \<and> key < hi)"
proof (induction d arbitrary: outer b blo bhi i)
  case (0 outer b blo bhi i)
  obtain n where n: "t_vol t b = Node n" "node_ok (t_epn t) n" "kids_ok (tree_ok sniff t 0) blo bhi (live n)" "length (live n) = bcount n" "0 < bcount n"
    by (rule spine_node [OF ok 0(1)]) blast
  obtain j where j: "bnode_lookup n key = Some j" "looked_up (live n) key j" using bnode_lookup_ok [OF n(2,5)] by blast
  have jl: "j < bcount n" using j(2) n(4) by (simp add: looked_up_def)
  note a = advance_down_spec [OF ok 0(1) n(1) jl]
  show ?case
  proof (cases "t_readerr t (eblock (live n ! j))")
    case True
    then show ?thesis using n(1) j(1) a(2) by (subst probe_down.simps) (auto simp: node_of_def)
  next
    case False
    have "probe_down sniff t key ((b, i) # outer) = Some (Inr (), (eblock (live n ! j), 0) # (b, j + 1) # outer)"
      using n(1) j(1) a(2) False by (subst probe_down.simps) (simp add: node_of_def)
    moreover have "ekey (live n ! j) \<le> key" "key < key_after (live n) bhi j"
      using kids_ok_nth [OF n(3), of j] jl n(4) j(2) 0(2,3) by (auto simp: looked_up_def key_after_def split: if_splits)
    ultimately show ?thesis using a(1) by blast
  qed
next
  case (Suc d outer b blo bhi i)
  obtain n where n: "t_vol t b = Node n" "node_ok (t_epn t) n" "kids_ok (tree_ok sniff t (Suc d)) blo bhi (live n)" "length (live n) = bcount n" "0 < bcount n"
    by (rule spine_node [OF ok Suc.prems(1)]) blast
  obtain j where j: "bnode_lookup n key = Some j" "looked_up (live n) key j" using bnode_lookup_ok [OF n(2,5)] by blast
  have jl: "j < bcount n" using j(2) n(4) by (simp add: looked_up_def)
  note a = advance_down_spec [OF ok Suc.prems(1) n(1) jl]
  show ?case
  proof (cases "t_readerr t (eblock (live n ! j))")
    case True
    then show ?thesis using n(1) j(1) a(2) by (subst probe_down.simps) (auto simp: node_of_def)
  next
    case False
    have step: "probe_down sniff t key ((b, i) # outer) = probe_down sniff t key ((eblock (live n ! j), 0) # (b, j + 1) # outer)"
      using n(1) j(1) a(2) False by (subst probe_down.simps) (simp add: node_of_def)
    have "ekey (live n ! j) \<le> key" "key < key_after (live n) bhi j"
      using kids_ok_nth [OF n(3), of j] jl n(4) j(2) Suc.prems(2,3) by (auto simp: looked_up_def key_after_def split: if_splits)
    from Suc.IH [OF a(1) this] show ?thesis unfolding step .
  qed
qed

lemma probe_spec:
  assumes ok: "btree_ok sniff t" and key: "key < TUXKEY_LIMIT"
  shows "(btree_probe sniff t key = Some (Inl EIO, []) \<and> (\<exists>b. t_readerr t b)) \<or>
    (\<exists>p blk lo hi. btree_probe sniff t key = Some (Inr (), (blk, 0) # p) \<and> spine t 0 p blk lo hi \<and> lo \<le> key \<and> key < hi)"
proof -
  obtain d where d: "t_depth t = Suc d" using ok by (cases "t_depth t") (auto simp: btree_ok_def)
  have sp: "spine t (Suc d) [] (t_root t) 0 TUXKEY_LIMIT" by (simp add: d)
  obtain n where n: "t_vol t (t_root t) = Node n" "bnode_sniff n" by (rule spine_node [OF ok sp]) blast
  have "has_root t" by (simp add: has_root_def d)
  then have "cursor_read_root t = Some (if t_readerr t (t_root t) then (Inl EIO, []) else (Inr (), [(t_root t, 0)]))"
    using n by (simp add: cursor_read_root_def node_of_def)
  then show ?thesis using probe_down_spec [OF ok sp, of key 0] key unfolding btree_probe_def by (auto split: if_splits)
qed

text \<open>The next leaf ahead begins where the range of the current one ends.\<close>

lemma ahead_hd:
  assumes ok: "btree_ok sniff t"
  shows "spine t d p blk lo hi \<Longrightarrow> (ahead t d p = [] \<and> hi = TUXKEY_LIMIT) \<or> (\<exists>x xs. ahead t d p = (hi, x) # xs)"
proof (induction p arbitrary: d blk lo hi)
  case (Cons l p)
  obtain b i where l: "l = (b, i)" by (cases l)
  from Cons.prems obtain n blo bhi where n: "t_vol t b = Node n" "0 < i" "i \<le> length (live n)"
    "hi = key_after (live n) bhi (i - 1)" "spine t (Suc d) p b blo bhi" by (auto simp: l)
  obtain m where m: "t_vol t b = Node m" "kids_ok (tree_ok sniff t d) blo bhi (live m)" by (rule spine_node [OF ok n(5)]) blast
  have mn: "m = n" using m(1) n(1) by simp
  show ?case
  proof (cases "i = length (live n)")
    case True
    then show ?thesis using n(1,2,4) Cons.IH [OF n(5)] by (simp add: l key_after_def)
  next
    case False
    then have i: "i < length (live n)" using n(3) by simp
    then have "tree_ok sniff t d (eblock (live n ! i)) (ekey (live n ! i)) (key_after (live n) bhi i)"
      using kids_ok_nth [OF m(2), of i] by (simp add: mn)
    from leaves_hd [OF this] show ?thesis using n(1,2,4) i by (auto simp: l kids_drop key_after_def)
  qed
qed simp

section \<open>Traversal\<close>

text \<open>What the traversal stands for: the caller's function on the leaves from the first one on, each with its key range and
  the part of the keys that is asked for and not yet done, until it stops or the leaf holds the last key.\<close>

fun visit :: "'l tree \<Rightarrow> (u64 \<Rightarrow> u64 \<Rightarrow> 'l \<Rightarrow> u64 \<Rightarrow> u64 \<Rightarrow> 'd \<Rightarrow> int \<times> 'd) \<Rightarrow> u64 \<Rightarrow> (u64 \<times> u64) list \<Rightarrow> u64 \<Rightarrow> 'd \<Rightarrow> int \<times> 'd" where
  "visit t func last_key [] key d = (0, d)"
| "visit t func last_key ((bottom, blk) # rest) key d =
     (let limit = (case rest of [] \<Rightarrow> TUXKEY_LIMIT | (k, _) # _ \<Rightarrow> k); key = max key bottom;
          (ret, d) = func bottom limit (the (leaf_of t blk)) key (last_key - key) d
      in if ret \<noteq> 0 \<or> last_key \<le> limit then (ret, d) else visit t func last_key rest key d)"

lemma cursor_keys:
  assumes ok: "btree_ok sniff t" and sp: "spine t 0 p blk lo hi"
  shows "cursor_this_key t ((blk, x) # p) = Some lo" and "cursor_next_key t ((blk, x) # p) = Some hi"
    and "cursor_leafbuf t ((blk, x) # p) = Some blk" and "\<exists>l. t_vol t blk = Leaf l \<and> sniff l"
proof -
  have len: "length p = t_depth t" using spine_length [OF sp] by simp
  show "cursor_next_key t ((blk, x) # p) = Some hi" using len by (simp add: cursor_next_key_def next_key_spine [OF ok sp])
  show "cursor_leafbuf t ((blk, x) # p) = Some blk" using len by (simp add: cursor_leafbuf_def)
  show "\<exists>l. t_vol t blk = Leaf l \<and> sniff l" using spine_ok [OF ok sp] by simp
  obtain b i outer where p: "p = (b, i) # outer" using len ok by (cases p) (auto simp: btree_ok_def)
  from sp obtain n blo bhi where n: "t_vol t b = Node n" "0 < i" "i \<le> length (live n)" "lo = ekey (live n ! (i - 1))"
    "spine t (Suc 0) outer b blo bhi" by (auto simp: p)
  obtain m where m: "t_vol t b = Node m" "length (live m) = bcount m" "\<And>i. i < bcount m \<Longrightarrow> entries m ! i = live m ! i"
    "bcount m \<le> length (entries m)" by (rule spine_node [OF ok n(5)]) blast
  have "m = n" using m(1) n(1) by simp
  then show "cursor_this_key t ((blk, x) # p) = Some lo"
    using len n m by (simp add: cursor_this_key_def this_key_def node_of_def p)
qed

lemma cut_len:
  assumes "key < lo" and "lo < last_key"
  shows "(last_key - key) - min (last_key - key) (lo - key) = last_key - (lo :: u64)"
proof -
  have "lo - key \<le> last_key - key"
    using assms by (simp add: word_le_nat_alt word_less_nat_alt unat_sub less_imp_le)
  then show ?thesis by (simp add: min_def)
qed

lemma traverse_step_spec:
  assumes ok: "btree_ok sniff t" and sp: "spine t 0 p blk lo hi" and l: "t_vol t blk = Leaf l"
    and range: "lo \<le> key \<or> lo < last_key"
    and f: "func lo hi l (max key lo) (last_key - max key lo) d = (ret, d')"
  shows "traverse_step sniff t func ((blk, x) # p) key (last_key - key) d =
    (if ret \<noteq> 0 then Some (walk_end (Inr ret) ((blk, x) # p) d')
     else if last_key \<le> hi then Some (walk_end (Inr 0) ((blk, x) # p) d')
     else Option.bind (cursor_advance sniff t ((blk, x) # p)) (\<lambda>(r, p).
       Some (case r of
               Inl e \<Rightarrow> walk_end (Inl e) p d'
             | Inr False \<Rightarrow> walk_end (Inr 0) p d'
             | Inr True \<Rightarrow> \<lparr>w_ret = Inr 0, w_more = True, w_path = p, w_key = max key lo, w_len = last_key - max key lo, w_data = d'\<rparr>)))"
proof -
  note c = cursor_keys [OF ok sp]
  have sniff: "sniff l" using c(4) l by simp
  have key: "(if key < lo then lo else key) = max key lo" by (auto simp: max_def)
  have len: "(if key < lo then last_key - key - min (last_key - key) (lo - key) else last_key - key) = last_key - max key lo"
    using range cut_len [of key lo last_key] by (auto simp: max_def)
  have nz: "(key < lo \<and> last_key - max key lo = 0) = False" using range by (auto simp: max_def)
  show ?thesis
    unfolding traverse_step_def c(1-3) bind.bind_lunit Let_def key len nz
    using sniff l f by (simp add: leaf_of_def)
qed

lemma traverse_spec:
  assumes ok: "btree_ok sniff t"
  shows "spine t 0 p blk lo hi \<Longrightarrow> ahead t 0 p = rest \<Longrightarrow> key < hi \<Longrightarrow> key \<le> last_key \<Longrightarrow> lo \<le> key \<or> lo < last_key \<Longrightarrow>
    \<exists>w. btree_traverse sniff t func ((blk, x) # p) key (last_key - key) d = Some w \<and> \<not> w_more w \<and>
      (w_path w = [] \<or> w_ret w \<noteq> Inr 0 \<or> (\<exists>k \<in> insert TUXKEY_LIMIT (fst ` set rest). last_key \<le> k)) \<and>
      (w_ret w = Inl EIO \<and> (\<exists>b. t_readerr t b) \<or>
       (w_ret w, w_data w) = map_prod Inr id (visit t func last_key ((lo, blk) # rest) key d))"
proof (induction rest arbitrary: p blk lo hi key d x)
  case Nil
  obtain l where l: "t_vol t blk = Leaf l" using cursor_keys(4) [OF ok Nil.prems(1)] by blast
  have hi: "hi = TUXKEY_LIMIT" using ahead_hd [OF ok Nil.prems(1)] Nil.prems(2) by auto
  obtain ret d' where f: "func lo hi l (max key lo) (last_key - max key lo) d = (ret, d')" by (metis prod.collapse)
  have v: "visit t func last_key [(lo, blk)] key d = (ret, d')" using f l by (simp add: hi leaf_of_def Let_def)
  have "cursor_advance sniff t ((blk, x) # p) = Some (Inr False, [])" using advance_spec [OF ok Nil.prems(1), of x] Nil.prems(2) by auto
  then show ?case unfolding Nil.prems(2) v
    using traverse_step_spec [where func = func, OF ok Nil.prems(1) l Nil.prems(5) f, of x]
    by (subst btree_traverse.simps) (simp add: walk_end_def hi)
next
  case (Cons r rest)
  obtain k b where r: "r = (k, b)" by (cases r)
  obtain l where l: "t_vol t blk = Leaf l" using cursor_keys(4) [OF ok Cons.prems(1)] by blast
  have hi: "k = hi" using ahead_hd [OF ok Cons.prems(1)] Cons.prems(2) r by auto
  obtain ret d' where f: "func lo hi l (max key lo) (last_key - max key lo) d = (ret, d')" by (metis prod.collapse)
  have v: "visit t func last_key ((lo, blk) # r # rest) key d =
      (if ret \<noteq> 0 \<or> last_key \<le> hi then (ret, d') else visit t func last_key (r # rest) (max key lo) d')"
    using f l by (simp add: hi r leaf_of_def Let_def)
  note step = traverse_step_spec [where func = func, OF ok Cons.prems(1) l Cons.prems(5) f, of x]
  show ?case
  proof (cases "ret \<noteq> 0 \<or> last_key \<le> hi")
    case True
    then show ?thesis unfolding v using step by (subst btree_traverse.simps) (auto simp: walk_end_def r hi)
  next
    case False
    then have go: "hi < last_key" "ret = 0" "\<not> last_key \<le> hi" by (simp_all add: not_le)
    from advance_spec [OF ok Cons.prems(1), of x] Cons.prems(2)
    consider p' where "cursor_advance sniff t ((blk, x) # p) = Some (Inl EIO, p')" "\<exists>b. t_readerr t b"
      | p' hi' where "cursor_advance sniff t ((blk, x) # p) = Some (Inr True, (b, 0) # p')" "spine t 0 p' b k hi'" "ahead t 0 p' = rest"
      by (auto simp: r)
    then show ?thesis
    proof cases
      case 1
      then show ?thesis unfolding v using step go by (subst btree_traverse.simps) (simp add: walk_end_def)
    next
      case 2
      have lh: "lo < hi" by (rule spine_range [OF ok Cons.prems(1)])
      have "k < hi'" by (rule spine_range [OF ok 2(2)])
      then have "max key lo < hi'" "max key lo \<le> last_key" "k \<le> max key lo \<or> k < last_key"
        using hi lh go(1) Cons.prems(3) by (auto simp: max_def)
      note IH = Cons.IH [OF 2(2,3) this, of 0 d']
      have v2: "visit t func last_key ((lo, blk) # r # rest) key d = visit t func last_key ((k, b) # rest) (max key lo) d'"
        using v go by (simp add: r del: visit.simps)
      have "btree_traverse sniff t func ((blk, x) # p) key (last_key - key) d =
          btree_traverse sniff t func ((b, 0) # p') (max key lo) (last_key - max key lo) d'"
        using step go 2(1) by (subst btree_traverse.simps) simp
      then show ?thesis using IH unfolding v2 by (auto simp only: list.set image_insert insert_iff)
    qed
  qed
qed

section \<open>Properties\<close>

text \<open>C40: probing for a key ends at the leaf whose key range holds the key, with a cursor that knows this range, or
  reports \<open>EIO\<close> with the cursor released when a block cannot be read.\<close>

theorem btree_probe_exact:
  assumes "btree_ok sniff t" and "key < TUXKEY_LIMIT"
  shows "(btree_probe sniff t key = Some (Inl EIO, []) \<and> (\<exists>b. t_readerr t b)) \<or>
    (\<exists>p blk lo hi front rest. btree_probe sniff t key = Some (Inr (), p) \<and> cursor_leafbuf t p = Some blk \<and>
       cursor_this_key t p = Some lo \<and> cursor_next_key t p = Some hi \<and> lo \<le> key \<and> key < hi \<and>
       tree_leaves t = front @ (lo, blk) # rest \<and> (case rest of [] \<Rightarrow> hi = TUXKEY_LIMIT | (k, _) # _ \<Rightarrow> hi = k))"
  using probe_spec [OF assms]
proof (elim disjE exE conjE)
  fix p blk lo hi
  assume run: "btree_probe sniff t key = Some (Inr (), (blk, 0) # p)" and sp: "spine t 0 p blk lo hi" and key: "lo \<le> key" "key < hi"
  note c = cursor_keys(1-3) [OF assms(1) sp, of 0]
  have "tree_leaves t = behind t 0 p @ (lo, blk) # ahead t 0 p" using spine_leaves [OF sp] by simp
  moreover have "case ahead t 0 p of [] \<Rightarrow> hi = TUXKEY_LIMIT | (k, _) # _ \<Rightarrow> hi = k"
    using ahead_hd [OF assms(1) sp] by auto
  ultimately show ?thesis using run key c by blast
qed auto

text \<open>Two leaves under a root.\<close>

definition demo_tree :: "u64 tree" where
  "demo_tree = \<lparr>t_root = 1, t_depth = 1, t_vol = (\<lambda>b. if b = 1 then Node (small_node [(0, 2), (10, 3)]) else Leaf b), t_readerr = (\<lambda>_. False), t_nomem = (\<lambda>_. False),
     t_epn = 6, t_dirty = (\<lambda>_. False), t_unify = (\<lambda>_. False), t_log = [], t_defree = [], t_deunify = []\<rparr>"

lemma demo_tree_ok: "btree_ok (\<lambda>_. True) demo_tree"
  by (simp add: btree_ok_def demo_tree_def small_node_def bnode_sniff_def node_ok_def live_def TUXKEY_LIMIT_def)

lemma btree_probe_exact_witness:
  "\<exists>p. btree_probe (\<lambda>_. True) demo_tree 12 = Some (Inr (), p)"
proof -
  have "(12 :: u64) < TUXKEY_LIMIT" by (simp add: TUXKEY_LIMIT_def)
  from btree_probe_exact [OF demo_tree_ok this] show ?thesis by (auto simp: demo_tree_def)
qed

text \<open>C12: a traversal from the leaf that a probe has found always ends. It calls the function on the leaves from that one on in
  the order of their keys, each with its key range and the part of the requested keys that begins in it, until
  the function stops it, the requested range ends or there is no further leaf; the only other end is \<open>EIO\<close>.\<close>

theorem btree_traverse_exact:
  assumes "btree_ok sniff t" and "key < TUXKEY_LIMIT" and "btree_probe sniff t key = Some (Inr (), p)" and "key \<le> last_key"
  shows "\<exists>w front lo blk rest. btree_traverse sniff t func p key (last_key - key) d = Some w \<and>
    tree_leaves t = front @ (lo, blk) # rest \<and> lo \<le> key \<and> (case rest of [] \<Rightarrow> True | (k, _) # _ \<Rightarrow> key < k) \<and>
    (w_ret w = Inl EIO \<and> (\<exists>b. t_readerr t b) \<or>
     (w_ret w, w_data w) = map_prod Inr id (visit t func last_key ((lo, blk) # rest) key d))"
proof -
  from probe_spec [OF assms(1,2)] assms(3) obtain q blk lo hi where
    p: "p = (blk, 0) # q" and sp: "spine t 0 q blk lo hi" and key: "lo \<le> key" "key < hi" by auto
  have "lo \<le> key \<or> lo < last_key" using key by simp
  from traverse_spec [OF assms(1) sp refl key(2) assms(4) this, of func 0 d] obtain w where
    w: "btree_traverse sniff t func p key (last_key - key) d = Some w"
      "w_ret w = Inl EIO \<and> (\<exists>b. t_readerr t b) \<or> (w_ret w, w_data w) = map_prod Inr id (visit t func last_key ((lo, blk) # ahead t 0 q) key d)"
    by (auto simp: p)
  have "tree_leaves t = behind t 0 q @ (lo, blk) # ahead t 0 q" using spine_leaves [OF sp] by simp
  moreover have "case ahead t 0 q of [] \<Rightarrow> True | (k, _) # _ \<Rightarrow> key < k" using ahead_hd [OF assms(1) sp] key by auto
  ultimately show ?thesis using w key by blast
qed

lemma btree_traverse_exact_witness:
  "\<exists>w. btree_traverse (\<lambda>_. True) demo_tree (\<lambda>bottom limit leaf key len d. (0, d @ [leaf])) [(2, 0), (1, 1)] 5 10 [] = Some w"
proof -
  have "(5 :: u64) < TUXKEY_LIMIT" "(5 :: u64) \<le> 15" by (simp_all add: TUXKEY_LIMIT_def)
  moreover have "bnode_lookup (small_node [(0, 2), (10, 3)]) 5 = Some 0"
    by (simp add: bnode_lookup_def small_node_def lookup_next.simps)
  then have "btree_probe (\<lambda>_. True) demo_tree 5 = Some (Inr (), [(2, 0), (1, 1)])"
    by (simp add: btree_probe_def cursor_read_root_def has_root_def demo_tree_def node_of_def probe_down.simps cursor_advance_down_def cursor_check_def)
      (simp add: small_node_def bnode_sniff_def Let_def)
  ultimately show ?thesis
    using btree_traverse_exact [OF demo_tree_ok, of 5 "[(2, 0), (1, 1)]" 15 "\<lambda>bottom limit leaf key len d. (0, d @ [leaf])" "[]"] by auto
qed

end
