(* ===== verification/Btreemod.thy ===== *)
theory Btreemod
  imports Btree Balloc "HOL-Library.Multiset"
begin

text \<open>
  Changes of btrees, \<open>src/kernel/btree.c\<close>: redirection of the blocks of a cursor (copy on write), insertion of
  a leaf with splits of full index nodes and growth of the tree, and the split of a leaf. A change of a few blocks is
  related to the whole tree through the context of the cursor: the part of the tree outside of the block that
  the cursor is at.
\<close>

section \<open>The blocks of a tree\<close>

primrec blocks :: "'l tree \<Rightarrow> nat \<Rightarrow> u64 \<Rightarrow> u64 list" where
  "blocks t 0 b = [b]"
| "blocks t (Suc d) b = b # (case t_vol t b of Node n \<Rightarrow> concat (map (\<lambda>e. blocks t d (eblock e)) (live n)) | Leaf _ \<Rightarrow> [])"

abbreviation kid_blocks :: "'l tree \<Rightarrow> nat \<Rightarrow> index_entry list \<Rightarrow> u64 list" where
  "kid_blocks t d es \<equiv> concat (map (\<lambda>e. blocks t d (eblock e)) es)"

definition tree_blocks :: "'l tree \<Rightarrow> u64 list" where
  "tree_blocks t = blocks t (t_depth t) (t_root t)"

text \<open>Two states of the volume with the same bytes in the blocks \<open>B\<close>.\<close>

definition same_on :: "'l tree \<Rightarrow> 'l tree \<Rightarrow> u64 set \<Rightarrow> bool" where
  "same_on t t' B \<longleftrightarrow> t_epn t' = t_epn t \<and> (\<forall>b \<in> B. t_vol t' b = t_vol t b)"

lemma same_on_mono: "same_on t t' B \<Longrightarrow> A \<subseteq> B \<Longrightarrow> same_on t t' A"
  by (auto simp: same_on_def)

lemma kids_ok_cong:
  "(\<And>e l h. e \<in> set es \<Longrightarrow> P (eblock e) l h = Q (eblock e) l h) \<Longrightarrow> kids_ok P lo hi es = kids_ok Q lo hi es"
  by (induction P lo hi es rule: kids_ok.induct) auto

lemma frame:
  "same_on t t' (set (blocks t d b)) \<Longrightarrow>
    blocks t' d b = blocks t d b \<and> leaves t' d b k = leaves t d b k \<and> tree_ok sniff t' d b lo hi = tree_ok sniff t d b lo hi"
proof (induction d arbitrary: b k lo hi)
  case 0
  then show ?case by (simp add: same_on_def)
next
  case (Suc d)
  have b: "t_vol t' b = t_vol t b" "t_epn t' = t_epn t" using Suc.prems by (simp_all add: same_on_def)
  show ?case
  proof (cases "t_vol t b")
    case (Node n)
    have kid: "blocks t' d (eblock e) = blocks t d (eblock e) \<and> leaves t' d (eblock e) k = leaves t d (eblock e) k \<and>
        tree_ok sniff t' d (eblock e) l h = tree_ok sniff t d (eblock e) l h" if "e \<in> set (live n)" for e k l h
      by (rule Suc.IH, rule same_on_mono [OF Suc.prems]) (use that in \<open>auto simp: Node\<close>)
    have "kids_ok (tree_ok sniff t' d) lo hi (live n) = kids_ok (tree_ok sniff t d) lo hi (live n)"
      by (rule kids_ok_cong) (simp add: kid)
    then show ?thesis using b Node kid by (auto cong: map_cong)
  qed (use b in simp)
qed

lemma frame_kids:
  assumes "same_on t t' (set (kid_blocks t d es))"
  shows "kid_blocks t' d es = kid_blocks t d es" and "kids t' d es = kids t d es"
    and "kids_ok (tree_ok sniff t' d) lo hi es = kids_ok (tree_ok sniff t d) lo hi es"
proof -
  have kid: "blocks t' d (eblock e) = blocks t d (eblock e) \<and> leaves t' d (eblock e) k = leaves t d (eblock e) k \<and>
      tree_ok sniff t' d (eblock e) l h = tree_ok sniff t d (eblock e) l h" if "e \<in> set es" for e k l h
    by (rule frame, rule same_on_mono [OF assms]) (use that in auto)
  show "kid_blocks t' d es = kid_blocks t d es" "kids t' d es = kids t d es" using kid by (auto cong: map_cong)
  show "kids_ok (tree_ok sniff t' d) lo hi es = kids_ok (tree_ok sniff t d) lo hi es" by (rule kids_ok_cong) (simp add: kid)
qed

lemma leaf_blocks: "(k, x) \<in> set (leaves t d b lo) \<Longrightarrow> x \<in> set (blocks t d b)"
proof (induction d arbitrary: b lo)
  case (Suc d)
  then show ?case by (cases "t_vol t b") auto
qed simp

lemma leaves_leaf: "tree_ok sniff t d b lo hi \<Longrightarrow> (k, x) \<in> set (leaves t d b lo) \<Longrightarrow> \<exists>l. t_vol t x = Leaf l"
proof (induction d arbitrary: b lo hi)
  case (Suc d)
  then obtain n where n: "t_vol t b = Node n" "kids_ok (tree_ok sniff t d) lo hi (live n)" by auto
  from Suc.prems(2) n(1) obtain e where e: "e \<in> set (live n)" "(k, x) \<in> set (leaves t d (eblock e) (ekey e))" by auto
  then obtain i where "i < length (live n)" "live n ! i = e" by (metis in_set_conv_nth)
  then have "tree_ok sniff t d (eblock e) (ekey e) (key_after (live n) hi i)" using kids_ok_nth [OF n(2)] by metis
  then show ?case using Suc.IH e(2) by blast
qed auto

section \<open>The context of a cursor\<close>

definition first_key :: "u64 \<Rightarrow> index_entry list \<Rightarrow> u64" where
  "first_key hi ys = (case ys of [] \<Rightarrow> hi | y # _ \<Rightarrow> ekey y)"

definition holed :: "(u64 \<Rightarrow> u64 \<Rightarrow> u64 \<Rightarrow> bool) \<Rightarrow> u64 \<Rightarrow> u64 \<Rightarrow> index_entry list \<Rightarrow> index_entry \<Rightarrow> index_entry list \<Rightarrow> bool" where
  "holed P lo hi xs e ys \<longleftrightarrow> (if xs = [] then ekey e = lo else kids_ok P lo (ekey e) xs) \<and> ekey e < first_key hi ys \<and>
     (ys \<noteq> [] \<longrightarrow> kids_ok P (first_key hi ys) hi ys)"

lemma kids_ok_holed:
  "kids_ok P lo hi (xs @ e # ys) \<longleftrightarrow> holed P lo hi xs e ys \<and> P (eblock e) (ekey e) (first_key hi ys)"
proof -
  have "kids_ok P l hi (e # ys) \<longleftrightarrow> ekey e = l \<and> ekey e < first_key hi ys \<and> (ys \<noteq> [] \<longrightarrow> kids_ok P (first_key hi ys) hi ys) \<and>
      P (eblock e) (ekey e) (first_key hi ys)" for l by (cases ys) (auto simp: first_key_def)
  then show ?thesis by (cases "xs = []") (auto simp: holed_def kids_ok_append)
qed

lemma kids_ok_two:
  assumes "holed P lo hi xs e ys" and "ekey e < ekey f" and "ekey f < first_key hi ys"
    and "P (eblock e) (ekey e) (ekey f)" and "P (eblock f) (ekey f) (first_key hi ys)"
  shows "kids_ok P lo hi (xs @ e # f # ys)"
proof -
  have "kids_ok P (ekey f) hi (f # ys)" using assms by (cases ys) (auto simp: holed_def first_key_def)
  then show ?thesis using assms unfolding kids_ok_holed by (auto simp: holed_def first_key_def)
qed

lemma key_after_append: "key_after (xs @ e # ys) hi (length xs) = first_key hi ys"
  by (cases ys) (simp_all add: key_after_def first_key_def nth_append)

fun ctx :: "('l \<Rightarrow> bool) \<Rightarrow> 'l tree \<Rightarrow> nat \<Rightarrow> cursor \<Rightarrow> u64 \<Rightarrow> u64 \<Rightarrow> u64 \<Rightarrow> bool" where
  "ctx sniff t d [] blk lo hi = (blk = t_root t \<and> d = t_depth t \<and> lo = 0 \<and> hi = TUXKEY_LIMIT)"
| "ctx sniff t d ((b, i) # p) blk lo hi =
     (\<exists>n blo bhi xs e ys. t_vol t b = Node n \<and> bnode_sniff n \<and> node_ok (t_epn t) n \<and> live n = xs @ e # ys \<and> i = Suc (length xs) \<and>
        blk = eblock e \<and> lo = ekey e \<and> hi = first_key bhi ys \<and> holed (tree_ok sniff t d) blo bhi xs e ys \<and>
        ctx sniff t (Suc d) p b blo bhi)"

lemma ctx_ConsI:
  "t_vol t b = Node n \<Longrightarrow> bnode_sniff n \<Longrightarrow> node_ok (t_epn t) n \<Longrightarrow> live n = xs @ e # ys \<Longrightarrow> i = Suc (length xs) \<Longrightarrow>
   blk = eblock e \<Longrightarrow> lo = ekey e \<Longrightarrow> hi = first_key bhi ys \<Longrightarrow> holed (tree_ok sniff t d) blo bhi xs e ys \<Longrightarrow>
   ctx sniff t (Suc d) p b blo bhi \<Longrightarrow> ctx sniff t d ((b, i) # p) blk lo hi"
  unfolding ctx.simps by (intro exI conjI)

fun ctx_blocks :: "'l tree \<Rightarrow> nat \<Rightarrow> cursor \<Rightarrow> u64 list" where
  "ctx_blocks t d [] = []"
| "ctx_blocks t d ((b, i) # p) =
     b # (case t_vol t b of Node n \<Rightarrow> kid_blocks t d (take (i - 1) (live n)) @ kid_blocks t d (drop i (live n)) | Leaf _ \<Rightarrow> []) @
     ctx_blocks t (Suc d) p"

lemma ctx_of_spine: "btree_ok sniff t \<Longrightarrow> spine t d p blk lo hi \<Longrightarrow> ctx sniff t d p blk lo hi"
proof (induction p arbitrary: d blk lo hi)
  case (Cons l p)
  obtain b i where l: "l = (b, i)" by (cases l)
  from Cons.prems(2) obtain n blo bhi where n: "t_vol t b = Node n" "0 < i" "i \<le> length (live n)" "blk = eblock (live n ! (i - 1))"
    "lo = ekey (live n ! (i - 1))" "hi = key_after (live n) bhi (i - 1)" "spine t (Suc d) p b blo bhi" by (auto simp: l)
  from spine_ok [OF Cons.prems(1) n(7)] n(1) have ok: "bnode_sniff n" "node_ok (t_epn t) n" "kids_ok (tree_ok sniff t d) blo bhi (live n)"
    by simp_all
  let ?xs = "take (i - 1) (live n)" and ?e = "live n ! (i - 1)" and ?ys = "drop i (live n)"
  have j: "i - 1 < length (live n)" using n(2,3) by linarith
  have live: "live n = ?xs @ ?e # ?ys" using id_take_nth_drop [OF j] n(2) by simp
  have len: "i = Suc (length ?xs)" using j n(2) by simp
  have "hi = first_key bhi ?ys" using n(6) key_after_append [of ?xs ?e ?ys bhi] live len by (metis diff_Suc_1)
  moreover have "holed (tree_ok sniff t d) blo bhi ?xs ?e ?ys" using ok(3) live kids_ok_holed by metis
  ultimately show ?case unfolding l ctx.simps using n ok live len Cons.IH [OF Cons.prems(1) n(7)]
    by (intro exI [of _ n] exI [of _ blo] exI [of _ bhi] exI [of _ ?xs] exI [of _ ?e] exI [of _ ?ys] conjI) assumption+
qed simp

lemma spine_of_ctx: "ctx sniff t d p blk lo hi \<Longrightarrow> spine t d p blk lo hi"
proof (induction p arbitrary: d blk lo hi)
  case (Cons l p)
  obtain b i where l: "l = (b, i)" by (cases l)
  from Cons.prems obtain n blo bhi xs e ys where n: "t_vol t b = Node n" "live n = xs @ e # ys" "i = Suc (length xs)"
    "blk = eblock e" "lo = ekey e" "hi = first_key bhi ys" "ctx sniff t (Suc d) p b blo bhi" by (auto simp: l)
  then show ?case using Cons.IH [OF n(7)] key_after_append [of xs e ys bhi] unfolding l spine.simps
    by (intro exI [of _ n] exI [of _ blo] exI [of _ bhi]) simp
qed simp

lemma btree_of_ctx: "ctx sniff t d p blk lo hi \<Longrightarrow> tree_ok sniff t d blk lo hi \<Longrightarrow> 0 < t_depth t \<Longrightarrow> btree_ok sniff t"
proof (induction p arbitrary: d blk lo hi)
  case (Cons l p)
  obtain b i where l: "l = (b, i)" by (cases l)
  from Cons.prems obtain n blo bhi xs e ys where n: "t_vol t b = Node n" "bnode_sniff n" "node_ok (t_epn t) n" "live n = xs @ e # ys"
    "blk = eblock e" "lo = ekey e" "hi = first_key bhi ys" "holed (tree_ok sniff t d) blo bhi xs e ys" "ctx sniff t (Suc d) p b blo bhi"
    by (auto simp: l)
  have "kids_ok (tree_ok sniff t d) blo bhi (live n)" using n(5-8) Cons.prems(2) by (simp add: n(4) kids_ok_holed)
  then have "tree_ok sniff t (Suc d) b blo bhi" using n by simp
  then show ?case using Cons.IH [OF n(9)] Cons.prems(3) by blast
qed (simp add: btree_ok_def)

lemma ctx_mset: "spine t d p blk lo hi \<Longrightarrow> mset (tree_blocks t) = mset (blocks t d blk @ ctx_blocks t d p)"
proof (induction p arbitrary: d blk lo hi)
  case (Cons l p)
  obtain b i where l: "l = (b, i)" by (cases l)
  from Cons.prems obtain n blo bhi where n: "t_vol t b = Node n" "0 < i" "i \<le> length (live n)" "blk = eblock (live n ! (i - 1))"
    "spine t (Suc d) p b blo bhi" by (auto simp: l)
  have j: "i - 1 < length (live n)" using n(2,3) by linarith
  have "live n = take (i - 1) (live n) @ live n ! (i - 1) # drop i (live n)" using id_take_nth_drop [OF j] n(2) by simp
  then have "kid_blocks t d (live n) = kid_blocks t d (take (i - 1) (live n) @ live n ! (i - 1) # drop i (live n))" by (rule arg_cong)
  then have "kid_blocks t d (live n) = kid_blocks t d (take (i - 1) (live n)) @ blocks t d blk @ kid_blocks t d (drop i (live n))"
    by (simp only: map_append list.map concat_append concat.simps n(4))
  then show ?case using Cons.IH [OF n(5)] n(1) by (simp add: l)
qed (auto simp: tree_blocks_def)

lemma ctx_distinct: "spine t d p blk lo hi \<Longrightarrow> distinct (tree_blocks t) \<longleftrightarrow> distinct (blocks t d blk @ ctx_blocks t d p)"
  by (rule mset_eq_imp_distinct_iff) (rule ctx_mset)

lemma ctx_frame:
  "same_on t t' (set (ctx_blocks t d p)) \<Longrightarrow> t_root t' = t_root t \<Longrightarrow> t_depth t' = t_depth t \<Longrightarrow> ctx sniff t d p blk lo hi \<Longrightarrow>
    ctx sniff t' d p blk lo hi \<and> ctx_blocks t' d p = ctx_blocks t d p \<and> behind t' d p = behind t d p \<and> ahead t' d p = ahead t d p"
proof (induction p arbitrary: d blk lo hi)
  case (Cons l p)
  obtain b i where l: "l = (b, i)" by (cases l)
  from Cons.prems(4) obtain n blo bhi xs e ys where n: "t_vol t b = Node n" "bnode_sniff n" "node_ok (t_epn t) n" "live n = xs @ e # ys"
    "i = Suc (length xs)" "blk = eblock e" "lo = ekey e" "hi = first_key bhi ys" "holed (tree_ok sniff t d) blo bhi xs e ys"
    "ctx sniff t (Suc d) p b blo bhi" by (auto simp: l)
  have same: "t_vol t' b = t_vol t b" "t_epn t' = t_epn t" "same_on t t' (set (kid_blocks t d xs))" "same_on t t' (set (kid_blocks t d ys))"
    "same_on t t' (set (ctx_blocks t (Suc d) p))"
    using Cons.prems(1) n(1,4,5) by (auto simp: same_on_def l)
  note fx = frame_kids(1,2) [OF same(3)] frame_kids(3) [OF same(3), of sniff]
    and fy = frame_kids(1,2) [OF same(4)] frame_kids(3) [OF same(4), of sniff]
  have "holed (tree_ok sniff t' d) blo bhi xs e ys" using n(9) fx(3) fy(3) by (auto simp: holed_def)
  moreover note Cons.IH [OF same(5) Cons.prems(2,3) n(10)]
  moreover have "t_vol t' b = Node n" "node_ok (t_epn t') n" using n(1,3) same(1,2) by simp_all
  note ctx_ConsI [OF this(1) n(2) this(2) n(4-8)]
  ultimately have "ctx sniff t' d ((b, i) # p) blk lo hi" by blast
  then show ?case using n(1,4,5) same(1) fx(1,2) fy(1,2) Cons.IH [OF same(5) Cons.prems(2,3) n(10)] unfolding l by simp
qed simp

section \<open>Redirection\<close>

text \<open>\<open>btree->ops->balloc\<close> of one block is the function \<open>alloc\<close> on the superblock.\<close>

definition new_block :: "('s \<Rightarrow> err \<times> u64 \<times> 's) \<Rightarrow> 'l tree \<Rightarrow> 's \<Rightarrow> (errno + u64) \<times> 's" where
  "new_block alloc t s =
     (case alloc s of
        (Some e, _, s) \<Rightarrow> (Inl e, s)
      | (None, b, s) \<Rightarrow> if t_nomem t b then (Inl ENOMEM, s) else (Inr b, s))"

definition set_block :: "u64 \<Rightarrow> 'l vblock \<Rightarrow> 'l tree \<Rightarrow> 'l tree" where
  "set_block b v t = t\<lparr>t_vol := (t_vol t)(b := v)\<rparr>"

definition mark_leaf :: "u64 \<Rightarrow> 'l tree \<Rightarrow> 'l tree" where
  "mark_leaf b t = t\<lparr>t_dirty := (t_dirty t)(b := True)\<rparr>"

definition mark_unify :: "u64 \<Rightarrow> 'l tree \<Rightarrow> 'l tree" where
  "mark_unify b t = t\<lparr>t_unify := (t_unify t)(b := True)\<rparr>"

definition add_log :: "log_rec \<Rightarrow> 'l tree \<Rightarrow> 'l tree" where
  "add_log r t = t\<lparr>t_log := t_log t @ [r]\<rparr>"

text \<open>One level of \<open>cursor_redirect\<close>, with the block that is in the cursor afterwards. \<open>outer\<close> are the levels above.\<close>

definition redirect_copy :: "bool \<Rightarrow> u64 \<Rightarrow> u64 \<Rightarrow> 'l tree \<Rightarrow> 'l tree" where
  "redirect_copy is_leaf oldblock newblock t =
     (let t = set_block newblock (t_vol t oldblock) t in
      if is_leaf
      then (add_log (Leaf_redirect_rec oldblock newblock) (mark_leaf newblock t))\<lparr>t_defree := t_defree t @ [oldblock]\<rparr>
      else (add_log (Bnode_redirect_rec oldblock newblock) (mark_unify newblock t))\<lparr>t_deunify := t_deunify t @ [oldblock]\<rparr>)"

definition update_parent :: "cursor \<Rightarrow> u64 \<Rightarrow> u64 \<Rightarrow> 'l tree \<Rightarrow> 'l tree option" where
  "update_parent outer oldblock newblock t =
     (case outer of
        [] \<Rightarrow> if oldblock \<noteq> t_root t then None else Some (t\<lparr>t_root := newblock\<rparr>)
      | (parent, i) # _ \<Rightarrow>
          (case node_of t parent of
             None \<Rightarrow> None
           | Some n \<Rightarrow>
               if \<not> (1 \<le> i \<and> i - 1 < length (entries n)) then None
               else let e = entries n ! (i - 1) in
                 Some (add_log (Bnode_update_rec parent newblock (ekey e))
                        (set_block parent (Node (n\<lparr>entries := (entries n)[i - 1 := e\<lparr>eblock := newblock\<rparr>]\<rparr>)) t))))"

definition redirect_level ::
  "('s \<Rightarrow> err \<times> u64 \<times> 's) \<Rightarrow> cursor \<Rightarrow> u64 \<Rightarrow> bool \<Rightarrow> 'l tree \<Rightarrow> 's \<Rightarrow> ((errno + u64) \<times> 'l tree \<times> 's) option" where
  "redirect_level alloc outer b is_leaf t s =
     (if (if is_leaf then t_dirty t b else t_unify t b) then Some (Inr b, t, s)
      else case new_block alloc t s of
             (Inl e, s) \<Rightarrow> Some (Inl e, t, s)
           | (Inr nb, s) \<Rightarrow> map_option (\<lambda>t. (Inr nb, t, s)) (update_parent outer b nb (redirect_copy is_leaf b nb t)))"

text \<open>The loop from the root, over the levels that are left, to the leaf.\<close>

fun redirect_loop ::
  "('s \<Rightarrow> err \<times> u64 \<times> 's) \<Rightarrow> cursor \<Rightarrow> (u64 \<times> nat) list \<Rightarrow> 'l tree \<Rightarrow> 's \<Rightarrow> (err \<times> cursor \<times> 'l tree \<times> 's) option" where
  "redirect_loop alloc outer [] t s = Some (None, outer, t, s)"
| "redirect_loop alloc outer ((b, i) # rest) t s =
     (case redirect_level alloc outer b (length outer = t_depth t) t s of
        None \<Rightarrow> None
      | Some (Inl e, t, s) \<Rightarrow> Some (Some e, rev ((b, i) # rest) @ outer, t, s)
      | Some (Inr b', t, s) \<Rightarrow> redirect_loop alloc ((b', i) # outer) rest t s)"

definition cursor_redirect ::
  "('s \<Rightarrow> err \<times> u64 \<times> 's) \<Rightarrow> cursor \<Rightarrow> 'l tree \<Rightarrow> 's \<Rightarrow> (err \<times> cursor \<times> 'l tree \<times> 's) option" where
  "cursor_redirect alloc p t s =
     (case redirect_loop alloc [] (rev p) t s of
        None \<Rightarrow> None
      | Some (None, p, t, s) \<Rightarrow> if cursor_check t p then Some (None, p, t, s) else None
      | Some (Some e, p, t, s) \<Rightarrow> Some (Some e, p, t, s))"

text \<open>What the tree relies on: a new block is one that is not in use.\<close>

locale block_alloc =
  fixes alloc :: "'s \<Rightarrow> err \<times> u64 \<times> 's"
    and used :: "'s \<Rightarrow> u64 set"
    and inv :: "'s \<Rightarrow> bool"
  assumes alloc_ok: "inv s \<Longrightarrow> alloc s = (None, b, s') \<Longrightarrow> inv s' \<and> b \<notin> used s \<and> used s' = insert b (used s)"
    and alloc_fail: "inv s \<Longrightarrow> alloc s = (Some e, b, s') \<Longrightarrow> inv s' \<and> used s \<subseteq> used s'"
begin

lemma new_block_ok: "inv s \<Longrightarrow> new_block alloc t s = (Inr b, s') \<Longrightarrow> inv s' \<and> b \<notin> used s \<and> used s' = insert b (used s)"
  by (auto simp: new_block_def alloc_ok split: prod.splits option.splits if_splits dest: alloc_ok)

lemma new_block_fail: "inv s \<Longrightarrow> new_block alloc t s = (Inl e, s') \<Longrightarrow> inv s' \<and> used s \<subseteq> used s'"
  by (auto simp: new_block_def split: prod.splits option.splits if_splits dest: alloc_ok alloc_fail)

end

text \<open>The invariant of a tree on a volume whose blocks \<open>U\<close> are in use.\<close>

definition tree_inv :: "('l \<Rightarrow> bool) \<Rightarrow> 'l tree \<Rightarrow> u64 set \<Rightarrow> bool" where
  "tree_inv sniff t U \<longleftrightarrow> btree_ok sniff t \<and> distinct (tree_blocks t) \<and> set (tree_blocks t) \<subseteq> U \<and> 2 \<le> t_epn t"

text \<open>The leaves with what they hold.\<close>

definition cont :: "'l tree \<Rightarrow> (u64 \<times> u64) list \<Rightarrow> (u64 \<times> 'l vblock) list" where
  "cont t ls = map (\<lambda>(k, b). (k, t_vol t b)) ls"

lemma cont_append [simp]: "cont t (xs @ ys) = cont t xs @ cont t ys"
  by (simp add: cont_def)

lemma cont_cong: "\<forall>(k, x) \<in> set ls. t_vol t' x = t_vol t x \<Longrightarrow> cont t' ls = cont t ls"
  by (auto simp: cont_def)

text \<open>A subtree under a copy of its top block.\<close>

lemma relabel:
  assumes "tree_ok sniff t d b lo hi" and "t_vol t' nb = t_vol t b" and "same_on t t' (set (tl (blocks t d b)))"
  shows "tree_ok sniff t' d nb lo hi" and "blocks t' d nb = nb # tl (blocks t d b)"
    and "leaves t' d nb lo = (if d = 0 then [(lo, nb)] else leaves t d b lo)"
proof -
  have "tree_ok sniff t' d nb lo hi \<and> blocks t' d nb = nb # tl (blocks t d b) \<and>
      leaves t' d nb lo = (if d = 0 then [(lo, nb)] else leaves t d b lo)"
  proof (cases d)
    case (Suc k)
    then obtain n where n: "t_vol t b = Node n" "bnode_sniff n" "node_ok (t_epn t) n" "kids_ok (tree_ok sniff t k) lo hi (live n)"
      using assms(1) by auto
    have "same_on t t' (set (kid_blocks t k (live n)))" using assms(3) n(1) Suc by simp
    note f = frame_kids(1,2) [OF this] frame_kids(3) [OF this, of sniff]
    have "t_epn t' = t_epn t" using assms(3) by (simp add: same_on_def)
    then show ?thesis using n assms(2) f Suc by simp
  qed (use assms in simp)
  then show "tree_ok sniff t' d nb lo hi" "blocks t' d nb = nb # tl (blocks t d b)"
    "leaves t' d nb lo = (if d = 0 then [(lo, nb)] else leaves t d b lo)" by blast+
qed

lemma blocks_Cons: "\<exists>bs. blocks t d b = b # bs"
  by (cases d) auto

text \<open>The blocks that are handed to a deferred free.\<close>

definition freed :: "'l tree \<Rightarrow> u64 list" where
  "freed t = t_defree t @ t_deunify t"

text \<open>The context for the copy, after the update of the parent.\<close>

lemma update_parent_ctx:
  assumes c: "ctx sniff t d outer b lo hi" and dist: "distinct (b # ctx_blocks t d outer)" and nb: "nb \<notin> set (ctx_blocks t d outer)"
  shows "\<exists>t'. update_parent outer b nb (redirect_copy leaf b nb t) = Some t' \<and> ctx sniff t' d outer nb lo hi \<and>
    ctx_blocks t' d outer = ctx_blocks t d outer \<and> behind t' d outer = behind t d outer \<and> ahead t' d outer = ahead t d outer \<and>
    (\<forall>x. x \<noteq> nb \<and> x \<notin> fst ` set (take 1 outer) \<longrightarrow> t_vol t' x = t_vol t x) \<and> t_vol t' nb = t_vol t b \<and>
    (\<forall>x \<in> fst ` set (take 1 outer). \<exists>n. t_vol t x = Node n) \<and>
    t_epn t' = t_epn t \<and> t_depth t' = t_depth t \<and> t_readerr t' = t_readerr t \<and> t_nomem t' = t_nomem t \<and>
    t_dirty t' = (if leaf then (t_dirty t)(nb := True) else t_dirty t) \<and>
    t_unify t' = (if leaf then t_unify t else (t_unify t)(nb := True)) \<and> mset (freed t') = add_mset b (mset (freed t))"
proof -
  let ?c = "redirect_copy leaf b nb t"
  have cv: "t_vol ?c = (t_vol t)(nb := t_vol t b)" "t_epn ?c = t_epn t" "t_depth ?c = t_depth t" "t_root ?c = t_root t"
    "t_dirty ?c = (if leaf then (t_dirty t)(nb := True) else t_dirty t)"
    "t_unify ?c = (if leaf then t_unify t else (t_unify t)(nb := True))" "t_readerr ?c = t_readerr t" "t_nomem ?c = t_nomem t"
    "mset (freed ?c) = add_mset b (mset (freed t))"
    by (simp_all add: freed_def redirect_copy_def set_block_def add_log_def mark_leaf_def mark_unify_def Let_def)
  show ?thesis
  proof (cases outer)
    case Nil
    then show ?thesis using c cv by (simp add: update_parent_def freed_def)
  next
    case (Cons l p)
    obtain pb i where l: "l = (pb, i)" by (cases l)
    from c obtain n blo bhi xs e ys where n: "t_vol t pb = Node n" "bnode_sniff n" "node_ok (t_epn t) n" "live n = xs @ e # ys"
      "i = Suc (length xs)" "b = eblock e" "lo = ekey e" "hi = first_key bhi ys" "holed (tree_ok sniff t d) blo bhi xs e ys"
      "ctx sniff t (Suc d) p pb blo bhi" by (auto simp: Cons l)
    let ?e = "e\<lparr>eblock := nb\<rparr>" and ?n = "n\<lparr>entries := (entries n)[i - 1 := (entries n ! (i - 1))\<lparr>eblock := nb\<rparr>]\<rparr>"
    have pbn: "pb \<noteq> nb" using nb by (auto simp: Cons l)
    have len: "length (live n) = bcount n" by (rule length_live [OF n(3)])
    have i: "length xs < bcount n" "bcount n \<le> length (entries n)" using len n(3,4) by (simp_all add: node_ok_def)
    have ent: "entries n ! (i - 1) = e" using live_nth [OF n(3) i(1)] n(4,5) by simp
    have live: "live ?n = xs @ ?e # ys"
    proof -
      have "live ?n = (live n)[i - 1 := ?e]" unfolding live_def ent by (simp add: take_update_swap)
      then show ?thesis using n(4,5) by simp
    qed
    define t' where "t' = add_log (Bnode_update_rec pb nb (ekey e)) (set_block pb (Node ?n) ?c)"
    have run: "update_parent outer b nb ?c = Some t'"
      using n(1,5) i pbn unfolding t'_def by (simp add: update_parent_def Cons l node_of_def cv(1) ent [unfolded n(5), simplified])
    have v: "t_vol t' = (t_vol t)(nb := t_vol t b, pb := Node ?n)" "t_epn t' = t_epn t" "t_root t' = t_root t" "t_depth t' = t_depth t"
      "t_dirty t' = (if leaf then (t_dirty t)(nb := True) else t_dirty t)"
      "t_unify t' = (if leaf then t_unify t else (t_unify t)(nb := True))" "t_readerr t' = t_readerr t" "t_nomem t' = t_nomem t"
      "mset (freed t') = add_mset b (mset (freed t))"
      using cv(9) by (simp_all add: t'_def add_log_def set_block_def cv(1-8) freed_def)
    have blocks: "ctx_blocks t d outer = pb # (kid_blocks t d xs @ kid_blocks t d ys) @ ctx_blocks t (Suc d) p"
      using n(1,4,5) by (simp add: Cons l)
    have same: "same_on t t' (set (kid_blocks t d xs))" "same_on t t' (set (kid_blocks t d ys))" "same_on t t' (set (ctx_blocks t (Suc d) p))"
      using dist nb v(1,2) unfolding blocks by (auto simp: same_on_def)
    note fx = frame_kids(1,2) [OF same(1)] frame_kids(3) [OF same(1), of sniff]
      and fy = frame_kids(1,2) [OF same(2)] frame_kids(3) [OF same(2), of sniff]
      and fp = ctx_frame [OF same(3) v(3,4) n(10)]
    have "holed (tree_ok sniff t' d) blo bhi xs ?e ys" using n(9) fx(3) fy(3) by (auto simp: holed_def)
    moreover have "t_vol t' pb = Node ?n" "bnode_sniff ?n" "node_ok (t_epn t') ?n"
      using n(2,3) v by (simp_all add: bnode_sniff_def node_ok_def)
    ultimately have "ctx sniff t' d ((pb, i) # p) nb lo hi"
      using fp n(7,8) by (intro ctx_ConsI [where blo = blo and bhi = bhi, OF _ _ _ live n(5)]) simp_all
    moreover have "t_vol t' nb = t_vol t b" using pbn v(1) by simp
    moreover have "ctx_blocks t' d outer = ctx_blocks t d outer" "behind t' d outer = behind t d outer" "ahead t' d outer = ahead t d outer"
      using n(1,4,5) v(1) live fx(1,2) fy(1,2) fp by (simp_all add: Cons l)
    moreover have "\<forall>x. x \<noteq> nb \<and> x \<notin> fst ` set (take 1 outer) \<longrightarrow> t_vol t' x = t_vol t x" "\<forall>x \<in> fst ` set (take 1 outer). \<exists>n. t_vol t x = Node n"
      using v(1) n(1) by (simp_all add: Cons l)
    ultimately show ?thesis using run v(2-) unfolding Cons l by (intro exI [of _ t'] conjI) assumption+
  qed
qed

text \<open>The blocks that are dirty may be changed in place; the others keep their bytes. No block is lost: what is
  taken out of the tree is handed to a deferred free, and what comes in has not been in use.\<close>

definition dirty_block :: "'l tree \<Rightarrow> u64 \<Rightarrow> bool" where
  "dirty_block t x \<longleftrightarrow> t_dirty t x \<or> t_unify t x"

definition cow :: "'l tree \<Rightarrow> 'l tree \<Rightarrow> u64 set \<Rightarrow> bool" where
  "cow t t' U \<longleftrightarrow> (\<forall>x \<in> U. (\<not> dirty_block t x \<longrightarrow> t_vol t' x = t_vol t x) \<and> t_dirty t' x = t_dirty t x \<and> t_unify t' x = t_unify t x) \<and>
     (\<exists>N. set_mset N \<inter> U = {} \<and> mset (tree_blocks t') + mset (freed t') = mset (tree_blocks t) + mset (freed t) + N)"

lemma cow_refl: "cow t t U"
  by (auto simp: cow_def intro: exI [of _ "{#}"])

lemma cow_trans:
  assumes "cow t t' U" and "cow t' t'' U"
  shows "cow t t'' U"
proof -
  obtain N N' where "set_mset N \<inter> U = {}" "mset (tree_blocks t') + mset (freed t') = mset (tree_blocks t) + mset (freed t) + N"
    "set_mset N' \<inter> U = {}" "mset (tree_blocks t'') + mset (freed t'') = mset (tree_blocks t') + mset (freed t') + N'"
    using assms by (auto simp: cow_def)
  then have "set_mset (N + N') \<inter> U = {} \<and> mset (tree_blocks t'') + mset (freed t'') = mset (tree_blocks t) + mset (freed t) + (N + N')"
    by (auto simp: add.assoc)
  then show ?thesis using assms by (auto simp: cow_def dirty_block_def)
qed

lemma cow_mono: "cow t t' U \<Longrightarrow> V \<subseteq> U \<Longrightarrow> cow t t' V"
  unfolding cow_def by blast

text \<open>What a change keeps besides the tree's shape.\<close>

definition kept :: "'l tree \<Rightarrow> 'l tree \<Rightarrow> bool" where
  "kept t t' \<longleftrightarrow> t_epn t' = t_epn t \<and> t_depth t' = t_depth t \<and> t_readerr t' = t_readerr t \<and> t_nomem t' = t_nomem t"

lemma kept_refl [simp]: "kept t t"
  by (simp add: kept_def)

lemma kept_trans: "kept t t' \<Longrightarrow> kept t' t'' \<Longrightarrow> kept t t''"
  by (simp add: kept_def)

context block_alloc begin

lemma redirect_level_spec:
  assumes c: "ctx sniff t d outer b lo hi" and sub: "tree_ok sniff t d b lo hi" and inv: "tree_inv sniff t (used s)" and sinv: "inv s"
    and leaf: "leaf \<longleftrightarrow> d = 0" and par: "\<forall>x \<in> fst ` set outer. t_unify t x"
  shows "(\<exists>e s'. redirect_level alloc outer b leaf t s = Some (Inl e, t, s') \<and> inv s' \<and> used s \<subseteq> used s') \<or>
    (\<exists>b' t' s'. redirect_level alloc outer b leaf t s = Some (Inr b', t', s') \<and> inv s' \<and> used s \<subseteq> used s' \<and>
       ctx sniff t' d outer b' lo hi \<and> tree_ok sniff t' d b' lo hi \<and> tree_inv sniff t' (used s') \<and> kept t t' \<and> cow t t' (used s) \<and>
       t_vol t' b' = t_vol t b \<and> (if leaf then t_dirty t' b' else t_unify t' b') \<and> (\<forall>x \<in> fst ` set outer. t_unify t' x) \<and>
       cont t' (tree_leaves t') = cont t (tree_leaves t) \<and> same_on t t' (set (tl (blocks t d b))))"
proof (cases "if leaf then t_dirty t b else t_unify t b")
  case True
  then show ?thesis using assms by (intro disjI2) (simp add: redirect_level_def same_on_def cow_refl)
next
  case False
  have ok: "btree_ok sniff t" and dist: "distinct (tree_blocks t)" and sub_used: "set (tree_blocks t) \<subseteq> used s" and epn: "2 \<le> t_epn t"
    using inv by (simp_all add: tree_inv_def)
  have sp: "spine t d outer b lo hi" by (rule spine_of_ctx [OF c])
  have all: "distinct (blocks t d b @ ctx_blocks t d outer)" using ctx_distinct [OF sp] dist by simp
  have allset: "set (blocks t d b) \<union> set (ctx_blocks t d outer) = set (tree_blocks t)"
    using ctx_mset [OF sp] by (metis set_append set_mset_mset)
  obtain bs where bs: "blocks t d b = b # bs" using blocks_Cons by metis
  show ?thesis
  proof (cases "new_block alloc t s")
    case (Pair r s')
    show ?thesis
    proof (cases r)
      case (Inl e)
      then show ?thesis using new_block_fail [OF sinv] Pair False by (intro disjI1) (simp add: redirect_level_def)
    next
      case (Inr nb)
      have nb: "inv s'" "nb \<notin> used s" "used s' = insert nb (used s)" using new_block_ok [OF sinv] Pair Inr by blast+
      have nbt: "nb \<notin> set (tree_blocks t)" using nb(2) sub_used by blast
      then have "nb \<notin> set (ctx_blocks t d outer)" "distinct (b # ctx_blocks t d outer)" using allset all bs by auto
      from update_parent_ctx [OF c this(2,1), of leaf] obtain t' where t':
        "update_parent outer b nb (redirect_copy leaf b nb t) = Some t'" "ctx sniff t' d outer nb lo hi"
        "ctx_blocks t' d outer = ctx_blocks t d outer" "behind t' d outer = behind t d outer" "ahead t' d outer = ahead t d outer"
        "\<forall>x. x \<noteq> nb \<and> x \<notin> fst ` set (take 1 outer) \<longrightarrow> t_vol t' x = t_vol t x" "t_vol t' nb = t_vol t b"
        "\<forall>x \<in> fst ` set (take 1 outer). \<exists>n. t_vol t x = Node n"
        "t_epn t' = t_epn t" "t_depth t' = t_depth t" "t_readerr t' = t_readerr t" "t_nomem t' = t_nomem t"
        "t_dirty t' = (if leaf then (t_dirty t)(nb := True) else t_dirty t)"
        "t_unify t' = (if leaf then t_unify t else (t_unify t)(nb := True))" "mset (freed t') = add_mset b (mset (freed t))" by blast
      have run: "redirect_level alloc outer b leaf t s = Some (Inr nb, t', s')" using False Pair Inr t'(1) by (simp add: redirect_level_def)
      have top: "fst ` set (take 1 outer) \<subseteq> set (ctx_blocks t d outer)" "fst ` set (take 1 outer) \<subseteq> fst ` set outer"
        by (cases outer; force)+
      have same: "same_on t t' (set (tl (blocks t d b)))"
      proof -
        have disj: "set bs \<inter> set (ctx_blocks t d outer) = {}" and "nb \<notin> set bs" using all nbt allset unfolding bs by auto
        then have "x \<noteq> nb \<and> x \<notin> fst ` set (take 1 outer)" if "x \<in> set bs" for x using that top(1) by blast
        then show ?thesis unfolding same_on_def using t'(6,9) by (simp add: bs)
      qed
      note r = relabel [OF sub t'(7) same]
      have sp': "spine t' d outer nb lo hi" by (rule spine_of_ctx [OF t'(2)])
      have ok': "btree_ok sniff t'" using btree_of_ctx [OF t'(2) r(1)] ok t'(10) by (simp add: btree_ok_def)
      have "distinct (tree_blocks t')"
        using ctx_distinct [OF sp'] all nbt allset unfolding r(2) t'(3) bs by auto
      moreover have "set (tree_blocks t') \<subseteq> used s'"
      proof -
        have "set (tree_blocks t') = set (blocks t' d nb @ ctx_blocks t' d outer)" using ctx_mset [OF sp'] by (metis set_mset_mset)
        then show ?thesis unfolding r(2) t'(3) bs using allset bs sub_used nb(3) by auto
      qed
      ultimately have inv': "tree_inv sniff t' (used s')" using ok' epn t'(9) by (simp add: tree_inv_def)
      have leafsame: "t_vol t' x = t_vol t x" if leaf_at: "(k, x) \<in> set (tree_leaves t)" for k x
      proof -
        have "tree_ok sniff t (t_depth t) (t_root t) 0 TUXKEY_LIMIT" using ok by (simp add: btree_ok_def)
        then obtain l where "t_vol t x = Leaf l" using leaves_leaf leaf_at by (metis tree_leaves_def)
        moreover have "x \<in> set (tree_blocks t)" using leaf_blocks leaf_at by (simp add: tree_leaves_def tree_blocks_def)
        ultimately show ?thesis using t'(6,8) nbt by (metis vblock.distinct(1))
      qed
      have "cont t' (tree_leaves t') = cont t (tree_leaves t)"
      proof -
        have l: "tree_leaves t' = behind t d outer @ leaves t' d nb lo @ ahead t d outer"
          using spine_leaves [OF sp'] t'(4,5) by simp
        have l0: "tree_leaves t = behind t d outer @ leaves t d b lo @ ahead t d outer" by (rule spine_leaves [OF sp])
        have 1: "cont t' (behind t d outer) = cont t (behind t d outer)" "cont t' (ahead t d outer) = cont t (ahead t d outer)"
          by (rule cont_cong, use leafsame l0 in auto)+
        have 2: "cont t' (leaves t' d nb lo) = cont t (leaves t d b lo)"
        proof (cases "d = 0")
          case True
          then show ?thesis using r(3) t'(7) by (simp add: cont_def)
        next
          case False
          have "cont t' (leaves t d b lo) = cont t (leaves t d b lo)" by (rule cont_cong) (use leafsame l0 in auto)
          then show ?thesis using r(3) False by simp
        qed
        show ?thesis unfolding l l0 using 1 2 by simp
      qed
      moreover have "cow t t' (used s)"
      proof -
        have "t_vol t' x = t_vol t x" if "\<not> t_unify t x" "x \<noteq> nb" for x using t'(6) par top(2) that by blast
        then have "\<forall>x \<in> used s. (\<not> dirty_block t x \<longrightarrow> t_vol t' x = t_vol t x) \<and> t_dirty t' x = t_dirty t x \<and> t_unify t' x = t_unify t x"
          using t'(13,14) nb(2) unfolding dirty_block_def by auto
        moreover have "mset (tree_blocks t') + mset (freed t') = mset (tree_blocks t) + mset (freed t) + {#nb#}"
          unfolding ctx_mset [OF sp'] ctx_mset [OF sp] r(2) t'(3,15) bs by simp
        ultimately show ?thesis using nb(2) unfolding cow_def by (intro conjI exI [of _ "{#nb#}"]) auto
      qed
      ultimately show ?thesis using run nb(1,3) t'(2,7,9-14) r(1) inv' same par
        by (intro disjI2 exI [of _ nb] exI [of _ t'] exI [of _ s']) (auto simp: kept_def)
    qed
  qed
qed

end

text \<open>The levels of a cursor that are left, from a block at height \<open>d\<close> with the key range \<open>lo..hi\<close> down to a
  leaf with the range \<open>kl..kh\<close>.\<close>

fun walk :: "'l tree \<Rightarrow> nat \<Rightarrow> u64 \<Rightarrow> u64 \<Rightarrow> u64 \<Rightarrow> (u64 \<times> nat) list \<Rightarrow> u64 \<Rightarrow> u64 \<Rightarrow> bool" where
  "walk t d blk lo hi [] kl kh = False"
| "walk t 0 blk lo hi ((b, i) # rest) kl kh = (b = blk \<and> rest = [] \<and> lo = kl \<and> hi = kh)"
| "walk t (Suc d) blk lo hi ((b, i) # rest) kl kh =
     (b = blk \<and> 0 < i \<and>
      (case t_vol t b of
         Node n \<Rightarrow> i \<le> length (live n) \<and>
           walk t d (eblock (live n ! (i - 1))) (ekey (live n ! (i - 1))) (key_after (live n) hi (i - 1)) rest kl kh
       | Leaf _ \<Rightarrow> False))"

lemma walk_of_spine: "spine t d p blk lo hi \<Longrightarrow> walk t d blk lo hi q kl kh \<Longrightarrow> walk t (t_depth t) (t_root t) 0 TUXKEY_LIMIT (rev p @ q) kl kh"
proof (induction p arbitrary: d blk lo hi q)
  case (Cons l p)
  obtain b i where l: "l = (b, i)" by (cases l)
  from Cons.prems(1) obtain n blo bhi where n: "t_vol t b = Node n" "0 < i" "i \<le> length (live n)" "blk = eblock (live n ! (i - 1))"
    "lo = ekey (live n ! (i - 1))" "hi = key_after (live n) bhi (i - 1)" "spine t (Suc d) p b blo bhi" by (auto simp: l)
  have "walk t (Suc d) b blo bhi ((b, i) # q) kl kh" using n Cons.prems(2) by simp
  from Cons.IH [OF n(7) this] show ?case by (simp add: l)
qed simp

lemma walk_frame: "walk t d blk lo hi q kl kh \<Longrightarrow> same_on t t' (set (blocks t d blk)) \<Longrightarrow> walk t' d blk lo hi q kl kh"
proof (induction t d blk lo hi q kl kh rule: walk.induct)
  case (3 t d blk lo hi b i rest kl kh)
  show ?case
  proof (cases "t_vol t b")
    case (Node n)
    have "set (blocks t d (eblock (live n ! (i - 1)))) \<subseteq> set (blocks t (Suc d) blk)"
      using 3(2) Node by (auto intro!: bexI [of _ "live n ! (i - 1)"])
    then have "same_on t t' (set (blocks t d (eblock (live n ! (i - 1)))))" by (rule same_on_mono [OF 3(3)])
    moreover have "t_vol t' b = t_vol t b" using 3(2,3) by (auto simp: same_on_def)
    ultimately show ?thesis using 3(1) [OF Node] 3(2) Node by simp
  qed (use 3 in simp)
qed auto

text \<open>A node at height \<open>Suc d\<close> and the child that a level of the cursor leads to.\<close>

lemma ctx_down:
  assumes "ctx sniff t (Suc d) outer b lo hi" and "tree_ok sniff t (Suc d) b lo hi" and "t_vol t b = Node n" and "0 < i" and "i \<le> length (live n)"
  shows "ctx sniff t d ((b, i) # outer) (eblock (live n ! (i - 1))) (ekey (live n ! (i - 1))) (key_after (live n) hi (i - 1))"
    and "tree_ok sniff t d (eblock (live n ! (i - 1))) (ekey (live n ! (i - 1))) (key_after (live n) hi (i - 1))"
proof -
  let ?xs = "take (i - 1) (live n)" and ?e = "live n ! (i - 1)" and ?ys = "drop i (live n)"
  have j: "i - 1 < length (live n)" using assms(4,5) by linarith
  have live: "live n = ?xs @ ?e # ?ys" using id_take_nth_drop [OF j] assms(4) by simp
  have len: "i = Suc (length ?xs)" using j assms(4) by simp
  have n: "bnode_sniff n" "node_ok (t_epn t) n" "kids_ok (tree_ok sniff t d) lo hi (live n)" using assms(2,3) by simp_all
  have h: "holed (tree_ok sniff t d) lo hi ?xs ?e ?ys \<and> tree_ok sniff t d (eblock ?e) (ekey ?e) (first_key hi ?ys)"
    using n(3) live kids_ok_holed by metis
  have k: "key_after (live n) hi (i - 1) = first_key hi ?ys" using key_after_append [of ?xs ?e ?ys hi] live len by (metis diff_Suc_1)
  show "ctx sniff t d ((b, i) # outer) (eblock ?e) (ekey ?e) (key_after (live n) hi (i - 1))"
    unfolding k by (rule ctx_ConsI [OF assms(3) n(1,2) live len refl refl refl h [THEN conjunct1] assms(1)])
  show "tree_ok sniff t d (eblock ?e) (ekey ?e) (key_after (live n) hi (i - 1))" unfolding k by (rule h [THEN conjunct2])
qed

context block_alloc begin

lemma redirect_loop_spec:
  "ctx sniff t d outer b lo hi \<Longrightarrow> tree_ok sniff t d b lo hi \<Longrightarrow> tree_inv sniff t (used s) \<Longrightarrow> inv s \<Longrightarrow>
   \<forall>x \<in> fst ` set outer. t_unify t x \<Longrightarrow> walk t d b lo hi q kl kh \<Longrightarrow>
   \<exists>e p' t' s'. redirect_loop alloc outer q t s = Some (e, p', t', s') \<and> inv s' \<and> used s \<subseteq> used s' \<and> tree_inv sniff t' (used s') \<and>
     kept t t' \<and> cow t t' (used s) \<and> cont t' (tree_leaves t') = cont t (tree_leaves t) \<and>
     (e = None \<longrightarrow> (\<exists>blk outer'. p' = (blk, snd (last q)) # outer' \<and> ctx sniff t' 0 outer' blk kl kh \<and> tree_ok sniff t' 0 blk kl kh \<and>
        (\<forall>x \<in> fst ` set outer'. t_unify t' x) \<and> t_dirty t' blk))"
proof (induction q arbitrary: t d outer b lo hi s)
  case (Cons l q)
  obtain i where l: "l = (b, i)" using Cons.prems(6) by (cases d; cases l) auto
  have leaf: "length outer = t_depth t \<longleftrightarrow> d = 0" using spine_length [OF spine_of_ctx [OF Cons.prems(1)]] by presburger
  from redirect_level_spec [OF Cons.prems(1-4) leaf Cons.prems(5)]
  consider e s' where "redirect_level alloc outer b (length outer = t_depth t) t s = Some (Inl e, t, s')" "inv s'" "used s \<subseteq> used s'"
    | b' t' s' where "redirect_level alloc outer b (length outer = t_depth t) t s = Some (Inr b', t', s')" "inv s'" "used s \<subseteq> used s'"
       "ctx sniff t' d outer b' lo hi" "tree_ok sniff t' d b' lo hi" "tree_inv sniff t' (used s')" "kept t t'" "cow t t' (used s)"
       "t_vol t' b' = t_vol t b" "if length outer = t_depth t then t_dirty t' b' else t_unify t' b'" "\<forall>x \<in> fst ` set outer. t_unify t' x"
       "cont t' (tree_leaves t') = cont t (tree_leaves t)" "same_on t t' (set (tl (blocks t d b)))" by blast
  then show ?case
  proof cases
    case 1
    have "tree_inv sniff t (used s')" using Cons.prems(3) 1(3) by (auto simp: tree_inv_def)
    then show ?thesis using 1 cow_refl by (simp add: l)
  next
    case 2
    have step: "redirect_loop alloc outer (l # q) t s = redirect_loop alloc ((b', i) # outer) q t' s'" using 2(1) by (simp add: l)
    show ?thesis
    proof (cases d)
      case 0
      then have "q = []" "lo = kl" "hi = kh" using Cons.prems(6) by (simp_all add: l)
      then show ?thesis unfolding step using 2 0 leaf by (simp add: l)
    next
      case (Suc k)
      obtain n where n: "t_vol t b = Node n" "0 < i" "i \<le> length (live n)" "walk t k (eblock (live n ! (i - 1))) (ekey (live n ! (i - 1))) (key_after (live n) hi (i - 1)) q kl kh"
        using Cons.prems(6) Suc by (auto simp: l split: vblock.splits)
      have n': "t_vol t' b' = Node n" using 2(9) n(1) by simp
      note c = ctx_down [OF 2(4,5) [unfolded Suc] n' n(2,3)]
      have "set (blocks t k (eblock (live n ! (i - 1)))) \<subseteq> set (tl (blocks t d b))"
        using n(1-3) Suc by (auto intro!: bexI [of _ "live n ! (i - 1)"])
      then have w: "walk t' k (eblock (live n ! (i - 1))) (ekey (live n ! (i - 1))) (key_after (live n) hi (i - 1)) q kl kh" by (intro walk_frame [OF n(4)] same_on_mono [OF 2(13)])
      have "\<not> length outer = t_depth t" using leaf Suc by simp
      then have u: "\<forall>x \<in> fst ` set ((b', i) # outer). t_unify t' x" using 2(10,11) by simp
      have q: "q \<noteq> []" using w by (cases q) auto
      from Cons.IH [OF c 2(6) 2(2) u w] obtain e p' t'' s'' where
        r: "redirect_loop alloc ((b', i) # outer) q t' s' = Some (e, p', t'', s'')" "inv s''" "used s' \<subseteq> used s''"
          "tree_inv sniff t'' (used s'')" "kept t' t''" "cow t' t'' (used s')" "cont t'' (tree_leaves t'') = cont t' (tree_leaves t')"
          "e = None \<longrightarrow> (\<exists>blk outer'. p' = (blk, snd (last q)) # outer' \<and> ctx sniff t'' 0 outer' blk kl kh \<and> tree_ok sniff t'' 0 blk kl kh \<and>
            (\<forall>x \<in> fst ` set outer'. t_unify t'' x) \<and> t_dirty t'' blk)" by (elim exE conjE) (rule that)
      have "cow t t'' (used s)" using cow_trans [OF 2(8) cow_mono [OF r(6) 2(3)]] .
      moreover have "kept t t''" by (rule kept_trans [OF 2(7) r(5)])
      moreover have "used s \<subseteq> used s''" using 2(3) r(3) by blast
      moreover have "cont t'' (tree_leaves t'') = cont t (tree_leaves t)" using r(7) 2(12) by (rule trans)
      moreover have "last (l # q) = last q" using q by simp
      ultimately show ?thesis unfolding step using r(1,2,4,8)
        by (intro exI [of _ e] exI [of _ p'] exI [of _ t''] exI [of _ s''] conjI) simp_all
    qed
  qed
qed simp

lemma redirect_spec:
  assumes inv: "tree_inv sniff t (used s)" "inv s" and sp: "spine t 0 outer blk lo hi"
  shows "\<exists>e p' t' s'. cursor_redirect alloc ((blk, i) # outer) t s = Some (e, p', t', s') \<and> inv s' \<and> used s \<subseteq> used s' \<and>
    tree_inv sniff t' (used s') \<and> kept t t' \<and> cow t t' (used s) \<and> cont t' (tree_leaves t') = cont t (tree_leaves t) \<and>
    (e = None \<longrightarrow> (\<exists>blk' outer'. p' = (blk', i) # outer' \<and> ctx sniff t' 0 outer' blk' lo hi \<and> tree_ok sniff t' 0 blk' lo hi \<and>
       (\<forall>x \<in> fst ` set outer'. t_unify t' x) \<and> t_dirty t' blk'))"
proof -
  have ok: "btree_ok sniff t" using inv(1) by (simp add: tree_inv_def)
  have "walk t 0 blk lo hi [(blk, i)] lo hi" by simp
  from walk_of_spine [OF sp this] have w: "walk t (t_depth t) (t_root t) 0 TUXKEY_LIMIT (rev ((blk, i) # outer)) lo hi" by simp
  have root: "ctx sniff t (t_depth t) [] (t_root t) 0 TUXKEY_LIMIT" "tree_ok sniff t (t_depth t) (t_root t) 0 TUXKEY_LIMIT"
    "\<forall>x \<in> fst ` set ([] :: cursor). t_unify t x" using ok by (simp_all add: btree_ok_def)
  have last: "snd (last (rev ((blk, i) # outer))) = i" by simp
  from redirect_loop_spec [OF root(1,2) inv root(3) w] obtain e p' t' s' where
    r: "redirect_loop alloc [] (rev ((blk, i) # outer)) t s = Some (e, p', t', s')" "inv s'" "used s \<subseteq> used s'" "tree_inv sniff t' (used s')"
      "kept t t'" "cow t t' (used s)" "cont t' (tree_leaves t') = cont t (tree_leaves t)"
      "e = None \<longrightarrow> (\<exists>blk outer'. p' = (blk, i) # outer' \<and> ctx sniff t' 0 outer' blk lo hi \<and> tree_ok sniff t' 0 blk lo hi \<and>
         (\<forall>x \<in> fst ` set outer'. t_unify t' x) \<and> t_dirty t' blk)" unfolding last by (elim exE conjE) (rule that)
  have "cursor_redirect alloc ((blk, i) # outer) t s = Some (e, p', t', s')"
  proof (cases e)
    case None
    then obtain blk' outer' where p: "p' = (blk', i) # outer'" and c: "ctx sniff t' 0 outer' blk' lo hi" using r(8) by blast
    have "btree_ok sniff t'" using r(4) by (simp add: tree_inv_def)
    then have "cursor_check t' p'" unfolding p by (rule cursor_check_spine [OF _ spine_of_ctx [OF c]])
    then show ?thesis using r(1) None by (simp add: cursor_redirect_def)
  next
    case (Some x)
    then show ?thesis using r(1) by (simp add: cursor_redirect_def)
  qed
  then show ?thesis using r(2-8) by (intro exI conjI)
qed

end

section \<open>The block allocator under the tree\<close>

definition balloc_one :: "bsb \<Rightarrow> err \<times> u64 \<times> bsb" where
  "balloc_one sb = (case balloc sb 1 of (e, seg, sb) \<Rightarrow> (e, of_nat (seg_block seg), sb))"

definition in_use :: "bsb \<Rightarrow> u64 set" where
  "in_use sb = {b. allocated sb (unat b)}"

definition vol_inv :: "bsb \<Rightarrow> bool" where
  "vol_inv sb \<longleftrightarrow> balloc_inv sb \<and> volblocks sb \<le> 2 ^ 48"

lemma balloc_one_cases:
  assumes inv: "vol_inv sb" and run: "balloc_one sb = (e, b, sb')"
  shows "vol_inv sb' \<and> in_use sb \<subseteq> in_use sb' \<and> (e = None \<longrightarrow> b \<notin> in_use sb \<and> in_use sb' = insert b (in_use sb))"
proof -
  obtain seg where seg: "balloc_goal sb 1 False = (e, seg, sb')" "b = of_nat (seg_block seg)"
    using run by (auto simp: balloc_one_def balloc_def split: prod.splits)
  have sb: "wf_bsb sb" "nextblock sb \<le> volblocks sb" "volblocks sb \<le> 2 ^ 48" using inv by (simp_all add: vol_inv_def balloc_inv_def)
  have inv': "balloc_inv sb'" using balloc_goal_inv [OF _ seg(1)] inv by (simp add: vol_inv_def)
  have one: "(0 :: nat) < 1" by simp
  note c = balloc_from_range_cases [OF sb(1) one sb(2) order_refl seg(1) [unfolded balloc_goal_def]]
  show ?thesis
  proof (cases e)
    case None
    then have a: "seg_count seg = 1" "free_run sb (seg_block seg) 1" "seg_block seg + 1 \<le> volblocks sb"
      "marks sb (sb'\<lparr>nextblock := nextblock sb\<rparr>) (seg_block seg) 1 True" using c by (auto simp: alloc_spec_def)
    have "seg_block seg < 2 ^ LENGTH(64)" using a(3) sb(3) by simp
    then have b: "unat b = seg_block seg" unfolding seg(2) by (simp add: unat_of_nat take_bit_nat_eq_self)
    have new: "allocated sb' x = (if x = seg_block seg then True else allocated sb x)" "volblocks sb' = volblocks sb" for x
      using a(4) by (auto simp: marks_def)
    have "unat x = seg_block seg \<longleftrightarrow> x = b" for x :: u64 using b by (metis word_unat_eq_iff)
    then have "in_use sb' = insert b (in_use sb)" using new by (auto simp: in_use_def)
    moreover have "b \<notin> in_use sb" using a(2) b by (simp add: in_use_def free_run_def)
    ultimately show ?thesis using inv' new(2) sb(3) by (auto simp: vol_inv_def)
  next
    case (Some x)
    then obtain s m where "marks sb (sb'\<lparr>nextblock := nextblock sb\<rparr>) s m True" using c by blast
    then have "\<forall>x. allocated sb x \<longrightarrow> allocated sb' x" "volblocks sb' = volblocks sb" by (auto simp: marks_def)
    then show ?thesis using inv' Some sb(3) by (auto simp: vol_inv_def in_use_def)
  qed
qed

interpretation vol: block_alloc balloc_one in_use vol_inv
  by unfold_locales (use balloc_one_cases in blast)+

lemma cow_count:
  assumes "cow t t' U" and "distinct (tree_blocks t)" and "distinct (tree_blocks t')" and "b \<in> U"
  shows "count (mset (freed t')) b + of_bool (b \<in> set (tree_blocks t')) = count (mset (freed t)) b + of_bool (b \<in> set (tree_blocks t))"
proof -
  obtain N where N: "set_mset N \<inter> U = {}" "mset (tree_blocks t') + mset (freed t') = mset (tree_blocks t) + mset (freed t) + N"
    using assms(1) by (auto simp: cow_def)
  have "count N b = 0" using N(1) assms(4) by (auto simp: count_eq_zero_iff)
  then have "count (mset (tree_blocks t')) b + count (mset (freed t')) b = count (mset (tree_blocks t)) b + count (mset (freed t)) b"
    using arg_cong [OF N(2), of "\<lambda>M. count M b"] by simp
  moreover have "count (mset xs) b = of_bool (b \<in> set xs)" if "distinct xs" for xs :: "u64 list"
    using that unfolding distinct_count_atmost_1 by simp
  ultimately show ?thesis using assms(2,3) by (metis add.commute)
qed

text \<open>C4: \<open>cursor_redirect\<close> on the cursor of a probe never fails an assertion and keeps the tree well formed with the
  same keys and the same leaf contents. No block that was in use and not dirty changes its bytes (copy on write).
  A block that leaves the tree is handed to a deferred free exactly once. On success the cursor is at the same key range, its leaf is
  dirty for the delta and its index nodes are dirty for the unify cycle.\<close>

theorem cursor_redirect_exact:
  assumes "tree_inv sniff t (in_use sb)" and "vol_inv sb" and "key < TUXKEY_LIMIT" and "btree_probe sniff t key = Some (Inr (), p)"
  shows "\<exists>e p' t' sb'. cursor_redirect balloc_one p t sb = Some (e, p', t', sb') \<and> tree_inv sniff t' (in_use sb') \<and> vol_inv sb' \<and>
    cont t' (tree_leaves t') = cont t (tree_leaves t) \<and>
    (\<forall>b \<in> in_use sb. (\<not> dirty_block t b \<longrightarrow> t_vol t' b = t_vol t b) \<and>
       count (mset (freed t')) b + of_bool (b \<in> set (tree_blocks t')) = count (mset (freed t)) b + of_bool (b \<in> set (tree_blocks t))) \<and>
    (e = None \<longrightarrow> cursor_this_key t' p' = cursor_this_key t p \<and> cursor_next_key t' p' = cursor_next_key t p \<and>
       t_dirty t' (fst (hd p')) \<and> (\<forall>b \<in> fst ` set (tl p'). t_unify t' b))"
proof -
  have ok: "btree_ok sniff t" using assms(1) by (simp add: tree_inv_def)
  from probe_spec [OF ok assms(3)] assms(4) obtain outer blk lo hi where p: "p = (blk, 0) # outer" and sp: "spine t 0 outer blk lo hi" by auto
  from vol.redirect_spec [OF assms(1,2) sp, of 0] obtain e p' t' sb' where
    r: "cursor_redirect balloc_one ((blk, 0) # outer) t sb = Some (e, p', t', sb')" "vol_inv sb'" "in_use sb \<subseteq> in_use sb'" "tree_inv sniff t' (in_use sb')"
      "kept t t'" "cow t t' (in_use sb)"
      "cont t' (tree_leaves t') = cont t (tree_leaves t)"
      "e = None \<longrightarrow> (\<exists>blk' outer'. p' = (blk', 0) # outer' \<and> ctx sniff t' 0 outer' blk' lo hi \<and> tree_ok sniff t' 0 blk' lo hi \<and>
         (\<forall>x \<in> fst ` set outer'. t_unify t' x) \<and> t_dirty t' blk')" by (elim exE conjE) (rule that)
  have ok': "btree_ok sniff t'" using r(4) by (simp add: tree_inv_def)
  have "\<forall>b \<in> in_use sb. \<not> dirty_block t b \<longrightarrow> t_vol t' b = t_vol t b" using r(6) by (simp add: cow_def)
  moreover have "\<forall>b \<in> in_use sb. count (mset (freed t')) b + of_bool (b \<in> set (tree_blocks t')) =
      count (mset (freed t)) b + of_bool (b \<in> set (tree_blocks t))"
    using cow_count [OF r(6)] assms(1) r(4) by (simp add: tree_inv_def)
  moreover have "e = None \<longrightarrow> cursor_this_key t' p' = cursor_this_key t p \<and> cursor_next_key t' p' = cursor_next_key t p \<and>
      t_dirty t' (fst (hd p')) \<and> (\<forall>b \<in> fst ` set (tl p'). t_unify t' b)"
    using r(8) cursor_keys(1,2) [OF ok sp, of 0] cursor_keys(1,2) [OF ok' spine_of_ctx, where x = 0] by (auto simp: p)
  ultimately show ?thesis using r(1) [folded p] r(2,4,7) by (intro exI [of _ e] exI [of _ p'] exI [of _ t'] exI [of _ sb'] conjI) simp_all
qed

lemma demo_tree_inv: "tree_inv (\<lambda>_. True) demo_tree (in_use (small_vol 15 1 5)) \<and> vol_inv (small_vol 15 1 5)"
proof -
  have "count_inv (small_vol 15 1 5)" unfolding count_inv_code by code_simp
  then have "vol_inv (small_vol 15 1 5)" by (simp add: vol_inv_def balloc_inv_def)
  moreover have "tree_blocks demo_tree = [1, 2, 3]" by (simp add: tree_blocks_def demo_tree_def small_node_def live_def)
  moreover have "{1, 2, 3} \<subseteq> in_use (small_vol 15 1 5)"
    by (simp add: in_use_def allocated_def small_vol_def mapsize_def bmap_def)
  ultimately show ?thesis using demo_tree_ok by (simp add: tree_inv_def demo_tree_def)
qed

lemma demo_probe: "btree_probe (\<lambda>_. True) demo_tree 5 = Some (Inr (), [(2, 0), (1, 1)])"
proof -
  have "bnode_lookup (small_node [(0, 2), (10, 3)]) 5 = Some 0"
    by (simp add: bnode_lookup_def small_node_def lookup_next.simps)
  then show ?thesis
    by (simp add: btree_probe_def cursor_read_root_def has_root_def demo_tree_def node_of_def probe_down.simps cursor_advance_down_def cursor_check_def)
      (simp add: small_node_def bnode_sniff_def Let_def)
qed

lemma cursor_redirect_exact_witness:
  "\<exists>e p t' sb. cursor_redirect balloc_one [(2, 0), (1, 1)] demo_tree (small_vol 15 1 5) = Some (e, p, t', sb) \<and> t_vol t' 2 = Leaf 2"
proof -
  have "(5 :: u64) < TUXKEY_LIMIT" by (simp add: TUXKEY_LIMIT_def)
  moreover have "2 \<in> in_use (small_vol 15 1 5)" by (simp add: in_use_def allocated_def small_vol_def mapsize_def bmap_def)
  moreover have "\<not> dirty_block demo_tree 2" "t_vol demo_tree 2 = Leaf 2" by (simp_all add: dirty_block_def demo_tree_def)
  ultimately show ?thesis
    using cursor_redirect_exact [OF demo_tree_inv [THEN conjunct1] demo_tree_inv [THEN conjunct2] _ demo_probe] by fastforce
qed

end
