(* ===== verification/Btreeins.thy ===== *)
theory Btreeins
  imports Btreemod
begin

text \<open>
  Insertion into btrees, \<open>src/kernel/btree.c\<close>: \<open>insert_leaf\<close> puts a new leaf behind the one that the cursor is at,
  splits the index nodes that are full on the way up and adds a level when the root was split;
  \<open>btree_leaf_split\<close> splits the leaf of the cursor, and \<open>btree_write\<close> splits leaves until the write is
  done. The cursor of the insertion is cut in two: \<open>inner\<close> are the levels that have been passed, \<open>outer\<close> those above.
\<close>

section \<open>Insertion of a leaf\<close>

definition empty_node :: "nat \<Rightarrow> bnode" where
  "empty_node epn = bnode_buffer_init \<lparr>magic = 0, bcount = 0, entries = replicate epn null_entry\<rparr>"

definition new_node :: "('s \<Rightarrow> err \<times> u64 \<times> 's) \<Rightarrow> 'l tree \<Rightarrow> 's \<Rightarrow> (errno + u64) \<times> 'l tree \<times> 's" where
  "new_node alloc t s =
     (case new_block alloc t s of
        (Inl e, s) \<Rightarrow> (Inl e, t, s)
      | (Inr b, s) \<Rightarrow> (Inr b, mark_unify b (set_block b (Node (empty_node (t_epn t))) t), s))"

text \<open>\<open>leaf0\<close> is the leaf that \<open>leaf_init\<close> makes of a block of zeros.\<close>

definition new_leaf :: "('s \<Rightarrow> err \<times> u64 \<times> 's) \<Rightarrow> 'l \<Rightarrow> 'l tree \<Rightarrow> 's \<Rightarrow> (errno + u64) \<times> 'l tree \<times> 's" where
  "new_leaf alloc leaf0 t s =
     (case new_block alloc t s of
        (Inl e, s) \<Rightarrow> (Inl e, t, s)
      | (Inr b, s) \<Rightarrow> (Inr b, mark_leaf b (set_block b (Leaf leaf0) t), s))"

text \<open>A new entry in a node that has room, logged.\<close>

definition insert_index :: "u64 \<Rightarrow> nat \<Rightarrow> u64 \<Rightarrow> u64 \<Rightarrow> 'l tree \<Rightarrow> 'l tree option" where
  "insert_index b i child key t =
     Option.bind (node_of t b) (\<lambda>n. Option.bind (bnode_add_index n i child key) (\<lambda>n.
       Some (mark_unify b (add_log (Bnode_add_rec b child key) (set_block b (Node n) t)))))"

text \<open>The split of the full node \<open>b\<close> into itself and \<open>nb\<close>, with the position and the key of the split.\<close>

definition split_index :: "u64 \<Rightarrow> u64 \<Rightarrow> 'l tree \<Rightarrow> (nat \<times> u64 \<times> 'l tree) option" where
  "split_index b nb t =
     Option.bind (node_of t b) (\<lambda>parent. Option.bind (node_of t nb) (\<lambda>newnode.
       let half = bcount parent div 2 in
       if \<not> half < length (entries parent) then None
       else Option.bind (bnode_split parent half newnode) (\<lambda>(parent', newnode').
         Some (half, ekey (entries parent ! half),
               add_log (Bnode_split_rec b (of_nat half) nb) (set_block nb (Node newnode') (set_block b (Node parent') t))))))"

text \<open>A level with a full node: the level of the cursor afterwards, whether the child is in the left node, and the key of the right one.\<close>

definition split_level ::
  "u64 \<Rightarrow> nat \<Rightarrow> u64 \<Rightarrow> u64 \<Rightarrow> u64 \<Rightarrow> bool \<Rightarrow> 'l tree \<Rightarrow> ((u64 \<times> nat) \<times> bool \<times> u64 \<times> 'l tree) option" where
  "split_level b i nb child key keep t =
     Option.bind (split_index b nb t) (\<lambda>(half, newkey, t).
       let left = (i \<le> half);
           (b', i') = (if left then (b, i) else (nb, i - half));
           t = mark_unify (if left then nb else b) t
       in Option.bind (insert_index b' i' child key t) (\<lambda>t.
            Some ((b', if keep then i' else i' + 1), left, newkey, t)))"

definition insert_root ::
  "('s \<Rightarrow> err \<times> u64 \<times> 's) \<Rightarrow> cursor \<Rightarrow> u64 \<Rightarrow> u64 \<Rightarrow> 'l tree \<Rightarrow> 's \<Rightarrow> (err \<times> cursor \<times> 'l tree \<times> 's) option" where
  "insert_root alloc inner child key t s =
     (case new_node alloc t s of
        (Inl e, t, s) \<Rightarrow> Some (Some e, inner, t, s)
      | (Inr nb, t, s) \<Rightarrow>
          Option.bind (node_of t nb) (\<lambda>newroot.
            if length (entries newroot) < 2 \<or> inner = [] then None
            else let old = t_root t; left = (fst (last inner) \<noteq> child);
                     t = add_log (Bnode_root_rec nb 2 old child key) (set_block nb (Node (bnode_init_root newroot 2 old child key)) t);
                     p = inner @ [(nb, if left then 1 else 2)];
                     t = mark_unify nb (t\<lparr>t_root := nb, t_depth := t_depth t + 1\<rparr>)
                 in if cursor_check t p then Some (None, p, t, s) else None))"

fun insert_loop ::
  "('s \<Rightarrow> err \<times> u64 \<times> 's) \<Rightarrow> cursor \<Rightarrow> cursor \<Rightarrow> u64 \<Rightarrow> u64 \<Rightarrow> bool \<Rightarrow> 'l tree \<Rightarrow> 's \<Rightarrow> (err \<times> cursor \<times> 'l tree \<times> 's) option" where
  "insert_loop alloc inner [] child key keep t s = insert_root alloc inner child key t s"
| "insert_loop alloc inner ((b, i) # outer) child key keep t s =
     Option.bind (node_of t b) (\<lambda>parent.
       if bcount parent < t_epn t then
         Option.bind (insert_index b i child key t) (\<lambda>t.
           let p = inner @ (b, if keep then i else i + 1) # outer
           in if cursor_check t p then Some (None, p, t, s) else None)
       else case new_node alloc t s of
              (Inl e, t, s) \<Rightarrow> Some (Some e, inner @ (b, i) # outer, t, s)
            | (Inr nb, t, s) \<Rightarrow>
                Option.bind (split_level b i nb child key keep t) (\<lambda>(l, left, newkey, t).
                  insert_loop alloc (inner @ [l]) outer nb newkey left t s))"

definition insert_leaf ::
  "('s \<Rightarrow> err \<times> u64 \<times> 's) \<Rightarrow> cursor \<Rightarrow> u64 \<Rightarrow> u64 \<Rightarrow> bool \<Rightarrow> 'l tree \<Rightarrow> 's \<Rightarrow> (err \<times> cursor \<times> 'l tree \<times> 's) option" where
  "insert_leaf alloc p childkey leaf keep t s =
     (case p of
        [] \<Rightarrow> None
      | l # outer \<Rightarrow> insert_loop alloc [if keep then l else (leaf, 0)] outer leaf childkey keep t s)"

definition btree_insert_leaf ::
  "('s \<Rightarrow> err \<times> u64 \<times> 's) \<Rightarrow> cursor \<Rightarrow> u64 \<Rightarrow> u64 \<Rightarrow> 'l tree \<Rightarrow> 's \<Rightarrow> (err \<times> cursor \<times> 'l tree \<times> 's) option" where
  "btree_insert_leaf alloc p key leaf t s = insert_leaf alloc p key leaf False t s"

section \<open>A node and its children\<close>

lemma node_frame:
  assumes "t_vol t' b = Node n" and "bnode_sniff n" and "node_ok (t_epn t) n" and "same_on t t' (set (kid_blocks t d (live n)))"
    and "kids_ok (tree_ok sniff t d) lo hi (live n)"
  shows "tree_ok sniff t' (Suc d) b lo hi" and "blocks t' (Suc d) b = b # kid_blocks t d (live n)"
    and "leaves t' (Suc d) b k = kids t d (live n)"
proof -
  note f = frame_kids(1,2) [OF assms(4)] frame_kids(3) [OF assms(4), of sniff]
  have "t_epn t' = t_epn t" using assms(4) by (simp add: same_on_def)
  then show "tree_ok sniff t' (Suc d) b lo hi" "blocks t' (Suc d) b = b # kid_blocks t d (live n)"
    "leaves t' (Suc d) b k = kids t d (live n)" using assms(1-3,5) f by simp_all
qed

lemma tree_inv_of_ctx:
  assumes c: "ctx sniff t d p b lo hi" and ok: "tree_ok sniff t d b lo hi" and "0 < t_depth t" and "2 \<le> t_epn t"
    and "distinct (blocks t d b @ ctx_blocks t d p)" and "set (blocks t d b @ ctx_blocks t d p) \<subseteq> U"
  shows "tree_inv sniff t U" and "tree_leaves t = behind t d p @ leaves t d b lo @ ahead t d p"
    and "mset (tree_blocks t) = mset (blocks t d b @ ctx_blocks t d p)"
proof -
  note sp = spine_of_ctx [OF c]
  show m: "mset (tree_blocks t) = mset (blocks t d b @ ctx_blocks t d p)" by (rule ctx_mset [OF sp])
  have "set (tree_blocks t) \<subseteq> U" using assms(6) m by (metis set_mset_mset)
  moreover have "distinct (tree_blocks t)" using assms(5) mset_eq_imp_distinct_iff [OF m] by blast
  ultimately show "tree_inv sniff t U" using btree_of_ctx [OF c ok] assms(3,4) by (simp add: tree_inv_def)
  show "tree_leaves t = behind t d p @ leaves t d b lo @ ahead t d p" by (rule spine_leaves [OF sp])
qed

text \<open>A subtree may take over the keys up to the next one on its right.\<close>

lemma kids_ok_widen:
  "kids_ok P lo hi es \<Longrightarrow> hi \<le> hi' \<Longrightarrow> (\<And>b l. P b l hi \<Longrightarrow> P b l hi') \<Longrightarrow> kids_ok P lo hi' es"
  by (induction P lo hi es rule: kids_ok.induct) auto

lemma tree_ok_widen: "tree_ok sniff t d b lo hi \<Longrightarrow> hi \<le> hi' \<Longrightarrow> tree_ok sniff t d b lo hi'"
proof (induction d arbitrary: b lo)
  case (Suc d)
  then obtain n where n: "t_vol t b = Node n" "bnode_sniff n" "node_ok (t_epn t) n" "kids_ok (tree_ok sniff t d) lo hi (live n)" by auto
  have "kids_ok (tree_ok sniff t d) lo hi' (live n)" by (rule kids_ok_widen [OF n(4) Suc.prems(2)]) (rule Suc.IH [OF _ Suc.prems(2)])
  then show ?case using n by simp
qed simp

text \<open>A list of children cut in two.\<close>

lemma kids_ok_cut:
  assumes "kids_ok P lo hi es" and "0 < m" and "m < length es"
  shows "kids_ok P lo (ekey (es ! m)) (take m es)" and "kids_ok P (ekey (es ! m)) hi (drop m es)"
proof -
  have "take m es @ es ! m # drop (Suc m) es = es" using assms(3) by (simp add: id_take_nth_drop [symmetric])
  then have "kids_ok P lo hi (take m es @ es ! m # drop (Suc m) es)" using assms(1) by simp
  moreover have "take m es \<noteq> []" using assms(2,3) by auto
  moreover have "drop m es = es ! m # drop (Suc m) es" using assms(3) by (simp add: Cons_nth_drop_Suc)
  ultimately show "kids_ok P lo (ekey (es ! m)) (take m es)" "kids_ok P (ekey (es ! m)) hi (drop m es)"
    by (simp_all add: kids_ok_append)
qed

lemma key_after_take: "j < m \<Longrightarrow> m < length es \<Longrightarrow> key_after (take m es) (ekey (es ! m)) j = key_after es hi j"
  by (cases "Suc j = m") (auto simp: key_after_def)

lemma key_after_drop: "m + j < length es \<Longrightarrow> key_after (drop m es) hi j = key_after es hi (m + j)"
  by (auto simp: key_after_def)

section \<open>The state between two levels\<close>

text \<open>The subtree \<open>blk\<close> that the cursor leads to has been cut at \<open>key\<close>: its upper part is the subtree \<open>child\<close>, which is
  not in the tree yet.\<close>

definition pending_blocks :: "'l tree \<Rightarrow> nat \<Rightarrow> cursor \<Rightarrow> u64 \<Rightarrow> u64 \<Rightarrow> u64 list" where
  "pending_blocks t d outer blk child = blocks t d blk @ blocks t d child @ ctx_blocks t d outer"

definition pending_leaves :: "'l tree \<Rightarrow> nat \<Rightarrow> cursor \<Rightarrow> u64 \<Rightarrow> u64 \<Rightarrow> u64 \<Rightarrow> u64 \<Rightarrow> (u64 \<times> u64) list" where
  "pending_leaves t d outer blk child lo key = behind t d outer @ leaves t d blk lo @ leaves t d child key @ ahead t d outer"

definition pending ::
  "('l \<Rightarrow> bool) \<Rightarrow> 'l tree \<Rightarrow> u64 set \<Rightarrow> nat \<Rightarrow> cursor \<Rightarrow> u64 \<Rightarrow> u64 \<Rightarrow> u64 \<Rightarrow> u64 \<Rightarrow> u64 \<Rightarrow> bool" where
  "pending sniff t U d outer blk child lo key hi \<longleftrightarrow>
     ctx sniff t d outer blk lo hi \<and> tree_ok sniff t d blk lo key \<and> tree_ok sniff t d child key hi \<and> lo < key \<and> key < hi \<and>
     distinct (pending_blocks t d outer blk child) \<and> set (pending_blocks t d outer blk child) \<subseteq> U \<and> 2 \<le> t_epn t \<and> 0 < t_depth t \<and>
     (\<forall>x \<in> fst ` set outer. t_unify t x)"

text \<open>What an insertion keeps: the dirty marks of the blocks in use, the leaves and the nodes that are not dirty.\<close>

definition calm :: "'l tree \<Rightarrow> 'l tree \<Rightarrow> u64 set \<Rightarrow> bool" where
  "calm t t' U \<longleftrightarrow> t_epn t' = t_epn t \<and> t_readerr t' = t_readerr t \<and> t_nomem t' = t_nomem t \<and> freed t' = freed t \<and>
     (\<forall>x. t_unify t x \<longrightarrow> t_unify t' x) \<and>
     (\<forall>x \<in> U. t_dirty t' x = t_dirty t x \<and> t_unify t' x = t_unify t x \<and>
        (\<not> t_unify t x \<or> (\<exists>l. t_vol t x = Leaf l) \<longrightarrow> t_vol t' x = t_vol t x))"

lemma calm_refl [simp]: "calm t t U"
  by (simp add: calm_def)

lemma calm_trans: "calm t t' U \<Longrightarrow> calm t' t'' U \<Longrightarrow> calm t t'' U"
  unfolding calm_def by (metis (no_types, lifting))

lemma calm_mono: "calm t t' U \<Longrightarrow> V \<subseteq> U \<Longrightarrow> calm t t' V"
  unfolding calm_def by blast

text \<open>The children of the node once the new one is in, cut in two or not. \<open>pos\<close> is where the cursor goes down.\<close>

definition grown :: "index_entry list \<Rightarrow> index_entry \<Rightarrow> u64 \<Rightarrow> u64 \<Rightarrow> index_entry list \<Rightarrow> index_entry list" where
  "grown xs e child key ys = xs @ e # \<lparr>ekey = key, eblock = child\<rparr> # ys"

lemma grown_facts:
  assumes c: "ctx sniff t d ((b, i) # outer) blk lo hi" and key: "lo < key" "key < hi"
    and ok: "tree_ok sniff t d blk lo key" "tree_ok sniff t d child key hi"
  obtains n blo bhi xs e ys where "t_vol t b = Node n" "bnode_sniff n" "node_ok (t_epn t) n" "live n = xs @ e # ys" "i = Suc (length xs)"
    "blk = eblock e" "lo = ekey e" "hi = first_key bhi ys" "ctx sniff t (Suc d) outer b blo bhi"
    "kids_ok (tree_ok sniff t d) blo bhi (grown xs e child key ys)"
    "kids t d (grown xs e child key ys) = kids t d xs @ leaves t d blk lo @ leaves t d child key @ kids t d ys"
    "kid_blocks t d (grown xs e child key ys) = kid_blocks t d xs @ blocks t d blk @ blocks t d child @ kid_blocks t d ys"
    "key_after (grown xs e child key ys) bhi (length xs) = key" "key_after (grown xs e child key ys) bhi (Suc (length xs)) = hi"
proof -
  from c obtain n blo bhi xs e ys where n: "t_vol t b = Node n" "bnode_sniff n" "node_ok (t_epn t) n" "live n = xs @ e # ys"
    "i = Suc (length xs)" "blk = eblock e" "lo = ekey e" "hi = first_key bhi ys" "holed (tree_ok sniff t d) blo bhi xs e ys"
    "ctx sniff t (Suc d) outer b blo bhi" by auto
  let ?c = "\<lparr>ekey = key, eblock = child\<rparr>"
  have "kids_ok (tree_ok sniff t d) blo bhi (xs @ e # ?c # ys)" by (rule kids_ok_two [OF n(9)]) (use n key ok in simp_all)
  moreover have "key_after (xs @ e # ?c # ys) bhi (length xs) = key" using key_after_append [of xs e "?c # ys" bhi] by (simp add: first_key_def)
  moreover have "key_after (xs @ e # ?c # ys) bhi (Suc (length xs)) = hi" using key_after_append [of "xs @ [e]" ?c ys bhi] n(8) by simp
  ultimately show ?thesis using n by (intro that [of n xs e ys bhi blo]) (simp_all add: grown_def)
qed

text \<open>The cursor below the node.\<close>

lemma walk_up:
  assumes "t_vol t b = Node n" and "j < length (live n)" and "walk t d (eblock (live n ! j)) (ekey (live n ! j)) (key_after (live n) hi j) q kl kh"
  shows "walk t (Suc d) b lo hi ((b, Suc j) # q) kl kh"
  using assms by simp

lemma insert_index_run:
  assumes "t_vol t b = Node n" and "bnode_sniff n" and "node_ok (t_epn t) n" and "i \<le> bcount n" and "bcount n < t_epn t"
  obtains t' n' where "insert_index b i child key t = Some t'" "t_vol t' = (t_vol t)(b := Node n')" "bnode_sniff n'" "node_ok (t_epn t) n'"
    "live n' = take i (live n) @ \<lparr>ekey = key, eblock = child\<rparr> # drop i (live n)"
    "t_unify t' = (t_unify t)(b := True)" "t_dirty t' = t_dirty t" "t_root t' = t_root t" "t_depth t' = t_depth t" "t_epn t' = t_epn t"
    "t_readerr t' = t_readerr t" "t_nomem t' = t_nomem t" "freed t' = freed t" "t_log t' = t_log t @ [Bnode_add_rec b child key]"
proof -
  from add_index_live [OF assms(3-5)] obtain n' where n': "bnode_add_index n i child key = Some n'" "node_ok (t_epn t) n'" "magic n' = magic n"
    "live n' = take i (live n) @ \<lparr>ekey = key, eblock = child\<rparr> # drop i (live n)" by blast
  show ?thesis
    by (rule that [of "mark_unify b (add_log (Bnode_add_rec b child key) (set_block b (Node n') t))" n'])
      (use assms(1,2) n' in \<open>simp_all add: insert_index_def node_of_def mark_unify_def add_log_def set_block_def bnode_sniff_def freed_def\<close>)
qed

lemma insert_room:
  assumes pend: "pending sniff t U d ((b, i) # outer) blk child lo key hi" and n: "t_vol t b = Node n" and room: "bcount n < t_epn t"
    and w: "walk t d (if keep then blk else child) (if keep then lo else key) (if keep then key else hi) q kl kh"
  shows "\<exists>t'. insert_index b i child key t = Some t' \<and> tree_inv sniff t' U \<and>
    tree_leaves t' = pending_leaves t d ((b, i) # outer) blk child lo key \<and>
    mset (tree_blocks t') = mset (pending_blocks t d ((b, i) # outer) blk child) \<and> calm t t' U \<and>
    walk t' (t_depth t') (t_root t') 0 TUXKEY_LIMIT (rev ((b, if keep then i else i + 1) # outer) @ q) kl kh"
proof -
  let ?B = "pending_blocks t d ((b, i) # outer) blk child"
  have c: "ctx sniff t d ((b, i) # outer) blk lo hi" and key: "lo < key" "key < hi" "tree_ok sniff t d blk lo key" "tree_ok sniff t d child key hi"
    and dist: "distinct ?B" and sub: "set ?B \<subseteq> U" and epn: "2 \<le> t_epn t" and depth: "0 < t_depth t" and dirty: "t_unify t b"
    using pend by (simp_all add: pending_def)
  from c key obtain m blo bhi xs e ys where m: "t_vol t b = Node m" "bnode_sniff m" "node_ok (t_epn t) m" "live m = xs @ e # ys" "i = Suc (length xs)"
    "blk = eblock e" "lo = ekey e" "hi = first_key bhi ys" "ctx sniff t (Suc d) outer b blo bhi"
    "kids_ok (tree_ok sniff t d) blo bhi (grown xs e child key ys)"
    "kids t d (grown xs e child key ys) = kids t d xs @ leaves t d blk lo @ leaves t d child key @ kids t d ys"
    "kid_blocks t d (grown xs e child key ys) = kid_blocks t d xs @ blocks t d blk @ blocks t d child @ kid_blocks t d ys"
    "key_after (grown xs e child key ys) bhi (length xs) = key" "key_after (grown xs e child key ys) bhi (Suc (length xs)) = hi"
    by (rule grown_facts)
  have mn: "m = n" using m(1) n by simp
  have i: "i \<le> bcount n" using length_live [OF m(3)] m(4,5) by (simp add: mn)
  obtain t' n' where t': "insert_index b i child key t = Some t'" "t_vol t' = (t_vol t)(b := Node n')" "bnode_sniff n'" "node_ok (t_epn t) n'"
    "live n' = take i (live n) @ \<lparr>ekey = key, eblock = child\<rparr> # drop i (live n)"
    "t_unify t' = (t_unify t)(b := True)" "t_dirty t' = t_dirty t" "t_root t' = t_root t" "t_depth t' = t_depth t" "t_epn t' = t_epn t"
    "t_readerr t' = t_readerr t" "t_nomem t' = t_nomem t" "freed t' = freed t"
    by (rule insert_index_run [OF n m(2,3) [unfolded mn] i room])
  have live: "live n' = grown xs e child key ys" using m(4,5) t'(5) by (simp add: mn grown_def)
  have B: "?B = blocks t d blk @ blocks t d child @ b # (kid_blocks t d xs @ kid_blocks t d ys) @ ctx_blocks t (Suc d) outer"
    using m(1,4,5) by (simp add: pending_blocks_def)
  have same: "same_on t t' (set (kid_blocks t d (live n')))" "same_on t t' (set (ctx_blocks t (Suc d) outer))"
    using dist unfolding B live m(12) same_on_def by (auto simp: t'(2,10))
  note nf = node_frame [OF _ t'(3,4) same(1) m(10) [folded live]]
  have nf: "tree_ok sniff t' (Suc d) b blo bhi" "blocks t' (Suc d) b = b # kid_blocks t d (live n')" "leaves t' (Suc d) b blo = kids t d (live n')"
    by (rule nf; simp add: t'(2))+
  note cf = ctx_frame [OF same(2) t'(8,9) m(9)]
  have mB: "mset (blocks t' (Suc d) b @ ctx_blocks t' (Suc d) outer) = mset ?B" unfolding nf(2) live m(12) B using cf by simp
  have "distinct (blocks t' (Suc d) b @ ctx_blocks t' (Suc d) outer)" using dist mset_eq_imp_distinct_iff [OF mB] by blast
  moreover have "set (blocks t' (Suc d) b @ ctx_blocks t' (Suc d) outer) \<subseteq> U" using sub mB by (metis set_mset_mset)
  moreover have "ctx sniff t' (Suc d) outer b blo bhi" using cf by blast
  ultimately have inv: "tree_inv sniff t' U" "tree_leaves t' = behind t' (Suc d) outer @ leaves t' (Suc d) b blo @ ahead t' (Suc d) outer"
    "mset (tree_blocks t') = mset (blocks t' (Suc d) b @ ctx_blocks t' (Suc d) outer)"
    using tree_inv_of_ctx [OF _ nf(1)] epn depth t'(9,10) by metis+
  have "tree_leaves t' = pending_leaves t d ((b, i) # outer) blk child lo key"
    unfolding inv(2) nf(3) live m(11) pending_leaves_def using cf m(1,4,5) by simp
  moreover have "calm t t' U" using t' n dirty by (auto simp: calm_def)
  moreover have "walk t' (t_depth t') (t_root t') 0 TUXKEY_LIMIT (rev ((b, if keep then i else i + 1) # outer) @ q) kl kh"
  proof -
    let ?j = "if keep then length xs else Suc (length xs)"
    have "set (blocks t d (if keep then blk else child)) \<subseteq> set (kid_blocks t d (live n'))" unfolding live m(12) by auto
    then have "walk t' d (if keep then blk else child) (if keep then lo else key) (if keep then key else hi) q kl kh"
      by (intro walk_frame [OF w] same_on_mono [OF same(1)])
    moreover have "eblock (live n' ! ?j) = (if keep then blk else child)" "ekey (live n' ! ?j) = (if keep then lo else key)"
      "key_after (live n') bhi ?j = (if keep then key else hi)" "?j < length (live n')"
      unfolding live using m(6,7,13,14) by (simp_all add: grown_def nth_append)
    ultimately have "walk t' (Suc d) b blo bhi ((b, Suc ?j) # q) kl kh" by (intro walk_up [of _ _ n']) (simp_all add: t'(2))
    moreover have "Suc ?j = (if keep then i else i + 1)" using m(5) by simp
    moreover have "spine t' (Suc d) outer b blo bhi" by (rule spine_of_ctx) (use cf in blast)
    ultimately show ?thesis using walk_of_spine [of t' "Suc d" outer b blo bhi] by simp
  qed
  ultimately show ?thesis using t'(1) inv(1) inv(3) mB by (intro exI [of _ t'] conjI) simp_all
qed

lemma grown_split:
  assumes L: "L = xs @ e # ys" and i: "i = Suc (length xs)" and h: "0 < h" "h < length L"
  shows "i \<le> h \<Longrightarrow> take i (take h L) @ \<lparr>ekey = key, eblock = child\<rparr> # drop i (take h L) = take (Suc h) (grown xs e child key ys) \<and>
      drop h L = drop (Suc h) (grown xs e child key ys) \<and> grown xs e child key ys ! Suc h = L ! h"
    and "\<not> i \<le> h \<Longrightarrow> take (i - h) (drop h L) @ \<lparr>ekey = key, eblock = child\<rparr> # drop (i - h) (drop h L) = drop h (grown xs e child key ys) \<and>
      take h L = take h (grown xs e child key ys) \<and> grown xs e child key ys ! h = L ! h"
proof -
  assume le: "i \<le> h"
  then obtain k where k: "h = i + k" by (metis le_Suc_ex)
  show "take i (take h L) @ \<lparr>ekey = key, eblock = child\<rparr> # drop i (take h L) = take (Suc h) (grown xs e child key ys) \<and>
      drop h L = drop (Suc h) (grown xs e child key ys) \<and> grown xs e child key ys ! Suc h = L ! h"
    by (simp add: L grown_def i k nth_append)
next
  assume "\<not> i \<le> h"
  then have le: "h \<le> length xs" using i by simp
  then show "take (i - h) (drop h L) @ \<lparr>ekey = key, eblock = child\<rparr> # drop (i - h) (drop h L) = drop h (grown xs e child key ys) \<and>
      take h L = take h (grown xs e child key ys) \<and> grown xs e child key ys ! h = L ! h"
    using h by (cases "h = length xs") (auto simp: L grown_def i nth_append Suc_diff_le)
qed

lemma empty_node_ok: "node_ok epn (empty_node epn)" "live (empty_node epn) = []" "bnode_sniff (empty_node epn)" "bcount (empty_node epn) = 0"
  "entries (empty_node epn) = replicate epn null_entry"
  by (simp_all add: empty_node_def bnode_buffer_init_def node_ok_def live_def bnode_sniff_def)

text \<open>What \<open>split_level\<close> stores in the two nodes.\<close>

lemma split_level_run:
  assumes n: "t_vol t b = Node n" "bnode_sniff n" "node_ok (t_epn t) n" and full: "bcount n = t_epn t" and epn: "2 \<le> t_epn t"
    and nb: "t_vol t nb = Node (empty_node (t_epn t))" "b \<noteq> nb" and L: "live n = xs @ e # ys" and i: "i = Suc (length xs)"
    and pos: "pos = (if keep then length xs else Suc (length xs))"
  obtains t' n1 n2 m where
    "split_level b i nb child key keep t =
       Some (if pos < m then (b, Suc pos) else (nb, Suc (pos - m)), pos < m, ekey (grown xs e child key ys ! m), t')"
    "t_vol t' = (t_vol t)(b := Node n1, nb := Node n2)" "bnode_sniff n1" "bnode_sniff n2" "node_ok (t_epn t) n1" "node_ok (t_epn t) n2"
    "live n1 = take m (grown xs e child key ys)" "live n2 = drop m (grown xs e child key ys)" "0 < m" "m \<le> t_epn t"
    "t_unify t' = (t_unify t)(b := True, nb := True)" "t_dirty t' = t_dirty t" "t_root t' = t_root t" "t_depth t' = t_depth t"
    "t_epn t' = t_epn t" "t_readerr t' = t_readerr t" "t_nomem t' = t_nomem t" "freed t' = freed t"
proof -
  define h where "h = t_epn t div 2"
  have len: "length (live n) = t_epn t" using length_live [OF n(3)] full by simp
  have h: "0 < h" "h < t_epn t" "t_epn t - h < t_epn t" using epn by (auto simp: h_def)
  obtain s1 s2 where s: "bnode_split n h (empty_node (t_epn t)) = Some (s1, s2)" "node_ok (t_epn t) s1" "node_ok (t_epn t) s2"
    "magic s1 = magic n" "magic s2 = magic (empty_node (t_epn t))" "live s1 = take h (live n)" "live s2 = drop h (live n)"
    using split_live [OF n(3) empty_node_ok(1), of h] h full by auto
  have sniff: "bnode_sniff s1" "bnode_sniff s2" using n(2) empty_node_ok(3) [of "t_epn t"] s(4,5) by (simp_all add: bnode_sniff_def)
  have cnt: "bcount s1 = h" "bcount s2 = t_epn t - h"
    using length_live [OF s(2)] length_live [OF s(3)] s(6,7) len h by simp_all
  define t1 where "t1 = add_log (Bnode_split_rec b (of_nat h) nb) (set_block nb (Node s2) (set_block b (Node s1) t))"
  have ents: "length (entries n) = t_epn t" using n(3) by (simp add: node_ok_def)
  have k: "ekey (entries n ! h) = ekey (live n ! h)" using live_nth [OF n(3), of h] h full by simp
  have split: "split_index b nb t = Some (h, ekey (live n ! h), t1)"
    using n(1) nb(1) s(1) full h ents k by (simp add: split_index_def node_of_def t1_def h_def Let_def)
  define left where "left \<longleftrightarrow> i \<le> h"
  define b' where "b' = (if left then b else nb)"
  define i' where "i' = (if left then i else i - h)"
  define t2 where "t2 = mark_unify (if left then nb else b) t1"
  have v: "t_vol t2 = (t_vol t)(b := Node s1, nb := Node s2)" "t_epn t2 = t_epn t" "t_root t2 = t_root t" "t_depth t2 = t_depth t"
    "t_dirty t2 = t_dirty t" "t_unify t2 = (t_unify t)((if left then nb else b) := True)" "t_readerr t2 = t_readerr t"
    "t_nomem t2 = t_nomem t" "freed t2 = freed t"
    by (simp_all add: t2_def t1_def mark_unify_def add_log_def set_block_def freed_def)
  define nd where "nd = (if left then s1 else s2)"
  have nd: "t_vol t2 b' = Node nd" "bnode_sniff nd" "node_ok (t_epn t2) nd" "i' \<le> bcount nd" "bcount nd < t_epn t2"
    using s(2,3) sniff cnt h nb(2) len L i by (auto simp: nd_def b'_def i'_def v left_def)
  obtain t' n' where t': "insert_index b' i' child key t2 = Some t'" "t_vol t' = (t_vol t2)(b' := Node n')" "bnode_sniff n'" "node_ok (t_epn t2) n'"
    "live n' = take i' (live nd) @ \<lparr>ekey = key, eblock = child\<rparr> # drop i' (live nd)"
    "t_unify t' = (t_unify t2)(b' := True)" "t_dirty t' = t_dirty t2" "t_root t' = t_root t2" "t_depth t' = t_depth t2" "t_epn t' = t_epn t2"
    "t_readerr t' = t_readerr t2" "t_nomem t' = t_nomem t2" "freed t' = freed t2"
    by (rule insert_index_run [OF nd])
  define m where "m = (if left then Suc h else h)"
  have hl: "h < length (live n)" using h len by simp
  note g = grown_split [OF L i h(1) hl, of key child, folded left_def]
  have key: "ekey (live n ! h) = ekey (grown xs e child key ys ! m)" using g by (auto simp: m_def)
  have lm: "pos < m \<longleftrightarrow> left" "\<not> left \<Longrightarrow> h \<le> pos" using pos i by (auto simp: m_def left_def)
  have run: "split_level b i nb child key keep t = Some ((b', if keep then i' else i' + 1), left, ekey (grown xs e child key ys ! m), t')"
    using split t'(1) by (simp add: split_level_def key t2_def [symmetric] left_def [symmetric] b'_def i'_def Let_def split: if_splits)
  have lev: "(b', if keep then i' else i' + 1) = (if pos < m then (b, Suc pos) else (nb, Suc (pos - m)))"
    using lm pos i by (auto simp: b'_def i'_def m_def left_def)
  show ?thesis
  proof (rule that [of m t' "if left then n' else s1" "if left then s2 else n'"])
    show "split_level b i nb child key keep t =
       Some (if pos < m then (b, Suc pos) else (nb, Suc (pos - m)), pos < m, ekey (grown xs e child key ys ! m), t')"
      using run unfolding lev lm(1) .
    show "t_vol t' = (t_vol t)(b := Node (if left then n' else s1), nb := Node (if left then s2 else n'))"
      using nb(2) by (auto simp: t'(2) v b'_def)
    show "live (if left then n' else s1) = take m (grown xs e child key ys)"
      using g s(6) t'(5) by (auto simp: m_def nd_def i'_def)
    show "live (if left then s2 else n') = drop m (grown xs e child key ys)"
      using g s(7) t'(5) by (auto simp: m_def nd_def i'_def)
    show "t_unify t' = (t_unify t)(b := True, nb := True)" using nb(2) by (auto simp: t'(6) v b'_def fun_upd_twist)
  qed (use t' v s sniff h in \<open>simp_all add: m_def\<close>)
qed

text \<open>A full level: what was pending below the node is pending above it, with the two halves of the node.\<close>

lemma split_step:
  assumes pend: "pending sniff t U d ((b, i) # outer) blk child lo key hi" and n: "t_vol t b = Node n" and full: "\<not> bcount n < t_epn t"
    and nb: "nb \<notin> U" "t_vol t nb = Node (empty_node (t_epn t))"
    and w: "walk t d (if keep then blk else child) (if keep then lo else key) (if keep then key else hi) q kl kh"
  shows "\<exists>l left newkey t' blo bhi. split_level b i nb child key keep t = Some (l, left, newkey, t') \<and>
    pending sniff t' (insert nb U) (Suc d) outer b nb blo newkey bhi \<and>
    walk t' (Suc d) (if left then b else nb) (if left then blo else newkey) (if left then newkey else bhi) (l # q) kl kh \<and>
    pending_leaves t' (Suc d) outer b nb blo newkey = pending_leaves t d ((b, i) # outer) blk child lo key \<and>
    mset (pending_blocks t' (Suc d) outer b nb) = add_mset nb (mset (pending_blocks t d ((b, i) # outer) blk child)) \<and>
    calm t t' U \<and> t_root t' = t_root t \<and> t_depth t' = t_depth t \<and> t_unify t' (fst l)"
proof -
  let ?B = "pending_blocks t d ((b, i) # outer) blk child"
  have c: "ctx sniff t d ((b, i) # outer) blk lo hi" and key: "lo < key" "key < hi" "tree_ok sniff t d blk lo key" "tree_ok sniff t d child key hi"
    and dist: "distinct ?B" and sub: "set ?B \<subseteq> U" and epn: "2 \<le> t_epn t" and depth: "0 < t_depth t" and dirty: "\<forall>x \<in> fst ` set ((b, i) # outer). t_unify t x"
    using pend by (simp_all add: pending_def)
  from c key obtain m blo bhi xs e ys where m: "t_vol t b = Node m" "bnode_sniff m" "node_ok (t_epn t) m" "live m = xs @ e # ys" "i = Suc (length xs)"
    "blk = eblock e" "lo = ekey e" "hi = first_key bhi ys" "ctx sniff t (Suc d) outer b blo bhi"
    "kids_ok (tree_ok sniff t d) blo bhi (grown xs e child key ys)"
    "kids t d (grown xs e child key ys) = kids t d xs @ leaves t d blk lo @ leaves t d child key @ kids t d ys"
    "kid_blocks t d (grown xs e child key ys) = kid_blocks t d xs @ blocks t d blk @ blocks t d child @ kid_blocks t d ys"
    "key_after (grown xs e child key ys) bhi (length xs) = key" "key_after (grown xs e child key ys) bhi (Suc (length xs)) = hi"
    by (rule grown_facts)
  let ?es = "grown xs e child key ys" and ?pos = "if keep then length xs else Suc (length xs)"
  have mn: "m = n" using m(1) n by simp
  have cnt: "bcount n = t_epn t" using full m(3) by (simp add: mn node_ok_def)
  have len: "length ?es = Suc (t_epn t)" using length_live [OF m(3)] m(4) cnt by (simp add: mn grown_def)
  have B: "?B = blocks t d blk @ blocks t d child @ b # (kid_blocks t d xs @ kid_blocks t d ys) @ ctx_blocks t (Suc d) outer"
    using m(1,4,5) by (simp add: pending_blocks_def)
  have nbB: "nb \<notin> set ?B" using nb(1) sub by blast
  then have bnb: "b \<noteq> nb" unfolding B by auto
  obtain t' n1 n2 k where t':
    "split_level b i nb child key keep t = Some (if ?pos < k then (b, Suc ?pos) else (nb, Suc (?pos - k)), ?pos < k, ekey (?es ! k), t')"
    "t_vol t' = (t_vol t)(b := Node n1, nb := Node n2)" "bnode_sniff n1" "bnode_sniff n2" "node_ok (t_epn t) n1" "node_ok (t_epn t) n2"
    "live n1 = take k ?es" "live n2 = drop k ?es" "0 < k" "k \<le> t_epn t"
    "t_unify t' = (t_unify t)(b := True, nb := True)" "t_dirty t' = t_dirty t" "t_root t' = t_root t" "t_depth t' = t_depth t"
    "t_epn t' = t_epn t" "t_readerr t' = t_readerr t" "t_nomem t' = t_nomem t" "freed t' = freed t"
    by (rule split_level_run [OF n m(2,3) [unfolded mn] cnt epn nb(2) bnb m(4) [unfolded mn] m(5) refl])
  have kl: "k < length ?es" using t'(10) len by simp
  have es: "take k ?es @ drop k ?es = ?es" by simp
  have kb: "kid_blocks t d (live n1) @ kid_blocks t d (live n2) = kid_blocks t d ?es" "kids t d (live n1) @ kids t d (live n2) = kids t d ?es"
    unfolding t'(7,8) by (metis concat_append map_append es)+
  have same0: "same_on t t' (set (kid_blocks t d ?es))" "same_on t t' (set (ctx_blocks t (Suc d) outer))"
    using dist nbB unfolding B m(12) same_on_def by (auto simp: t'(2,15))
  have same: "same_on t t' (set (kid_blocks t d (live n1)))" "same_on t t' (set (kid_blocks t d (live n2)))"
    by (rule same_on_mono [OF same0(1)], simp only: kb(1) [symmetric] set_append Un_upper1 Un_upper2)+
  note cut = kids_ok_cut [OF m(10) t'(9) kl]
  note f1 = node_frame [OF _ t'(3,5) same(1) cut(1) [folded t'(7)], of b] and f2 = node_frame [OF _ t'(4,6) same(2) cut(2) [folded t'(8)], of nb]
  have f1: "tree_ok sniff t' (Suc d) b blo (ekey (?es ! k))" "blocks t' (Suc d) b = b # kid_blocks t d (live n1)" "leaves t' (Suc d) b blo = kids t d (live n1)"
    by (rule f1; simp add: t'(2) bnb)+
  have f2: "tree_ok sniff t' (Suc d) nb (ekey (?es ! k)) bhi" "blocks t' (Suc d) nb = nb # kid_blocks t d (live n2)"
    "leaves t' (Suc d) nb (ekey (?es ! k)) = kids t d (live n2)"
    by (rule f2; simp add: t'(2))+
  note cf = ctx_frame [OF same0(2) t'(13,14) m(9)]
  have mB: "mset (pending_blocks t' (Suc d) outer b nb) = add_mset nb (mset ?B)"
    using arg_cong [OF kb(1), of mset] cf unfolding pending_blocks_def [of t'] f1(2) f2(2) B m(12) by (simp add: ac_simps)
  have "distinct (pending_blocks t' (Suc d) outer b nb)"
    using mset_eq_imp_distinct_iff [of "pending_blocks t' (Suc d) outer b nb" "nb # ?B"] mB dist nbB by simp
  moreover have "set (pending_blocks t' (Suc d) outer b nb) \<subseteq> insert nb U" using sub mB by (metis insert_mono set_mset_add_mset_insert set_mset_mset)
  moreover have "\<forall>x \<in> fst ` set outer. t_unify t' x" using dirty t'(11) by simp
  moreover have "blo < ekey (?es ! k)" "ekey (?es ! k) < bhi" using kids_ok_lt [OF cut(1)] kids_ok_lt [OF cut(2)] by simp_all
  ultimately have pend': "pending sniff t' (insert nb U) (Suc d) outer b nb blo (ekey (?es ! k)) bhi"
    using cf f1(1) f2(1) epn depth t'(14,15) by (simp add: pending_def)
  have leaves: "pending_leaves t' (Suc d) outer b nb blo (ekey (?es ! k)) = pending_leaves t d ((b, i) # outer) blk child lo key"
  proof -
    have "kids t d (live n1) @ kids t d (live n2) @ z = kids t d ?es @ z" for z
      by (simp only: kb(2) append_assoc [symmetric])
    then show ?thesis unfolding pending_leaves_def f1(3) f2(3) using cf m(1,4,5,11) by simp
  qed
  have calm: "calm t t' U" using t' n m(1) dirty nb(1) by (auto simp: calm_def)
  define left where "left \<longleftrightarrow> ?pos < k"
  let ?n = "if left then n1 else n2" and ?j = "if left then ?pos else ?pos - k" and ?b = "if left then b else nb"
  have "set (blocks t d (if keep then blk else child)) \<subseteq> set (kid_blocks t d ?es)" unfolding m(12) by auto
  then have w': "walk t' d (if keep then blk else child) (if keep then lo else key) (if keep then key else hi) q kl kh"
    by (intro walk_frame [OF w] same_on_mono [OF same0(1)])
  have es_pos: "eblock (?es ! ?pos) = (if keep then blk else child)" "ekey (?es ! ?pos) = (if keep then lo else key)"
    "key_after ?es bhi ?pos = (if keep then key else hi)" "?pos < length ?es"
    using m(6,7,13,14) by (simp_all add: grown_def nth_append)
  have at: "live ?n ! ?j = ?es ! ?pos" "key_after (live ?n) (if left then ekey (?es ! k) else bhi) ?j = key_after ?es bhi ?pos" "?j < length (live ?n)"
  proof -
    have "live (if left then n1 else n2) ! (if left then p else p - k) = ?es ! p \<and>
        key_after (live (if left then n1 else n2)) (if left then ekey (?es ! k) else bhi) (if left then p else p - k) = key_after ?es bhi p \<and>
        (if left then p else p - k) < length (live (if left then n1 else n2))" if p: "left \<longleftrightarrow> p < k" "p < length ?es" for p
      using p kl key_after_take [of p k ?es bhi] key_after_drop [of k "p - k" ?es bhi] by (cases left) (simp_all add: t'(7,8))
    from this [OF left_def es_pos(4)]
    show "live ?n ! ?j = ?es ! ?pos" "key_after (live ?n) (if left then ekey (?es ! k) else bhi) ?j = key_after ?es bhi ?pos" "?j < length (live ?n)"
      by blast+
  qed
  have "walk t' (Suc d) ?b (if left then blo else ekey (?es ! k)) (if left then ekey (?es ! k) else bhi) ((?b, Suc ?j) # q) kl kh"
  proof (rule walk_up [of _ _ ?n])
    show "t_vol t' ?b = Node ?n" using bnb by (simp add: t'(2))
    show "?j < length (live ?n)" by (rule at(3))
    show "walk t' d (eblock (live ?n ! ?j)) (ekey (live ?n ! ?j)) (key_after (live ?n) (if left then ekey (?es ! k) else bhi) ?j) q kl kh"
      unfolding at es_pos(1-3) by (rule w')
  qed
  moreover have "(if ?pos < k then (b, Suc ?pos) else (nb, Suc (?pos - k))) = (?b, Suc ?j)" by (simp add: left_def)
  moreover have "t_unify t' ?b" by (simp add: t'(11))
  ultimately show ?thesis using t'(1,13,14) pend' leaves mB calm
    by (intro exI [of _ "(?b, Suc ?j)"] exI [of _ left] exI [of _ "ekey (?es ! k)"] exI [of _ t'] exI [of _ blo] exI [of _ bhi] conjI)
      (simp_all add: left_def)
qed

section \<open>The whole insertion\<close>

lemma spine_of_walk:
  "walk t d blk lo hi q kl kh \<Longrightarrow> spine t d p blk lo hi \<Longrightarrow> \<exists>b j outer. rev q @ p = (b, j) # outer \<and> spine t 0 outer b kl kh"
proof (induction t d blk lo hi q kl kh arbitrary: p rule: walk.induct)
  case (3 t d blk lo hi b i rest kl kh)
  from 3(2) obtain n where n: "t_vol t b = Node n" "b = blk" "0 < i" "i \<le> length (live n)"
    "walk t d (eblock (live n ! (i - 1))) (ekey (live n ! (i - 1))) (key_after (live n) hi (i - 1)) rest kl kh"
    by (auto split: vblock.splits)
  have "spine t d ((b, i) # p) (eblock (live n ! (i - 1))) (ekey (live n ! (i - 1))) (key_after (live n) hi (i - 1))"
    using n 3(3) by auto
  from 3(1) [OF n(1,5) this] show ?case by simp
qed auto

lemma check_of_walk:
  assumes "btree_ok sniff t" and "walk t (t_depth t) (t_root t) 0 TUXKEY_LIMIT (rev p) kl kh"
  shows "cursor_check t p" and "\<exists>b j outer. p = (b, j) # outer \<and> spine t 0 outer b kl kh"
proof -
  from spine_of_walk [OF assms(2), of "[]"] show "\<exists>b j outer. p = (b, j) # outer \<and> spine t 0 outer b kl kh" by simp
  then show "cursor_check t p" using cursor_check_spine [OF assms(1)] by blast
qed

lemma pending_frame:
  assumes p: "pending sniff t U d outer blk child lo key hi" and same: "same_on t t' U" and "t_root t' = t_root t" and "t_depth t' = t_depth t"
    and u: "\<forall>x \<in> U. t_unify t x \<longrightarrow> t_unify t' x"
  shows "pending sniff t' U d outer blk child lo key hi" and "pending_leaves t' d outer blk child lo key = pending_leaves t d outer blk child lo key"
    and "pending_blocks t' d outer blk child = pending_blocks t d outer blk child"
    and "walk t d blk lo key q kl kh \<Longrightarrow> walk t' d blk lo key q kl kh" and "walk t d child key hi q kl kh \<Longrightarrow> walk t' d child key hi q kl kh"
proof -
  have c: "ctx sniff t d outer blk lo hi" and U: "set (blocks t d blk) \<subseteq> U" "set (blocks t d child) \<subseteq> U" "set (ctx_blocks t d outer) \<subseteq> U"
    using p by (auto simp: pending_def pending_blocks_def)
  note s = same_on_mono [OF same U(1)] same_on_mono [OF same U(2)] same_on_mono [OF same U(3)]
  note f = frame [OF s(1), of lo sniff lo key] frame [OF s(2), of key sniff key hi] ctx_frame [OF s(3) assms(3,4) c]
  show b: "pending_blocks t' d outer blk child = pending_blocks t d outer blk child" using f by (simp add: pending_blocks_def)
  show "pending_leaves t' d outer blk child lo key = pending_leaves t d outer blk child lo key" using f by (simp add: pending_leaves_def)
  have "fst ` set outer \<subseteq> set (ctx_blocks t d outer)" by (induction t d outer rule: ctx_blocks.induct) auto
  then have "\<forall>x \<in> fst ` set outer. t_unify t' x" using p u U(3) unfolding pending_def by blast
  then show "pending sniff t' U d outer blk child lo key hi"
    using p f same assms(4) unfolding pending_def b by (simp add: same_on_def)
  show "walk t' d blk lo key q kl kh" if "walk t d blk lo key q kl kh" by (rule walk_frame [OF that s(1)])
  show "walk t' d child key hi q kl kh" if "walk t d child key hi q kl kh" by (rule walk_frame [OF that s(2)])
qed

text \<open>When the insertion stops, the lower part of what is pending makes a tree.\<close>

lemma pending_stop:
  assumes p: "pending sniff t U d outer blk child lo key hi"
  shows "tree_inv sniff t U" and "\<exists>front lost rest. pending_leaves t d outer blk child lo key = front @ lost @ rest \<and> lost \<noteq> [] \<and>
    tree_leaves t = front @ rest"
proof -
  have ok: "tree_ok sniff t d blk lo hi" by (rule tree_ok_widen [of sniff t d blk lo key]) (use p in \<open>auto simp: pending_def\<close>)
  have c: "ctx sniff t d outer blk lo hi" "0 < t_depth t" "2 \<le> t_epn t" "distinct (blocks t d blk @ ctx_blocks t d outer)"
    "set (blocks t d blk @ ctx_blocks t d outer) \<subseteq> U" using p by (auto simp: pending_def pending_blocks_def)
  note i = tree_inv_of_ctx [OF c(1) ok c(2-5)]
  show "tree_inv sniff t U" by (rule i(1))
  have "leaves t d child key \<noteq> []" using leaves_hd [of sniff t d child key hi] p by (auto simp: pending_def)
  then show "\<exists>front lost rest. pending_leaves t d outer blk child lo key = front @ lost @ rest \<and> lost \<noteq> [] \<and> tree_leaves t = front @ rest"
    using i(2) by (intro exI [of _ "behind t d outer @ leaves t d blk lo"] exI [of _ "leaves t d child key"] exI [of _ "ahead t d outer"])
      (simp add: pending_leaves_def)
qed

text \<open>A new root.\<close>

lemma grow_root:
  assumes pend: "pending sniff t U d [] blk child lo key hi" and nb: "nb \<notin> U"
    and w: "walk t d (if keep then blk else child) (if keep then lo else key) (if keep then key else hi) q kl kh"
    and t': "t_vol t' = (t_vol t)(nb := Node n)" "bnode_sniff n" "node_ok (t_epn t) n"
      "live n = [\<lparr>ekey = 0, eblock = t_root t\<rparr>, \<lparr>ekey = key, eblock = child\<rparr>]" "t_root t' = nb" "t_depth t' = Suc (t_depth t)" "t_epn t' = t_epn t"
  shows "tree_inv sniff t' (insert nb U)" and "tree_leaves t' = pending_leaves t d [] blk child lo key"
    and "mset (tree_blocks t') = add_mset nb (mset (pending_blocks t d [] blk child))"
    and "walk t' (t_depth t') (t_root t') 0 TUXKEY_LIMIT ((nb, if keep then 1 else 2) # q) kl kh"
proof -
  have p: "blk = t_root t" "d = t_depth t" "lo = 0" "hi = TUXKEY_LIMIT" "tree_ok sniff t d blk lo key" "tree_ok sniff t d child key hi" "lo < key" "key < hi"
    "distinct (blocks t d blk @ blocks t d child)" "set (blocks t d blk @ blocks t d child) \<subseteq> U" "2 \<le> t_epn t"
    using pend unfolding pending_def pending_blocks_def by auto
  have kids: "kids_ok (tree_ok sniff t d) 0 TUXKEY_LIMIT (live n)" using p unfolding t'(4) by simp
  have kb: "kid_blocks t d (live n) = blocks t d blk @ blocks t d child" using p(1) unfolding t'(4) by simp
  have same: "same_on t t' (set (kid_blocks t d (live n)))" using nb p(10) unfolding kb same_on_def by (auto simp: t'(1,7))
  note f = node_frame [OF _ t'(2,3) same kids, of nb]
  have f: "tree_ok sniff t' (Suc d) nb 0 TUXKEY_LIMIT" "blocks t' (Suc d) nb = nb # kid_blocks t d (live n)" "leaves t' (Suc d) nb 0 = kids t d (live n)"
    by (rule f; simp add: t'(1))+
  have c: "ctx sniff t' (Suc d) [] nb 0 TUXKEY_LIMIT" using t'(5,6) p(2) by simp
  have "distinct (blocks t' (Suc d) nb @ ctx_blocks t' (Suc d) [])" "set (blocks t' (Suc d) nb @ ctx_blocks t' (Suc d) []) \<subseteq> insert nb U"
    unfolding f(2) kb using p(9,10) nb by auto
  note i = tree_inv_of_ctx [OF c f(1) _ _ this]
  show "tree_inv sniff t' (insert nb U)" by (rule i(1)) (use t'(6,7) p(11) in simp_all)
  show "tree_leaves t' = pending_leaves t d [] blk child lo key"
    by (subst i(2)) (use t'(4,6,7) p f(3) in \<open>simp_all add: pending_leaves_def\<close>)
  show "mset (tree_blocks t') = add_mset nb (mset (pending_blocks t d [] blk child))"
    by (subst i(3)) (use t'(6,7) p(11) f(2) kb in \<open>simp_all add: pending_blocks_def\<close>)
  have "set (blocks t d (if keep then blk else child)) \<subseteq> set (kid_blocks t d (live n))" unfolding kb by auto
  then have "walk t' d (if keep then blk else child) (if keep then lo else key) (if keep then key else hi) q kl kh"
    by (intro walk_frame [OF w] same_on_mono [OF same])
  then have "walk t' (Suc d) nb 0 TUXKEY_LIMIT ((nb, Suc (if keep then 0 else 1)) # q) kl kh"
    using p(1,3,4) t'(4) by (intro walk_up [of _ _ n]) (simp_all add: t'(1) key_after_def split: if_splits)
  then show "walk t' (t_depth t') (t_root t') 0 TUXKEY_LIMIT ((nb, if keep then 1 else 2) # q) kl kh"
    unfolding t'(5,6) p(2) [symmetric] by (cases keep) (simp_all only: if_True if_False One_nat_def numeral_2_eq_2)
qed

context block_alloc begin

lemma new_node_ok:
  assumes "inv s" and "new_node alloc t s = (Inr nb, t', s')"
  shows "inv s' \<and> nb \<notin> used s \<and> used s' = insert nb (used s) \<and> t_vol t' nb = Node (empty_node (t_epn t)) \<and>
    same_on t t' (used s) \<and> calm t t' (used s) \<and> t_root t' = t_root t \<and> t_depth t' = t_depth t"
proof -
  from assms(2) have t0: "new_block alloc t s = (Inr nb, s')" and t': "t' = mark_unify nb (set_block nb (Node (empty_node (t_epn t))) t)"
    by (auto simp: new_node_def split: prod.splits sum.splits)
  note b = new_block_ok [OF assms(1) t0]
  then have "nb \<notin> used s" by blast
  then have "same_on t t' (used s)" "calm t t' (used s)"
    by (auto simp: t' same_on_def calm_def mark_unify_def set_block_def freed_def)
  then show ?thesis using b by (simp add: t' mark_unify_def set_block_def)
qed

lemma new_node_fail: "inv s \<Longrightarrow> new_node alloc t s = (Inl e, t', s') \<Longrightarrow> t' = t \<and> inv s' \<and> used s \<subseteq> used s'"
  by (auto simp: new_node_def split: prod.splits sum.splits dest: new_block_fail)

definition inserted ::
  "('l \<Rightarrow> bool) \<Rightarrow> 'l tree \<Rightarrow> 's \<Rightarrow> (u64 \<times> u64) list \<Rightarrow> u64 multiset \<Rightarrow> u64 \<Rightarrow> u64 \<Rightarrow> err \<Rightarrow> cursor \<Rightarrow> 'l tree \<Rightarrow> 's \<Rightarrow> bool" where
  "inserted sniff t s ls bs kl kh e p' t' s' \<longleftrightarrow> inv s' \<and> used s \<subseteq> used s' \<and> tree_inv sniff t' (used s') \<and> calm t t' (used s) \<and>
     (if e = None
      then tree_leaves t' = ls \<and> (\<exists>N. set_mset N \<inter> used s = {} \<and> mset (tree_blocks t') = bs + N) \<and>
        walk t' (t_depth t') (t_root t') 0 TUXKEY_LIMIT (rev p') kl kh \<and> (\<forall>x \<in> fst ` set (butlast (rev p')). t_unify t' x)
      else \<exists>front lost rest. ls = front @ lost @ rest \<and> lost \<noteq> [] \<and> tree_leaves t' = front @ rest)"

lemma inserted_after:
  assumes "inserted sniff t1 s1 ls (bs + {#nb#}) kl kh e p' t' s'" and "calm t t1 (used s)" and "nb \<notin> used s" and "used s1 = insert nb (used s)"
  shows "inserted sniff t s ls bs kl kh e p' t' s'"
proof -
  have i: "inv s'" "used s \<subseteq> used s'" "tree_inv sniff t' (used s')" "calm t1 t' (used s)"
    using assms(1,4) by (auto simp: inserted_def intro: calm_mono)
  have "\<exists>N. set_mset N \<inter> used s = {} \<and> mset (tree_blocks t') = bs + N" if none: "e = None"
  proof -
    have "\<exists>N. set_mset N \<inter> used s1 = {} \<and> mset (tree_blocks t') = bs + {#nb#} + N"
      using assms(1) none by (simp only: inserted_def if_True simp_thms)
    then obtain N where "set_mset N \<inter> used s1 = {}" "mset (tree_blocks t') = bs + {#nb#} + N"
      by (elim conjE exE) (rule that)
    then show ?thesis using assms(3,4) by (intro exI [of _ "{#nb#} + N"]) (auto simp: add.assoc)
  qed
  then show ?thesis using i calm_trans [OF assms(2) i(4)] assms(1) unfolding inserted_def by (metis (no_types, lifting))
qed

lemma stop_inserted:
  assumes "pending sniff t (used s) d outer blk child lo key hi" and "inv s'" and "used s \<subseteq> used s'"
  shows "inserted sniff t s (pending_leaves t d outer blk child lo key) bs kl kh (Some e) p' t s'"
proof -
  have "tree_inv sniff t (used s')" using pending_stop(1) [OF assms(1)] assms(3) by (auto simp: tree_inv_def)
  then show ?thesis using assms(2,3) pending_stop(2) [OF assms(1)] by (simp add: inserted_def)
qed

lemma insert_root_spec:
  assumes pend: "pending sniff t (used s) d [] blk child lo key hi" and inv: "inv s"
    and w: "walk t d (if keep then blk else child) (if keep then lo else key) (if keep then key else hi) q kl kh"
    and u0: "\<forall>x \<in> fst ` set (butlast q). t_unify t x"
  shows "\<exists>e p' t' s'. insert_root alloc (rev q) child key t s = Some (e, p', t', s') \<and>
    inserted sniff t s (pending_leaves t d [] blk child lo key) (mset (pending_blocks t d [] blk child)) kl kh e p' t' s'"
proof (cases "new_node alloc t s")
  case (fields r t1 s')
  show ?thesis
  proof (cases r)
    case (Inl e)
    from new_node_fail [OF inv] fields Inl have "t1 = t" "inv s'" "used s \<subseteq> used s'" by blast+
    then show ?thesis using fields Inl stop_inserted [OF pend] by (simp add: insert_root_def)
  next
    case (Inr nb)
    note nn = new_node_ok [OF inv fields [unfolded Inr]]
    let ?n = "bnode_init_root (empty_node (t_epn t)) 2 (t_root t1) child key"
    have epn: "2 \<le> t_epn t" using pend by (simp add: pending_def)
    then have n0: "entries (empty_node (t_epn t)) ! 0 = null_entry" by (simp add: empty_node_ok)
    have n: "node_ok (t_epn t1) ?n" "live ?n = [\<lparr>ekey = 0, eblock = t_root t1\<rparr>, \<lparr>ekey = key, eblock = child\<rparr>]" "bnode_sniff ?n" "t_epn t1 = t_epn t"
      using init_root_live [OF empty_node_ok(1) epn _ n0, of 2 "t_root t1" child key] nn empty_node_ok(3) [of "t_epn t"]
      by (simp_all add: bnode_sniff_def bnode_init_root_def same_on_def)
    have u: "\<forall>x \<in> used s. t_unify t x \<longrightarrow> t_unify t1 x" using nn by (simp add: calm_def)
    have s1: "same_on t t1 (used s)" "t_root t1 = t_root t" "t_depth t1 = t_depth t" using nn by blast+
    note f = pending_frame [OF pend s1 u]
    have w1: "walk t1 d (if keep then blk else child) (if keep then lo else key) (if keep then key else hi) q kl kh"
      using w f(4,5) by (cases keep) simp_all
    define t2 where "t2 = mark_unify nb (add_log (Bnode_root_rec nb 2 (t_root t1) child key) (set_block nb (Node ?n) t1)\<lparr>t_root := nb, t_depth := t_depth t1 + 1\<rparr>)"
    have v: "t_vol t2 = (t_vol t1)(nb := Node ?n)" "t_root t2 = nb" "t_depth t2 = Suc (t_depth t1)" "t_epn t2 = t_epn t1"
      by (simp_all add: t2_def mark_unify_def add_log_def set_block_def)
    have nbU: "nb \<notin> used s" using nn by blast
    note g = grow_root [OF f(1) nbU w1 v(1) n(3,1,2) v(2-4)]
    have q: "q \<noteq> []" "fst (hd q) = (if keep then blk else child)" using w by (cases q; cases d; auto)+
    have "blk \<noteq> child"
    proof -
      obtain bs cs where "blocks t d blk = blk # bs" "blocks t d child = child # cs" using blocks_Cons by metis
      then show ?thesis using pend by (auto simp: pending_def pending_blocks_def)
    qed
    then have keep: "fst (last (rev q)) \<noteq> child \<longleftrightarrow> keep" using q by (simp add: last_rev)
    let ?p = "rev q @ [(nb, if keep then 1 else 2)]"
    have ok: "btree_ok sniff t2" using g(1) by (simp add: tree_inv_def)
    have w2: "walk t2 (t_depth t2) (t_root t2) 0 TUXKEY_LIMIT (rev ?p) kl kh" using g(4) by simp
    have chk: "cursor_check t2 ?p" by (rule check_of_walk(1) [OF ok w2])
    have run: "insert_root alloc (rev q) child key t s = Some (None, ?p, t2, s')"
      using fields Inr nn q(1) epn chk keep
      by (simp add: insert_root_def node_of_def empty_node_ok Let_def t2_def add_log_def set_block_def mark_unify_def)
    have "calm t1 t2 (used s)" using nbU by (auto simp: calm_def t2_def mark_unify_def add_log_def set_block_def freed_def)
    then have calm: "calm t t2 (used s)" using nn calm_trans by blast
    moreover have "\<forall>x \<in> fst ` set (butlast (rev ?p)). t_unify t2 x"
      using calm u0 q(1) by (auto simp: calm_def) (simp add: t2_def mark_unify_def)
    ultimately have "inserted sniff t s (pending_leaves t d [] blk child lo key) (mset (pending_blocks t d [] blk child)) kl kh None ?p t2 s'"
      using nn g(1-3) w2 f(2,3) nbU unfolding inserted_def by (auto intro: exI [of _ "{#nb#}"])
    then show ?thesis using run by blast
  qed
qed

lemma insert_loop_spec:
  "pending sniff t (used s) d outer blk child lo key hi \<Longrightarrow> inv s \<Longrightarrow>
   walk t d (if keep then blk else child) (if keep then lo else key) (if keep then key else hi) q kl kh \<Longrightarrow>
   \<forall>x \<in> fst ` set (butlast q). t_unify t x \<Longrightarrow>
   \<exists>e p' t' s'. insert_loop alloc (rev q) outer child key keep t s = Some (e, p', t', s') \<and>
     inserted sniff t s (pending_leaves t d outer blk child lo key) (mset (pending_blocks t d outer blk child)) kl kh e p' t' s'"
proof (induction outer arbitrary: t s d blk child lo key hi keep q)
  case Nil
  then show ?case using insert_root_spec by simp
next
  case (Cons l outer)
  obtain b i where l: "l = (b, i)" by (cases l)
  note pend = Cons.prems(1) [unfolded l] and inv = Cons.prems(2) and w = Cons.prems(3) and u0 = Cons.prems(4)
  have q: "q \<noteq> []" using w by (cases q) auto
  obtain n where n: "t_vol t b = Node n" using pend by (auto simp: pending_def)
  show ?case
  proof (cases "bcount n < t_epn t")
    case True
    from insert_room [OF pend n True w] obtain t' where t': "insert_index b i child key t = Some t'" "tree_inv sniff t' (used s)"
      "tree_leaves t' = pending_leaves t d ((b, i) # outer) blk child lo key"
      "mset (tree_blocks t') = mset (pending_blocks t d ((b, i) # outer) blk child)" "calm t t' (used s)"
      "walk t' (t_depth t') (t_root t') 0 TUXKEY_LIMIT (rev ((b, if keep then i else i + 1) # outer) @ q) kl kh" by blast
    let ?p = "rev q @ (b, if keep then i else i + 1) # outer"
    have w': "walk t' (t_depth t') (t_root t') 0 TUXKEY_LIMIT (rev ?p) kl kh" using t'(6) by simp
    have ok: "btree_ok sniff t'" using t'(2) by (simp add: tree_inv_def)
    have "\<forall>x \<in> fst ` set (butlast (rev ?p)). t_unify t' x"
    proof -
      have "\<forall>x \<in> fst ` set (butlast q) \<union> insert b (fst ` set outer). t_unify t x" using u0 pend by (auto simp: pending_def)
      then have "\<forall>x \<in> fst ` set (butlast q) \<union> insert b (fst ` set outer). t_unify t' x" using t'(5) by (simp add: calm_def)
      then show ?thesis using q by (auto simp: butlast_append)
    qed
    then have "inserted sniff t s (pending_leaves t d (l # outer) blk child lo key) (mset (pending_blocks t d (l # outer) blk child)) kl kh None ?p t' s"
      using t'(2-5) w' inv unfolding inserted_def l by (auto intro: exI [of _ "{#}"])
    moreover have "insert_loop alloc (rev q) (l # outer) child key keep t s = Some (None, ?p, t', s)"
      using n True t'(1) check_of_walk(1) [OF ok w'] by (simp add: l node_of_def Let_def)
    ultimately show ?thesis by blast
  next
    case False
    show ?thesis
    proof (cases "new_node alloc t s")
      case (fields r t1 s1)
      show ?thesis
      proof (cases r)
        case (Inl e)
        from new_node_fail [OF inv] fields Inl have "t1 = t" "inv s1" "used s \<subseteq> used s1" by blast+
        then show ?thesis using n False fields Inl stop_inserted [OF Cons.prems(1)] by (simp add: l node_of_def)
      next
        case (Inr nb)
        note nn = new_node_ok [OF inv fields [unfolded Inr]]
        have u: "\<forall>x \<in> used s. t_unify t x \<longrightarrow> t_unify t1 x" and s1: "same_on t t1 (used s)" "t_root t1 = t_root t" "t_depth t1 = t_depth t"
          and nbU: "nb \<notin> used s" and epn: "t_epn t1 = t_epn t" using nn by (auto simp: calm_def same_on_def)
        note f = pending_frame [OF pend s1 u]
        have b: "b \<in> used s" using pend by (auto simp: pending_def pending_blocks_def)
        have n1: "t_vol t1 b = Node n" using b s1(1) n by (simp add: same_on_def)
        have w1: "walk t1 d (if keep then blk else child) (if keep then lo else key) (if keep then key else hi) q kl kh"
          using w f(4,5) by (cases keep) simp_all
        have full: "\<not> bcount n < t_epn t1" using False epn by simp
        have nb1: "t_vol t1 nb = Node (empty_node (t_epn t1))" using nn epn by simp
        from split_step [OF f(1) n1 full nbU nb1 w1] obtain lv left newkey t2 blo bhi where t2:
          "split_level b i nb child key keep t1 = Some (lv, left, newkey, t2)"
          "pending sniff t2 (insert nb (used s)) (Suc d) outer b nb blo newkey bhi"
          "walk t2 (Suc d) (if left then b else nb) (if left then blo else newkey) (if left then newkey else bhi) (lv # q) kl kh"
          "pending_leaves t2 (Suc d) outer b nb blo newkey = pending_leaves t1 d ((b, i) # outer) blk child lo key"
          "mset (pending_blocks t2 (Suc d) outer b nb) = add_mset nb (mset (pending_blocks t1 d ((b, i) # outer) blk child))"
          "calm t1 t2 (used s)" "t_unify t2 (fst lv)" by (elim exE conjE) (rule that)
        have us: "used s1 = insert nb (used s)" "inv s1" using nn by blast+
        have "calm t t2 (used s)" using nn t2(6) calm_trans by blast
        then have "\<forall>x \<in> fst ` set (butlast (lv # q)). t_unify t2 x" using u0 q t2(7) by (auto simp: calm_def)
        from Cons.IH [OF t2(2) [folded us(1)] us(2) t2(3) this] obtain e p' t' s' where r:
          "insert_loop alloc (rev (lv # q)) outer nb newkey left t2 s1 = Some (e, p', t', s')"
          "inserted sniff t2 s1 (pending_leaves t2 (Suc d) outer b nb blo newkey) (mset (pending_blocks t2 (Suc d) outer b nb)) kl kh e p' t' s'" by blast
        have run: "insert_loop alloc (rev q) (l # outer) child key keep t s = Some (e, p', t', s')"
          using n False fields Inr t2(1) r(1) by (simp add: l node_of_def)
        have "calm t t2 (used s)" using nn t2(6) calm_trans by blast
        moreover have "inserted sniff t2 s1 (pending_leaves t d (l # outer) blk child lo key)
            (mset (pending_blocks t d (l # outer) blk child) + {#nb#}) kl kh e p' t' s'"
          using r(2) unfolding t2(4,5) f(2,3) l by simp
        ultimately have "inserted sniff t s (pending_leaves t d (l # outer) blk child lo key) (mset (pending_blocks t d (l # outer) blk child)) kl kh e p' t' s'"
          using inserted_after nbU us(1) by blast
        then show ?thesis using run by blast
      qed
    qed
  qed
qed

end

end
