(* ===== verification/Btreewrite.thy ===== *)
theory Btreewrite
  imports Btreeins
begin

text \<open>
  Writing through btrees, \<open>src/kernel/btree.c\<close>: \<open>btree_leaf_split\<close>, \<open>btree_write\<close>, the creation of an empty tree and the
  release of an empty one. The leaf type is given by a record of its operations, \<open>struct btree_ops\<close>, and by a contract that says
  what a leaf stands for; the result is the tree as a map from keys to values.
\<close>

section \<open>Splitting the leaf of the cursor\<close>

datatype 'h lw_result = Lw_done | Lw_split 'h | Lw_error errno

text \<open>\<open>op_leaf0\<close> is what \<open>leaf_init\<close> makes of a block of zeros; \<open>op_start\<close> and \<open>op_len\<close> read \<open>struct btree_key_range\<close> in a
  request. \<open>None\<close> is a failed assertion of the leaf operation.\<close>

record ('l, 'r, 'h) leaf_ops =
  op_sniff :: "'l \<Rightarrow> bool"
  op_leaf0 :: 'l
  op_split :: "'h \<Rightarrow> 'l \<Rightarrow> 'l \<Rightarrow> (u64 \<times> 'l \<times> 'l) option"
  op_write :: "u64 \<Rightarrow> u64 \<Rightarrow> 'l \<Rightarrow> 'r \<Rightarrow> ('h lw_result \<times> 'l \<times> 'r) option"
  op_start :: "'r \<Rightarrow> u64"
  op_len :: "'r \<Rightarrow> u64"

definition btree_leaf_split ::
  "('s \<Rightarrow> err \<times> u64 \<times> 's) \<Rightarrow> ('l, 'r, 'h) leaf_ops \<Rightarrow> cursor \<Rightarrow> u64 \<Rightarrow> 'h \<Rightarrow> 'l tree \<Rightarrow> 's \<Rightarrow> (err \<times> cursor \<times> 'l tree \<times> 's) option" where
  "btree_leaf_split alloc ops p key hint t s =
     (case new_leaf alloc (op_leaf0 ops) t s of
        (Inl e, t, s) \<Rightarrow> Some (Some e, p, t, s)
      | (Inr nb, t, s) \<Rightarrow>
          let t = add_log (Balloc_rec nb 1) t in
          Option.bind (cursor_leafbuf t p) (\<lambda>lb.
          Option.bind (leaf_of t lb) (\<lambda>from.
          Option.bind (leaf_of t nb) (\<lambda>into.
          Option.bind (op_split ops hint from into) (\<lambda>(newkey, from, into).
          let t = set_block nb (Leaf into) (set_block lb (Leaf from) t) in
          Option.bind (cursor_this_key t p) (\<lambda>this.
          Option.bind (cursor_next_key t p) (\<lambda>next.
          if \<not> (this < newkey \<and> newkey < next) then None
          else insert_leaf alloc p newkey nb (key < newkey) (mark_leaf (if key < newkey then nb else lb) t) s)))))))"

section \<open>Writing\<close>

record ('l, 'r, 's) write_state =
  ws_err :: err
  ws_more :: bool
  ws_path :: cursor
  ws_req :: 'r
  ws_tree :: "'l tree"
  ws_sb :: 's

definition write_end :: "err \<Rightarrow> cursor \<Rightarrow> 'r \<Rightarrow> 'l tree \<Rightarrow> 's \<Rightarrow> ('l, 'r, 's) write_state" where
  "write_end e p r t s = \<lparr>ws_err = e, ws_more = (e = None), ws_path = p, ws_req = r, ws_tree = t, ws_sb = s\<rparr>"

text \<open>One round of the loop; \<open>ASSERT\<close> is a failed assertion.\<close>

definition write_leaf ::
  "('s \<Rightarrow> err \<times> u64 \<times> 's) \<Rightarrow> ('l, 'r, 'h) leaf_ops \<Rightarrow> u64 \<Rightarrow> 'l \<Rightarrow> u64 \<Rightarrow> u64 \<Rightarrow> cursor \<Rightarrow> 'r \<Rightarrow> 'l tree \<Rightarrow> 's \<Rightarrow> ('l, 'r, 's) write_state" where
  "write_leaf alloc ops lb leaf bottom limit p r t s =
     (case op_write ops bottom limit leaf r of
        None \<Rightarrow> write_end (Some ASSERT) p r t s
      | Some (res, leaf, r) \<Rightarrow>
          let t = set_block lb (Leaf leaf) t in
          (case res of
             Lw_error e \<Rightarrow> write_end (Some e) p r t s
           | Lw_done \<Rightarrow> write_end None p r (mark_leaf lb t) s
           | Lw_split hint \<Rightarrow>
               (case btree_leaf_split alloc ops p (op_start ops r) hint t s of
                  None \<Rightarrow> write_end (Some ASSERT) p r t s
                | Some (e, p, t, s) \<Rightarrow> write_end e p r t s)))"

definition write_step ::
  "('s \<Rightarrow> err \<times> u64 \<times> 's) \<Rightarrow> ('l, 'r, 'h) leaf_ops \<Rightarrow> ('l, 'r, 's) write_state \<Rightarrow> ('l, 'r, 's) write_state" where
  "write_step alloc ops w =
     (let p = ws_path w; r = ws_req w; t = ws_tree w; s = ws_sb w in
      case (cursor_this_key t p, cursor_next_key t p, Option.bind (cursor_leafbuf t p) (\<lambda>lb. map_option (Pair lb) (leaf_of t lb))) of
        (Some bottom, Some limit, Some (lb, leaf)) \<Rightarrow>
          if \<not> (bottom \<le> op_start ops r \<and> op_start ops r < limit) \<or> \<not> op_sniff ops leaf then write_end (Some ASSERT) p r t s
          else write_leaf alloc ops lb leaf bottom limit p r t s
      | _ \<Rightarrow> write_end (Some ASSERT) p r t s)"

partial_function (option) write_loop ::
  "('s \<Rightarrow> err \<times> u64 \<times> 's) \<Rightarrow> ('l, 'r, 'h) leaf_ops \<Rightarrow> ('l, 'r, 's) write_state \<Rightarrow> ('l, 'r, 's) write_state option" where
  "write_loop alloc ops w =
     (if ws_more w \<and> 0 < op_len ops (ws_req w) then write_loop alloc ops (write_step alloc ops w) else Some w)"

declare write_loop.simps [code]

definition btree_write ::
  "('s \<Rightarrow> err \<times> u64 \<times> 's) \<Rightarrow> ('l, 'r, 'h) leaf_ops \<Rightarrow> cursor \<Rightarrow> 'r \<Rightarrow> 'l tree \<Rightarrow> 's \<Rightarrow> ('l, 'r, 's) write_state option" where
  "btree_write alloc ops p r t s =
     (case cursor_redirect alloc p t s of
        None \<Rightarrow> Some (write_end (Some ASSERT) p r t s)
      | Some (Some e, p, t, s) \<Rightarrow> Some (write_end (Some e) p r t s)
      | Some (None, p, t, s) \<Rightarrow> write_loop alloc ops (write_end None p r t s))"

section \<open>The tree as a map\<close>

text \<open>The leaf whose key range holds a key: the last one whose first key is not greater.\<close>

fun at_key :: "(u64 \<times> 'a) list \<Rightarrow> u64 \<Rightarrow> 'a option" where
  "at_key [] k = None"
| "at_key ((a, x) # xs) k = (if k < a then None else case at_key xs k of None \<Rightarrow> Some x | Some y \<Rightarrow> Some y)"

definition tree_val :: "('l \<Rightarrow> u64 \<Rightarrow> 'v) \<Rightarrow> 'l tree \<Rightarrow> u64 \<Rightarrow> 'v option" where
  "tree_val val t k =
     (case at_key (cont t (tree_leaves t)) k of Some (Leaf l) \<Rightarrow> Some (val l k) | _ \<Rightarrow> None)"

lemma at_key_append:
  "(\<forall>(a, x) \<in> set xs. a \<le> b) \<Longrightarrow> at_key (xs @ (b, y) # ys) k = (if k < b then at_key xs k else at_key ((b, y) # ys) k)"
  by (induction xs) (auto split: option.splits)

lemma at_key_low: "(\<forall>(a, x) \<in> set xs. k < a) \<Longrightarrow> at_key xs k = None"
  by (cases xs) auto

text \<open>The keys of the leaves increase.\<close>

definition keys_in :: "u64 \<Rightarrow> u64 \<Rightarrow> (u64 \<times> 'a) list \<Rightarrow> bool" where
  "keys_in lo hi ls \<longleftrightarrow> sorted_wrt (<) (map fst ls) \<and> (\<forall>(k, x) \<in> set ls. lo \<le> k \<and> k < hi)"

lemma keys_in_append: "keys_in lo mid xs \<Longrightarrow> keys_in mid hi ys \<Longrightarrow> lo \<le> mid \<Longrightarrow> mid \<le> hi \<Longrightarrow> keys_in lo hi (xs @ ys)"
  by (fastforce simp: keys_in_def sorted_wrt_append)

lemma kids_sorted:
  "kids_ok P lo hi es \<Longrightarrow> (\<And>b l h. P b l h \<Longrightarrow> l < h \<Longrightarrow> keys_in l h (leaves t d b l)) \<Longrightarrow> keys_in lo hi (kids t d es)"
proof (induction P lo hi es rule: kids_ok.induct)
  case (3 P lo hi e f es)
  have "lo < ekey f" "P (eblock e) lo (ekey f)" "ekey e = lo" using 3(2) by simp_all
  then have "keys_in lo (ekey f) (leaves t d (eblock e) (ekey e))" using 3(3) by simp
  moreover have "keys_in (ekey f) hi (kids t d (f # es))" using 3 by simp
  moreover have "ekey f < hi" using kids_ok_lt [of P "ekey f" hi "f # es"] 3(2) by simp
  ultimately show ?case using keys_in_append [of lo "ekey f" "leaves t d (eblock e) (ekey e)" hi "kids t d (f # es)"] \<open>lo < ekey f\<close> by simp
qed auto

lemma leaves_sorted: "tree_ok sniff t d b lo hi \<Longrightarrow> lo < hi \<Longrightarrow> keys_in lo hi (leaves t d b lo)"
proof (induction d arbitrary: b lo hi)
  case (Suc d)
  then obtain n where n: "t_vol t b = Node n" "kids_ok (tree_ok sniff t d) lo hi (live n)" by auto
  show ?case unfolding leaves_node [OF n(1)] by (rule kids_sorted [OF n(2)]) (rule Suc.IH)
qed (simp add: keys_in_def)

lemma tree_sorted: "btree_ok sniff t \<Longrightarrow> keys_in 0 TUXKEY_LIMIT (tree_leaves t)"
  unfolding tree_leaves_def by (rule leaves_sorted) (auto simp: btree_ok_def TUXKEY_LIMIT_def)

text \<open>The map that is given by the leaves: \<open>C\<close> is the list of the leaves with their contents.\<close>

definition leaf_val :: "('l \<Rightarrow> u64 \<Rightarrow> 'v) \<Rightarrow> (u64 \<times> 'l vblock) list \<Rightarrow> u64 \<Rightarrow> 'v option" where
  "leaf_val val C k = (case at_key C k of Some (Leaf l) \<Rightarrow> Some (val l k) | _ \<Rightarrow> None)"

lemma tree_val_leaf: "tree_val val t = leaf_val val (cont t (tree_leaves t))"
  by (simp add: fun_eq_iff tree_val_def leaf_val_def)

lemma keys_at:
  assumes "sorted_wrt (<) (map fst (xs @ (lo, x) # ys))" and "case ys of [] \<Rightarrow> True | (k, _) # _ \<Rightarrow> k = hi"
  shows "at_key (xs @ (lo, x) # ys) k = (if k < lo then at_key xs k else if ys = [] \<or> k < hi then Some x else at_key ys k)"
proof -
  have "at_key (xs @ (lo, x) # ys) k = (if k < lo then at_key xs k else at_key ((lo, x) # ys) k)"
    by (rule at_key_append) (use assms(1) in \<open>fastforce simp: sorted_wrt_append\<close>)
  moreover have "at_key ys k = None" if "k < hi"
  proof (cases ys)
    case (Cons y zs)
    then show ?thesis using assms(2) that by (cases y) simp
  qed simp
  moreover have "\<exists>y. at_key ys k = Some y" if "ys \<noteq> []" "\<not> k < hi"
    using that assms(2) by (cases ys) (auto split: option.splits)
  ultimately show ?thesis by (auto split: option.splits)
qed

text \<open>A leaf replaced, and a leaf cut in two.\<close>

lemma leaf_val_change:
  assumes "sorted_wrt (<) (map fst (xs @ (lo, Leaf l) # ys))" and "case ys of [] \<Rightarrow> True | (k, _) # _ \<Rightarrow> k = hi"
    and "ys = [] \<Longrightarrow> k < hi"
  shows "leaf_val val (xs @ (lo, Leaf l') # ys) k =
    (if lo \<le> k \<and> k < hi then Some (val l' k) else leaf_val val (xs @ (lo, Leaf l) # ys) k)"
proof -
  have s: "sorted_wrt (<) (map fst (xs @ (lo, Leaf l') # ys))" using assms(1) by simp
  note a = keys_at [OF s assms(2), of k] keys_at [OF assms(1,2), of k]
  show ?thesis using assms(3) a by (auto simp: leaf_val_def)
qed

lemma leaf_val_at:
  assumes "sorted_wrt (<) (map fst (xs @ (lo, Leaf l) # ys))" and "case ys of [] \<Rightarrow> True | (k, _) # _ \<Rightarrow> k = hi"
    and "lo \<le> k" and "k < hi"
  shows "leaf_val val (xs @ (lo, Leaf l) # ys) k = Some (val l k)"
  using keys_at [OF assms(1,2), of k] assms(3,4) by (auto simp: leaf_val_def)

lemma leaf_val_cut:
  assumes "sorted_wrt (<) (map fst (xs @ (lo, Leaf l) # ys))" and "case ys of [] \<Rightarrow> True | (k, _) # _ \<Rightarrow> k = hi"
    and "lo < key" and "ys = [] \<or> key < hi"
    and "\<And>k. lo \<le> k \<Longrightarrow> val l k = (if k < key then val l1 k else val l2 k)"
  shows "leaf_val val (xs @ (lo, Leaf l1) # (key, Leaf l2) # ys) k = leaf_val val (xs @ (lo, Leaf l) # ys) k"
proof -
  have s: "sorted_wrt (<) (map fst (xs @ (lo, Leaf l1) # (key, Leaf l2) # ys))" "sorted_wrt (<) (map fst ((xs @ [(lo, Leaf l1)]) @ (key, Leaf l2) # ys))"
    using assms(1-4) by (auto simp: sorted_wrt_append split: list.splits)
  have "at_key (xs @ (lo, Leaf l1) # (key, Leaf l2) # ys) k =
      (if k < lo then at_key xs k else if k < key then Some (Leaf l1) else at_key ((key, Leaf l2) # ys) k)"
    using keys_at [OF s(1), of key k] by simp
  moreover have "at_key ((xs @ [(lo, Leaf l1)]) @ (key, Leaf l2) # ys) k =
      (if k < key then at_key (xs @ [(lo, Leaf l1)]) k else if ys = [] \<or> k < hi then Some (Leaf l2) else at_key ys k)"
    by (rule keys_at [OF s(2) assms(2)])
  ultimately show ?thesis using keys_at [OF assms(1,2), of k] assms(3-5)
    by (auto simp: leaf_val_def split: if_splits option.splits)
qed

text \<open>The leaves around the cursor.\<close>

lemma cursor_cont:
  assumes ok: "btree_ok sniff t" and sp: "spine t 0 outer blk lo hi" and l: "t_vol t blk = Leaf l"
  shows "cont t (tree_leaves t) = cont t (behind t 0 outer) @ (lo, Leaf l) # cont t (ahead t 0 outer)"
    and "sorted_wrt (<) (map fst (cont t (behind t 0 outer) @ (lo, Leaf l) # cont t (ahead t 0 outer)))"
    and "case cont t (ahead t 0 outer) of [] \<Rightarrow> hi = TUXKEY_LIMIT | (k, _) # _ \<Rightarrow> k = hi"
proof -
  have "tree_leaves t = behind t 0 outer @ (lo, blk) # ahead t 0 outer" using spine_leaves [OF sp] by simp
  then show c: "cont t (tree_leaves t) = cont t (behind t 0 outer) @ (lo, Leaf l) # cont t (ahead t 0 outer)"
    by (simp add: cont_def l)
  have "map fst (cont t (tree_leaves t)) = map fst (tree_leaves t)" by (simp add: cont_def case_prod_beta)
  then show "sorted_wrt (<) (map fst (cont t (behind t 0 outer) @ (lo, Leaf l) # cont t (ahead t 0 outer)))"
    using tree_sorted [OF ok] c by (simp add: keys_in_def)
  show "case cont t (ahead t 0 outer) of [] \<Rightarrow> hi = TUXKEY_LIMIT | (k, _) # _ \<Rightarrow> k = hi"
    using ahead_hd [OF ok sp] by (auto simp: cont_def)
qed

lemma leaf_at_first:
  assumes ok: "btree_ok sniff t" and sp: "spine t 0 outer blk lo hi" and l: "t_vol t blk = Leaf l"
  shows "at_key (cont t (tree_leaves t)) lo = Some (Leaf l)"
proof -
  note cc = cursor_cont [OF ok sp l]
  have "case cont t (ahead t 0 outer) of [] \<Rightarrow> True | (k, _) # _ \<Rightarrow> k = hi" using cc(3) by (auto split: list.splits)
  then show ?thesis using keys_at [OF cc(2), of hi lo] spine_range [OF ok sp] unfolding cc(1) by simp
qed

section \<open>The contract of the leaves\<close>

text \<open>A leaf with the first key \<open>lo\<close> stands for a map of the keys from \<open>lo\<close> on, a request for the values it is to store
  (\<open>upd\<close>). Writing takes over a part of the request, and all of it when it does not ask for a split or fail; a split at a
  key behind the first one divides the map there.\<close>

locale leaf_contract =
  fixes ops :: "('l, 'r, 'h) leaf_ops" and fit :: "u64 \<Rightarrow> 'l \<Rightarrow> bool" and val :: "'l \<Rightarrow> u64 \<Rightarrow> 'v" and upd :: "'r \<Rightarrow> u64 \<Rightarrow> 'v option"
    and rok :: "'r \<Rightarrow> bool" and hint_ok :: "'h \<Rightarrow> bool"
  assumes fit_sniff: "fit lo l \<Longrightarrow> op_sniff ops l"
    and nothing_left: "rok r \<Longrightarrow> op_len ops r = 0 \<Longrightarrow> upd r k = None"
    and write_law: "fit lo l \<Longrightarrow> rok r \<Longrightarrow> 0 < op_len ops r \<Longrightarrow> lo \<le> op_start ops r \<Longrightarrow> op_start ops r < hi \<Longrightarrow> hi \<le> TUXKEY_LIMIT \<Longrightarrow>
      \<exists>res l' r'. op_write ops lo hi l r = Some (res, l', r') \<and> fit lo l' \<and> rok r' \<and>
        (\<forall>k. lo \<le> k \<and> k < hi \<longrightarrow> (case upd r' k of Some x \<Rightarrow> x | None \<Rightarrow> val l' k) = (case upd r k of Some x \<Rightarrow> x | None \<Rightarrow> val l k)) \<and>
        (\<forall>k. \<not> (lo \<le> k \<and> k < hi) \<longrightarrow> upd r' k = upd r k) \<and>
        (case res of Lw_done \<Rightarrow> op_len ops r' = 0 | Lw_split h \<Rightarrow> hint_ok h \<and> lo \<le> op_start ops r' \<and> op_start ops r' < hi | Lw_error e \<Rightarrow> True)"
    and split_law: "fit lo l \<Longrightarrow> hint_ok h \<Longrightarrow> op_split ops h l (op_leaf0 ops) = Some (key, l1, l2) \<Longrightarrow> lo < key \<Longrightarrow> key < TUXKEY_LIMIT \<Longrightarrow>
      fit lo l1 \<and> fit key l2 \<and> (\<forall>k \<ge> lo. val l k = (if k < key then val l1 k else val l2 k))"

locale tree_store = block_alloc alloc used inv + leaf_contract ops fit val upd rok hint_ok
  for alloc :: "'s \<Rightarrow> err \<times> u64 \<times> 's" and used :: "'s \<Rightarrow> u64 set" and inv :: "'s \<Rightarrow> bool"
    and ops :: "('l, 'r, 'h) leaf_ops" and fit :: "u64 \<Rightarrow> 'l \<Rightarrow> bool" and val :: "'l \<Rightarrow> u64 \<Rightarrow> 'v" and upd :: "'r \<Rightarrow> u64 \<Rightarrow> 'v option"
    and rok :: "'r \<Rightarrow> bool" and hint_ok :: "'h \<Rightarrow> bool"

text \<open>Every leaf is well formed for its first key.\<close>

definition leaves_fit :: "(u64 \<Rightarrow> 'l \<Rightarrow> bool) \<Rightarrow> (u64 \<times> 'l vblock) list \<Rightarrow> bool" where
  "leaves_fit fit C \<longleftrightarrow> (\<forall>(k, v) \<in> set C. \<exists>l. v = Leaf l \<and> fit k l)"

lemma leaves_fit_append [simp]: "leaves_fit fit (xs @ ys) \<longleftrightarrow> leaves_fit fit xs \<and> leaves_fit fit ys"
  by (simp add: leaves_fit_def ball_Un)

lemma leaves_fit_Cons [simp]: "leaves_fit fit ((k, Leaf l) # ys) \<longleftrightarrow> fit k l \<and> leaves_fit fit ys"
  by (auto simp: leaves_fit_def)

text \<open>A cursor that may write: its leaf is dirty, and so are its index nodes.\<close>

definition ready :: "('l \<Rightarrow> bool) \<Rightarrow> 'l tree \<Rightarrow> cursor \<Rightarrow> u64 \<Rightarrow> u64 \<Rightarrow> bool" where
  "ready sniff t p lo hi \<longleftrightarrow> (\<exists>blk j outer. p = (blk, j) # outer \<and> ctx sniff t 0 outer blk lo hi \<and> t_dirty t blk \<and>
     (\<forall>x \<in> fst ` set outer. t_unify t x))"

definition clean_same :: "'l tree \<Rightarrow> 'l tree \<Rightarrow> u64 set \<Rightarrow> bool" where
  "clean_same t t' U \<longleftrightarrow> (\<forall>x \<in> U. \<not> dirty_block t x \<longrightarrow> t_vol t' x = t_vol t x)"

text \<open>The leaves outside of the cursor are in blocks of its context.\<close>

lemma behind_blocks: "(k, x) \<in> set (behind t d p) \<Longrightarrow> x \<in> set (ctx_blocks t d p)"
  by (induction t d p rule: behind.induct) (auto split: vblock.splits dest: leaf_blocks)

lemma ahead_blocks: "(k, x) \<in> set (ahead t d p) \<Longrightarrow> x \<in> set (ctx_blocks t d p)"
  by (induction t d p rule: ahead.induct) (auto split: vblock.splits dest: leaf_blocks)

lemma ctx_levels: "fst ` set p \<subseteq> set (ctx_blocks t d p)"
  by (induction t d p rule: ctx_blocks.induct) auto

lemma ctx_used: "spine t d p blk lo hi \<Longrightarrow> x \<in> set (ctx_blocks t d p) \<Longrightarrow> x \<in> set (tree_blocks t)"
  using ctx_mset by (metis Un_iff set_append set_mset_mset)

context tree_store begin

definition split_done :: "'l tree \<Rightarrow> 's \<Rightarrow> u64 \<Rightarrow> u64 \<Rightarrow> u64 \<Rightarrow> err \<Rightarrow> cursor \<Rightarrow> 'l tree \<Rightarrow> 's \<Rightarrow> bool" where
  "split_done t s lo hi key e p' t' s' \<longleftrightarrow> inv s' \<and> used s \<subseteq> used s' \<and> tree_inv (op_sniff ops) t' (used s') \<and> clean_same t t' (used s) \<and>
     (e = None \<longrightarrow> cow t t' (used s) \<and> leaves_fit fit (cont t' (tree_leaves t')) \<and>
        (\<forall>k. leaf_val val (cont t' (tree_leaves t')) k = leaf_val val (cont t (tree_leaves t)) k) \<and>
        (\<exists>lo' hi'. ready (op_sniff ops) t' p' lo' hi' \<and> lo' \<le> key \<and> key < hi' \<and> lo \<le> lo' \<and> hi' \<le> hi \<and> (lo < lo' \<or> hi' < hi)))"

text \<open>The two halves are in their blocks, the new one is not in the tree.\<close>

lemma halves_pending:
  assumes ok: "btree_ok (op_sniff ops) t" and epn: "2 \<le> t_epn t" and dist: "distinct (tree_blocks t)" and sub: "set (tree_blocks t) \<subseteq> U"
    and c: "ctx (op_sniff ops) t 0 outer blk lo hi" and u: "\<forall>x \<in> fst ` set outer. t_unify t x" and nb: "nb \<notin> U"
    and key: "lo < newkey" "newkey < hi" and fit: "fit lo l1" "fit newkey l2"
    and v: "t_vol t2 = (t_vol t)(blk := Leaf l1, nb := Leaf l2)" "t_root t2 = t_root t" "t_depth t2 = t_depth t" "t_epn t2 = t_epn t" "t_unify t2 = t_unify t"
  shows "pending (op_sniff ops) t2 (insert nb U) 0 outer blk nb lo newkey hi"
    and "pending_leaves t2 0 outer blk nb lo newkey = behind t 0 outer @ [(lo, blk), (newkey, nb)] @ ahead t 0 outer"
    and "mset (pending_blocks t2 0 outer blk nb) = add_mset nb (mset (tree_blocks t))"
    and "btree_ok (op_sniff ops) t2" and "ctx (op_sniff ops) t2 0 outer blk lo hi"
proof -
  note sp = spine_of_ctx [OF c]
  have m: "mset (tree_blocks t) = add_mset blk (mset (ctx_blocks t 0 outer))" using ctx_mset [OF sp] by simp
  then have mem: "set (tree_blocks t) = insert blk (set (ctx_blocks t 0 outer))" by (metis set_mset_add_mset_insert set_mset_mset)
  have db: "blk \<notin> set (ctx_blocks t 0 outer)" "distinct (ctx_blocks t 0 outer)" using ctx_distinct [OF sp] dist by simp_all
  have nbt: "nb \<noteq> blk" "nb \<notin> set (ctx_blocks t 0 outer)" using nb sub mem by auto
  have "same_on t t2 (set (ctx_blocks t 0 outer))" using db(1) nbt(2) by (auto simp: same_on_def v(1,4))
  note f = ctx_frame [OF this v(2,3) c]
  have sniff: "op_sniff ops l1" "op_sniff ops l2" using fit fit_sniff by blast+
  have depth: "0 < t_depth t" using ok by (simp add: btree_ok_def)
  have leafs: "tree_ok (op_sniff ops) t2 0 blk lo x" "tree_ok (op_sniff ops) t2 0 nb lo x" for x lo using sniff nbt(1) by (simp_all add: v(1))
  show c2: "ctx (op_sniff ops) t2 0 outer blk lo hi" using f by blast
  show "btree_ok (op_sniff ops) t2" by (rule btree_of_ctx [OF c2 leafs(1)]) (simp add: v(3) depth)
  show pl: "pending_leaves t2 0 outer blk nb lo newkey = behind t 0 outer @ [(lo, blk), (newkey, nb)] @ ahead t 0 outer"
    using f by (simp add: pending_leaves_def)
  have pb: "pending_blocks t2 0 outer blk nb = blk # nb # ctx_blocks t 0 outer" using f by (simp add: pending_blocks_def)
  show "mset (pending_blocks t2 0 outer blk nb) = add_mset nb (mset (tree_blocks t))" unfolding pb m by simp
  show "pending (op_sniff ops) t2 (insert nb U) 0 outer blk nb lo newkey hi"
    using c2 leafs key db nbt mem sub epn depth u by (auto simp: pending_def pb v(3-5))
qed

lemma split_insert:
  assumes inv: "tree_inv (op_sniff ops) t (used s)" and c: "ctx (op_sniff ops) t 0 outer blk lo hi" and dirty: "t_dirty t blk"
    and u: "\<forall>x \<in> fst ` set outer. t_unify t x" and l: "t_vol t blk = Leaf l" and fits: "leaves_fit fit (cont t (tree_leaves t))"
    and nb: "inv s1" "nb \<notin> used s" "used s1 = insert nb (used s)" and newkey: "lo < newkey" "newkey < hi" and key: "lo \<le> key" "key < hi"
    and halves: "fit lo l1" "fit newkey l2" "\<forall>k \<ge> lo. val l k = (if k < newkey then val l1 k else val l2 k)"
    and v: "t_vol t2 = (t_vol t)(blk := Leaf l1, nb := Leaf l2)" "t_root t2 = t_root t" "t_depth t2 = t_depth t" "t_epn t2 = t_epn t" "t_unify t2 = t_unify t"
      "t_dirty t2 = (t_dirty t)(nb := True)" "freed t2 = freed t"
  shows "\<exists>e p' t' s'. insert_leaf alloc ((blk, j) # outer) newkey nb (key < newkey) t2 s1 = Some (e, p', t', s') \<and> split_done t s lo hi key e p' t' s'"
proof -
  have ok: "btree_ok (op_sniff ops) t" and dist: "distinct (tree_blocks t)" and sub: "set (tree_blocks t) \<subseteq> used s" and epn: "2 \<le> t_epn t"
    using inv by (simp_all add: tree_inv_def)
  note sp = spine_of_ctx [OF c]
  note hp = halves_pending [OF ok epn dist sub c u nb(2) newkey halves(1,2) v(1-5)]
  let ?keep = "key < newkey"
  let ?x = "if ?keep then (blk, j) else (nb, 0)" and ?kl = "if ?keep then lo else newkey" and ?kh = "if ?keep then newkey else hi"
  have w: "walk t2 0 (if ?keep then blk else nb) ?kl ?kh [?x] ?kl ?kh" by simp
  from insert_loop_spec [OF hp(1) [folded nb(3)] nb(1) w] obtain e p' t' s' where
    r: "insert_loop alloc [?x] outer nb newkey ?keep t2 s1 = Some (e, p', t', s')"
    "inserted (op_sniff ops) t2 s1 (pending_leaves t2 0 outer blk nb lo newkey) (mset (pending_blocks t2 0 outer blk nb)) ?kl ?kh e p' t' s'"
    by auto
  have i: "inv s'" "used s1 \<subseteq> used s'" "tree_inv (op_sniff ops) t' (used s')" "calm t2 t' (used s1)" using r(2) by (simp_all add: inserted_def)
  have blkU: "blk \<in> used s" using ctx_mset [OF sp] sub by (metis UnI1 set_append set_mset_mset subsetD list.set_intros(1) blocks.simps(1))
  have bnb: "blk \<noteq> nb" using blkU nb(2) by blast
  have clean: "clean_same t t' (used s)"
    unfolding clean_same_def
  proof (intro ballI impI)
    fix x assume x: "x \<in> used s" "\<not> dirty_block t x"
    then have "x \<noteq> blk" "x \<noteq> nb" using dirty nb(2) by (auto simp: dirty_block_def)
    then have "t_vol t2 x = t_vol t x" by (simp add: v(1))
    moreover have "t_vol t' x = t_vol t2 x" using i(4) x nb(3) by (simp add: calm_def dirty_block_def v(5))
    ultimately show "t_vol t' x = t_vol t x" by simp
  qed
  have "split_done t s lo hi key e p' t' s'"
  proof (cases e)
    case (Some x)
    then show ?thesis using i nb(3) clean by (auto simp: split_done_def)
  next
    case None
    have ls: "tree_leaves t' = behind t 0 outer @ [(lo, blk), (newkey, nb)] @ ahead t 0 outer" and
      w': "walk t' (t_depth t') (t_root t') 0 TUXKEY_LIMIT (rev p') ?kl ?kh" and un: "\<forall>x \<in> fst ` set (butlast (rev p')). t_unify t' x"
      using r(2) None by (simp_all add: inserted_def hp(2))
    obtain N where N: "set_mset N \<inter> used s1 = {}" "mset (tree_blocks t') = mset (pending_blocks t2 0 outer blk nb) + N"
      using r(2) None by (auto simp: inserted_def)
    have cow: "cow t t' (used s)"
    proof -
      have "t_dirty t' x = t_dirty t x \<and> t_unify t' x = t_unify t x" if "x \<in> used s" for x
      proof -
        have "x \<noteq> nb" "x \<in> used s1" using that nb(2,3) by auto
        then show ?thesis using i(4) by (simp add: calm_def v(5,6))
      qed
      moreover have "mset (tree_blocks t') + mset (freed t') = mset (tree_blocks t) + mset (freed t) + add_mset nb N"
        using N(2) i(4) by (simp add: hp(3) calm_def v(7))
      moreover have "set_mset (add_mset nb N) \<inter> used s = {}" using N(1) nb(2,3) by auto
      ultimately show ?thesis using clean unfolding cow_def clean_same_def by blast
    qed
    have same: "t_vol t' x = t_vol t x" if x: "x \<in> set (ctx_blocks t 0 outer)" "\<exists>l. t_vol t x = Leaf l" for x
    proof -
      have "x \<in> used s" using ctx_used [OF sp x(1)] sub by blast
      moreover have "x \<noteq> blk" using ctx_distinct [OF sp] dist x(1) by auto
      ultimately have "t_vol t2 x = t_vol t x" "x \<in> used s1" using nb(2,3) by (auto simp: v(1))
      then show ?thesis using i(4) x(2) by (simp add: calm_def)
    qed
    have top: "tree_ok (op_sniff ops) t (t_depth t) (t_root t) 0 TUXKEY_LIMIT" using ok by (simp add: btree_ok_def)
    have isleaf: "\<exists>l. t_vol t x = Leaf l" if "(k, x) \<in> set (behind t 0 outer) \<union> set (ahead t 0 outer)" for k x
      by (rule leaves_leaf [OF top, of k]) (use that spine_leaves [OF sp] in \<open>auto simp: tree_leaves_def\<close>)
    have "cont t' (behind t 0 outer) = cont t (behind t 0 outer)" "cont t' (ahead t 0 outer) = cont t (ahead t 0 outer)"
      by (rule cont_cong; use same isleaf behind_blocks [of _ _ t 0 outer] ahead_blocks [of _ _ t 0 outer] in blast)+
    moreover have "t_vol t' blk = Leaf l1" "t_vol t' nb = Leaf l2"
      using i(4) nb(3) blkU bnb by (auto simp: calm_def v(1))
    ultimately have ct: "cont t' (tree_leaves t') = cont t (behind t 0 outer) @ (lo, Leaf l1) # (newkey, Leaf l2) # cont t (ahead t 0 outer)"
      by (simp add: ls) (simp add: cont_def)
    note cc = cursor_cont [OF ok sp l]
    have vals: "leaf_val val (cont t' (tree_leaves t')) k = leaf_val val (cont t (tree_leaves t)) k" for k
      unfolding ct cc(1)
    proof (rule leaf_val_cut [OF cc(2), of hi newkey])
      show "case cont t (ahead t 0 outer) of [] \<Rightarrow> True | (k, _) # _ \<Rightarrow> k = hi" using cc(3) by (auto split: list.splits)
      show "val l k = (if k < newkey then val l1 k else val l2 k)" if "lo \<le> k" for k using halves(3) that by blast
    qed (use newkey in simp_all)
    have fits': "leaves_fit fit (cont t' (tree_leaves t'))" using fits halves(1,2) unfolding ct cc(1) by simp
    have ok': "btree_ok (op_sniff ops) t'" using i(3) by (simp add: tree_inv_def)
    from check_of_walk(2) [OF ok' w'] obtain b jj outer' where p': "p' = (b, jj) # outer'" and sp': "spine t' 0 outer' b ?kl ?kh" by blast
    have "(?kl, b) \<in> set (tree_leaves t')" using spine_leaves [OF sp'] by simp
    moreover have "(?kl, if ?keep then blk else nb) \<in> set (tree_leaves t')" by (simp add: ls)
    moreover have "distinct (map fst (tree_leaves t'))" using tree_sorted [OF ok'] by (simp add: keys_in_def strict_sorted_iff)
    ultimately have "b = (if ?keep then blk else nb)" by (intro eq_key_imp_eq_value [of "tree_leaves t'"])
    moreover have "t_dirty t' blk" "t_dirty t' nb" using i(4) nb(3) blkU dirty by (auto simp: calm_def v(6))
    ultimately have "t_dirty t' b" by simp
    moreover have "\<forall>x \<in> fst ` set outer'. t_unify t' x" using un by (simp add: p')
    ultimately have "ready (op_sniff ops) t' p' ?kl ?kh" using ctx_of_spine [OF ok' sp'] by (auto simp: ready_def p')
    then have "\<exists>lo' hi'. ready (op_sniff ops) t' p' lo' hi' \<and> lo' \<le> key \<and> key < hi' \<and> lo \<le> lo' \<and> hi' \<le> hi \<and> (lo < lo' \<or> hi' < hi)"
      using newkey key by (intro exI [of _ ?kl] exI [of _ ?kh]) auto
    then show ?thesis using i nb(3) clean cow fits' vals by (auto simp: split_done_def)
  qed
  then show ?thesis using r(1) by (simp add: insert_leaf_def)
qed

end

context tree_store begin

lemma cursor_keys_frame:
  assumes "t_depth t' = t_depth t" and "\<forall>x \<in> fst ` set (tl p). node_of t' x = node_of t x"
  shows "cursor_this_key t' p = cursor_this_key t p" and "cursor_next_key t' p = cursor_next_key t p"
proof -
  have "next_key t' q = next_key t q" if "\<forall>x \<in> fst ` set q. node_of t' x = node_of t x" for q
    using that by (induction q) (auto split: option.splits)
  then show "cursor_next_key t' p = cursor_next_key t p" using assms by (simp add: cursor_next_key_def)
  show "cursor_this_key t' p = cursor_this_key t p"
    using assms by (cases p; cases "tl p") (auto simp: cursor_this_key_def this_key_def)
qed

lemma leaf_split_spec:
  assumes inv: "tree_inv (op_sniff ops) t (used s)" "inv s" and rd: "ready (op_sniff ops) t p lo hi" and key: "lo \<le> key" "key < hi" "hi \<le> TUXKEY_LIMIT"
    and h: "hint_ok h" and fits: "leaves_fit fit (cont t (tree_leaves t))"
  shows "(\<exists>l. t_vol t (fst (hd p)) = Leaf l \<and> (case op_split ops h l (op_leaf0 ops) of None \<Rightarrow> True | Some (key, _, _) \<Rightarrow> \<not> (lo < key \<and> key < hi)) \<and>
      btree_leaf_split alloc ops p key h t s = None) \<or>
    (\<exists>e p' t' s'. btree_leaf_split alloc ops p key h t s = Some (e, p', t', s') \<and> split_done t s lo hi key e p' t' s' \<and>
       (e = None \<longrightarrow> (\<exists>l newkey l1 l2. t_vol t (fst (hd p)) = Leaf l \<and> op_split ops h l (op_leaf0 ops) = Some (newkey, l1, l2) \<and> lo < newkey)))"
proof -
  obtain blk j outer where p: "p = (blk, j) # outer" and c: "ctx (op_sniff ops) t 0 outer blk lo hi" and dirty: "t_dirty t blk"
    and u: "\<forall>x \<in> fst ` set outer. t_unify t x" using rd by (auto simp: ready_def)
  have ok: "btree_ok (op_sniff ops) t" and dist: "distinct (tree_blocks t)" and sub: "set (tree_blocks t) \<subseteq> used s" and epn: "2 \<le> t_epn t"
    using inv(1) by (simp_all add: tree_inv_def)
  note sp = spine_of_ctx [OF c]
  obtain l where l: "t_vol t blk = Leaf l" using cursor_keys(4) [OF ok sp] by blast
  have lfit: "fit lo l" using fits by (simp add: cursor_cont(1) [OF ok sp l])
  show ?thesis
  proof (cases "new_block alloc t s")
    case (Pair r s1)
    show ?thesis
    proof (cases r)
      case (Inl e)
      then have "inv s1" "used s \<subseteq> used s1" using new_block_fail [OF inv(2)] Pair by blast+
      moreover from this have "tree_inv (op_sniff ops) t (used s1)" using inv(1) by (auto simp: tree_inv_def)
      ultimately show ?thesis using Pair Inl by (simp add: btree_leaf_split_def new_leaf_def split_done_def clean_same_def)
    next
      case (Inr nb)
      have nb: "inv s1" "nb \<notin> used s" "used s1 = insert nb (used s)" using new_block_ok [OF inv(2)] Pair Inr by blast+
      define t1 where "t1 = add_log (Balloc_rec nb 1) (mark_leaf nb (set_block nb (Leaf (op_leaf0 ops)) t))"
      have bnb: "blk \<noteq> nb" using ctx_mset [OF sp] sub nb(2) by (metis UnI1 set_append set_mset_mset subsetD list.set_intros(1) blocks.simps(1))
      have len: "length outer = t_depth t" using spine_length [OF sp] by simp
      have t1: "t_depth t1 = t_depth t" "t_vol t1 blk = Leaf l" "t_vol t1 nb = Leaf (op_leaf0 ops)"
        using bnb l by (simp_all add: t1_def add_log_def mark_leaf_def set_block_def)
      have run: "btree_leaf_split alloc ops p key h t s =
          Option.bind (op_split ops h l (op_leaf0 ops)) (\<lambda>(newkey, l1, l2).
            let t2 = set_block nb (Leaf l2) (set_block blk (Leaf l1) t1) in
            Option.bind (cursor_this_key t2 p) (\<lambda>this. Option.bind (cursor_next_key t2 p) (\<lambda>next.
              if \<not> (this < newkey \<and> newkey < next) then None
              else insert_leaf alloc p newkey nb (key < newkey) (mark_leaf (if key < newkey then nb else blk) t2) s1)))"
        using Pair Inr len t1 unfolding p
        by (simp add: btree_leaf_split_def new_leaf_def t1_def [symmetric] cursor_leafbuf_def leaf_of_def)
      show ?thesis
      proof (cases "op_split ops h l (op_leaf0 ops)")
        case (Some sr)
        obtain newkey l1 l2 where sr: "sr = (newkey, l1, l2)" by (cases sr)
        let ?t2 = "set_block nb (Leaf l2) (set_block blk (Leaf l1) t1)"
        let ?t3 = "mark_leaf (if key < newkey then nb else blk) ?t2"
        have nodes: "\<forall>x \<in> fst ` set (tl p). node_of ?t2 x = node_of t x"
        proof
          fix x assume "x \<in> fst ` set (tl p)"
          then have "x \<in> set (ctx_blocks t 0 outer)" using ctx_levels [of outer t 0] by (auto simp: p)
          then have "x \<noteq> blk" "x \<in> used s" using ctx_distinct [OF sp] dist ctx_used [OF sp] sub by auto
          then show "node_of ?t2 x = node_of t x" using nb(2) by (auto simp: node_of_def t1_def add_log_def mark_leaf_def set_block_def)
        qed
        have keys: "cursor_this_key ?t2 p = Some lo" "cursor_next_key ?t2 p = Some hi"
          using cursor_keys_frame [OF _ nodes] cursor_keys(1,2) [OF ok sp, of j] t1(1) by (simp_all add: p set_block_def)
        show ?thesis
        proof (cases "lo < newkey \<and> newkey < hi")
          case False
          then have "btree_leaf_split alloc ops p key h t s = None" using Some run keys sr by (simp add: Let_def)
          then show ?thesis using False Some sr l by (simp add: p)
        next
          case True
          then have newkey: "lo < newkey" "newkey < hi" by simp_all
          have split: "fit lo l1" "fit newkey l2" "\<forall>k \<ge> lo. val l k = (if k < newkey then val l1 k else val l2 k)" if "lo < newkey" "newkey < hi"
            using split_law [OF lfit h Some [unfolded sr] that(1)] that(2) key(3) by (blast intro: less_le_trans)+
          have v: "t_vol ?t3 = (t_vol t)(blk := Leaf l1, nb := Leaf l2)" "t_root ?t3 = t_root t" "t_depth ?t3 = t_depth t" "t_epn ?t3 = t_epn t" "t_unify ?t3 = t_unify t"
            "t_dirty ?t3 = (t_dirty t)(nb := True)" "freed ?t3 = freed t"
            using bnb dirty by (auto simp: t1_def add_log_def mark_leaf_def set_block_def freed_def fun_eq_iff)
          have "btree_leaf_split alloc ops p key h t s = insert_leaf alloc p newkey nb (key < newkey) ?t3 s1"
            using Some run keys sr newkey by (simp add: Let_def)
          then show ?thesis
            using split_insert [OF inv(1) c dirty u l fits nb newkey key(1,2) split [OF newkey] v, of j] Some sr l newkey(1) by (simp add: p)
        qed
      qed (use run l in \<open>simp add: p\<close>)
    qed
  qed
qed

end

context tree_store begin

text \<open>The leaf of the cursor is stored.\<close>

lemma store_leaf:
  assumes inv: "tree_inv (op_sniff ops) t (used s)" and rd: "ready (op_sniff ops) t ((blk, j) # outer) lo hi" and fits: "leaves_fit fit (cont t (tree_leaves t))"
    and l: "t_vol t blk = Leaf l" and fit: "fit lo l'"
    and v: "t_vol t1 = (t_vol t)(blk := Leaf l')" "t_root t1 = t_root t" "t_depth t1 = t_depth t" "t_epn t1 = t_epn t" "t_unify t1 = t_unify t"
      "t_dirty t1 = t_dirty t" "freed t1 = freed t"
  shows "tree_inv (op_sniff ops) t1 (used s)" and "ready (op_sniff ops) t1 ((blk, j) # outer) lo hi" and "leaves_fit fit (cont t1 (tree_leaves t1))"
    and "cow t t1 (used s)"
    and "k < TUXKEY_LIMIT \<Longrightarrow> leaf_val val (cont t1 (tree_leaves t1)) k =
      (if lo \<le> k \<and> k < hi then Some (val l' k) else leaf_val val (cont t (tree_leaves t)) k)"
    and "lo \<le> k \<Longrightarrow> k < hi \<Longrightarrow> leaf_val val (cont t (tree_leaves t)) k = Some (val l k)"
proof -
  have c: "ctx (op_sniff ops) t 0 outer blk lo hi" and dirty: "t_dirty t blk" and u: "\<forall>x \<in> fst ` set outer. t_unify t x" using rd by (auto simp: ready_def)
  have ok: "btree_ok (op_sniff ops) t" and dist: "distinct (tree_blocks t)" using inv by (simp_all add: tree_inv_def)
  note sp = spine_of_ctx [OF c]
  have nc: "blk \<notin> set (ctx_blocks t 0 outer)" using ctx_distinct [OF sp] dist by simp
  then have "same_on t t1 (set (ctx_blocks t 0 outer))" by (auto simp: same_on_def v(1,4))
  note f = ctx_frame [OF this v(2,3) c]
  have c1: "ctx (op_sniff ops) t1 0 outer blk lo hi" using f by blast
  note sp1 = spine_of_ctx [OF c1]
  have leaf: "tree_ok (op_sniff ops) t1 0 blk lo hi" using fit_sniff [OF fit] by (simp add: v(1))
  have ok1: "btree_ok (op_sniff ops) t1" using btree_of_ctx [OF c1 leaf] ok by (simp add: btree_ok_def v(3))
  have m: "mset (tree_blocks t1) = mset (tree_blocks t)" using ctx_mset [OF sp] ctx_mset [OF sp1] f by simp
  then have "distinct (tree_blocks t1)" "set (tree_blocks t1) = set (tree_blocks t)"
    using dist mset_eq_imp_distinct_iff [OF m] mset_eq_setD [OF m] by simp_all
  then show "tree_inv (op_sniff ops) t1 (used s)" using inv ok1 by (simp add: tree_inv_def v(4))
  show "ready (op_sniff ops) t1 ((blk, j) # outer) lo hi" using c1 dirty u by (simp add: ready_def v(5,6))
  show "cow t t1 (used s)" using dirty m by (auto simp: cow_def dirty_block_def v intro: exI [of _ "{#}"])
  have top: "tree_ok (op_sniff ops) t (t_depth t) (t_root t) 0 TUXKEY_LIMIT" using ok by (simp add: btree_ok_def)
  have "t_vol t1 x = t_vol t x" if "(k, x) \<in> set (behind t 0 outer) \<union> set (ahead t 0 outer)" for k x
    using that nc behind_blocks [of k x t 0 outer] ahead_blocks [of k x t 0 outer] by (auto simp: v(1))
  then have same: "cont t1 (behind t 0 outer) = cont t (behind t 0 outer)" "cont t1 (ahead t 0 outer) = cont t (ahead t 0 outer)"
    by (auto intro!: cont_cong)
  note cc = cursor_cont [OF ok sp l]
  have l1: "t_vol t1 blk = Leaf l'" by (simp add: v(1))
  have ct: "cont t1 (tree_leaves t1) = cont t (behind t 0 outer) @ (lo, Leaf l') # cont t (ahead t 0 outer)"
    using cursor_cont(1) [OF ok1 sp1 l1] f same by simp
  show "leaves_fit fit (cont t1 (tree_leaves t1))" using fits fit unfolding ct cc(1) by simp
  have hi: "case cont t (ahead t 0 outer) of [] \<Rightarrow> True | (k, _) # _ \<Rightarrow> k = hi" "cont t (ahead t 0 outer) = [] \<Longrightarrow> hi = TUXKEY_LIMIT"
    using cc(3) by (auto split: list.splits)
  show "leaf_val val (cont t1 (tree_leaves t1)) k =
      (if lo \<le> k \<and> k < hi then Some (val l' k) else leaf_val val (cont t (tree_leaves t)) k)" if "k < TUXKEY_LIMIT"
    unfolding ct cc(1) by (rule leaf_val_change [OF cc(2) hi(1)]) (use hi(2) that in simp)
  show "leaf_val val (cont t (tree_leaves t)) k = Some (val l k)" if "lo \<le> k" "k < hi"
    unfolding cc(1) by (rule leaf_val_at [OF cc(2) hi(1) that])
qed

lemma ready_limit:
  assumes "tree_inv (op_sniff ops) t U" and "ready (op_sniff ops) t p lo hi"
  shows "hi \<le> TUXKEY_LIMIT"
proof -
  have ok: "btree_ok (op_sniff ops) t" using assms(1) by (simp add: tree_inv_def)
  obtain blk j outer where "ctx (op_sniff ops) t 0 outer blk lo hi" using assms(2) by (auto simp: ready_def)
  note sp = spine_of_ctx [OF this]
  show ?thesis using ahead_hd [OF ok sp] tree_sorted [OF ok] unfolding spine_leaves [OF sp] by (auto simp: keys_in_def)
qed

text \<open>The request on top of the tree: what the tree shall hold in the end.\<close>

definition goal :: "'r \<Rightarrow> 'l tree \<Rightarrow> u64 \<Rightarrow> 'v option" where
  "goal r t k = (case upd r k of Some x \<Rightarrow> Some x | None \<Rightarrow> leaf_val val (cont t (tree_leaves t)) k)"

definition write_inv :: "'l tree \<Rightarrow> 's \<Rightarrow> 'r \<Rightarrow> ('l, 'r, 's) write_state \<Rightarrow> bool" where
  "write_inv t s r w \<longleftrightarrow> inv (ws_sb w) \<and> used s \<subseteq> used (ws_sb w) \<and> tree_inv (op_sniff ops) (ws_tree w) (used (ws_sb w)) \<and>
     clean_same t (ws_tree w) (used s) \<and>
     (ws_err w = None \<longrightarrow> cow t (ws_tree w) (used s) \<and> rok (ws_req w) \<and> leaves_fit fit (cont (ws_tree w) (tree_leaves (ws_tree w))) \<and>
        (\<forall>k < TUXKEY_LIMIT. goal (ws_req w) (ws_tree w) k = goal r t k))"

lemma clean_same_cow: "cow t t1 U \<Longrightarrow> clean_same t1 t2 U \<Longrightarrow> clean_same t t2 U"
  by (auto simp: cow_def clean_same_def dirty_block_def)

lemma clean_same_mono: "clean_same t t' U \<Longrightarrow> V \<subseteq> U \<Longrightarrow> clean_same t t' V"
  by (auto simp: clean_same_def)

end

context tree_store begin

lemma write_step_spec:
  assumes w: "write_inv t s r (write_end None p r1 t1 s1)" and rd: "ready (op_sniff ops) t1 p lo hi"
    and st: "lo \<le> op_start ops r1" "op_start ops r1 < hi" and len: "0 < op_len ops r1"
  defines "w' \<equiv> write_step alloc ops (write_end None p r1 t1 s1)"
  shows "ws_more w' = (ws_err w' = None)" and "write_inv t s r w' \<and>
    (ws_err w' = None \<longrightarrow> op_len ops (ws_req w') = 0 \<or>
       (\<exists>lo' hi'. ready (op_sniff ops) (ws_tree w') (ws_path w') lo' hi' \<and> lo' \<le> op_start ops (ws_req w') \<and> op_start ops (ws_req w') < hi' \<and>
          lo \<le> lo' \<and> hi' \<le> hi \<and> (lo < lo' \<or> hi' < hi)))"
proof -
  have i: "inv s1" "used s \<subseteq> used s1" "tree_inv (op_sniff ops) t1 (used s1)" "cow t t1 (used s)" "rok r1"
    "leaves_fit fit (cont t1 (tree_leaves t1))" "\<forall>k < TUXKEY_LIMIT. goal r1 t1 k = goal r t k"
    using w by (simp_all add: write_inv_def write_end_def)
  obtain blk j outer where p: "p = (blk, j) # outer" and c: "ctx (op_sniff ops) t1 0 outer blk lo hi" using rd by (auto simp: ready_def)
  have ok: "btree_ok (op_sniff ops) t1" using i(3) by (simp add: tree_inv_def)
  note sp = spine_of_ctx [OF c]
  obtain l where l: "t_vol t1 blk = Leaf l" using cursor_keys(4) [OF ok sp] by blast
  have lfit: "fit lo l" using i(6) by (simp add: cursor_cont(1) [OF ok sp l])
  have lim: "hi \<le> TUXKEY_LIMIT" by (rule ready_limit [OF i(3) rd])
  obtain res l' r' where op: "op_write ops lo hi l r1 = Some (res, l', r')" "fit lo l'" "rok r'"
    "\<forall>k. lo \<le> k \<and> k < hi \<longrightarrow> (case upd r' k of Some x \<Rightarrow> x | None \<Rightarrow> val l' k) = (case upd r1 k of Some x \<Rightarrow> x | None \<Rightarrow> val l k)"
    "\<forall>k. \<not> (lo \<le> k \<and> k < hi) \<longrightarrow> upd r' k = upd r1 k"
    "case res of Lw_done \<Rightarrow> op_len ops r' = 0 | Lw_split h \<Rightarrow> hint_ok h \<and> lo \<le> op_start ops r' \<and> op_start ops r' < hi | Lw_error e \<Rightarrow> True"
    using write_law [OF lfit i(5) len st lim] by (elim exE conjE) (rule that)
  let ?t2 = "set_block blk (Leaf l') t1"
  have step: "w' = (case res of
             Lw_error e \<Rightarrow> write_end (Some e) p r' ?t2 s1
           | Lw_done \<Rightarrow> write_end None p r' (mark_leaf blk ?t2) s1
           | Lw_split hint \<Rightarrow>
               (case btree_leaf_split alloc ops p (op_start ops r') hint ?t2 s1 of
                  None \<Rightarrow> write_end (Some ASSERT) p r' ?t2 s1
                | Some (e, p, t, s) \<Rightarrow> write_end e p r' t s))"
    using cursor_keys(1-3) [OF ok sp, of j] l fit_sniff [OF lfit] st op(1)
    unfolding w'_def p by (simp add: write_step_def write_leaf_def leaf_of_def) (simp add: write_end_def write_leaf_def Let_def)
  show "ws_more w' = (ws_err w' = None)" unfolding step
    by (simp add: write_end_def split: lw_result.splits option.splits prod.splits)
  have dirty: "t_dirty t1 blk" using rd by (auto simp: ready_def p)
  have v: "t_vol ?t2 = (t_vol t1)(blk := Leaf l')" "t_root ?t2 = t_root t1" "t_depth ?t2 = t_depth t1" "t_epn ?t2 = t_epn t1" "t_unify ?t2 = t_unify t1"
      "t_dirty ?t2 = t_dirty t1" "freed ?t2 = freed t1" by (simp_all add: set_block_def freed_def)
  note sl = store_leaf [OF i(3) rd [unfolded p] i(6) l op(2) v]
  have mark: "mark_leaf blk ?t2 = ?t2" using dirty by (simp add: mark_leaf_def set_block_def fun_upd_idem)
  have goal: "goal r' ?t2 k = goal r t k" if "k < TUXKEY_LIMIT" for k
  proof -
    have "goal r' ?t2 k = goal r1 t1 k"
    proof (cases "lo \<le> k \<and> k < hi")
      case True
      then show ?thesis using sl(5) [OF that] sl(6) [of k] op(4) [rule_format, OF True] by (simp add: goal_def split: option.splits)
    next
      case False
      then show ?thesis using sl(5) [OF that] op(5) [rule_format, OF False] by (auto simp: goal_def split: option.splits)
    qed
    then show ?thesis using i(7) that by simp
  qed
  have cow2: "cow t ?t2 (used s)" using cow_trans [OF i(4) cow_mono [OF sl(4) i(2)]] .
  then have stored: "write_inv t s r (write_end e p r' ?t2 s1)" for e
    using i(1,2) sl(1,3) goal op(3) by (auto simp: write_inv_def write_end_def cow_def clean_same_def)
  show "write_inv t s r w' \<and>
    (ws_err w' = None \<longrightarrow> op_len ops (ws_req w') = 0 \<or>
       (\<exists>lo' hi'. ready (op_sniff ops) (ws_tree w') (ws_path w') lo' hi' \<and> lo' \<le> op_start ops (ws_req w') \<and> op_start ops (ws_req w') < hi' \<and>
          lo \<le> lo' \<and> hi' \<le> hi \<and> (lo < lo' \<or> hi' < hi)))"
  proof (cases res)
    case Lw_done
    then show ?thesis using stored [of None] op(6) unfolding step mark by (simp add: write_end_def)
  next
    case (Lw_error e)
    then show ?thesis using stored [of "Some e"] unfolding step by (simp add: write_end_def)
  next
    case (Lw_split h)
    have h: "hint_ok h" "lo \<le> op_start ops r'" "op_start ops r' < hi" using op(6) Lw_split by simp_all
    from leaf_split_spec [OF sl(1) i(1) sl(2) h(2,3) lim h(1) sl(3)] consider
        (bad) l2 where "t_vol ?t2 blk = Leaf l2" "case op_split ops h l2 (op_leaf0 ops) of None \<Rightarrow> True | Some (key, _, _) \<Rightarrow> \<not> (lo < key \<and> key < hi)"
          "btree_leaf_split alloc ops p (op_start ops r') h ?t2 s1 = None"
      | (good) e p' t' s' where "btree_leaf_split alloc ops p (op_start ops r') h ?t2 s1 = Some (e, p', t', s')"
          "split_done ?t2 s1 lo hi (op_start ops r') e p' t' s'" by (auto simp: p)
    then show ?thesis
    proof cases
      case bad
      have "l2 = l'" using bad(1) by (simp add: v(1))
      then show ?thesis using bad(3) Lw_split stored [of "Some ASSERT"] unfolding step by (simp add: write_end_def)
    next
      case good
      have step': "w' = write_end e p' r' t' s'" using good(1) Lw_split unfolding step by simp
      have d: "inv s'" "used s1 \<subseteq> used s'" "tree_inv (op_sniff ops) t' (used s')" "clean_same ?t2 t' (used s1)"
        using good(2) by (simp_all add: split_done_def)
      have clean: "clean_same t t' (used s)" by (rule clean_same_cow [OF cow2 clean_same_mono [OF d(4) i(2)]])
      show ?thesis
      proof (cases e)
        case (Some x)
        then show ?thesis using d i(2) clean unfolding step' by (auto simp: write_inv_def write_end_def)
      next
        case None
        have n: "cow ?t2 t' (used s1)" "leaves_fit fit (cont t' (tree_leaves t'))"
          "\<forall>k. leaf_val val (cont t' (tree_leaves t')) k = leaf_val val (cont ?t2 (tree_leaves ?t2)) k"
          "\<exists>lo' hi'. ready (op_sniff ops) t' p' lo' hi' \<and> lo' \<le> op_start ops r' \<and> op_start ops r' < hi' \<and> lo \<le> lo' \<and> hi' \<le> hi \<and> (lo < lo' \<or> hi' < hi)"
          using good(2) None by (simp_all add: split_done_def)
        have "cow t t' (used s)" using cow_trans [OF cow2 cow_mono [OF n(1) i(2)]] .
        moreover have "goal r' t' k = goal r t k" if "k < TUXKEY_LIMIT" for k using goal [OF that] unfolding goal_def n(3) [rule_format] .
        ultimately have "write_inv t s r w'" using d i(2) clean n(2) op(3) None unfolding step' by (auto simp: write_inv_def write_end_def)
        then show ?thesis using n(4) unfolding step' by (simp add: write_end_def)
      qed
    qed
  qed
qed

lemma write_loop_spec:
  "write_inv t s r (write_end None p r1 t1 s1) \<Longrightarrow> ready (op_sniff ops) t1 p lo hi \<Longrightarrow> lo \<le> op_start ops r1 \<Longrightarrow> op_start ops r1 < hi \<Longrightarrow>
   \<exists>w. write_loop alloc ops (write_end None p r1 t1 s1) = Some w \<and>
     write_inv t s r w \<and> (ws_err w = None \<longrightarrow> op_len ops (ws_req w) = 0)"
proof (induction "unat hi - unat lo" arbitrary: p r1 t1 s1 lo hi rule: less_induct)
  case less
  let ?w = "write_end None p r1 t1 s1"
  show ?case
  proof (cases "0 < op_len ops r1")
    case False
    then show ?thesis using less.prems(1) by (subst write_loop.simps) (simp add: write_end_def word_gt_0)
  next
    case True
    let ?w' = "write_step alloc ops ?w"
    note st = write_step_spec [OF less.prems True]
    have go: "write_loop alloc ops ?w = write_loop alloc ops ?w'" using True by (subst write_loop.simps) (simp add: write_end_def)
    show ?thesis
    proof (cases "ws_err ?w' = None \<and> 0 < op_len ops (ws_req ?w')")
      case False
      then have "write_loop alloc ops ?w' = Some ?w'" using st(1) by (subst write_loop.simps) auto
      moreover have "ws_err ?w' = None \<longrightarrow> op_len ops (ws_req ?w') = 0" using False by (auto simp: word_gt_0)
      ultimately show ?thesis using go st(2) by (intro exI [of _ ?w']) (auto simp only:)
    next
      case True
      then obtain lo' hi' where n: "write_inv t s r ?w'" "ready (op_sniff ops) (ws_tree ?w') (ws_path ?w') lo' hi'" "lo' \<le> op_start ops (ws_req ?w')"
        "op_start ops (ws_req ?w') < hi'" "lo \<le> lo'" "hi' \<le> hi" "lo < lo' \<or> hi' < hi" using st(2) by auto
      define p2 r2 t2 s2 where d: "p2 = ws_path ?w'" "r2 = ws_req ?w'" "t2 = ws_tree ?w'" "s2 = ws_sb ?w'"
      have w': "?w' = write_end None p2 r2 t2 s2" using True st(1) by (simp add: write_end_def d)
      have "lo' < hi'" using n(3,4) by simp
      then have "unat hi' - unat lo' < unat hi - unat lo"
        using n(5-7) by (auto simp: word_le_nat_alt word_less_nat_alt)
      moreover have "write_inv t s r (write_end None p2 r2 t2 s2)" using n(1) by (simp only: w')
      moreover note n(2-4) [folded d]
      ultimately show ?thesis unfolding go w' by (rule less.hyps)
    qed
  qed
qed

end

context tree_store begin

lemma btree_write_spec:
  assumes inv: "tree_inv (op_sniff ops) t (used s)" "inv s" and fits: "leaves_fit fit (cont t (tree_leaves t))" and r: "rok r"
    and sp: "spine t 0 outer blk lo hi" and st: "lo \<le> op_start ops r" "op_start ops r < hi"
  shows "\<exists>w. btree_write alloc ops ((blk, i) # outer) r t s = Some w \<and>
    write_inv t s r w \<and> (ws_err w = None \<longrightarrow> op_len ops (ws_req w) = 0)"
proof -
  from redirect_spec [OF inv sp, of i] obtain e p' t' s' where
    d: "cursor_redirect alloc ((blk, i) # outer) t s = Some (e, p', t', s')" "inv s'" "used s \<subseteq> used s'" "tree_inv (op_sniff ops) t' (used s')"
      "kept t t'" "cow t t' (used s)" "cont t' (tree_leaves t') = cont t (tree_leaves t)"
      "e = None \<longrightarrow> (\<exists>blk' outer'. p' = (blk', i) # outer' \<and> ctx (op_sniff ops) t' 0 outer' blk' lo hi \<and> tree_ok (op_sniff ops) t' 0 blk' lo hi \<and>
         (\<forall>x \<in> fst ` set outer'. t_unify t' x) \<and> t_dirty t' blk')" by (elim exE conjE) (rule that)
  have "goal r t' = goal r t" unfolding goal_def fun_eq_iff d(7) by simp
  moreover have "clean_same t t' (used s)" using d(6) by (simp add: cow_def clean_same_def)
  ultimately have w: "write_inv t s r (write_end e p' r t' s')"
    using d(2-4,6) fits r by (simp add: write_inv_def write_end_def d(7))
  show ?thesis
  proof (cases e)
    case (Some x)
    then show ?thesis using d(1) w by (simp add: btree_write_def write_end_def)
  next
    case None
    then have "ready (op_sniff ops) t' p' lo hi" using d(8) by (auto simp: ready_def)
    from write_loop_spec [OF w [unfolded None] this st] show ?thesis using d(1) None by (simp add: btree_write_def)
  qed
qed

end

text \<open>The leaf that a probe finds.\<close>

lemma probed_leaf:
  assumes ok: "btree_ok sniff t" and fits: "leaves_fit fit (cont t (tree_leaves t))" and k: "k < TUXKEY_LIMIT"
    and run: "btree_probe sniff t k = Some (Inr u, p)"
  obtains blk outer lo hi l where "p = (blk, 0) # outer" "spine t 0 outer blk lo hi" "lo \<le> k" "k < hi" "t_vol t blk = Leaf l" "sniff l" "fit lo l"
    "tree_val val t k = Some (val l k)"
    "cursor_leafbuf t p = Some blk" "cursor_this_key t p = Some lo" "cursor_next_key t p = Some hi"
proof -
  from probe_spec [OF ok k] run obtain outer blk lo hi where
    p: "p = (blk, 0) # outer" and sp: "spine t 0 outer blk lo hi" and key: "lo \<le> k" "k < hi" by auto
  note ck = cursor_keys [OF ok sp]
  obtain l where l: "t_vol t blk = Leaf l" "sniff l" using ck(4) by blast
  note cc = cursor_cont [OF ok sp l(1)]
  have "fit lo l" using fits by (simp add: cc(1))
  moreover have "case cont t (ahead t 0 outer) of [] \<Rightarrow> True | (k, _) # _ \<Rightarrow> k = hi" using cc(3) by (auto split: list.splits)
  then have "tree_val val t k = Some (val l k)"
    unfolding tree_val_leaf cc(1) by (rule leaf_val_at [OF cc(2) _ key])
  ultimately show thesis using that [OF p sp key l] ck(1-3) [of 0, folded p] by blast
qed

context tree_store begin

text \<open>A write that asks for a split at a key that is not behind the first one of the leaf does not succeed.\<close>

lemma stuck_write:
  assumes inv: "tree_inv (op_sniff ops) t (used s)" "inv s" and fits: "leaves_fit fit (cont t (tree_leaves t))" and r: "rok r" "0 < op_len ops r"
    and sp: "spine t 0 outer blk lo hi" and st: "lo \<le> op_start ops r" "op_start ops r < hi" and l: "t_vol t blk = Leaf l"
    and ask: "op_write ops lo hi l r = Some (Lw_split h, l', r')"
    and low: "case op_split ops h l' (op_leaf0 ops) of None \<Rightarrow> True | Some (key, _, _) \<Rightarrow> \<not> lo < key"
    and run: "btree_write alloc ops ((blk, i) # outer) r t s = Some w"
  shows "ws_err w \<noteq> None"
proof -
  from redirect_spec [OF inv sp, of i] obtain e p1 t1 s1 where
    d: "cursor_redirect alloc ((blk, i) # outer) t s = Some (e, p1, t1, s1)" "inv s1" "used s \<subseteq> used s1" "tree_inv (op_sniff ops) t1 (used s1)"
      "kept t t1" "cow t t1 (used s)" "cont t1 (tree_leaves t1) = cont t (tree_leaves t)"
      "e = None \<longrightarrow> (\<exists>blk' outer'. p1 = (blk', i) # outer' \<and> ctx (op_sniff ops) t1 0 outer' blk' lo hi \<and> tree_ok (op_sniff ops) t1 0 blk' lo hi \<and>
         (\<forall>x \<in> fst ` set outer'. t_unify t1 x) \<and> t_dirty t1 blk')" by (elim exE conjE) (rule that)
  show ?thesis
  proof (cases e)
    case (Some x)
    then show ?thesis using d(1) run by (auto simp: btree_write_def write_end_def)
  next
    case None
    then obtain b outer1 where p1: "p1 = (b, i) # outer1" and c: "ctx (op_sniff ops) t1 0 outer1 b lo hi"
      and rd: "ready (op_sniff ops) t1 ((b, i) # outer1) lo hi" using d(8) by (auto simp: ready_def)
    have ok: "btree_ok (op_sniff ops) t" "btree_ok (op_sniff ops) t1" using inv(1) d(4) by (simp_all add: tree_inv_def)
    note sp1 = spine_of_ctx [OF c]
    obtain l1 where l1: "t_vol t1 b = Leaf l1" using cursor_keys(4) [OF ok(2) sp1] by blast
    have at: "at_key (cont t (tree_leaves t)) lo = Some (Leaf l)" "at_key (cont t1 (tree_leaves t1)) lo = Some (Leaf l1)"
      using leaf_at_first [OF ok(1) sp l] leaf_at_first [OF ok(2) sp1 l1] .
    have same: "l1 = l" using at by (simp add: d(7))
    have lim: "hi \<le> TUXKEY_LIMIT" by (rule ready_limit [OF d(4) rd])
    have fits1: "leaves_fit fit (cont t1 (tree_leaves t1))" using fits by (simp add: d(7))
    have lfit: "fit lo l1" using fits1 by (simp add: cursor_cont(1) [OF ok(2) sp1 l1])
    from write_law [OF lfit r st lim, unfolded same ask] have
      op: "fit lo l'" "rok r'" "hint_ok h" "lo \<le> op_start ops r'" "op_start ops r' < hi" by auto
    let ?t2 = "set_block b (Leaf l') t1"
    have v: "t_vol ?t2 = (t_vol t1)(b := Leaf l')" "t_root ?t2 = t_root t1" "t_depth ?t2 = t_depth t1" "t_epn ?t2 = t_epn t1" "t_unify ?t2 = t_unify t1"
      "t_dirty ?t2 = t_dirty t1" "freed ?t2 = freed t1" by (simp_all add: set_block_def freed_def)
    note sl = store_leaf [OF d(4) rd fits1 l1 op(1) v]
    have step: "write_step alloc ops (write_end None p1 r t1 s1) =
        (case btree_leaf_split alloc ops p1 (op_start ops r') h ?t2 s1 of
           None \<Rightarrow> write_end (Some ASSERT) p1 r' ?t2 s1 | Some (e, p, t, s) \<Rightarrow> write_end e p r' t s)"
      using cursor_keys(1-3) [OF ok(2) sp1, of i] l1 fit_sniff [OF lfit] st ask
      unfolding p1 same by (simp add: write_step_def write_leaf_def leaf_of_def) (simp add: write_end_def write_leaf_def Let_def)
    have bl: "t_vol ?t2 b = Leaf l'" by (simp add: v(1))
    from leaf_split_spec [OF sl(1) d(2) sl(2) op(4,5) lim op(3) sl(3)]
    have "btree_leaf_split alloc ops p1 (op_start ops r') h ?t2 s1 = None \<or>
        (\<exists>e p' t' s'. btree_leaf_split alloc ops p1 (op_start ops r') h ?t2 s1 = Some (Some e, p', t', s'))"
      using low bl by (auto simp: p1)
    then have stop: "ws_err (write_step alloc ops (write_end None p1 r t1 s1)) \<noteq> None" "\<not> ws_more (write_step alloc ops (write_end None p1 r t1 s1))"
      unfolding step by (auto simp: write_end_def)
    have "write_loop alloc ops (write_end None p1 r t1 s1) = write_loop alloc ops (write_step alloc ops (write_end None p1 r t1 s1))"
      using r(2) by (subst write_loop.simps) (simp add: write_end_def)
    also have "\<dots> = Some (write_step alloc ops (write_end None p1 r t1 s1))" using stop(2) by (subst write_loop.simps) simp
    finally show ?thesis using run d(1) None stop(1) by (auto simp: btree_write_def)
  qed
qed

end

context tree_store begin

text \<open>A write at the leaf that a probe has found.\<close>

lemma probed_write:
  assumes inv: "tree_inv (op_sniff ops) t (used s)" "inv s" and fits: "leaves_fit fit (cont t (tree_leaves t))" and r: "rok r"
    and k: "op_start ops r < TUXKEY_LIMIT" and run: "btree_probe (op_sniff ops) t (op_start ops r) = Some (Inr u, p)"
  shows "\<exists>w. btree_write alloc ops p r t s = Some w \<and> inv (ws_sb w) \<and> used s \<subseteq> used (ws_sb w) \<and>
    tree_inv (op_sniff ops) (ws_tree w) (used (ws_sb w)) \<and> clean_same t (ws_tree w) (used s) \<and>
    (ws_err w = None \<longrightarrow> leaves_fit fit (cont (ws_tree w) (tree_leaves (ws_tree w))) \<and> cow t (ws_tree w) (used s) \<and>
       (\<forall>k < TUXKEY_LIMIT. tree_val val (ws_tree w) k = (case upd r k of Some x \<Rightarrow> Some x | None \<Rightarrow> tree_val val t k)))"
proof -
  have ok: "btree_ok (op_sniff ops) t" using inv(1) by (simp add: tree_inv_def)
  obtain blk outer lo hi l where p: "p = (blk, 0) # outer" "spine t 0 outer blk lo hi" "lo \<le> op_start ops r" "op_start ops r < hi" "t_vol t blk = Leaf l"
    "op_sniff ops l" "fit lo l" "tree_val val t (op_start ops r) = Some (val l (op_start ops r))"
    "cursor_leafbuf t p = Some blk" "cursor_this_key t p = Some lo" "cursor_next_key t p = Some hi"
    by (rule probed_leaf [OF ok fits k run])
  from btree_write_spec [OF inv fits r p(2-4), of 0] obtain w where
    w: "btree_write alloc ops p r t s = Some w" "write_inv t s r w" "ws_err w = None \<longrightarrow> op_len ops (ws_req w) = 0"
    by (auto simp: p(1))
  note wi = w(2) [unfolded write_inv_def]
  have "tree_val val (ws_tree w) k = (case upd r k of Some x \<Rightarrow> Some x | None \<Rightarrow> tree_val val t k)" if "ws_err w = None" "k < TUXKEY_LIMIT" for k
  proof -
    have "goal (ws_req w) (ws_tree w) k = goal r t k" using wi that by blast
    moreover have "upd (ws_req w) k = None" using nothing_left wi w(3) that by blast
    ultimately show ?thesis unfolding goal_def tree_val_leaf by simp
  qed
  then show ?thesis using w(1) wi by (intro exI [of _ w] conjI) simp_all
qed

end

section \<open>Creating and releasing a tree\<close>

text \<open>\<open>free\<close> is the operation \<open>bfree\<close> of the tree, on one block; \<open>itree_ops\<close> and \<open>otree_ops\<close> have none. A call through the null
  pointer is \<open>None\<close>, as a failed assertion is.\<close>

definition alloc_empty_btree ::
  "('s \<Rightarrow> err \<times> u64 \<times> 's) \<Rightarrow> ('s \<Rightarrow> u64 \<Rightarrow> err \<times> 's) option \<Rightarrow> 'l \<Rightarrow> 'l tree \<Rightarrow> 's \<Rightarrow> (err \<times> 'l tree \<times> 's) option" where
  "alloc_empty_btree alloc free leaf0 t s =
     (case new_node alloc t s of
        (Inl e, t, s) \<Rightarrow> Some (Some e, t, s)
      | (Inr rb, t, s) \<Rightarrow>
          (case new_leaf alloc leaf0 t s of
             (Inl e, t, s) \<Rightarrow> map_option (\<lambda>bfree. (Some e, t, snd (bfree s rb))) free
           | (Inr lb, t, s) \<Rightarrow>
               if has_root t then None
               else Option.bind (node_of t rb) (\<lambda>rootnode.
                 let t = set_block rb (Node (bnode_init_root rootnode 1 lb 0 0)) t;
                     t = add_log (Balloc_rec lb 1) (add_log (Bnode_root_rec rb 1 lb 0 0) t);
                     t = mark_leaf lb (mark_unify rb t)
                 in Some (None, t\<lparr>t_root := rb, t_depth := 1\<rparr>, s))))"

text \<open>The leaf and the root are freed at once when they are dirty already, and after the next delta or unify cycle otherwise.
  \<open>vol_find_get_block\<close> finds the leaf when it is \<open>cached\<close>. \<open>blockput_free\<close> forgets the dirty buffer.\<close>

definition forget_block :: "u64 \<Rightarrow> 'l tree \<Rightarrow> 'l tree" where
  "forget_block b t = t\<lparr>t_dirty := (t_dirty t)(b := False), t_unify := (t_unify t)(b := False)\<rparr>"

definition free_leaf_block ::
  "('s \<Rightarrow> u64 \<Rightarrow> err \<times> 's) \<Rightarrow> ('l \<Rightarrow> bool) \<Rightarrow> (u64 \<Rightarrow> bool) \<Rightarrow> u64 \<Rightarrow> 'l tree \<Rightarrow> 's \<Rightarrow> ('l tree \<times> 's) option" where
  "free_leaf_block free can_free cached leaf t s =
     (if cached leaf \<and> t_dirty t leaf
      then Option.bind (leaf_of t leaf) (\<lambda>l.
             if \<not> can_free l then None else Some (forget_block leaf (add_log (Leaf_free_rec leaf) t), snd (free s leaf)))
      else if cached leaf \<and> (case leaf_of t leaf of None \<Rightarrow> True | Some l \<Rightarrow> \<not> can_free l) then None
      else Some (add_log (Bfree_rec leaf 1) (t\<lparr>t_defree := t_defree t @ [leaf]\<rparr>), s))"

definition free_root_block :: "('s \<Rightarrow> u64 \<Rightarrow> err \<times> 's) \<Rightarrow> u64 \<Rightarrow> 'l tree \<Rightarrow> 's \<Rightarrow> 'l tree \<times> 's" where
  "free_root_block free root t s =
     (if t_unify t root then (forget_block root (add_log (Bnode_free_rec root) t), snd (free s root))
      else (add_log (Bfree_on_unify_rec root 1) (t\<lparr>t_deunify := t_deunify t @ [root]\<rparr>), s))"

definition free_empty_btree ::
  "('s \<Rightarrow> u64 \<Rightarrow> err \<times> 's) \<Rightarrow> ('l \<Rightarrow> bool) \<Rightarrow> (u64 \<Rightarrow> bool) \<Rightarrow> 'l tree \<Rightarrow> 's \<Rightarrow> (err \<times> 'l tree \<times> 's) option" where
  "free_empty_btree free can_free cached t s =
     (if \<not> has_root t then Some (None, t, s)
      else if t_depth t \<noteq> 1 then None
      else let root = t_root t
           in if t_readerr t root then Some (Some EIO, t, s)
              else Option.bind (node_of t root) (\<lambda>rootnode.
                if \<not> bnode_sniff rootnode \<or> bcount rootnode \<noteq> 1 then None
                else Option.bind (free_leaf_block free can_free cached (eblock (entries rootnode ! 0)) (t\<lparr>t_root := 0, t_depth := 0\<rparr>) s)
                       (\<lambda>(t, s). let (t, s) = free_root_block free root t s in Some (None, t, s))))"

context block_alloc begin

lemma new_leaf_ok:
  assumes "inv s" and "new_leaf alloc l0 t s = (Inr nb, t', s')"
  shows "inv s' \<and> nb \<notin> used s \<and> used s' = insert nb (used s) \<and> t' = mark_leaf nb (set_block nb (Leaf l0) t)"
proof -
  from assms(2) have "new_block alloc t s = (Inr nb, s')" and "t' = mark_leaf nb (set_block nb (Leaf l0) t)"
    by (auto simp: new_leaf_def split: prod.splits sum.splits)
  then show ?thesis using new_block_ok [OF assms(1)] by blast
qed

lemma new_leaf_fail: "inv s \<Longrightarrow> new_leaf alloc l0 t s = (Inl e, t', s') \<Longrightarrow> t' = t \<and> inv s' \<and> used s \<subseteq> used s'"
  by (auto simp: new_leaf_def split: prod.splits sum.splits dest: new_block_fail)

text \<open>On success the tree has one leaf and its two blocks are new. On failure there is no tree, and the buffer of the freed root
  block is still dirty.\<close>

lemma alloc_empty_spec:
  assumes inv: "inv s" and none: "\<not> has_root t" and epn: "2 \<le> t_epn t" and sniff: "sniff leaf0"
  shows "(\<exists>rb t1 s1 e t2 s2. alloc_empty_btree alloc free leaf0 t s = None \<and> free = None \<and> new_node alloc t s = (Inr rb, t1, s1) \<and>
      new_leaf alloc leaf0 t1 s1 = (Inl e, t2, s2)) \<or>
    (\<exists>e t' s'. alloc_empty_btree alloc free leaf0 t s = Some (e, t', s') \<and> same_on t t' (used s) \<and> calm t t' (used s) \<and>
    (if e = None
     then \<exists>rb lb. t_depth t' = 1 \<and> tree_inv sniff t' (used s') \<and> cont t' (tree_leaves t') = [(0, Leaf leaf0)] \<and> tree_blocks t' = [rb, lb] \<and>
       inv s' \<and> used s' = insert lb (insert rb (used s)) \<and> rb \<notin> used s \<and> lb \<notin> used s \<and> t_dirty t' lb \<and> t_unify t' rb
     else \<not> has_root t' \<and>
       (inv s' \<and> used s \<subseteq> used s' \<or> (\<exists>rb s1. free \<noteq> None \<and> inv s1 \<and> insert rb (used s) \<subseteq> used s1 \<and> rb \<notin> used s \<and> s' = snd (the free s1 rb) \<and> t_unify t' rb))))"
proof (cases "new_node alloc t s")
  case (fields r t1 s1)
  show ?thesis
  proof (cases r)
    case (Inl e)
    note f = new_node_fail [OF inv fields [unfolded Inl]]
    have "alloc_empty_btree alloc free leaf0 t s = Some (Some e, t, s1)" using fields Inl f by (simp add: alloc_empty_btree_def)
    then show ?thesis using f none by (simp add: same_on_def)
  next
    case (Inr rb)
    note rb = new_node_ok [OF inv fields [unfolded Inr]]
    have none1: "\<not> has_root t1" using none rb by (simp add: has_root_def)
    have inv1: "inv s1" using rb by blast
    have u1: "t_unify t1 rb" using fields Inr by (auto simp: new_node_def mark_unify_def split: prod.splits sum.splits)
    show ?thesis
    proof (cases "new_leaf alloc leaf0 t1 s1")
      case leaf: (fields r2 t2 s2)
      show ?thesis
      proof (cases r2)
        case (Inl e)
        note f = new_leaf_fail [OF inv1 leaf [unfolded Inl]]
        show ?thesis
        proof (cases free)
          case None
          then show ?thesis using fields \<open>r = Inr rb\<close> leaf Inl by (simp add: alloc_empty_btree_def)
        next
          case (Some bfree)
          have run: "alloc_empty_btree alloc free leaf0 t s = Some (Some e, t1, snd (the free s2 rb))"
            using fields \<open>r = Inr rb\<close> leaf Inl f Some by (simp add: alloc_empty_btree_def)
        have "\<exists>rb' s1. inv s1 \<and> insert rb' (used s) \<subseteq> used s1 \<and> rb' \<notin> used s \<and> snd (the free s2 rb) = snd (the free s1 rb') \<and> t_unify t1 rb'"
          using f rb u1 by blast
          then have "\<exists>rb' s1. free \<noteq> None \<and> inv s1 \<and> insert rb' (used s) \<subseteq> used s1 \<and> rb' \<notin> used s \<and> snd (the free s2 rb) = snd (the free s1 rb') \<and> t_unify t1 rb'"
            using Some by auto
        then show ?thesis using run rb none1
          by (intro exI [of _ "Some e"] exI [of _ t1] exI [of _ "snd (the free s2 rb)"] conjI disjI2) simp_all
        qed
      next
        case (Inr lb)
        note lb = new_leaf_ok [OF inv1 leaf [unfolded Inr]]
        let ?n = "bnode_init_root (empty_node (t_epn t)) 1 lb 0 0"
        have n0: "entries (empty_node (t_epn t)) ! 0 = null_entry" using epn by (simp add: empty_node_ok)
        have n: "node_ok (t_epn t) ?n" "live ?n = [\<lparr>ekey = 0, eblock = lb\<rparr>]" "bnode_sniff ?n"
          using init_root_live [OF empty_node_ok(1) epn _ n0, of 1 lb 0 0] empty_node_ok(3) [of "t_epn t"]
          by (simp_all add: bnode_sniff_def bnode_init_root_def)
        have ne: "lb \<noteq> rb" "lb \<notin> used s" "rb \<notin> used s" using lb rb by auto
        define t' where "t' = mark_leaf lb (mark_unify rb (add_log (Balloc_rec lb 1) (add_log (Bnode_root_rec rb 1 lb 0 0)
          (set_block rb (Node ?n) t2))))\<lparr>t_root := rb, t_depth := 1\<rparr>"
        have nd: "node_of t2 rb = Some (empty_node (t_epn t))"
          using lb rb ne(1) by (simp add: node_of_def mark_leaf_def set_block_def)
        have "\<not> has_root t2" using none1 lb by (simp add: has_root_def mark_leaf_def set_block_def)
        then have run: "alloc_empty_btree alloc free leaf0 t s = Some (None, t', s2)"
          using fields \<open>r = Inr rb\<close> leaf Inr nd by (simp add: alloc_empty_btree_def t'_def Let_def)
        have v: "t_vol t' = (t_vol t1)(lb := Leaf leaf0, rb := Node ?n)" "t_root t' = rb" "t_depth t' = 1" "t_epn t' = t_epn t"
          "t_dirty t' = (t_dirty t1)(lb := True)" "t_unify t' = (t_unify t1)(rb := True)" "freed t' = freed t" "t_readerr t' = t_readerr t" "t_nomem t' = t_nomem t"
          using lb rb by (simp_all add: t'_def mark_leaf_def mark_unify_def add_log_def set_block_def freed_def same_on_def calm_def)
        have ok: "btree_ok sniff t'" using n sniff ne(1) by (simp add: btree_ok_def v bnode_sniff_def TUXKEY_LIMIT_def)
        have bl: "tree_blocks t' = [rb, lb]" using n(2) ne(1) by (simp add: tree_blocks_def v)
        have lv: "cont t' (tree_leaves t') = [(0, Leaf leaf0)]" using n(2) ne(1) by (simp add: tree_leaves_def cont_def v)
        have inv': "tree_inv sniff t' (used s2)" using ok bl ne epn lb rb by (simp add: tree_inv_def v)
        have "same_on t t' (used s)" using rb ne by (auto simp: same_on_def v)
        moreover have "calm t t' (used s)" using rb ne by (auto simp: calm_def v)
        moreover have "\<exists>rb lb. t_depth t' = 1 \<and> tree_inv sniff t' (used s2) \<and> cont t' (tree_leaves t') = [(0, Leaf leaf0)] \<and> tree_blocks t' = [rb, lb] \<and>
            inv s2 \<and> used s2 = insert lb (insert rb (used s)) \<and> rb \<notin> used s \<and> lb \<notin> used s \<and> t_dirty t' lb \<and> t_unify t' rb"
          by (intro exI [of _ rb] exI [of _ lb]) (use inv' lv bl ne lb rb in \<open>simp add: v\<close>)
        ultimately show ?thesis using run
          by (intro exI [of _ None] exI [of _ t'] exI [of _ s2] conjI disjI2) (simp_all only: simp_thms if_True)
      qed
    qed
  qed
qed

lemma alloc_empty_unfreed:
  assumes inv: "inv s" and none: "\<not> has_root t" and epn: "2 \<le> t_epn t" and sniff: "sniff leaf0"
    and run: "alloc_empty_btree alloc None leaf0 t s = Some (e, t', s')"
  shows "same_on t t' (used s)" and "calm t t' (used s)" and "inv s'" and "used s \<subseteq> used s'"
    and "e = None \<Longrightarrow> tree_inv sniff t' (used s') \<and> cont t' (tree_leaves t') = [(0, Leaf leaf0)]"
    and "e \<noteq> None \<Longrightarrow> \<not> has_root t'"
proof -
  note a = alloc_empty_spec [of s t sniff leaf0 None, OF inv none epn sniff, unfolded run]
  show "same_on t t' (used s)" "calm t t' (used s)" using a by auto
  show "e \<noteq> None \<Longrightarrow> \<not> has_root t'" using a by auto
  show "e = None \<Longrightarrow> tree_inv sniff t' (used s') \<and> cont t' (tree_leaves t') = [(0, Leaf leaf0)]" using a by auto
  have "inv s' \<and> used s \<subseteq> used s'" using a by (cases e) auto
  then show "inv s'" "used s \<subseteq> used s'" by simp_all
qed

end

end
