(* ===== verification/Itree.thy ===== *)
theory Itree
  imports Btreewrite Iattr
begin

text \<open>
  The inode table: the btree with the leaves of theory \<open>Ileaf\<close>, whose operations \<open>src/kernel/ileaf.c\<close> puts in
  \<open>itree_ops\<close> and \<open>otree_ops\<close>, and its users in \<open>src/kernel/inode.c\<close>: \<open>save_inode\<close>, \<open>open_inode\<close>, the search for a free
  inode number and its allocation. The theorems are about the whole table as a map from inode numbers to attributes.
\<close>

section \<open>Inode leaves under a btree\<close>

record 'd ileaf_req =
  irq_start :: u64
  irq_len :: u64
  irq_data :: 'd

definition write_ileaf :: "'d attr_ops \<Rightarrow> nat \<Rightarrow> nat \<Rightarrow> ileaf \<Rightarrow> 'd ileaf_req \<Rightarrow> (nat lw_result \<times> ileaf \<times> 'd ileaf_req) option" where
  "write_ileaf ops bs epl l r =
     (case ileaf_write ops bs epl l (unat (irq_start r)) (unat (irq_len r)) (irq_data r) of
        None \<Rightarrow> None
      | Some (Written l' start len) \<Rightarrow> Some (Lw_done, l', r\<lparr>irq_start := of_nat start, irq_len := of_nat len\<rparr>)
      | Some (Need_split hint) \<Rightarrow> Some (Lw_split hint, l, r))"

definition ileaf_ops :: "'d attr_ops \<Rightarrow> nat \<Rightarrow> nat \<Rightarrow> (ileaf, 'd ileaf_req, nat) leaf_ops" where
  "ileaf_ops ops bs epl =
     \<lparr>op_sniff = ileaf_sniff ops,
      op_leaf0 = ileaf_init ops bs (replicate (bs - ileaf_hdr) 0),
      op_split = (\<lambda>hint from into. map_option (\<lambda>(key, from, into). (of_nat key, from, into)) (ileaf_split ops epl hint from into)),
      op_write = (\<lambda>bottom limit l r. write_ileaf ops bs epl l r),
      op_start = irq_start, op_len = irq_len\<rparr>"

text \<open>What the leaf, and a request, stand for: the attributes of each inode number as bytes, none for a free one.\<close>

definition ileaf_bytes :: "ileaf \<Rightarrow> u64 \<Rightarrow> u8 list" where
  "ileaf_bytes l k =
     (case ileaf_lookup (unat k) l of Some (siz, Some off) \<Rightarrow> take siz (drop off (il_table l)) | _ \<Rightarrow> [])"

definition ileaf_fit :: "'d attr_ops \<Rightarrow> nat \<Rightarrow> nat \<Rightarrow> u64 \<Rightarrow> ileaf \<Rightarrow> bool" where
  "ileaf_fit ops bs epl lo l \<longleftrightarrow> 0 < epl \<and> ileaf_sniff ops l \<and> il_base l = unat lo \<and> lo < TUXKEY_LIMIT \<and> (\<exists>segs. rep bs l segs)"

definition ileaf_upd :: "'d attr_ops \<Rightarrow> 'd ileaf_req \<Rightarrow> u64 \<Rightarrow> u8 list option" where
  "ileaf_upd ops r k = (if irq_len r \<noteq> 0 \<and> k = irq_start r then Some (encode ops (irq_data r)) else None)"

definition ileaf_rok :: "('d \<Rightarrow> bool) \<Rightarrow> 'd ileaf_req \<Rightarrow> bool" where
  "ileaf_rok valid r \<longleftrightarrow> valid (irq_data r) \<and> (irq_len r = 0 \<or> irq_len r = 1)"

definition hint_small :: "nat \<Rightarrow> bool" where
  "hint_small h \<longleftrightarrow> h < 2 ^ 49"

lemma bytes_rep: "rep bs l segs \<Longrightarrow> il_base l \<le> unat k \<Longrightarrow> ileaf_bytes l k = seg_at (il_base l) segs (unat k)"
  using lookup_rep [of bs l segs "unat k"] unfolding ileaf_bytes_def by (auto split: option.splits)

lemma limit_nat: "k < TUXKEY_LIMIT \<longleftrightarrow> unat k < 2 ^ 48"
  by (simp add: TUXKEY_LIMIT_def word_less_nat_alt)

lemma hint_of_write:
  assumes "rep bs l segs" and "il_base l \<le> key" and "key < 2 ^ 48"
  shows "hint_small (ileaf_split_hint epl l key)"
proof -
  have "icount l < 2 ^ 16" using assms(1) by (simp add: rep_count [OF assms(1)] rep_def ileaf_hdr_def)
  then show ?thesis using assms by (auto simp: hint_small_def ileaf_split_hint_def Let_def)
qed

text \<open>A hint below the leaf gives a key that is not behind its first one.\<close>

lemma split_low_hint:
  assumes "hint < il_base l" and "ileaf_split ops epl hint l d = Some (key, l1, l2)"
  shows "key = hint"
proof -
  have "hint - hint mod epl \<le> il_base l + icount l" using assms(1) by simp
  then show ?thesis using assms by (auto simp: ileaf_split_def Let_def split: if_splits)
qed

context attr_encoder begin

lemma ileaf_write_law:
  assumes fit: "ileaf_fit ops bs epl lo l" and r: "ileaf_rok valid r" and len: "0 < irq_len r" and st: "lo \<le> irq_start r" "irq_start r < hi"
    and hi: "hi \<le> TUXKEY_LIMIT"
  shows "\<exists>res l' r'. write_ileaf ops bs epl l r = Some (res, l', r') \<and> ileaf_fit ops bs epl lo l' \<and> ileaf_rok valid r' \<and>
        (\<forall>k. lo \<le> k \<and> k < hi \<longrightarrow> (case ileaf_upd ops r' k of Some x \<Rightarrow> x | None \<Rightarrow> ileaf_bytes l' k) =
           (case ileaf_upd ops r k of Some x \<Rightarrow> x | None \<Rightarrow> ileaf_bytes l k)) \<and>
        (\<forall>k. \<not> (lo \<le> k \<and> k < hi) \<longrightarrow> ileaf_upd ops r' k = ileaf_upd ops r k) \<and>
        (case res of Lw_done \<Rightarrow> irq_len r' = 0 | Lw_split h \<Rightarrow> hint_small h \<and> lo \<le> irq_start r' \<and> irq_start r' < hi | Lw_error e \<Rightarrow> True)"
proof -
  obtain segs where rep: "rep bs l segs" and base: "il_base l = unat lo" and sniff: "ileaf_sniff ops l" using fit by (auto simp: ileaf_fit_def)
  have len1: "irq_len r = 1" and v: "valid (irq_data r)" using r len by (auto simp: ileaf_rok_def)
  have key: "il_base l \<le> unat (irq_start r)" "unat (irq_start r) < 2 ^ 48"
    using st(1) base less_le_trans [OF st(2) hi] by (simp_all add: word_le_nat_alt limit_nat)
  let ?i = "unat (irq_start r)" and ?e = "encode ops (irq_data r)"
  note W = write_put [OF rep key(1) v, of epl]
  show ?thesis
  proof (cases "fits bs (put_seg (?i - il_base l) ?e segs)")
    case True
    then obtain l' where l': "ileaf_write ops bs epl l ?i 1 (irq_data r) = Some (Written l' (?i + 1) 0)"
      "rep bs l' (put_seg (?i - il_base l) ?e segs)" "il_base l' = il_base l" "il_magic l' = il_magic l" using W by auto
    have fit': "ileaf_fit ops bs epl lo l'" using fit l' by (auto simp: ileaf_fit_def ileaf_sniff_def)
    have bytes: "ileaf_bytes l' k = (if k = irq_start r then ?e else ileaf_bytes l k)" if "lo \<le> k" for k
    proof -
      have k: "il_base l \<le> unat k" "il_base l' \<le> unat k" using that base l'(3) by (simp_all add: word_le_nat_alt)
      then show ?thesis using bytes_rep [OF rep k(1)] bytes_rep [OF l'(2) k(2)] seg_at_put [OF key(1) k(1), of ?e segs] l'(3)
        by (auto simp: word_unat_eq_iff)
    qed
    show ?thesis
      by (intro exI [of _ Lw_done] exI [of _ l'] exI [of _ "r\<lparr>irq_start := of_nat (?i + 1), irq_len := of_nat 0\<rparr>"] conjI)
        (use l'(1) len1 v fit' bytes st in \<open>auto simp: write_ileaf_def ileaf_rok_def ileaf_upd_def\<close>)
  next
    case False
    have "hint_small (ileaf_split_hint epl l ?i)" by (rule hint_of_write [OF rep key])
    then show ?thesis
      by (intro exI [of _ "Lw_split (ileaf_split_hint epl l ?i)"] exI [of _ l] exI [of _ r] conjI)
        (use W False len1 fit r st in \<open>auto simp: write_ileaf_def\<close>)
  qed
qed

lemma ileaf_split_law:
  assumes fit: "ileaf_fit ops bs epl lo l" and h: "hint_small h"
    and run: "ileaf_split ops epl h l (ileaf_init ops bs (replicate (bs - ileaf_hdr) 0)) = Some (n, l1, l2)"
    and key: "lo < of_nat n" "of_nat n < TUXKEY_LIMIT"
  shows "ileaf_fit ops bs epl lo l1 \<and> ileaf_fit ops bs epl (of_nat n) l2 \<and>
    (\<forall>k \<ge> lo. ileaf_bytes l k = (if k < of_nat n then ileaf_bytes l1 k else ileaf_bytes l2 k))"
proof -
  obtain segs where rep: "rep bs l segs" and base: "il_base l = unat lo" and sniff: "ileaf_sniff ops l" and epl: "0 < epl" and lo: "lo < TUXKEY_LIMIT"
    using fit by (auto simp: ileaf_fit_def)
  let ?d = "ileaf_init ops bs (replicate (bs - ileaf_hdr) 0)"
  have low: "il_base l \<le> h"
  proof (rule ccontr)
    assume neg: "\<not> il_base l \<le> h"
    then have "n = h" using split_low_hint [OF _ run] by simp
    moreover have "unat (of_nat h :: u64) = h" using h by (simp add: hint_small_def unat_of_nat take_bit_nat_eq_self)
    ultimately show False using key(1) neg base by (simp add: word_less_nat_alt)
  qed
  have h2: "h < 2 ^ 64 - 1" "length (il_table ?d) = bs - ileaf_hdr" using h by (simp_all add: hint_small_def ileaf_init_def)
  from split_rep [OF rep sniff low h2 epl] obtain lsegs dsegs where s: "rep bs l1 lsegs" "rep bs l2 dsegs" "il_base l1 = il_base l" "il_base l2 = n"
    "il_base l < n" "n \<le> max h (il_base l + 1)" "il_magic l1 = il_magic l" "il_magic l2 = il_magic ?d"
    "\<forall>i. il_base l \<le> i \<longrightarrow> seg_at (il_base l) segs i = (if i < n then seg_at (il_base l1) lsegs i else seg_at (il_base l2) dsegs i)"
    using run by auto
  have "n \<le> 2 ^ 49" using s(6) h lo base by (auto simp: hint_small_def limit_nat)
  then have n: "unat (of_nat n :: u64) = n" by (simp add: unat_of_nat take_bit_nat_eq_self)
  have "ileaf_fit ops bs epl lo l1" "ileaf_fit ops bs epl (of_nat n) l2"
    using s epl sniff base lo key(2) n by (auto simp: ileaf_fit_def ileaf_sniff_def ileaf_init_def)
  moreover have "ileaf_bytes l k = (if k < of_nat n then ileaf_bytes l1 k else ileaf_bytes l2 k)" if "lo \<le> k" for k
  proof -
    have k: "il_base l \<le> unat k" "il_base l1 \<le> unat k" using that base s(3) by (simp_all add: word_le_nat_alt)
    have lt: "k < of_nat n \<longleftrightarrow> unat k < n" by (simp add: word_less_nat_alt n)
    show ?thesis using bytes_rep [OF rep k(1)] bytes_rep [OF s(1) k(2)] bytes_rep [OF s(2), of k] s(4) s(9) [rule_format, OF k(1)] lt by auto
  qed
  ultimately show ?thesis by blast
qed

lemma ileaf_contract: "leaf_contract (ileaf_ops ops bs epl) (ileaf_fit ops bs epl) ileaf_bytes (ileaf_upd ops) (ileaf_rok valid) hint_small"
proof
  show "op_sniff (ileaf_ops ops bs epl) l" if "ileaf_fit ops bs epl lo l" for lo l
    using that by (simp add: ileaf_fit_def ileaf_ops_def)
  show "ileaf_upd ops r k = None" if "op_len (ileaf_ops ops bs epl) r = 0" for r k
    using that by (simp add: ileaf_ops_def ileaf_upd_def)
next
  fix lo l r hi
  assume a: "ileaf_fit ops bs epl lo l" "ileaf_rok valid r" "0 < op_len (ileaf_ops ops bs epl) r" "lo \<le> op_start (ileaf_ops ops bs epl) r"
    "op_start (ileaf_ops ops bs epl) r < hi" "hi \<le> TUXKEY_LIMIT"
  have sel: "op_len (ileaf_ops ops bs epl) = irq_len" "op_start (ileaf_ops ops bs epl) = irq_start"
    "op_write (ileaf_ops ops bs epl) lo hi = write_ileaf ops bs epl" by (simp_all add: ileaf_ops_def)
  show "\<exists>res l' r'. op_write (ileaf_ops ops bs epl) lo hi l r = Some (res, l', r') \<and> ileaf_fit ops bs epl lo l' \<and> ileaf_rok valid r' \<and>
        (\<forall>k. lo \<le> k \<and> k < hi \<longrightarrow> (case ileaf_upd ops r' k of Some x \<Rightarrow> x | None \<Rightarrow> ileaf_bytes l' k) =
           (case ileaf_upd ops r k of Some x \<Rightarrow> x | None \<Rightarrow> ileaf_bytes l k)) \<and>
        (\<forall>k. \<not> (lo \<le> k \<and> k < hi) \<longrightarrow> ileaf_upd ops r' k = ileaf_upd ops r k) \<and>
        (case res of Lw_done \<Rightarrow> op_len (ileaf_ops ops bs epl) r' = 0
         | Lw_split h \<Rightarrow> hint_small h \<and> lo \<le> op_start (ileaf_ops ops bs epl) r' \<and> op_start (ileaf_ops ops bs epl) r' < hi | Lw_error e \<Rightarrow> True)"
    using ileaf_write_law [OF a [unfolded sel]] unfolding sel .
next
  fix lo l h key l1 l2
  assume a: "ileaf_fit ops bs epl lo l" "hint_small h" "op_split (ileaf_ops ops bs epl) h l (op_leaf0 (ileaf_ops ops bs epl)) = Some (key, l1, l2)"
    "lo < key" "key < TUXKEY_LIMIT"
  obtain n where n: "ileaf_split ops epl h l (ileaf_init ops bs (replicate (bs - ileaf_hdr) 0)) = Some (n, l1, l2)" "key = of_nat n"
    using a(3) by (auto simp: ileaf_ops_def)
  show "ileaf_fit ops bs epl lo l1 \<and> ileaf_fit ops bs epl key l2 \<and>
      (\<forall>k \<ge> lo. ileaf_bytes l k = (if k < key then ileaf_bytes l1 k else ileaf_bytes l2 k))"
    using ileaf_split_law [OF a(1,2) n(1)] a(4,5) unfolding n(2) by blast
qed

end

interpretation itree: tree_store balloc_one in_use vol_inv "ileaf_ops (iattr_ops version) bs epl" "ileaf_fit (iattr_ops version) bs epl" ileaf_bytes
    "ileaf_upd (iattr_ops version)" "ileaf_rok (\<lambda>d. attrs_ok d \<and> unat version < 4096)" hint_small for version bs epl
  by (rule tree_store.intro [OF vol.block_alloc_axioms iattr.ileaf_contract])

interpretation otree: tree_store balloc_one in_use vol_inv "ileaf_ops (oattr_ops version) bs epl" "ileaf_fit (oattr_ops version) bs epl" ileaf_bytes
    "ileaf_upd (oattr_ops version)" "ileaf_rok (\<lambda>_. True)" hint_small for version bs epl
  by (rule tree_store.intro [OF vol.block_alloc_axioms oattr.ileaf_contract])

section \<open>Finding a free inode number\<close>

definition find_free_cb :: "u64 \<Rightarrow> u64 \<Rightarrow> ileaf \<Rightarrow> u64 \<Rightarrow> u64 \<Rightarrow> u64 \<Rightarrow> int \<times> u64" where
  "find_free_cb bottom limit leaf key len got =
     (case ileaf_find_free (unat limit) leaf (unat key) (unat len) of Some i \<Rightarrow> (1, of_nat i) | None \<Rightarrow> (0, got))"

definition TUX_NORMAL_INO :: u64 where "TUX_NORMAL_INO = 64"

text \<open>\<open>*allocated\<close> is the last component; \<open>None\<close> is a failed assertion.\<close>

definition find_free_inum :: "(ileaf \<Rightarrow> bool) \<Rightarrow> ileaf tree \<Rightarrow> u64 \<Rightarrow> (err \<times> u64) option" where
  "find_free_inum sniff t goal =
     (if \<not> has_root t then Some (None, goal)
      else case btree_probe sniff t goal of
             None \<Rightarrow> None
           | Some (Inl e, _) \<Rightarrow> Some (Some e, goal)
           | Some (Inr _, p) \<Rightarrow>
               Option.bind (btree_traverse sniff t find_free_cb p goal TUXKEY_LIMIT goal) (\<lambda>w.
                 case w_ret w of
                   Inl e \<Rightarrow> Some (Some e, w_data w)
                 | Inr ret \<Rightarrow>
                     if ret < 0 then None
                     else if 0 < ret then Some (None, w_data w)
                     else if TUX_NORMAL_INO < goal
                     then Option.bind (btree_traverse sniff t find_free_cb (w_path w) TUX_NORMAL_INO (goal - TUX_NORMAL_INO) (w_data w)) (\<lambda>w.
                            case w_ret w of
                              Inl e \<Rightarrow> Some (Some e, w_data w)
                            | Inr ret \<Rightarrow> if ret < 0 then None else if 0 < ret then Some (None, w_data w) else Some (Some ENOSPC, w_data w))
                     else Some (Some ENOSPC, w_data w)))"

section \<open>Saving and opening inodes\<close>

text \<open>The superblock as the inode table uses it: the table, the block allocator, \<open>usedinodes\<close> and the inode numbers
  of \<open>alloc_inodes\<close>, which are allocated and not in the table yet.\<close>

record itable =
  it_tree :: "ileaf tree"
  it_sb :: bsb
  it_used :: u64
  it_defer :: "u64 list"

definition bfree_one :: "bsb \<Rightarrow> u64 \<Rightarrow> err \<times> bsb" where
  "bfree_one sb b = bfree sb (unat b) 1"

definition MAX_INODES :: u64 where "MAX_INODES = 2 ^ 48"

definition is_defer_alloc_inum :: "u64 \<Rightarrow> itable \<Rightarrow> bool" where
  "is_defer_alloc_inum inum st \<longleftrightarrow> inum \<in> set (it_defer st)"

definition add_defer_alloc_inum :: "u64 \<Rightarrow> itable \<Rightarrow> itable" where
  "add_defer_alloc_inum inum st = st\<lparr>it_defer := it_defer st @ [inum]\<rparr>"

definition del_defer_alloc_inum :: "u64 \<Rightarrow> itable \<Rightarrow> itable" where
  "del_defer_alloc_inum inum st = st\<lparr>it_defer := remove1 inum (it_defer st)\<rparr>"

text \<open>The root is there. \<open>ASSERT\<close> is a failed assertion.\<close>

definition save_inode_rooted :: "u32 \<Rightarrow> nat \<Rightarrow> nat \<Rightarrow> u64 \<Rightarrow> iattr \<Rightarrow> itable \<Rightarrow> err \<times> itable" where
  "save_inode_rooted version bs epl inum d st =
     (let ops = ileaf_ops (iattr_ops version) bs epl; t = it_tree st in
      case btree_probe (op_sniff ops) t inum of
        None \<Rightarrow> (Some ASSERT, st)
      | Some (Inl e, _) \<Rightarrow> (Some e, st)
      | Some (Inr _, p) \<Rightarrow>
          if \<not> is_defer_alloc_inum inum st \<and>
             (case Option.bind (Option.bind (cursor_leafbuf t p) (leaf_of t)) (ileaf_lookup (unat inum)) of Some (_, Some _) \<Rightarrow> False | _ \<Rightarrow> True)
          then (Some ASSERT, st)
          else (case btree_write balloc_one ops p \<lparr>irq_start = inum, irq_len = 1, irq_data = d\<rparr> t (it_sb st) of
                  None \<Rightarrow> (Some ASSERT, st)
                | Some w \<Rightarrow>
                    let st = st\<lparr>it_tree := ws_tree w, it_sb := ws_sb w\<rparr> in
                    if ws_err w \<noteq> None then (ws_err w, st)
                    else if is_defer_alloc_inum inum st \<and> TUX_NORMAL_INO \<le> inum
                    then if \<not> (it_used st < MAX_INODES) then (Some ASSERT, st)
                         else (None, del_defer_alloc_inum inum (st\<lparr>it_used := it_used st + 1\<rparr>))
                    else (None, del_defer_alloc_inum inum st)))"

definition save_inode :: "u32 \<Rightarrow> nat \<Rightarrow> nat \<Rightarrow> u64 \<Rightarrow> iattr \<Rightarrow> itable \<Rightarrow> err \<times> itable" where
  "save_inode version bs epl inum d st =
     (if has_root (it_tree st) then save_inode_rooted version bs epl inum d st
      else case alloc_empty_btree balloc_one None (op_leaf0 (ileaf_ops (iattr_ops version) bs epl)) (it_tree st) (it_sb st) of
             None \<Rightarrow> (Some ASSERT, st)
           | Some (e, t, sb) \<Rightarrow>
               let st = st\<lparr>it_tree := t, it_sb := sb\<rparr> in
               if e \<noteq> None then (e, st) else save_inode_rooted version bs epl inum d st)"

definition TUX_VOLMAP_INO :: u64 where "TUX_VOLMAP_INO = 61"
definition TUX_LOGMAP_INO :: u64 where "TUX_LOGMAP_INO = 62"
definition TUX_INVALID_INO :: u64 where "TUX_INVALID_INO = 63"

definition tux3_save_inode :: "u32 \<Rightarrow> nat \<Rightarrow> nat \<Rightarrow> u64 \<Rightarrow> iattr \<Rightarrow> itable \<Rightarrow> err \<times> itable" where
  "tux3_save_inode version bs epl inum d st =
     (if inum = TUX_VOLMAP_INO \<or> inum = TUX_LOGMAP_INO \<or> inum = TUX_INVALID_INO then (Some ASSERT, st)
      else save_inode version bs epl inum d st)"

text \<open>The assertions of \<open>check_present\<close>; an unknown mode is only reported.\<close>

definition S_IFMT :: u16 where "S_IFMT = 0xF000"
definition S_IFSOCK :: u16 where "S_IFSOCK = 0xC000"
definition S_IFLNK :: u16 where "S_IFLNK = 0xA000"
definition S_IFREG :: u16 where "S_IFREG = 0x8000"
definition S_IFBLK :: u16 where "S_IFBLK = 0x6000"
definition S_IFDIR :: u16 where "S_IFDIR = 0x4000"
definition S_IFCHR :: u16 where "S_IFCHR = 0x2000"
definition S_IFIFO :: u16 where "S_IFIFO = 0x1000"

definition check_present :: "u64 \<Rightarrow> iattr \<Rightarrow> bool" where
  "check_present inum d =
     (let kind = and (ia_mode d) S_IFMT in
      if kind = S_IFBLK \<or> kind = S_IFCHR then bit (ia_present d) MODE_OWNER_ATTR
      else if kind = S_IFSOCK \<or> kind = S_IFIFO \<or> kind = S_IFREG \<or> kind = S_IFDIR \<or> kind = S_IFLNK
      then bit (ia_present d) MODE_OWNER_ATTR \<and> \<not> bit (ia_present d) RDEV_ATTR
      else if kind = 0 then (if inum = TUX_VOLMAP_INO then ia_present d = 0 else \<not> bit (ia_present d) RDEV_ATTR)
      else True)"

text \<open>\<open>d0\<close> is the new inode that \<open>open_inode\<close> fills. \<open>tux_setup_inode\<close>, which chooses the operations of the inode, is not
  modelled.\<close>

definition open_inode :: "u32 \<Rightarrow> nat \<Rightarrow> nat \<Rightarrow> u64 \<Rightarrow> iattr \<Rightarrow> itable \<Rightarrow> err \<times> iattr" where
  "open_inode version bs epl inum d0 st =
     (let ops = ileaf_ops (iattr_ops version) bs epl; t = it_tree st in
      case btree_probe (op_sniff ops) t inum of
        None \<Rightarrow> (Some ASSERT, d0)
      | Some (Inl e, _) \<Rightarrow> (Some e, d0)
      | Some (Inr _, p) \<Rightarrow>
          (case btree_read (op_sniff ops) (\<lambda>bottom limit leaf key. ileaf_read (iattr_ops version) leaf (unat key) d0) t p inum of
             Some (Some (None, d)) \<Rightarrow> if check_present inum d then (None, d) else (Some ASSERT, d)
           | Some (Some (Some e, d)) \<Rightarrow> (Some e, d)
           | _ \<Rightarrow> (Some ASSERT, d0)))"

section \<open>The table as a map\<close>

definition itable_inv :: "u32 \<Rightarrow> nat \<Rightarrow> nat \<Rightarrow> itable \<Rightarrow> bool" where
  "itable_inv version bs epl st \<longleftrightarrow> vol_inv (it_sb st) \<and> 2 \<le> t_epn (it_tree st) \<and> 0 < epl \<and> ileaf_hdr \<le> bs \<and> bs \<le> 2 ^ 16 \<and>
     (has_root (it_tree st) \<longrightarrow> tree_inv (ileaf_sniff (iattr_ops version)) (it_tree st) (in_use (it_sb st)) \<and>
        leaves_fit (ileaf_fit (iattr_ops version) bs epl) (cont (it_tree st) (tree_leaves (it_tree st))))"

definition inode_bytes :: "itable \<Rightarrow> u64 \<Rightarrow> u8 list" where
  "inode_bytes st k =
     (if has_root (it_tree st) then case tree_val ileaf_bytes (it_tree st) k of Some b \<Rightarrow> b | None \<Rightarrow> [] else [])"

lemma ops_sel [simp]: "op_sniff (ileaf_ops ops bs epl) = ileaf_sniff ops" "op_start (ileaf_ops ops bs epl) = irq_start"
  "op_len (ileaf_ops ops bs epl) = irq_len" "op_leaf0 (ileaf_ops ops bs epl) = ileaf_init ops bs (replicate (bs - ileaf_hdr) 0)"
  by (simp_all add: ileaf_ops_def)

lemma leaf0_fit:
  assumes "0 < epl" and "ileaf_hdr \<le> bs" and "bs \<le> 2 ^ 16"
  shows "ileaf_fit ops bs epl 0 (ileaf_init ops bs (replicate (bs - ileaf_hdr) 0))"
    and "ileaf_bytes (ileaf_init ops bs (replicate (bs - ileaf_hdr) 0)) k = []"
proof -
  let ?l = "ileaf_init ops bs (replicate (bs - ileaf_hdr) 0)"
  have r: "rep bs ?l []" using assms by (simp add: rep_def ileaf_init_def total_len_def)
  then show "ileaf_fit ops bs epl 0 ?l" using assms(1) by (auto simp: ileaf_fit_def ileaf_sniff_def ileaf_init_def TUXKEY_LIMIT_def)
  have "il_base ?l \<le> unat k" by (simp add: ileaf_init_def)
  then show "ileaf_bytes ?l k = []" using bytes_rep [OF r] by (simp add: seg_at_def)
qed

lemma read_bytes:
  assumes "ileaf_fit ops bs epl lo l" and "lo \<le> k"
  shows "ileaf_read ops l (unat k) d = Some (if ileaf_bytes l k = [] then (Some ENOENT, d) else decode ops d (ileaf_bytes l k))"
    and "(case ileaf_lookup (unat k) l of Some (_, Some _) \<Rightarrow> False | _ \<Rightarrow> True) \<longleftrightarrow> ileaf_bytes l k = []"
proof -
  obtain segs where r: "rep bs l segs" "il_base l = unat lo" using assms(1) by (auto simp: ileaf_fit_def)
  then have "il_base l \<le> unat k" using assms(2) by (simp add: word_le_nat_alt)
  from lookup_rep [OF r(1) this] obtain siz off where
    "ileaf_lookup (unat k) l = Some (siz, off)" "siz = length (seg_at (il_base l) segs (unat k))" "off = None \<longleftrightarrow> siz = 0"
    "\<forall>a. off = Some a \<longrightarrow> take siz (drop a (il_table l)) = seg_at (il_base l) segs (unat k)" by (elim exE conjE) (rule that)
  then show "ileaf_read ops l (unat k) d = Some (if ileaf_bytes l k = [] then (Some ENOENT, d) else decode ops d (ileaf_bytes l k))"
    "(case ileaf_lookup (unat k) l of Some (_, Some _) \<Rightarrow> False | _ \<Rightarrow> True) \<longleftrightarrow> ileaf_bytes l k = []"
    by (auto simp: ileaf_read_def ileaf_bytes_def split: option.splits)
qed

text \<open>A write of the attributes of one inode, from its leaf on.\<close>

lemma itable_write:
  assumes inv: "itable_inv version bs epl st" and root: "has_root (it_tree st)" and d: "attrs_ok d" "unat version < 4096" and inum: "inum < TUXKEY_LIMIT"
    and run: "btree_probe (ileaf_sniff (iattr_ops version)) (it_tree st) inum = Some (Inr u, p)"
  shows "\<exists>w. btree_write balloc_one (ileaf_ops (iattr_ops version) bs epl) p \<lparr>irq_start = inum, irq_len = 1, irq_data = d\<rparr> (it_tree st) (it_sb st) = Some w \<and>
    vol_inv (ws_sb w) \<and> tree_inv (ileaf_sniff (iattr_ops version)) (ws_tree w) (in_use (ws_sb w)) \<and>
    clean_same (it_tree st) (ws_tree w) (in_use (it_sb st)) \<and>
    (ws_err w = None \<longrightarrow> leaves_fit (ileaf_fit (iattr_ops version) bs epl) (cont (ws_tree w) (tree_leaves (ws_tree w))) \<and>
       cow (it_tree st) (ws_tree w) (in_use (it_sb st)) \<and>
       (\<forall>k < TUXKEY_LIMIT. tree_val ileaf_bytes (ws_tree w) k = (if k = inum then Some (iattr_encode version d) else tree_val ileaf_bytes (it_tree st) k)))"
proof -
  let ?r = "\<lparr>irq_start = inum, irq_len = 1, irq_data = d\<rparr>"
  have i: "tree_inv (op_sniff (ileaf_ops (iattr_ops version) bs epl)) (it_tree st) (in_use (it_sb st))" "vol_inv (it_sb st)"
    "leaves_fit (ileaf_fit (iattr_ops version) bs epl) (cont (it_tree st) (tree_leaves (it_tree st)))"
    using inv root by (simp_all add: itable_inv_def)
  have r: "ileaf_rok (\<lambda>d. attrs_ok d \<and> unat version < 4096) ?r" using d by (simp add: ileaf_rok_def)
  have "ileaf_upd (iattr_ops version) ?r k = (if k = inum then Some (iattr_encode version d) else None)" for k
    by (simp add: ileaf_upd_def iattr_ops_def)
  then show ?thesis using itree.probed_write [OF i r, of u p] inum run by auto
qed

lemma bfree_one_inv: "vol_inv sb \<Longrightarrow> vol_inv (snd (bfree_one sb b))"
  using test_and_modify_inv [of sb "unat b" 1 False]
  by (cases "bfree_one sb b") (auto simp: bfree_one_def bfree_def vol_inv_def balloc_inv_def)

text \<open>What \<open>open_inode\<close> finds.\<close>

definition opened :: "u32 \<Rightarrow> u64 \<Rightarrow> iattr \<Rightarrow> u8 list \<Rightarrow> err \<times> iattr" where
  "opened version inum d0 bytes =
     (if bytes = [] then (Some ENOENT, d0)
      else case iattr_decode version d0 bytes of
             (None, d) \<Rightarrow> if check_present inum d then (None, d) else (Some ASSERT, d)
           | (Some e, d) \<Rightarrow> (Some e, d))"

lemma open_inode_opened:
  assumes inv: "itable_inv version bs epl st" and root: "has_root (it_tree st)" and inum: "inum < TUXKEY_LIMIT" and io: "\<forall>b. \<not> t_readerr (it_tree st) b"
  shows "open_inode version bs epl inum d0 st = opened version inum d0 (inode_bytes st inum)"
proof -
  let ?t = "it_tree st"
  have i: "btree_ok (ileaf_sniff (iattr_ops version)) ?t" "leaves_fit (ileaf_fit (iattr_ops version) bs epl) (cont ?t (tree_leaves ?t))"
    using inv root by (simp_all add: itable_inv_def tree_inv_def)
  from probe_spec [OF i(1) inum] io obtain u p where run: "btree_probe (ileaf_sniff (iattr_ops version)) ?t inum = Some (Inr u, p)" by auto
  obtain blk outer lo hi l where p: "p = (blk, 0) # outer" "spine ?t 0 outer blk lo hi" "lo \<le> inum" "inum < hi" "t_vol ?t blk = Leaf l"
    "ileaf_sniff (iattr_ops version) l" "ileaf_fit (iattr_ops version) bs epl lo l" "tree_val ileaf_bytes ?t inum = Some (ileaf_bytes l inum)"
    "cursor_leafbuf ?t p = Some blk" "cursor_this_key ?t p = Some lo" "cursor_next_key ?t p = Some hi"
    by (rule probed_leaf [OF i inum run])
  have bytes: "inode_bytes st inum = ileaf_bytes l inum" using root p(8) by (simp add: inode_bytes_def)
  have dec: "decode (iattr_ops version) d0 (ileaf_bytes l inum) = iattr_decode version d0 (ileaf_bytes l inum)" by (simp add: iattr_ops_def)
  show ?thesis using p run read_bytes(1) [OF p(7,3), of d0]
    by (auto simp: open_inode_def opened_def btree_read_def leaf_of_def bytes dec split: prod.splits option.splits)
qed

definition saved :: "u32 \<Rightarrow> nat \<Rightarrow> nat \<Rightarrow> u64 \<Rightarrow> iattr \<Rightarrow> itable \<Rightarrow> err \<Rightarrow> itable \<Rightarrow> bool" where
  "saved version bs epl inum d st e st' \<longleftrightarrow> vol_inv (it_sb st') \<and>
    (has_root (it_tree st') \<longrightarrow> tree_inv (ileaf_sniff (iattr_ops version)) (it_tree st') (in_use (it_sb st'))) \<and>
    (\<forall>b \<in> in_use (it_sb st). \<not> dirty_block (it_tree st) b \<longrightarrow> t_vol (it_tree st') b = t_vol (it_tree st) b) \<and>
    (e = None \<longrightarrow> itable_inv version bs epl st' \<and> has_root (it_tree st') \<and>
       (\<forall>k < TUXKEY_LIMIT. inode_bytes st' k = (if k = inum then iattr_encode version d else inode_bytes st k)) \<and>
       it_defer st' = remove1 inum (it_defer st) \<and>
       it_used st' = it_used st + of_bool (inum \<in> set (it_defer st) \<and> TUX_NORMAL_INO \<le> inum))"

lemma tree_inv_root: "tree_inv sniff t U \<Longrightarrow> has_root t"
  by (simp add: tree_inv_def btree_ok_def has_root_def)

lemma save_rooted:
  assumes inv: "itable_inv version bs epl st" and root: "has_root (it_tree st)" and d: "attrs_ok d" "unat version < 4096" and inum: "inum < TUXKEY_LIMIT"
    and run: "save_inode_rooted version bs epl inum d st = (e, st')"
  shows "saved version bs epl inum d st e st'"
proof -
  let ?sniff = "ileaf_sniff (iattr_ops version)"
  have i: "vol_inv (it_sb st)" "tree_inv ?sniff (it_tree st) (in_use (it_sb st))" using inv root by (simp_all add: itable_inv_def)
  have stop: "saved version bs epl inum d st (Some x) st" for x using i by (simp add: saved_def)
  show ?thesis
  proof (cases "\<exists>u p. btree_probe ?sniff (it_tree st) inum = Some (Inr u, p)")
    case False
    then have "st' = st \<and> e \<noteq> None" using run by (auto simp: save_inode_rooted_def Let_def split: option.splits sum.splits)
    then show ?thesis using stop by auto
  next
    case True
    then obtain u p where pr: "btree_probe ?sniff (it_tree st) inum = Some (Inr u, p)" by blast
    from itable_write [OF inv root d inum pr] obtain w where
      w: "btree_write balloc_one (ileaf_ops (iattr_ops version) bs epl) p \<lparr>irq_start = inum, irq_len = 1, irq_data = d\<rparr> (it_tree st) (it_sb st) = Some w"
        "vol_inv (ws_sb w)" "tree_inv ?sniff (ws_tree w) (in_use (ws_sb w))" "clean_same (it_tree st) (ws_tree w) (in_use (it_sb st))"
        "ws_err w = None \<longrightarrow> leaves_fit (ileaf_fit (iattr_ops version) bs epl) (cont (ws_tree w) (tree_leaves (ws_tree w))) \<and>
         cow (it_tree st) (ws_tree w) (in_use (it_sb st)) \<and>
         (\<forall>k < TUXKEY_LIMIT. tree_val ileaf_bytes (ws_tree w) k = (if k = inum then Some (iattr_encode version d) else tree_val ileaf_bytes (it_tree st) k))"
      by (elim exE conjE) (rule that)
    consider "st' = st" "e \<noteq> None"
      | "it_tree st' = ws_tree w" "it_sb st' = ws_sb w" "e \<noteq> None"
      | "it_tree st' = ws_tree w" "it_sb st' = ws_sb w" "e = None" "ws_err w = None" "it_defer st' = remove1 inum (it_defer st)"
        "it_used st' = it_used st + of_bool (inum \<in> set (it_defer st) \<and> TUX_NORMAL_INO \<le> inum)"
      using run pr w(1)
      by (simp add: save_inode_rooted_def Let_def is_defer_alloc_inum_def del_defer_alloc_inum_def split: if_splits option.splits) fastforce+
    then show ?thesis
    proof cases
      case 1
      then show ?thesis using stop by auto
    next
      case 2
      then obtain x where "e = Some x" by blast
      then show ?thesis using 2(1,2) w(2-4) by (simp add: saved_def clean_same_def)
    next
      case 3
      have "\<forall>k < TUXKEY_LIMIT. inode_bytes st' k = (if k = inum then iattr_encode version d else inode_bytes st k)"
        using w(5) 3 root tree_inv_root [OF w(3)] by (simp add: inode_bytes_def)
      moreover have "itable_inv version bs epl st'" using inv w(2,3,5) 3 by (simp add: itable_inv_def tree_inv_def)
      ultimately show ?thesis using w(2-4) 3 tree_inv_root [OF w(3)] by (simp add: saved_def clean_same_def)
    qed
  qed
qed

lemma save_inode_saved:
  assumes inv: "itable_inv version bs epl st" and d: "attrs_ok d" "unat version < 4096" and inum: "inum < TUXKEY_LIMIT"
    and run: "save_inode version bs epl inum d st = (e, st')"
  shows "saved version bs epl inum d st e st'"
proof (cases "has_root (it_tree st)")
  case True
  then show ?thesis using save_rooted [OF inv _ d inum] run by (simp add: save_inode_def)
next
  case False
  have i: "vol_inv (it_sb st)" "2 \<le> t_epn (it_tree st)" "0 < epl" "ileaf_hdr \<le> bs" "bs \<le> 2 ^ 16" using inv by (simp_all add: itable_inv_def)
  let ?l0 = "ileaf_init (iattr_ops version) bs (replicate (bs - ileaf_hdr) 0)"
  note l0 = leaf0_fit [OF i(3-5), of "iattr_ops version"]
  have sniff: "ileaf_sniff (iattr_ops version) ?l0" using l0(1) by (simp add: ileaf_fit_def)
  show ?thesis
  proof (cases "alloc_empty_btree balloc_one None ?l0 (it_tree st) (it_sb st)")
    case None
    then have "e = Some ASSERT \<and> st' = st" using run False by (auto simp: save_inode_def)
    then show ?thesis using i(1) False by (simp add: saved_def)
  next
    case (Some r)
    obtain e1 t sb where r: "r = (e1, t, sb)" by (cases r)
    note n = vol.alloc_empty_unfreed [where sniff = "ileaf_sniff (iattr_ops version)" and ?leaf0.0 = ?l0, OF i(1) False i(2) sniff Some [unfolded r]]
    let ?st = "st\<lparr>it_tree := t, it_sb := sb\<rparr>"
    have same: "\<forall>b \<in> in_use (it_sb st). t_vol t b = t_vol (it_tree st) b" using n(1) by (simp add: same_on_def)
    show ?thesis
    proof (cases e1)
      case (Some x)
      have "e = Some x" "st' = ?st" using run False \<open>alloc_empty_btree _ _ _ _ _ = Some r\<close> r Some by (simp_all add: save_inode_def)
      then show ?thesis using n(3,6) Some same by (simp add: saved_def)
    next
      case None
      note n1 = n(5) [OF None, THEN conjunct1] n(5) [OF None, THEN conjunct2]
      have root: "has_root t" by (rule tree_inv_root [OF n1(1)])
      have inv1: "itable_inv version bs epl ?st" using n(3) n1 l0(1) i root by (simp add: itable_inv_def tree_inv_def leaves_fit_def)
      have run1: "save_inode_rooted version bs epl inum d ?st = (e, st')" using run False Some r None by (simp add: save_inode_def)
      have none: "inode_bytes ?st k = inode_bytes st k" for k
        using root False by (simp add: inode_bytes_def tree_val_leaf n1(2) leaf_val_def l0(2))
      have "saved version bs epl inum d ?st e st'" by (rule save_rooted [OF inv1 _ d inum run1]) (simp add: root)
      moreover have "\<forall>b \<in> in_use (it_sb st). dirty_block t b = dirty_block (it_tree st) b" using n(2) by (simp add: calm_def dirty_block_def)
      ultimately show ?thesis using n(4) same by (auto simp: saved_def none)
    qed
  qed
qed

text \<open>C2: \<open>save_inode\<close> keeps the block allocator consistent and the index of the inode table well formed, whether it
  succeeds, fails or stops at an assertion, and it never changes a block that was in use and not dirty. When it succeeds, the table holds the encoded
  attributes under the inode number and exactly what it held before under every other one; the inode is no longer a deferred allocation, and it
  is counted when it was one.\<close>

theorem save_inode_exact:
  assumes "itable_inv version bs epl st" and "attrs_ok d" and "unat version < 4096" and "inum < TUXKEY_LIMIT"
    and "save_inode version bs epl inum d st = (e, st')"
  shows "vol_inv (it_sb st') \<and>
    (has_root (it_tree st') \<longrightarrow> tree_inv (ileaf_sniff (iattr_ops version)) (it_tree st') (in_use (it_sb st'))) \<and>
    (\<forall>b \<in> in_use (it_sb st). \<not> dirty_block (it_tree st) b \<longrightarrow> t_vol (it_tree st') b = t_vol (it_tree st) b) \<and>
    (e = None \<longrightarrow> itable_inv version bs epl st' \<and> has_root (it_tree st') \<and>
       (\<forall>k < TUXKEY_LIMIT. inode_bytes st' k = (if k = inum then iattr_encode version d else inode_bytes st k)) \<and>
       it_defer st' = remove1 inum (it_defer st) \<and>
       it_used st' = it_used st + of_bool (inum \<in> set (it_defer st) \<and> TUX_NORMAL_INO \<le> inum))"
  using save_inode_saved [OF assms] unfolding saved_def .

text \<open>C3: an inode that was saved is opened with the attributes that were saved (\<open>attrs_seen\<close>: those the encoding keeps, in the new inode
  \<open>d0\<close>), and every other inode is opened with the same result as before, an absent one included.\<close>

theorem save_open_roundtrip:
  assumes "itable_inv version bs epl st" and "attrs_ok d" and "unat version < 4096" and "inum < TUXKEY_LIMIT" and "has_root (it_tree st)"
    and "save_inode version bs epl inum d st = (None, st')"
    and "\<forall>b. \<not> t_readerr (it_tree st) b \<and> \<not> t_readerr (it_tree st') b" and "\<not> ia_nomem d0" and "check_present inum (attrs_seen d d0)"
  shows "open_inode version bs epl inum d0 st' = (None, attrs_seen d d0) \<and>
    (\<forall>k < TUXKEY_LIMIT. k \<noteq> inum \<longrightarrow> open_inode version bs epl k d1 st' = open_inode version bs epl k d1 st)"
proof -
  have s: "itable_inv version bs epl st'" "has_root (it_tree st')"
    "\<forall>k < TUXKEY_LIMIT. inode_bytes st' k = (if k = inum then iattr_encode version d else inode_bytes st k)"
    using save_inode_saved [OF assms(1-4,6)] by (simp_all add: saved_def)
  have io: "\<forall>b. \<not> t_readerr (it_tree st) b" "\<forall>b. \<not> t_readerr (it_tree st') b" using assms(7) by blast+
  have "encode (iattr_ops version) d = iattr_encode version d" "decode (iattr_ops version) = iattr_decode version" by (simp_all add: iattr_ops_def)
  then have dec: "iattr_decode version d0 (iattr_encode version d) = (None, attrs_seen d d0)" "iattr_encode version d \<noteq> []"
    using iattr.decode_encode [of d version d0] iattr.encoded_length [of d version] iattr.encoded_not_empty [of d version] assms(2,3,8) by auto
  have "open_inode version bs epl inum d0 st' = opened version inum d0 (iattr_encode version d)"
    using open_inode_opened [OF s(1,2) assms(4) io(2), of d0] s(3) assms(4) by simp
  then have "open_inode version bs epl inum d0 st' = (None, attrs_seen d d0)" using dec assms(9) by (simp add: opened_def)
  moreover have "open_inode version bs epl k d1 st' = open_inode version bs epl k d1 st" if "k < TUXKEY_LIMIT" "k \<noteq> inum" for k
    using open_inode_opened [OF s(1,2) that(1) io(2)] open_inode_opened [OF assms(1,5) that(1) io(1)] s(3) that by simp
  ultimately show ?thesis by blast
qed

text \<open>A table with one empty leaf, of which the root and the leaf are dirty.\<close>

definition demo_table :: itable where
  "demo_table =
     \<lparr>it_tree = \<lparr>t_root = 1, t_depth = 1,
        t_vol = (\<lambda>b. if b = 1 then Node (small_node [(0, 2)]) else Leaf (ileaf_init (iattr_ops 0) 64 (replicate 48 0))),
        t_readerr = (\<lambda>_. False), t_nomem = (\<lambda>_. False), t_epn = 6, t_dirty = (\<lambda>_. True), t_unify = (\<lambda>_. True),
        t_log = [], t_defree = [], t_deunify = []\<rparr>,
      it_sb = small_vol 15 1 5, it_used = 64, it_defer = [3]\<rparr>"

lemma demo_saved: "fst (save_inode 0 64 1 3 demo_inode demo_table) = None"
  by code_simp

lemma demo_io: "t_readerr (it_tree (snd (save_inode 0 64 1 3 demo_inode demo_table))) b = False"
  by code_simp

lemma demo_table_inv: "itable_inv 0 64 1 demo_table"
proof -
  let ?l = "ileaf_init (iattr_ops 0) 64 (replicate 48 0)"
  have fit: "ileaf_fit (iattr_ops 0) 64 1 0 ?l" using leaf0_fit(1) [of 1 64 "iattr_ops 0"] by (simp add: ileaf_hdr_def)
  then have sniff: "ileaf_sniff (iattr_ops 0) ?l" by (simp add: ileaf_fit_def)
  have vol: "vol_inv (it_sb demo_table)" using demo_tree_inv by (simp add: demo_table_def)
  have bl: "tree_blocks (it_tree demo_table) = [1, 2]" by (simp add: tree_blocks_def demo_table_def small_node_def live_def)
  have "{1, 2} \<subseteq> in_use (it_sb demo_table)" by (simp add: demo_table_def in_use_def allocated_def small_vol_def mapsize_def bmap_def)
  moreover have "btree_ok (ileaf_sniff (iattr_ops 0)) (it_tree demo_table)" using sniff
    by (simp add: btree_ok_def demo_table_def small_node_def bnode_sniff_def node_ok_def live_def TUXKEY_LIMIT_def)
  ultimately have "tree_inv (ileaf_sniff (iattr_ops 0)) (it_tree demo_table) (in_use (it_sb demo_table))"
    by (simp add: tree_inv_def bl) (simp add: demo_table_def)
  moreover have "cont (it_tree demo_table) (tree_leaves (it_tree demo_table)) = [(0, Leaf ?l)]"
    by (simp add: cont_def tree_leaves_def demo_table_def small_node_def live_def)
  ultimately show ?thesis using vol fit by (simp add: itable_inv_def tree_inv_def leaves_fit_def ileaf_hdr_def)
qed

lemma demo_root: "has_root (it_tree demo_table)"
  by (simp add: has_root_def demo_table_def)

lemma demo_low: "(3 :: u64) < TUXKEY_LIMIT" "unat (0 :: u32) < 4096"
  by (simp_all add: TUXKEY_LIMIT_def)

lemma save_inode_exact_witness: "inode_bytes (snd (save_inode 0 64 1 3 demo_inode demo_table)) 3 = iattr_encode 0 demo_inode"
proof (cases "save_inode 0 64 1 3 demo_inode demo_table")
  case (Pair e st')
  then have "e = None" using demo_saved by simp
  then show ?thesis using save_inode_exact [OF demo_table_inv demo_inode_ok demo_low(2,1) Pair] Pair demo_low(1) by simp
qed

lemma save_open_roundtrip_witness:
  "open_inode 0 64 1 3 demo_inode (snd (save_inode 0 64 1 3 demo_inode demo_table)) = (None, attrs_seen demo_inode demo_inode)"
proof (cases "save_inode 0 64 1 3 demo_inode demo_table")
  case (Pair e st')
  then have e: "save_inode 0 64 1 3 demo_inode demo_table = (None, st')" using demo_saved by simp
  have io: "\<forall>b. \<not> t_readerr (it_tree demo_table) b \<and> \<not> t_readerr (it_tree st') b"
    using demo_io e by (simp add: demo_table_def)
  have "check_present 3 (attrs_seen demo_inode demo_inode)" by code_simp
  moreover have "\<not> ia_nomem demo_inode" by (simp add: demo_inode_def)
  ultimately show ?thesis
    using save_open_roundtrip [OF demo_table_inv demo_inode_ok demo_low(2,1) demo_root e io] e by simp
qed

text \<open>With a single free block the first inode cannot be saved, and the way out of \<open>alloc_empty_btree\<close> is a call of the
  operation \<open>bfree\<close> that \<open>itree_ops\<close> does not have.\<close>

lemma save_inode_null_bfree:
  "fst (save_inode 0 64 1 3 demo_inode (demo_table\<lparr>it_tree := (it_tree demo_table)\<lparr>t_root := 0, t_depth := 0\<rparr>, it_sb := small_vol 0x7f 0xff 0\<rparr>)) = Some ASSERT \<and>
   fst (balloc_one (small_vol 0x7f 0xff 0)) = None"
  by code_simp

section \<open>The search for a free number\<close>

lemma find_free_leaf:
  assumes fit: "ileaf_fit ops bs epl bottom l" and m: "bottom \<le> m" "m \<le> last_key"
    and run: "find_free_cb bottom limit l m (last_key - m) d = (ret, d')"
  shows "ret = 1 \<and> m \<le> d' \<and> d' < limit \<and> d' < last_key \<and> ileaf_bytes l d' = [] \<and> (\<forall>j. m \<le> j \<and> j < d' \<longrightarrow> ileaf_bytes l j \<noteq> []) \<or>
    ret = 0 \<and> d' = d \<and> (\<forall>j. m \<le> j \<and> j < limit \<and> j < last_key \<longrightarrow> ileaf_bytes l j \<noteq> [])"
proof -
  obtain segs where r: "rep bs l segs" and base: "il_base l = unat bottom" using fit by (auto simp: ileaf_fit_def)
  have key: "il_base l \<le> unat m" "unat m < 2 ^ 64" using m(1) base unsigned_less [of m] by (simp_all add: word_le_nat_alt)
  have bytes: "ileaf_bytes l j = seg_at (il_base l) segs (unat j)" if "m \<le> j" for j
    by (rule bytes_rep [OF r]) (use that key(1) in \<open>simp add: word_le_nat_alt\<close>)
  have sum: "unat m + unat (last_key - m) = unat last_key" using m(2) by (simp add: unat_sub word_le_nat_alt)
  note F = find_free_rep [OF r key, of "unat limit" "unat (last_key - m)", unfolded sum]
  show ?thesis
  proof (cases "ileaf_find_free (unat limit) l (unat m) (unat (last_key - m))")
    case (Some i)
    have i: "unat m \<le> i" "i < unat limit" "i < unat last_key" "seg_at (il_base l) segs i = []" "\<forall>j. unat m \<le> j \<and> j < i \<longrightarrow> seg_at (il_base l) segs j \<noteq> []"
      using F Some by simp_all
    have "unat limit < 2 ^ LENGTH(64)" by (rule unsigned_less)
    then have "i < 2 ^ 64" using i(2) by simp
    then have u: "unat (of_nat i :: u64) = i" by (simp add: unat_of_nat take_bit_nat_eq_self)
    have "ret = 1" "d' = of_nat i" using run Some by (simp_all add: find_free_cb_def)
    then show ?thesis using i u bytes by (auto simp: word_le_nat_alt word_less_nat_alt)
  next
    case None
    then have "ret = 0" "d' = d" "\<forall>j. unat m \<le> j \<and> j < unat limit \<and> j < unat last_key \<longrightarrow> seg_at (il_base l) segs j \<noteq> []"
      using run F by (simp_all add: find_free_cb_def)
    then show ?thesis using bytes by (simp add: word_le_nat_alt word_less_nat_alt)
  qed
qed

lemma leaf_val_first: "bottom \<le> j \<Longrightarrow> (case C of [] \<Rightarrow> True | (k, _) # _ \<Rightarrow> j < k) \<Longrightarrow> leaf_val val ((bottom, Leaf l) # C) j = Some (val l j)"
  by (cases C) (auto simp: leaf_val_def)

lemma leaf_val_rest: "bottom \<le> k \<Longrightarrow> k \<le> j \<Longrightarrow> leaf_val val ((bottom, v) # (k, v') # C) j = leaf_val val ((k, v') # C) j"
  by (auto simp: leaf_val_def split: option.splits)

definition free_from :: "(u64 \<times> ileaf vblock) list \<Rightarrow> u64 \<Rightarrow> u64 \<Rightarrow> u64 \<Rightarrow> int \<times> u64 \<Rightarrow> bool" where
  "free_from C m last_key d r \<longleftrightarrow>
     (case r of (ret, i) \<Rightarrow>
        ret = 1 \<and> m \<le> i \<and> i < last_key \<and> i < TUXKEY_LIMIT \<and> leaf_val ileaf_bytes C i = Some [] \<and>
          (\<forall>j. m \<le> j \<and> j < i \<longrightarrow> leaf_val ileaf_bytes C j \<noteq> Some []) \<or>
        ret = 0 \<and> i = d \<and> (\<forall>j. m \<le> j \<and> j < last_key \<and> j < TUXKEY_LIMIT \<longrightarrow> leaf_val ileaf_bytes C j \<noteq> Some []))"

lemma free_from_extend:
  assumes r: "free_from R k last_key d r" and m: "m \<le> k" and up: "\<And>j. k \<le> j \<Longrightarrow> leaf_val ileaf_bytes C j = leaf_val ileaf_bytes R j"
    and used: "\<And>j. m \<le> j \<Longrightarrow> j < k \<Longrightarrow> leaf_val ileaf_bytes C j \<noteq> Some []"
  shows "free_from C m last_key d r"
proof (cases r)
  case (Pair ret i)
  have all: "leaf_val ileaf_bytes C j \<noteq> Some []" if "m \<le> j" "k \<le> j \<Longrightarrow> leaf_val ileaf_bytes R j \<noteq> Some []" for j
    using used [OF that(1)] up [of j] that(2) by (cases "j < k") (auto simp: not_less)
  consider "ret = 1" "k \<le> i" "i < last_key" "i < TUXKEY_LIMIT" "leaf_val ileaf_bytes R i = Some []"
      "\<forall>j. k \<le> j \<and> j < i \<longrightarrow> leaf_val ileaf_bytes R j \<noteq> Some []"
    | "ret = 0" "i = d" "\<forall>j. k \<le> j \<and> j < last_key \<and> j < TUXKEY_LIMIT \<longrightarrow> leaf_val ileaf_bytes R j \<noteq> Some []"
    using r unfolding Pair free_from_def by auto
  then show ?thesis
  proof cases
    case 1
    have "m \<le> i" using m 1(2) by (rule order_trans)
    then show ?thesis unfolding Pair free_from_def using 1 up [OF 1(2)] all by auto
  next
    case 2
    then show ?thesis unfolding Pair free_from_def using all by auto
  qed
qed

lemma visit_find_free:
  assumes "leaves_fit (ileaf_fit ops bs epl) (cont t ((bottom, blk) # rest))" and "sorted_wrt (<) (map fst ((bottom, blk) # rest))"
    and "\<forall>(k, x) \<in> set ((bottom, blk) # rest). k < TUXKEY_LIMIT" and "max key bottom \<le> last_key"
    and "case rest of [] \<Rightarrow> key < TUXKEY_LIMIT | (k, _) # _ \<Rightarrow> key < k"
  shows "free_from (cont t ((bottom, blk) # rest)) (max key bottom) last_key d (visit t find_free_cb last_key ((bottom, blk) # rest) key d)"
  using assms
proof (induction rest arbitrary: bottom blk key)
  case Nil
  obtain l where l: "t_vol t blk = Leaf l" "ileaf_fit ops bs epl bottom l" using Nil.prems(1) by (auto simp: leaves_fit_def cont_def)
  obtain ret i where f: "find_free_cb bottom TUXKEY_LIMIT l (max key bottom) (last_key - max key bottom) d = (ret, i)" by fastforce
  have v: "visit t find_free_cb last_key [(bottom, blk)] key d = (ret, i)" using f l by (simp add: leaf_of_def Let_def)
  have val: "leaf_val ileaf_bytes (cont t [(bottom, blk)]) j = Some (ileaf_bytes l j)" if "max key bottom \<le> j" for j
    using that l leaf_val_first [of bottom j "[]" ileaf_bytes l] by (simp add: cont_def)
  show ?case unfolding v free_from_def using find_free_leaf [OF l(2) _ Nil.prems(4) f] val by auto
next
  case (Cons r rest)
  obtain k b where r: "r = (k, b)" by (cases r)
  obtain l where l: "t_vol t blk = Leaf l" "ileaf_fit ops bs epl bottom l" using Cons.prems(1) by (auto simp: leaves_fit_def cont_def)
  have k: "bottom < k" "key < k" "k < TUXKEY_LIMIT" using Cons.prems(2,3,5) by (auto simp: r)
  let ?m = "max key bottom" and ?C = "cont t ((bottom, blk) # r # rest)"
  have m: "?m < k" using k by simp
  obtain ret i where f: "find_free_cb bottom k l ?m (last_key - ?m) d = (ret, i)" by fastforce
  have v: "visit t find_free_cb last_key ((bottom, blk) # r # rest) key d =
      (if ret \<noteq> 0 \<or> last_key \<le> k then (ret, i) else visit t find_free_cb last_key (r # rest) ?m i)"
    using f l by (simp add: r leaf_of_def Let_def)
  have C: "?C = (bottom, Leaf l) # (k, t_vol t b) # cont t rest" using l by (simp add: cont_def r)
  have val: "leaf_val ileaf_bytes ?C j = (if j < k then Some (ileaf_bytes l j) else leaf_val ileaf_bytes (cont t (r # rest)) j)" if "?m \<le> j" for j
    using that k leaf_val_first [of bottom j "(k, t_vol t b) # cont t rest" ileaf_bytes l] leaf_val_rest [of bottom k j ileaf_bytes "Leaf l" "t_vol t b" "cont t rest"]
    unfolding C by (simp add: cont_def r)
  note F = find_free_leaf [OF l(2) max.cobounded2 Cons.prems(4) f]
  show ?case
  proof (cases "ret \<noteq> 0 \<or> last_key \<le> k")
    case True
    then show ?thesis unfolding v free_from_def using F val k(3) by auto
  next
    case False
    then have go: "ret = 0" "k < last_key" "\<not> last_key \<le> k" "i = d" and used: "\<forall>j. ?m \<le> j \<and> j < k \<longrightarrow> ileaf_bytes l j \<noteq> []" using F by auto
    have mk: "max ?m k = k" using m by simp
    have pre: "case rest of [] \<Rightarrow> ?m < TUXKEY_LIMIT | (k', _) # _ \<Rightarrow> ?m < k'"
    proof (cases rest)
      case Nil
      then show ?thesis using less_trans [OF m k(3)] by (simp only: list.case)
    next
      case (Cons q qs)
      then show ?thesis using Cons.prems(2) m by (cases q) (auto simp: r)
    qed
    have "free_from (cont t ((k, b) # rest)) (max ?m k) last_key d (visit t find_free_cb last_key ((k, b) # rest) ?m d)"
      by (rule Cons.IH) (use Cons.prems go pre m in \<open>auto simp: r leaves_fit_def cont_def\<close>)
    then have IH: "free_from (cont t (r # rest)) k last_key d (visit t find_free_cb last_key (r # rest) ?m d)" unfolding mk r .
    have "visit t find_free_cb last_key ((bottom, blk) # r # rest) key d = visit t find_free_cb last_key (r # rest) ?m d" unfolding v using go by (simp only: simp_thms if_False not_False_eq_True)
    then have "free_from (cont t (r # rest)) k last_key d (visit t find_free_cb last_key ((bottom, blk) # r # rest) key d)" using IH by simp
    then show ?thesis
    proof (rule free_from_extend)
      show "?m \<le> k" using m by (rule less_imp_le)
      show "leaf_val ileaf_bytes ?C j = leaf_val ileaf_bytes (cont t (r # rest)) j" if "k \<le> j" for j
        using val [OF order_trans [OF less_imp_le [OF m] that]] leD [OF that] by simp
      show "leaf_val ileaf_bytes ?C j \<noteq> Some []" if "?m \<le> j" "j < k" for j
        using val [OF that(1)] that used by simp
    qed
  qed
qed

text \<open>The number is free in the table.\<close>

definition inum_free :: "ileaf tree \<Rightarrow> u64 \<Rightarrow> bool" where
  "inum_free t k \<longleftrightarrow> tree_val ileaf_bytes t k = Some []"

text \<open>C6: \<open>find_free_inum\<close> returns the least free inode number from the goal on. When all numbers from the goal to the end are
  taken, a search with a goal above \<open>TUX_NORMAL_INO\<close> does not start again below the goal as it is meant to: it stops at the assertion of
  \<open>cursor_this_key\<close>, as the first traversal has left the cursor behind the last leaf. With a lower goal the result is \<open>ENOSPC\<close>.\<close>

theorem find_free_inum_exact:
  assumes "btree_ok (ileaf_sniff ops) t" and "leaves_fit (ileaf_fit ops bs epl) (cont t (tree_leaves t))" and "0 < goal" and "goal < TUXKEY_LIMIT"
    and "\<forall>b. \<not> t_readerr t b"
  shows "if \<exists>k \<ge> goal. k < TUXKEY_LIMIT \<and> inum_free t k
    then \<exists>k. find_free_inum (ileaf_sniff ops) t goal = Some (None, k) \<and> goal \<le> k \<and> k < TUXKEY_LIMIT \<and> inum_free t k \<and>
      (\<forall>j. goal \<le> j \<and> j < k \<longrightarrow> \<not> inum_free t j)
    else find_free_inum (ileaf_sniff ops) t goal = (if TUX_NORMAL_INO < goal then None else Some (Some ENOSPC, goal))"
proof -
  let ?last = "goal + TUXKEY_LIMIT" and ?sniff = "ileaf_sniff ops"
  have sum: "goal \<le> ?last" "TUXKEY_LIMIT < ?last" "?last - goal = TUXKEY_LIMIT"
    using assms(3,4) by (auto simp: TUXKEY_LIMIT_def word_le_nat_alt word_less_nat_alt unat_word_ariths)
  from probe_spec [OF assms(1,4)] assms(5) obtain p blk lo hi where
    pr: "btree_probe ?sniff t goal = Some (Inr (), (blk, 0) # p)" and sp: "spine t 0 p blk lo hi" and key: "lo \<le> goal" "goal < hi" by auto
  let ?L = "(lo, blk) # ahead t 0 p"
  have leaves: "tree_leaves t = behind t 0 p @ ?L" using spine_leaves [OF sp] by simp
  have sorted: "sorted_wrt (<) (map fst (behind t 0 p @ ?L))" and below: "\<forall>(k, x) \<in> set (behind t 0 p @ ?L). k < TUXKEY_LIMIT"
    using tree_sorted [OF assms(1)] unfolding leaves by (auto simp: keys_in_def)
  have hd: "case ahead t 0 p of [] \<Rightarrow> goal < TUXKEY_LIMIT | (k, _) # _ \<Rightarrow> goal < k" using ahead_hd [OF assms(1) sp] key assms(4) by auto
  have fits: "leaves_fit (ileaf_fit ops bs epl) (cont t ?L)" using assms(2) unfolding leaves by simp
  have mx: "max goal lo = goal" using key by simp
  have "free_from (cont t ?L) (max goal lo) ?last goal (visit t find_free_cb ?last ?L goal goal)"
    by (rule visit_find_free [OF fits]) (use sorted below hd sum key in \<open>auto simp: sorted_wrt_append\<close>)
  note ff = this [unfolded mx]
  have val: "inum_free t j \<longleftrightarrow> leaf_val ileaf_bytes (cont t ?L) j = Some []" if "goal \<le> j" for j
  proof -
    have c: "cont t ?L = (lo, t_vol t blk) # cont t (ahead t 0 p)" by (simp add: cont_def)
    have "\<forall>(a, x) \<in> set (cont t (behind t 0 p)). a \<le> lo" using sorted by (force simp: cont_def sorted_wrt_append)
    moreover have "\<not> j < lo" using order_trans [OF key(1) that] by (rule leD)
    ultimately have "at_key (cont t (behind t 0 p) @ cont t ?L) j = at_key (cont t ?L) j"
      unfolding c by (simp only: at_key_append if_False)
    then show ?thesis unfolding inum_free_def tree_val_leaf leaves by (simp add: leaf_val_def)
  qed
  have root: "has_root t" using assms(1) by (simp add: btree_ok_def has_root_def)
  from traverse_spec [OF assms(1) sp refl key(2) sum(1) disjI1 [OF key(1)], of find_free_cb 0 goal] assms(5) obtain w where
    w: "btree_traverse ?sniff t find_free_cb ((blk, 0) # p) goal TUXKEY_LIMIT goal = Some w"
      "w_path w = [] \<or> w_ret w \<noteq> Inr 0 \<or> (\<exists>k \<in> insert TUXKEY_LIMIT (fst ` set (ahead t 0 p)). ?last \<le> k)"
      "(w_ret w, w_data w) = map_prod Inr id (visit t find_free_cb ?last ?L goal goal)" unfolding sum(3) by auto
  have "k < ?last" if "k \<in> insert TUXKEY_LIMIT (fst ` set (ahead t 0 p))" for k
  proof -
    have "\<forall>x \<in> set (ahead t 0 p). fst x < TUXKEY_LIMIT" using below by (auto simp: case_prod_beta)
    then have "k \<le> TUXKEY_LIMIT" using that by (auto intro: less_imp_le)
    then show ?thesis using sum(2) by (rule le_less_trans)
  qed
  then have "\<not> (\<exists>k \<in> insert TUXKEY_LIMIT (fst ` set (ahead t 0 p)). ?last \<le> k)" by (auto dest: leD)
  with w(2) have path: "w_path w = [] \<or> w_ret w \<noteq> Inr 0" by blast
  obtain ret i where v: "visit t find_free_cb ?last ?L goal goal = (ret, i)" by fastforce
  then have wr: "w_ret w = Inr ret" "w_data w = i" using w(3) by simp_all
  have run: "find_free_inum ?sniff t goal =
      (if ret < 0 then None else if 0 < ret then Some (None, i)
       else if TUX_NORMAL_INO < goal
       then Option.bind (btree_traverse ?sniff t find_free_cb (w_path w) TUX_NORMAL_INO (goal - TUX_NORMAL_INO) i) (\<lambda>w.
              case w_ret w of Inl e \<Rightarrow> Some (Some e, w_data w)
              | Inr ret \<Rightarrow> if ret < 0 then None else if 0 < ret then Some (None, w_data w) else Some (Some ENOSPC, w_data w))
       else Some (Some ENOSPC, i))"
    unfolding find_free_inum_def using root pr w(1) wr by simp
  have lost: "btree_traverse ?sniff t find_free_cb [] TUX_NORMAL_INO (goal - TUX_NORMAL_INO) i = None"
    by (subst btree_traverse.simps) (simp add: traverse_step_def cursor_this_key_def)
  from ff [unfolded v free_from_def] consider
      "ret = 1" "goal \<le> i" "i < TUXKEY_LIMIT" "inum_free t i" "\<forall>j. goal \<le> j \<and> j < i \<longrightarrow> \<not> inum_free t j"
    | "ret = 0" "i = goal" "\<forall>j. goal \<le> j \<and> j < TUXKEY_LIMIT \<longrightarrow> \<not> inum_free t j"
    using val less_trans [OF _ sum(2)] by auto
  then show ?thesis
  proof cases
    case 1
    then show ?thesis using run by auto
  next
    case 2
    then show ?thesis using run path wr lost by auto
  qed
qed

lemma find_free_inum_exact_witness: "\<exists>k. find_free_inum (ileaf_sniff (iattr_ops 0)) (it_tree demo_table) 70 = Some (None, k) \<and> inum_free (it_tree demo_table) k"
proof -
  have i: "btree_ok (ileaf_sniff (iattr_ops 0)) (it_tree demo_table)"
    "leaves_fit (ileaf_fit (iattr_ops 0) 64 1) (cont (it_tree demo_table) (tree_leaves (it_tree demo_table)))"
    using demo_table_inv demo_root by (simp_all add: itable_inv_def tree_inv_def)
  have l: "(0 :: u64) < 70" "(70 :: u64) < TUXKEY_LIMIT" "\<forall>b. \<not> t_readerr (it_tree demo_table) b" by (simp_all add: TUXKEY_LIMIT_def demo_table_def)
  note F = find_free_inum_exact [OF i l]
  have "inum_free (it_tree demo_table) 70" unfolding inum_free_def by code_simp
  then have "\<exists>k \<ge> 70. k < TUXKEY_LIMIT \<and> inum_free (it_tree demo_table) k" using l(2) by blast
  then show ?thesis using F by auto
qed

section \<open>Leaves that do not start at a multiple of the split unit\<close>

text \<open>C5: an inode whose number is behind the last one of its leaf cannot be saved when the leaf is full and its first number is
  not reached by rounding the inode number down to a multiple of \<open>entries_per_leaf\<close>, whatever the space on the volume: \<open>ileaf_split_hint\<close> asks for a
  split below the leaf, and the assertion of \<open>btree_leaf_split\<close> on the new key fails.\<close>

theorem unaligned_leaf_stuck:
  assumes "itable_inv version bs epl st" and "has_root (it_tree st)" and "attrs_ok d" and "unat version < 4096" and "inum < TUXKEY_LIMIT"
    and "btree_probe (ileaf_sniff (iattr_ops version)) (it_tree st) inum = Some (Inr (), p)"
    and "cursor_leafbuf (it_tree st) p = Some blk" and "leaf_of (it_tree st) blk = Some l"
    and "ileaf_write (iattr_ops version) bs epl l (unat inum) 1 d = Some (Need_split h)"
    and "il_base l + icount l \<le> unat inum" and "unat inum - unat inum mod epl < il_base l"
  shows "fst (save_inode version bs epl inum d st) \<noteq> None"
proof -
  let ?ops = "ileaf_ops (iattr_ops version) bs epl" and ?r = "\<lparr>irq_start = inum, irq_len = 1, irq_data = d\<rparr>"
  have i: "tree_inv (op_sniff ?ops) (it_tree st) (in_use (it_sb st))" "vol_inv (it_sb st)"
    "leaves_fit (ileaf_fit (iattr_ops version) bs epl) (cont (it_tree st) (tree_leaves (it_tree st)))"
    using assms(1,2) by (simp_all add: itable_inv_def)
  have ok: "btree_ok (ileaf_sniff (iattr_ops version)) (it_tree st)" using i(1) by (simp add: tree_inv_def)
  have r: "ileaf_rok (\<lambda>d. attrs_ok d \<and> unat version < 4096) ?r" "0 < op_len ?ops ?r" using assms(3,4) by (simp_all add: ileaf_rok_def)
  obtain blk' outer lo hi l' where p: "p = (blk', 0) # outer" "spine (it_tree st) 0 outer blk' lo hi" "lo \<le> inum" "inum < hi" "t_vol (it_tree st) blk' = Leaf l'"
    "ileaf_sniff (iattr_ops version) l'" "ileaf_fit (iattr_ops version) bs epl lo l'" "tree_val ileaf_bytes (it_tree st) inum = Some (ileaf_bytes l' inum)"
    "cursor_leafbuf (it_tree st) p = Some blk'" "cursor_this_key (it_tree st) p = Some lo" "cursor_next_key (it_tree st) p = Some hi"
    by (rule probed_leaf [OF ok i(3) assms(5,6)])
  have l: "blk' = blk" "l' = l" using assms(7,8) p(5,9) by (auto simp: leaf_of_def)
  obtain segs where rep: "rep bs l segs" and base: "il_base l = unat lo" using p(7) by (auto simp: ileaf_fit_def l)
  have h: "h = unat inum - unat inum mod epl"
    using iattr.write_put [OF rep, of "unat inum" d version epl] assms(3,4,9,10) by (auto simp: ileaf_split_hint_def split: if_splits)
  have ask: "op_write ?ops lo hi l ?r = Some (Lw_split h, l, ?r)" using assms(9) by (simp add: ileaf_ops_def write_ileaf_def)
  have low: "case op_split ?ops h l (op_leaf0 ?ops) of None \<Rightarrow> True | Some (key, _, _) \<Rightarrow> \<not> lo < key"
  proof (cases "ileaf_split (iattr_ops version) epl h l (op_leaf0 ?ops)")
    case (Some x)
    obtain key l1 l2 where x: "x = (key, l1, l2)" by (cases x)
    have key: "key = h" using split_low_hint Some x assms(11) h by blast
    have hl: "h < unat lo" using assms(11) base h by simp
    have "unat lo < 2 ^ LENGTH(64)" by (rule unsigned_less)
    then have "unat (of_nat h :: u64) = h" using hl by (simp add: unat_of_nat take_bit_nat_eq_self)
    then have "\<not> lo < of_nat key" unfolding key word_less_nat_alt using hl by simp
    then show ?thesis using Some x by (simp add: ileaf_ops_def)
  qed (simp add: ileaf_ops_def)
  have "ws_err w \<noteq> None" if "btree_write balloc_one ?ops p ?r (it_tree st) (it_sb st) = Some w" for w
    by (rule itree.stuck_write [OF i r p(2) _ _ p(5) ask [folded l(2)] low [folded l(2)], of 0]) (use p(1,3,4) that in simp_all)
  then show ?thesis using assms(2,6) unfolding save_inode_def save_inode_rooted_def by (auto simp: Let_def split: option.splits)
qed

text \<open>The leaf of the numbers from 1 on has one inode and no space for a second one.\<close>

definition full_leaf :: ileaf where
  "full_leaf = \<lparr>il_magic = 0x90de, il_base = 1, il_dict = [24], il_table = iattr_encode 0 demo_inode @ replicate 24 0\<rparr>"

definition full_table :: itable where
  "full_table = demo_table\<lparr>it_tree := (it_tree demo_table)\<lparr>t_vol := (\<lambda>b. if b = 1 then Node (small_node [(0, 2), (1, 3)]) else
     if b = 3 then Leaf full_leaf else Leaf (ileaf_init (iattr_ops 0) 64 (replicate 48 0)))\<rparr>, it_defer := [2]\<rparr>"

lemma full_table_inv: "itable_inv 0 64 4 full_table"
proof -
  let ?l = "ileaf_init (iattr_ops 0) 64 (replicate 48 0)"
  have fit0: "ileaf_fit (iattr_ops 0) 64 4 0 ?l" using leaf0_fit(1) [of 4 64 "iattr_ops 0"] by (simp add: ileaf_hdr_def)
  have n: "length (iattr_encode 0 demo_inode) = 24" by code_simp
  have "rep 64 full_leaf [iattr_encode 0 demo_inode]" by (simp add: rep_def full_leaf_def n total_len_def ileaf_hdr_def)
  then have fit1: "ileaf_fit (iattr_ops 0) 64 4 1 full_leaf"
    by (auto simp: ileaf_fit_def ileaf_sniff_def iattr_ops_def TUXKEY_LIMIT_def full_leaf_def)
  have sniff: "ileaf_sniff (iattr_ops 0) ?l" "ileaf_sniff (iattr_ops 0) full_leaf" using fit0 fit1 by (simp_all add: ileaf_fit_def)
  have sb: "it_sb full_table = small_vol 15 1 5" by (simp add: full_table_def demo_table_def)
  have vol: "vol_inv (it_sb full_table)" using demo_tree_inv by (simp add: sb)
  have bl: "tree_blocks (it_tree full_table) = [1, 2, 3]" by (simp add: tree_blocks_def full_table_def demo_table_def small_node_def live_def)
  have "{1, 2, 3} \<subseteq> in_use (it_sb full_table)" unfolding sb by (simp add: in_use_def allocated_def small_vol_def mapsize_def bmap_def)
  moreover have "btree_ok (ileaf_sniff (iattr_ops 0)) (it_tree full_table)" using sniff
    by (simp add: btree_ok_def full_table_def demo_table_def small_node_def bnode_sniff_def node_ok_def live_def TUXKEY_LIMIT_def)
  ultimately have "tree_inv (ileaf_sniff (iattr_ops 0)) (it_tree full_table) (in_use (it_sb full_table))"
    by (simp add: tree_inv_def bl) (simp add: full_table_def demo_table_def)
  moreover have "cont (it_tree full_table) (tree_leaves (it_tree full_table)) = [(0, Leaf ?l), (1, Leaf full_leaf)]"
    by (simp add: cont_def tree_leaves_def full_table_def demo_table_def small_node_def live_def)
  ultimately show ?thesis using vol fit0 fit1 by (simp add: itable_inv_def tree_inv_def leaves_fit_def ileaf_hdr_def)
qed

lemma unaligned_leaf_stuck_witness: "fst (save_inode 0 64 4 2 demo_inode full_table) \<noteq> None \<and> 4 < freeblocks (it_sb full_table)"
proof -
  have root: "has_root (it_tree full_table)" by (simp add: has_root_def full_table_def demo_table_def)
  have pr: "btree_probe (ileaf_sniff (iattr_ops 0)) (it_tree full_table) 2 = Some (Inr (), [(3, 0), (1, 2)])" by code_simp
  have lb: "cursor_leafbuf (it_tree full_table) [(3, 0), (1, 2)] = Some 3" by code_simp
  have lf: "leaf_of (it_tree full_table) 3 = Some full_leaf" by (simp add: leaf_of_def full_table_def demo_table_def)
  have ask: "ileaf_write (iattr_ops 0) 64 4 full_leaf (unat (2 :: u64)) 1 demo_inode = Some (Need_split 0)" by code_simp
  have low: "(2 :: u64) < TUXKEY_LIMIT" by (simp add: TUXKEY_LIMIT_def)
  have "freeblocks (it_sb full_table) = 11" by code_simp
  then show ?thesis
    using unaligned_leaf_stuck [OF full_table_inv root demo_inode_ok demo_low(2) low pr lb lf ask] by (simp add: full_leaf_def icount_def)
qed

end
