(* ===== verification/Otree.thy ===== *)
theory Otree
  imports Itree
begin

text \<open>
  The orphan table \<open>sb->otree\<close>, \<open>src/kernel/orphan.c\<close>: a unify cycle writes the inode numbers of the list \<open>orphan_add\<close> to a tree with
  the leaves of theory \<open>Ileaf\<close>, one attribute without data for each. The table is created when it is needed first.
\<close>

section \<open>Operations\<close>

record otable =
  ot_tree :: "ileaf tree"
  ot_sb :: bsb
  ot_add :: "u64 list"   \<comment> \<open>\<open>orphan_add\<close>\<close>

text \<open>The loop takes an inode number from the list when it is in the table.\<close>

fun unify_orphan_loop :: "u32 \<Rightarrow> nat \<Rightarrow> nat \<Rightarrow> u64 list \<Rightarrow> ileaf tree \<Rightarrow> bsb \<Rightarrow> err \<times> otable" where
  "unify_orphan_loop version bs epl [] t sb = (None, \<lparr>ot_tree = t, ot_sb = sb, ot_add = []\<rparr>)"
| "unify_orphan_loop version bs epl (inum # inums) t sb =
     (let ops = ileaf_ops (oattr_ops version) bs epl; stop = (\<lambda>e t sb. (Some e, \<lparr>ot_tree = t, ot_sb = sb, ot_add = inum # inums\<rparr>)) in
      case btree_probe (op_sniff ops) t inum of
        None \<Rightarrow> stop ASSERT t sb
      | Some (Inl e, _) \<Rightarrow> stop e t sb
      | Some (Inr _, p) \<Rightarrow>
          (case btree_write balloc_one ops p \<lparr>irq_start = inum, irq_len = 1, irq_data = ()\<rparr> t sb of
             None \<Rightarrow> stop ASSERT t sb
           | Some w \<Rightarrow>
               (case ws_err w of
                  Some e \<Rightarrow> stop e (ws_tree w) (ws_sb w)
                | None \<Rightarrow> unify_orphan_loop version bs epl inums (ws_tree w) (ws_sb w))))"

definition tux3_unify_orphan_add :: "u32 \<Rightarrow> nat \<Rightarrow> nat \<Rightarrow> otable \<Rightarrow> err \<times> otable" where
  "tux3_unify_orphan_add version bs epl st =
     (if ot_add st = [] then (None, st)
      else if has_root (ot_tree st) then unify_orphan_loop version bs epl (ot_add st) (ot_tree st) (ot_sb st)
      else case alloc_empty_btree balloc_one None (op_leaf0 (ileaf_ops (oattr_ops version) bs epl)) (ot_tree st) (ot_sb st) of
             None \<Rightarrow> (Some ASSERT, st)
           | Some (Some e, t, sb) \<Rightarrow> (Some e, st\<lparr>ot_tree := t, ot_sb := sb\<rparr>)
           | Some (None, t, sb) \<Rightarrow> unify_orphan_loop version bs epl (ot_add st) t sb)"

section \<open>The table as a set\<close>

definition orphans_in :: "ileaf tree \<Rightarrow> u64 set" where
  "orphans_in t = (if has_root t then {k. k < TUXKEY_LIMIT \<and> (\<exists>b. tree_val ileaf_bytes t k = Some b \<and> b \<noteq> [])} else {})"

definition otable_inv :: "u32 \<Rightarrow> nat \<Rightarrow> nat \<Rightarrow> ileaf tree \<Rightarrow> bsb \<Rightarrow> bool" where
  "otable_inv version bs epl t sb \<longleftrightarrow> vol_inv sb \<and> tree_inv (ileaf_sniff (oattr_ops version)) t (in_use sb) \<and>
     leaves_fit (ileaf_fit (oattr_ops version) bs epl) (cont t (tree_leaves t))"

text \<open>Both ends of the loop: the list is split into what is in the table and what is left.\<close>

definition unified :: "u32 \<Rightarrow> nat \<Rightarrow> nat \<Rightarrow> u64 list \<Rightarrow> ileaf tree \<Rightarrow> bsb \<Rightarrow> err \<Rightarrow> otable \<Rightarrow> bool" where
  "unified version bs epl inums t sb e st' \<longleftrightarrow> vol_inv (ot_sb st') \<and>
     (has_root (ot_tree st') \<longrightarrow> tree_inv (ileaf_sniff (oattr_ops version)) (ot_tree st') (in_use (ot_sb st'))) \<and>
     (\<forall>b \<in> in_use sb. \<not> dirty_block t b \<longrightarrow> t_vol (ot_tree st') b = t_vol t b) \<and>
     (\<exists>taken. inums = taken @ ot_add st') \<and>
     (e = None \<longrightarrow> ot_add st' = [] \<and> orphans_in (ot_tree st') = orphans_in t \<union> set inums \<and>
        (inums \<noteq> [] \<longrightarrow> otable_inv version bs epl (ot_tree st') (ot_sb st')))"

lemma encode_orphan: "encode (oattr_ops version) d \<noteq> []"
  using oattr.encoded_length [of version d] oattr.encoded_not_empty [of version d] by auto

lemma unify_orphan_loop_spec:
  assumes "otable_inv version bs epl t sb" and "\<forall>k \<in> set inums. k < TUXKEY_LIMIT"
  shows "case unify_orphan_loop version bs epl inums t sb of (e, st') \<Rightarrow> unified version bs epl inums t sb e st' \<and>
    (e = None \<longrightarrow> cow t (ot_tree st') (in_use sb))"
  using assms
proof (induction inums arbitrary: t sb)
  case Nil
  then show ?case using cow_refl [of t "in_use sb"] by (simp add: unified_def otable_inv_def)
next
  case (Cons inum inums)
  let ?ops = "ileaf_ops (oattr_ops version) bs epl" and ?r = "\<lparr>irq_start = inum, irq_len = 1, irq_data = ()\<rparr>"
  have i: "tree_inv (op_sniff ?ops) t (in_use sb)" "vol_inv sb" "leaves_fit (ileaf_fit (oattr_ops version) bs epl) (cont t (tree_leaves t))"
    using Cons.prems(1) by (simp_all add: otable_inv_def)
  have inum: "op_start ?ops ?r < TUXKEY_LIMIT" using Cons.prems(2) by simp
  have r: "ileaf_rok (\<lambda>_. True) ?r" by (simp add: ileaf_rok_def)
  have stop: "unified version bs epl (inum # inums) t sb (Some e) \<lparr>ot_tree = t, ot_sb = sb, ot_add = inum # inums\<rparr>" for e
    using i by (simp add: unified_def)
  show ?case
  proof (cases "\<exists>u p. btree_probe (op_sniff ?ops) t inum = Some (Inr u, p)")
    case False
    then have "\<exists>e. unify_orphan_loop version bs epl (inum # inums) t sb = (Some e, \<lparr>ot_tree = t, ot_sb = sb, ot_add = inum # inums\<rparr>)"
      by (cases "btree_probe (op_sniff ?ops) t inum") (auto split: sum.splits)
    then obtain e where "unify_orphan_loop version bs epl (inum # inums) t sb = (Some e, \<lparr>ot_tree = t, ot_sb = sb, ot_add = inum # inums\<rparr>)" ..
    then show ?thesis using stop by simp
  next
    case True
    then obtain u p where pr: "btree_probe (op_sniff ?ops) t (op_start ?ops ?r) = Some (Inr u, p)" by auto
    from otree.probed_write [OF i r inum pr] obtain w where
      w: "btree_write balloc_one ?ops p ?r t sb = Some w" "vol_inv (ws_sb w)" "in_use sb \<subseteq> in_use (ws_sb w)"
        "tree_inv (op_sniff ?ops) (ws_tree w) (in_use (ws_sb w))" "clean_same t (ws_tree w) (in_use sb)"
        "ws_err w = None \<longrightarrow> leaves_fit (ileaf_fit (oattr_ops version) bs epl) (cont (ws_tree w) (tree_leaves (ws_tree w))) \<and> cow t (ws_tree w) (in_use sb) \<and>
         (\<forall>k < TUXKEY_LIMIT. tree_val ileaf_bytes (ws_tree w) k =
            (case ileaf_upd (oattr_ops version) ?r k of Some x \<Rightarrow> Some x | None \<Rightarrow> tree_val ileaf_bytes t k))"
      by (elim exE conjE) (rule that)
    show ?thesis
    proof (cases "ws_err w")
      case (Some e)
      have "unify_orphan_loop version bs epl (inum # inums) t sb = (Some e, \<lparr>ot_tree = ws_tree w, ot_sb = ws_sb w, ot_add = inum # inums\<rparr>)"
        using pr w(1) Some by simp
      then show ?thesis using w(2,4,5) by (simp add: unified_def clean_same_def)
    next
      case None
      have step: "unify_orphan_loop version bs epl (inum # inums) t sb = unify_orphan_loop version bs epl inums (ws_tree w) (ws_sb w)"
        using pr w(1) None by simp
      have n: "otable_inv version bs epl (ws_tree w) (ws_sb w)" "cow t (ws_tree w) (in_use sb)"
        using w(2,4,6) None by (simp_all add: otable_inv_def)
      have root: "has_root t" "has_root (ws_tree w)" using tree_inv_root [OF i(1)] tree_inv_root [OF w(4)] by simp_all
      have new: "orphans_in (ws_tree w) = insert inum (orphans_in t)"
        using w(6) None root inum encode_orphan by (auto simp: orphans_in_def ileaf_upd_def)
      obtain e st' where run: "unify_orphan_loop version bs epl inums (ws_tree w) (ws_sb w) = (e, st')" by fastforce
      have IH: "unified version bs epl inums (ws_tree w) (ws_sb w) e st'" "e = None \<longrightarrow> cow (ws_tree w) (ot_tree st') (in_use (ws_sb w))"
        using Cons.IH [OF n(1)] Cons.prems(2) run by auto
      have same: "\<forall>b \<in> in_use sb. \<not> dirty_block t b \<longrightarrow> t_vol (ot_tree st') b = t_vol t b"
        using IH(1) n(2) w(3) by (auto simp: unified_def cow_def dirty_block_def)
      have "e = None \<longrightarrow> cow t (ot_tree st') (in_use sb)" using IH(2) cow_trans [OF n(2) cow_mono [OF _ w(3)]] by blast
      moreover have "e = None \<longrightarrow> otable_inv version bs epl (ot_tree st') (ot_sb st')"
        using IH(1) n(1) run by (cases inums) (auto simp: unified_def)
      moreover have "\<exists>taken. inum # inums = taken @ ot_add st'" using IH(1) by (auto simp: unified_def intro: exI [of _ "inum # _"])
      ultimately show ?thesis unfolding step run using IH(1) same new by (simp add: unified_def)
    qed
  qed
qed



end
