(* ===== verification/Spec2Isabelle.thy ===== *)
theory Spec2Isabelle
  imports Endian Link Bitops Bitmap Balloc Stash Log Bnode Orphan Replay Logflush Ileaf Filemap Iattr Hole Dir Btreewrite Itree Otree
begin

text \<open>
  The core of the tux3 file system, \<open>src/kernel\<close>, in its userland build on an LP64 little endian host.

  \<^bold>\<open>The program.\<close> A volume holds a bitmap of its blocks, index trees (the inode table, the table of orphan inodes, one tree per
  file) and a log. A change in the frontend dirties buffers and adds records to log blocks in memory. A \<open>delta\<close> writes the dirty
  leaves and the log blocks to new places; index nodes and the bitmap stay in memory for several deltas, until a unify cycle
  writes them too. At mount, \<open>replay\<close> reads the log backwards along its chain and redoes the logged changes of index nodes and bitmap since the last
  unify mark. No block that the last delta can see is overwritten: a change goes to a new block (redirection) and the old one is freed later (deferred free).

  \<^bold>\<open>Theories and sources\<close>, in the order of the imports:
  \<^item> \<open>Prelude\<close>: machine types, error values, lemmas on lists and words. A C \<open>int\<close> result 0 or \<open>-e\<close> is \<open>None\<close> or \<open>Some e\<close>; a failed
    \<open>assert\<close> is the value \<open>ASSERT\<close>, or \<open>None\<close> in an option.
  \<^item> \<open>Endian\<close> (\<open>tux3.h\<close>): big endian codecs and the packed tree root. \<open>Link\<close> (\<open>link.h\<close>): the FIFO on single links. \<open>Bitops\<close> (\<open>libklib\<close>): word-wise bit search. \<open>Bitmap\<close> (\<open>utility.c\<close>): ranges of a bitmap.
  \<^item> \<open>Balloc\<close> (\<open>balloc.c\<close>): the block allocator over a volume of bitmap blocks whose reads and dirtying may fail. \<open>Stash\<close>
    (\<open>log.c\<close>, \<open>commit.c\<close>): pages of 64-bit values, and the deferred frees kept in them.
  \<^item> \<open>Log\<close>, \<open>Logflush\<close>, \<open>Replay\<close>, \<open>Orphan\<close> (\<open>log.c\<close>, \<open>replay.c\<close>, \<open>orphan.c\<close>): the twenty record writers over log blocks as bytes, the
    flush of the blocks to the volume with their reverse chain, the check and both stages of replay, the orphan lists.
  \<^item> \<open>Bnode\<close> (\<open>btree.c\<close>): index nodes as arrays of entries and the replay of their changes.
  \<^item> \<open>Btree\<close>, \<open>Btreemod\<close>, \<open>Btreeins\<close>, \<open>Btreewrite\<close> (\<open>btree.c\<close>): trees over a volume. \<open>tree\<close> is the volume (what each block holds, which
    blocks cannot be read or get no buffer, which are dirty), the root, and the effects on log and deferred frees. A \<open>cursor\<close> is the path of the C
    code, innermost level first, each level a block and the index \<open>next\<close>. \<open>Btree\<close> reads (probe, advance, traverse, read);
    \<open>Btreemod\<close> redirects; \<open>Btreeins\<close> inserts a leaf, splitting nodes up to a new root; \<open>Btreewrite\<close> writes through
    the leaf operations of the tree and creates and releases trees.
  \<^item> \<open>Ileaf\<close> (\<open>ileaf.c\<close>), \<open>Xcache\<close> (\<open>xattr.c\<close>), \<open>Iattr\<close> (\<open>iattr.c\<close>, \<open>kdev_t.h\<close>): inode leaves as a dictionary of offsets over bytes, and the encoding of
    inode attributes. \<open>Itree\<close> (\<open>inode.c\<close>, \<open>ileaf.c\<close>, \<open>orphan.c\<close>): the inode table and the orphan table, trees with these leaves.
  \<^item> \<open>Dleaf\<close>, \<open>Dleafmap\<close> (\<open>dleaf2.c\<close>): leaves of files as extents. \<open>Filemap\<close> (\<open>filemap.c\<close>): blocks for a write. \<open>Hole\<close> (\<open>filemap_hole.c\<close>):
    truncated parts that are still in the tree. \<open>Dir\<close> (\<open>dir.c\<close>): directory blocks as bytes.

  \<^bold>\<open>Interfaces.\<close> The locale \<open>block_alloc\<close> (\<open>Btreemod\<close>) is what the trees rely on in an allocator, interpreted on \<open>balloc\<close>;
  \<open>leaf_contract\<close> and \<open>tree_store\<close> (\<open>Btreewrite\<close>) are what they rely on in the leaves: a leaf stands for a map of keys, a
  write takes a part of the request over, a split divides the map. \<open>attr_encoder\<close> and \<open>attr_codec\<close> (\<open>Ileaf\<close>) are the attribute functions of the inode leaves,
  interpreted on \<open>iattr_ops\<close> and \<open>oattr_ops\<close> (\<open>Iattr\<close>), and through \<open>attr_encoder\<close> the inode leaves fulfil \<open>leaf_contract\<close> (\<open>Itree\<close>).
  \<open>seg_allocator\<close> (\<open>Dleaf\<close>) is what a write to an extent leaf relies on in the callback that gives it blocks, interpreted on \<open>seg_alloc\<close> (\<open>Filemap\<close>). \<open>codec\<close>
  (\<open>Endian\<close>), \<open>bit_table\<close> (\<open>Bitmap\<close>) and \<open>value_queue\<close> (\<open>Stash\<close>) are those of the byte codecs, of a table of bits and of a FIFO of values.

  \<^bold>\<open>What the lemmas show.\<close> \<open>Logflush\<close>: what a delta logged is what replay executes after a crash. \<open>Balloc\<close>: allocation and free change exactly
  the bits they should, the free count is exact, \<open>ENOSPC\<close> is true. \<open>Btree\<close>: well formed trees (\<open>btree_ok\<close>: the key ranges of the children divide the range of a
  node) are probed and traversed exactly. \<open>tree_inv\<close> adds that no block is in the tree twice and all are in use; redirection, insertion
  and writing keep it on every way out. \<open>cow\<close> says that no clean block changes and that a replaced block is freed exactly once.
  Writing is a refinement: the map \<open>tree_val\<close> of the tree is updated by the request. \<open>Itree\<close> carries this to \<open>save_inode\<close> and \<open>open_inode\<close>. The leaf theories show each
  operation as one on the map that the leaf stands for; \<open>Dir\<close> as one on a map from names.

  \<^bold>\<open>Termination and bounds.\<close> There is no fuel. Loops are recursive functions with measures, but for \<open>btree_traverse\<close> and \<open>btree_write\<close>,
  which are partial functions as their ends depend on the tree being well formed; for such trees it is proved that they return
  (\<open>btree_traverse_exact\<close>, \<open>btree_write_spec\<close>: each round of a write ends it or narrows the key range of the cursor). Block numbers
  and keys are 64-bit words; offsets inside of a block are naturals with the wrap-around of 16-bit fields written out.

  \<^bold>\<open>Not modelled.\<close> Locks, reference counts and waiting: the code is taken sequentially, as each operation runs under its lock.
  \<open>btree_chop\<close> over a tree (its parts on leaves and index nodes are there). Page cache and buffers (\<open>buffer.c\<close>, \<open>buffer_fork.c\<close>, \<open>buffer_writeback.c\<close>,
  \<open>mpage_modified.c\<close>, \<open>filemap_blocklib.c\<close>, the rest of \<open>filemap.c\<close>): they schedule and copy pages for the kernel and libc I/O. Threads and waits of
  the delta scheduler (\<open>commit.c\<close>, \<open>commit_flusher*.c\<close>, \<open>writeback*.c\<close>). VFS glue (\<open>namei.c\<close>, \<open>super.c\<close>, the rest of \<open>inode.c\<close>). Atoms of extended
  attributes. \<open>dleaf.c\<close>, the older leaf format, which \<open>dleaf2.c\<close> replaces in the build. The tools and the fuse front end, debug output, the vendored compressor
  and the experiments under \<open>devel\<close>.
\<close>

end
